(* ===== verification/Prelude.thy ===== *)
theory Prelude
  imports "HOL-Library.Word"
begin

text \<open>
  Shared vocabulary of the development: results that may be errors (every \<open>throw\<close>, failed
  \<open>assert\<close> and undefined behaviour of the C++ code is a value \<open>Inl e\<close>), the monadic
  loops over them, the radix of a digit vector and its value, and the generic facts on lists,
  words and little-endian values that the component theories use.
\<close>

named_theorems value_simps \<open>value of a digit vector after an operation\<close>
named_theorems digit_specs \<open>exact arithmetic meaning of the digit primitives\<close>
named_theorems length_simps \<open>lengths of digit vectors after an operation\<close>

section \<open>Results and loops\<close>

fun rbind :: "'e + 'a \<Rightarrow> ('a \<Rightarrow> 'e + 'b) \<Rightarrow> 'e + 'b" where
  "rbind (Inl e) f = Inl e"
| "rbind (Inr x) f = f x"

lemma rbind_cong [fundef_cong]:
  "m = m' \<Longrightarrow> (\<And>x. m' = Inr x \<Longrightarrow> f x = f' x) \<Longrightarrow> rbind m f = rbind m' f'"
  by (cases m') auto

lemma rbind_eq_Inr_iff [simp]: "rbind m f = Inr y \<longleftrightarrow> (\<exists>x. m = Inr x \<and> f x = Inr y)"
  by (cases m) auto

lemma rbind_assoc: "rbind (rbind m f) g = rbind m (\<lambda>x. rbind (f x) g)"
  by (cases m) auto

text \<open>
  Recursions and loops of which it is not clear that they end are \<open>partial_function\<close>s into
  \<open>option\<close>: \<open>None\<close> is a run that does not end, \<open>Some (Inl e)\<close> one that throws. \<open>obind\<close> sequences them.
\<close>

definition obind :: "('e + 'a) option \<Rightarrow> ('a \<Rightarrow> ('e + 'b) option) \<Rightarrow> ('e + 'b) option" where
  "obind m f = Option.bind m (\<lambda>r. case r of Inl e \<Rightarrow> Some (Inl e) | Inr x \<Rightarrow> f x)"

lemma obind_simps [simp]:
  "obind None f = None" "obind (Some (Inl e)) f = Some (Inl e)" "obind (Some (Inr x)) f = f x"
  by (simp_all add: obind_def)

lemma obind_mono [partial_function_mono]:
  assumes "mono_option B" "\<And>y. mono_option (\<lambda>f. C y f)"
  shows "mono_option (\<lambda>f. obind (B f) (\<lambda>y. C y f))"
  unfolding obind_def
proof (rule bind_mono[OF assms(1)])
  fix r
  show "mono_option (\<lambda>f. case r of Inl e \<Rightarrow> Some (Inl e) | Inr x \<Rightarrow> C x f)"
    using assms(2) by (cases r) (auto intro: option.const_mono)
qed

text \<open>A \<open>for\<close> loop whose body may throw.\<close>

fun mfold :: "('i \<Rightarrow> 's \<Rightarrow> 'e + 's) \<Rightarrow> 'i list \<Rightarrow> 's \<Rightarrow> 'e + 's" where
  "mfold f [] s = Inr s"
| "mfold f (i # is) s = rbind (f i s) (mfold f is)"

lemma rbind_Inr [simp]: "rbind m Inr = m"
  by (cases m) auto

lemma mfold_append: "mfold f (is @ js) s = rbind (mfold f is s) (mfold f js)"
proof (induction "is" arbitrary: s)
  case (Cons i "is")
  then show ?case by (cases "f i s") auto
qed simp

lemma mfold_upt_Suc: "mfold f [0..<Suc n] s = rbind (mfold f [0..<n] s) (f n)"
proof -
  have "mfold f [n] s' = f n s'" for s' by (cases "f n s'") auto
  then have "mfold f [n] = f n" by (rule ext)
  then show ?thesis by (simp add: mfold_append)
qed

lemma mfold_total:
  assumes "\<And>i s. i \<in> set is \<Longrightarrow> f i s = Inr (g i s)"
  shows "mfold f is s = Inr (fold g is s)"
  using assms by (induction "is" arbitrary: s) auto

lemma fold_upt_Suc: "fold f [0..<Suc n] s = f n (fold f [0..<n] s)"
  by simp

text \<open>An invariant of a counting loop.\<close>

lemma fold_upt_invariant:
  assumes "I 0 s" and "\<And>i t. i < n \<Longrightarrow> I i t \<Longrightarrow> I (Suc i) (f i t)"
  shows "I n (fold f [0..<n] s)"
  using assms(2)
proof (induction n)
  case 0
  then show ?case using assms(1) by simp
next
  case (Suc n)
  have "I n (fold f [0..<n] s)" using Suc.prems by (intro Suc.IH) auto
  then show ?case using Suc.prems[of n] by simp
qed

section \<open>Digits and digit vectors\<close>

text \<open>\<open>digit\<close> is \<open>uinteger\<close> of \<open>numtypes.h\<close> and \<open>uoverflow\<close> its double, both for the
  64-bit platform (\<open>__WORDSIZE == 64\<close>).\<close>

type_synonym digit = "64 word"
type_synonym uoverflow = "128 word"

definition radix :: nat where
  "radix = 2 ^ 64"

lemma radix_pos [simp]: "0 < radix" and radix_neq_0 [simp]: "radix \<noteq> 0"
  and radix_gt_1 [simp]: "1 < radix"
  by (simp_all add: radix_def)

lemma unat_digit_less [simp]: "unat (d :: digit) < radix"
  using unsigned_less[of d, where 'a = nat] by (simp add: radix_def)

lemma unat_digit_le: "unat (d :: digit) \<le> radix - 1"
  using unat_digit_less[of d] by linarith

text \<open>The number a little-endian digit vector stands for.\<close>

fun lval :: "digit list \<Rightarrow> nat" where
  "lval [] = 0"
| "lval (d # ds) = unat d + radix * lval ds"

lemma lval_append: "lval (xs @ ys) = lval xs + radix ^ length xs * lval ys"
  by (induction xs) (auto simp: algebra_simps)

lemma lval_replicate_0 [simp]: "lval (replicate n 0) = 0"
  by (induction n) auto

lemma lval_less: "lval xs < radix ^ length xs"
proof (induction xs)
  case Nil
  show ?case by simp
next
  case (Cons d ds)
  have "unat d + radix * lval ds < radix + radix * lval ds" by simp
  also have "\<dots> = radix * Suc (lval ds)" by simp
  also have "\<dots> \<le> radix * radix ^ length ds" using Cons by (intro mult_le_mono) auto
  finally show ?case by simp
qed

lemma lval_split:
  assumes "i < length xs"
  shows "lval xs = lval (take i xs) + radix ^ i * unat (xs ! i) + radix ^ Suc i * lval (drop (Suc i) xs)"
proof -
  have "lval xs = lval (take i xs @ xs ! i # drop (Suc i) xs)"
    using assms by (simp add: id_take_nth_drop[symmetric])
  also have "\<dots> = lval (take i xs) + radix ^ i * (unat (xs ! i) + radix * lval (drop (Suc i) xs))"
    using assms by (simp add: lval_append min_def)
  finally show ?thesis by (simp add: algebra_simps)
qed

lemma lval_update:
  assumes "i < length xs"
  shows "lval (xs[i := d]) + unat (xs ! i) * radix ^ i = lval xs + unat d * radix ^ i"
  using assms lval_split[of i "xs[i := d]"] lval_split[of i xs] by (simp add: algebra_simps)

lemma lval_take_Suc:
  "i < length xs \<Longrightarrow> lval (take (Suc i) xs) = lval (take i xs) + unat (xs ! i) * radix ^ i"
  by (simp add: take_Suc_conv_app_nth lval_append algebra_simps)

lemma lval_take_drop: "lval xs = lval (take n xs) + radix ^ min n (length xs) * lval (drop n xs)"
  by (metis append_take_drop_id length_take lval_append min.commute)

lemma lval_append_zeros [simp]: "lval (xs @ replicate n 0) = lval xs"
  by (simp add: lval_append)

lemma lval_snoc: "lval (xs @ [d]) = lval xs + radix ^ length xs * unat d"
  by (simp add: lval_append)

lemma lval_shift: "lval (replicate n 0 @ xs) = radix ^ n * lval xs"
  by (simp add: lval_append)

end
