(* ===== verification/Ring.thy ===== *)
theory Ring
  imports Prelude
begin

unbundle bit_operations_syntax

text \<open>
  The slot arithmetic that both circular queues rest on: a ticket (a value of the counters \<open>in\<close>
  and \<open>out\<close>) is mapped to the slot \<open>ticket & mask\<close>. The locale \<open>ring\<close> is what the queues need of
  it - tickets that share a slot are a multiple of the capacity apart - and the interpretation
  shows that masking with \<open>2 ^ k - 1\<close> provides it, for negative tickets too.
\<close>

definition slot :: "int \<Rightarrow> int \<Rightarrow> nat" where
  "slot msk t = nat (t AND msk)"

text \<open>The next power of two from \<open>m\<close> on: the loop \<open>while (mask < sz) mask *= 2\<close>.\<close>

function double_until :: "int \<Rightarrow> int \<Rightarrow> int" where
  "double_until sz m = (if 0 < m \<and> m < sz then double_until sz (2 * m) else m)"
  by pat_completeness auto
termination by (relation "measure (\<lambda>(sz, m). nat (sz - m))") auto

declare double_until.simps [simp del]

locale ring =
  fixes sl :: "int \<Rightarrow> nat" and n :: int
  assumes n_pos: "0 < n"
    and sl_less: "int (sl t) < n"
    and sl_eq: "sl s = sl t \<Longrightarrow> n dvd t - s"
begin

lemma window:
  assumes "sl s = sl t" "s \<le> t" "t < s + n"
  shows "s = t"
proof -
  have "t - s < n" "0 \<le> t - s" using assms by auto
  then show ?thesis using sl_eq[OF assms(1)] zdvd_imp_le[of n "t - s"] by (cases "s = t") auto
qed

lemma behind:
  assumes "sl s = sl t" "s < t"
  shows "s + n \<le> t"
  using zdvd_imp_le[OF sl_eq[OF assms(1)]] assms(2) by auto

lemma sl_in [simp]: "int (length xs) = n \<Longrightarrow> sl t < length xs"
  using sl_less[of t] by linarith

lemma put_other:
  assumes "s \<noteq> t" "\<bar>s - t\<bar> < n"
  shows "xs[sl s := v] ! sl t = xs ! sl t"
proof -
  have "sl s \<noteq> sl t"
    using assms window[of s t] window[of t s] by (cases "s \<le> t") force+
  then show ?thesis by simp
qed

end

lemma slot_mod: "slot (2 ^ k - 1) t = nat (t mod 2 ^ k)"
proof -
  have "(2 ^ k - 1 :: int) = mask k" by (simp add: mask_eq_exp_minus_1)
  then show ?thesis by (simp add: slot_def take_bit_eq_mask[symmetric] take_bit_eq_mod)
qed

interpretation pow2: ring "slot (2 ^ k - 1)" "2 ^ k" for k
proof
  show "(0::int) < 2 ^ k" by simp
  show "int (slot (2 ^ k - 1) t) < 2 ^ k" for t
    by (simp add: slot_mod)
  show "2 ^ k dvd t - s" if "slot (2 ^ k - 1) s = slot (2 ^ k - 1) t" for s t
  proof -
    have "s mod 2 ^ k = t mod 2 ^ k"
      using that by (simp add: slot_mod eq_nat_nat_iff)
    then show ?thesis by (metis mod_eq_dvd_iff)
  qed
qed

lemma slot_neq:
  assumes "m = 2 ^ k - 1" "i \<noteq> j" "i < j + 2 ^ k" "j < i + 2 ^ k"
  shows "slot m i \<noteq> slot m j"
proof
  assume "slot m i = slot m j"
  then show False
    using assms pow2.window[of k i j] pow2.window[of k j i] by (cases "i \<le> j") simp_all
qed

lemma double_until_pow2:
  "sz \<le> 2 ^ K \<Longrightarrow> k \<le> K \<Longrightarrow>
    \<exists>j. k \<le> j \<and> j \<le> K \<and> double_until sz (2 ^ k) = 2 ^ j \<and> sz \<le> 2 ^ j
      \<and> (j = k \<or> 2 ^ (j - 1) < sz)"
proof (induction "K - k" arbitrary: k)
  case 0
  then have "k = K" by simp
  then show ?case using 0 by (subst double_until.simps) (intro exI[of _ k], auto)
next
  case (Suc m)
  then have m: "m = K - Suc k" "Suc k \<le> K" by simp_all
  show ?case
  proof (cases "2 ^ k < sz")
    case True
    then have "double_until sz (2 ^ k) = double_until sz (2 ^ Suc k)"
      by (subst double_until.simps) simp
    moreover obtain j where "Suc k \<le> j" "j \<le> K" "double_until sz (2 ^ Suc k) = 2 ^ j" "sz \<le> 2 ^ j"
      "j = Suc k \<or> 2 ^ (j - 1) < sz"
      using Suc.hyps(1)[of "Suc k"] Suc.prems(1) m by auto
    ultimately show ?thesis using True by (intro exI[of _ j]) auto
  next
    case False
    then show ?thesis using Suc.prems by (subst double_until.simps) (intro exI[of _ k], auto)
  qed
qed

end
