(* ===== verification/NutshellQueue.thy ===== *)
theory NutshellQueue
  imports Ring
begin

text \<open>
  \<open>nutshell/queue.h\<close>: the minimal queue of non-zero \<open>int\<close>s. There is no array of free flags: a slot
  that holds 0 is free. As in the model of \<open>uniq::Queue\<close>, one step of a thread is one access of a
  shared variable, memory is sequentially consistent, and \<open>choice = False\<close> is a spurious failure of
  \<open>compare_exchange_weak\<close>. The counters start at 0 and no ticket is skipped; the calls return no
  ticket, so the tickets in the logs are ghost state only.
\<close>

section \<open>State and steps\<close>

record nqueue =
  nbuf :: "int list"
  nsize :: int
  nmask :: int
  nin :: int
  nout :: int

definition nq_new :: "int \<Rightarrow> nqueue" where
  "nq_new sz = \<lparr>nbuf = replicate (nat sz) 0, nsize = sz, nmask = sz - 1, nin = 0, nout = 0\<rparr>"

datatype npc =
    NIdle
  | NLoad int                \<comment> \<open>\<open>i = in\<close>\<close>
  | NFull int int            \<comment> \<open>\<open>while (i - out == size)\<close>\<close>
  | NSlot int int            \<comment> \<open>\<open>buffer[i & mask]\<close> in the condition\<close>
  | NCas int int             \<comment> \<open>\<open>in.compare_exchange_weak(i, i + 1)\<close>\<close>
  | NStore int int           \<comment> \<open>\<open>buffer[i & mask] = item\<close>\<close>
  | NPushed                  \<comment> \<open>end of \<open>push\<close>\<close>
  | MLoad                    \<comment> \<open>\<open>o = out\<close>\<close>
  | MEmpty int               \<comment> \<open>\<open>while (o == in)\<close>\<close>
  | MSlot int                \<comment> \<open>\<open>!buffer[o & mask]\<close>\<close>
  | MCas int                 \<comment> \<open>\<open>out.compare_exchange_weak(o, o + 1)\<close>\<close>
  | MTake int                \<comment> \<open>\<open>r = buffer[o &= mask]\<close>\<close>
  | MClear int int           \<comment> \<open>\<open>buffer[o] = 0\<close>\<close>
  | MPopped int              \<comment> \<open>\<open>return r\<close>\<close>

text \<open>\<open>None\<close>: no step of \<open>push\<close>, or one that overflows \<open>int\<close> and so is undefined.\<close>

fun npush_step :: "bool \<Rightarrow> npc \<Rightarrow> nqueue \<Rightarrow> (npc \<times> nqueue) option" where
  "npush_step ch (NLoad x) q = Some (NFull x (nin q), q)"
| "npush_step ch (NFull x i) q = Some (if i - nout q = nsize q then NFull x i else NSlot x i, q)"
| "npush_step ch (NSlot x i) q = Some (if nbuf q ! slot (nmask q) i \<noteq> 0 then NLoad x else NCas x i, q)"
| "npush_step ch (NCas x i) q = (if i \<ge> 2 ^ 31 - 1 then None
     else if ch \<and> nin q = i then Some (NStore x i, q\<lparr>nin := i + 1\<rparr>) else Some (NLoad x, q))"
| "npush_step ch (NStore x i) q = Some (NPushed, q\<lparr>nbuf := (nbuf q)[slot (nmask q) i := x]\<rparr>)"
| "npush_step ch _ q = None"

fun npop_step :: "bool \<Rightarrow> npc \<Rightarrow> nqueue \<Rightarrow> (npc \<times> nqueue) option" where
  "npop_step ch MLoad q = Some (MEmpty (nout q), q)"
| "npop_step ch (MEmpty t) q = Some (if t = nin q then MEmpty t else MSlot t, q)"
| "npop_step ch (MSlot t) q = Some (if nbuf q ! slot (nmask q) t = 0 then MLoad else MCas t, q)"
| "npop_step ch (MCas t) q = (if t \<ge> 2 ^ 31 - 1 then None
     else if ch \<and> nout q = t then Some (MTake t, q\<lparr>nout := t + 1\<rparr>) else Some (MLoad, q))"
| "npop_step ch (MTake t) q = Some (MClear t (nbuf q ! slot (nmask q) t), q)"
| "npop_step ch (MClear t r) q = Some (MPopped r, q\<lparr>nbuf := (nbuf q)[slot (nmask q) t := 0]\<rparr>)"
| "npop_step ch _ q = None"

record nsys =
  nq :: nqueue
  npcs :: "nat \<Rightarrow> npc"
  npushed :: "(int \<times> int) list"
  npopped :: "(int \<times> int) list"

inductive nstep :: "nsys \<Rightarrow> nsys \<Rightarrow> bool" where
  call_push: "npcs s th = NIdle \<Longrightarrow> x \<noteq> 0 \<Longrightarrow> nstep s (s\<lparr>npcs := (npcs s)(th := NLoad x)\<rparr>)"
| call_pop: "npcs s th = NIdle \<Longrightarrow> nstep s (s\<lparr>npcs := (npcs s)(th := MLoad)\<rparr>)"
| push: "npush_step ch (npcs s th) (nq s) = Some (p, q') \<Longrightarrow>
    nstep s (s\<lparr>nq := q', npcs := (npcs s)(th := p),
      npushed := npushed s @ (case npcs s th of NStore x i \<Rightarrow> [(i, x)] | _ \<Rightarrow> [])\<rparr>)"
| pop: "npop_step ch (npcs s th) (nq s) = Some (p, q') \<Longrightarrow>
    nstep s (s\<lparr>nq := q', npcs := (npcs s)(th := p),
      npopped := npopped s @ (case npcs s th of MClear t r \<Rightarrow> [(t, r)] | _ \<Rightarrow> [])\<rparr>)"
| return_push: "npcs s th = NPushed \<Longrightarrow> nstep s (s\<lparr>npcs := (npcs s)(th := NIdle)\<rparr>)"
| return_pop: "npcs s th = MPopped r \<Longrightarrow> nstep s (s\<lparr>npcs := (npcs s)(th := NIdle)\<rparr>)"

definition nstart :: "int \<Rightarrow> nsys" where
  "nstart sz = \<lparr>nq = nq_new sz, npcs = (\<lambda>_. NIdle), npushed = [], npopped = []\<rparr>"

inductive nreach :: "int \<Rightarrow> nsys \<Rightarrow> bool" for sz where
  init: "nreach sz (nstart sz)"
| step: "nreach sz s \<Longrightarrow> nstep s s' \<Longrightarrow> nreach sz s'"

inductive_cases nstepE: "nstep s s'"

section \<open>The invariant\<close>

definition n_ticket :: "npc \<Rightarrow> int option" where
  "n_ticket p = (case p of NStore x i \<Rightarrow> Some i | _ \<Rightarrow> None)"

definition m_ticket :: "npc \<Rightarrow> int option" where
  "m_ticket p = (case p of MTake t \<Rightarrow> Some t | MClear t r \<Rightarrow> Some t | _ \<Rightarrow> None)"

definition npc_inv :: "nqueue \<Rightarrow> (int \<times> int) list \<Rightarrow> (int \<times> int) list \<Rightarrow> npc \<Rightarrow> bool" where
  "npc_inv q pu po p = (let val = (\<lambda>t. nbuf q ! slot (nmask q) t) in case p of
     NLoad x \<Rightarrow> x \<noteq> 0
   | NFull x i \<Rightarrow> x \<noteq> 0 \<and> i \<le> nin q
   | NSlot x i \<Rightarrow> x \<noteq> 0 \<and> i \<le> nin q \<and> i < nout q + nsize q
   | NCas x i \<Rightarrow> x \<noteq> 0 \<and> i \<le> nin q \<and> i < nout q + nsize q \<and> (nin q = i \<longrightarrow> val i = 0)
   | NStore x i \<Rightarrow> x \<noteq> 0 \<and> nout q \<le> i \<and> i < nin q \<and> val i = 0
   | MEmpty t \<Rightarrow> t \<le> nout q
   | MSlot t \<Rightarrow> t \<le> nout q \<and> t < nin q
   | MCas t \<Rightarrow> t \<le> nout q \<and> t < nin q \<and> (nout q = t \<longrightarrow> t \<in> fst ` set pu)
   | MTake t \<Rightarrow> t < nout q \<and> nin q \<le> t + nsize q \<and> (t, val t) \<in> set pu \<and> t \<notin> fst ` set po
   | MClear t r \<Rightarrow> t < nout q \<and> nin q \<le> t + nsize q \<and> (t, r) \<in> set pu \<and> val t = r \<and> t \<notin> fst ` set po
   | _ \<Rightarrow> True)"

definition nq_inv :: "nat \<Rightarrow> nsys \<Rightarrow> bool" where
  "nq_inv k s \<longleftrightarrow> (let q = nq s; pu = npushed s; po = npopped s in
     nsize q = 2 ^ k \<and> nmask q = 2 ^ k - 1 \<and> length (nbuf q) = 2 ^ k
   \<and> nout q \<le> nin q \<and> nin q \<le> nout q + 2 ^ k
   \<and> distinct (map fst pu) \<and> distinct (map fst po) \<and> set po \<subseteq> set pu
   \<and> (\<forall>(t, x) \<in> set pu. t < nin q \<and> x \<noteq> 0 \<and> (nout q \<le> t \<longrightarrow> nbuf q ! slot (nmask q) t = x))
   \<and> (\<forall>(t, x) \<in> set po. t < nout q)
   \<and> (\<forall>j < length (nbuf q). nbuf q ! j \<noteq> 0 \<longrightarrow> (\<exists>(t, x) \<in> set pu. slot (nmask q) t = j
        \<and> (nout q \<le> t \<or> (\<exists>th. m_ticket (npcs s th) = Some t))))
   \<and> (\<forall>th th' t. n_ticket (npcs s th) = Some t \<and> n_ticket (npcs s th') = Some t \<longrightarrow> th = th')
   \<and> (\<forall>th th' t. m_ticket (npcs s th) = Some t \<and> m_ticket (npcs s th') = Some t \<longrightarrow> th = th')
   \<and> (\<forall>th. npc_inv q pu po (npcs s th)))"

lemma nq_invD:
  assumes "nq_inv k s"
  shows "nsize (nq s) = 2 ^ k" "nmask (nq s) = 2 ^ k - 1" "length (nbuf (nq s)) = 2 ^ k"
    "nout (nq s) \<le> nin (nq s)" "nin (nq s) \<le> nout (nq s) + 2 ^ k"
    "distinct (map fst (npushed s))" "distinct (map fst (npopped s))" "set (npopped s) \<subseteq> set (npushed s)"
    "(t, x) \<in> set (npushed s) \<Longrightarrow> t < nin (nq s) \<and> x \<noteq> 0"
    "(t, x) \<in> set (npushed s) \<Longrightarrow> nout (nq s) \<le> t \<Longrightarrow> nbuf (nq s) ! slot (nmask (nq s)) t = x"
    "(t, x) \<in> set (npopped s) \<Longrightarrow> t < nout (nq s)"
    "n_ticket (npcs s th) = Some t \<Longrightarrow> n_ticket (npcs s th') = Some t \<Longrightarrow> th = th'"
    "m_ticket (npcs s th) = Some t \<Longrightarrow> m_ticket (npcs s th') = Some t \<Longrightarrow> th = th'"
    "npc_inv (nq s) (npushed s) (npopped s) (npcs s th)"
proof -
  note * = assms[unfolded nq_inv_def Let_def]
  from * have "nsize (nq s) = 2 ^ k \<and> nmask (nq s) = 2 ^ k - 1 \<and> length (nbuf (nq s)) = 2 ^ k
    \<and> nout (nq s) \<le> nin (nq s) \<and> nin (nq s) \<le> nout (nq s) + 2 ^ k
    \<and> distinct (map fst (npushed s)) \<and> distinct (map fst (npopped s)) \<and> set (npopped s) \<subseteq> set (npushed s)"
    by (elim conjE, intro conjI)
  then show "nsize (nq s) = 2 ^ k" "nmask (nq s) = 2 ^ k - 1" "length (nbuf (nq s)) = 2 ^ k"
    "nout (nq s) \<le> nin (nq s)" "nin (nq s) \<le> nout (nq s) + 2 ^ k"
    "distinct (map fst (npushed s))" "distinct (map fst (npopped s))" "set (npopped s) \<subseteq> set (npushed s)"
    by blast+
  from * have pu: "\<forall>(t, x) \<in> set (npushed s). t < nin (nq s) \<and> x \<noteq> 0
      \<and> (nout (nq s) \<le> t \<longrightarrow> nbuf (nq s) ! slot (nmask (nq s)) t = x)" by (elim conjE)
  from * have po: "\<forall>(t, x) \<in> set (npopped s). t < nout (nq s)" by (elim conjE)
  show "(t, x) \<in> set (npushed s) \<Longrightarrow> t < nin (nq s) \<and> x \<noteq> 0"
    "(t, x) \<in> set (npushed s) \<Longrightarrow> nout (nq s) \<le> t \<Longrightarrow> nbuf (nq s) ! slot (nmask (nq s)) t = x"
    "(t, x) \<in> set (npopped s) \<Longrightarrow> t < nout (nq s)"
    using pu po by auto
  from * have n: "\<forall>th th' t. n_ticket (npcs s th) = Some t \<and> n_ticket (npcs s th') = Some t \<longrightarrow> th = th'"
    by (elim conjE)
  from * have m: "\<forall>th th' t. m_ticket (npcs s th) = Some t \<and> m_ticket (npcs s th') = Some t \<longrightarrow> th = th'"
    by (elim conjE)
  from * have i: "\<forall>th. npc_inv (nq s) (npushed s) (npopped s) (npcs s th)" by (elim conjE)
  show "n_ticket (npcs s th) = Some t \<Longrightarrow> n_ticket (npcs s th') = Some t \<Longrightarrow> th = th'"
    "m_ticket (npcs s th) = Some t \<Longrightarrow> m_ticket (npcs s th') = Some t \<Longrightarrow> th = th'"
    "npc_inv (nq s) (npushed s) (npopped s) (npcs s th)"
    using n m i by blast+
qed

lemma nq_occupiedE:
  assumes "nq_inv k s" "j < length (nbuf (nq s))" "nbuf (nq s) ! j \<noteq> 0"
  obtains t x where "(t, x) \<in> set (npushed s)" "slot (nmask (nq s)) t = j"
    "nout (nq s) \<le> t \<or> (\<exists>th. m_ticket (npcs s th) = Some t)"
proof -
  from assms(1)[unfolded nq_inv_def Let_def]
  have "\<forall>j < length (nbuf (nq s)). nbuf (nq s) ! j \<noteq> 0 \<longrightarrow> (\<exists>(t, x) \<in> set (npushed s).
      slot (nmask (nq s)) t = j \<and> (nout (nq s) \<le> t \<or> (\<exists>th. m_ticket (npcs s th) = Some t)))"
    by (elim conjE)
  then show thesis using assms(2,3) that by blast
qed

lemma nq_invI:
  assumes "nsize (nq s) = 2 ^ k" "nmask (nq s) = 2 ^ k - 1" "length (nbuf (nq s)) = 2 ^ k"
    "nout (nq s) \<le> nin (nq s)" "nin (nq s) \<le> nout (nq s) + 2 ^ k"
    "distinct (map fst (npushed s))" "distinct (map fst (npopped s))" "set (npopped s) \<subseteq> set (npushed s)"
    "\<And>t x. (t, x) \<in> set (npushed s) \<Longrightarrow> t < nin (nq s) \<and> x \<noteq> 0
      \<and> (nout (nq s) \<le> t \<longrightarrow> nbuf (nq s) ! slot (nmask (nq s)) t = x)"
    "\<And>t x. (t, x) \<in> set (npopped s) \<Longrightarrow> t < nout (nq s)"
    "\<And>j. j < length (nbuf (nq s)) \<Longrightarrow> nbuf (nq s) ! j \<noteq> 0 \<Longrightarrow> \<exists>t x. (t, x) \<in> set (npushed s)
      \<and> slot (nmask (nq s)) t = j \<and> (nout (nq s) \<le> t \<or> (\<exists>th. m_ticket (npcs s th) = Some t))"
    "\<And>th th' t. n_ticket (npcs s th) = Some t \<Longrightarrow> n_ticket (npcs s th') = Some t \<Longrightarrow> th = th'"
    "\<And>th th' t. m_ticket (npcs s th) = Some t \<Longrightarrow> m_ticket (npcs s th') = Some t \<Longrightarrow> th = th'"
    "\<And>th. npc_inv (nq s) (npushed s) (npopped s) (npcs s th)"
  shows "nq_inv k s"
  unfolding nq_inv_def Let_def using assms(1-8)
proof (intro conjI)
  show "\<forall>(t, x) \<in> set (npushed s). t < nin (nq s) \<and> x \<noteq> 0
      \<and> (nout (nq s) \<le> t \<longrightarrow> nbuf (nq s) ! slot (nmask (nq s)) t = x)"
    "\<forall>(t, x) \<in> set (npopped s). t < nout (nq s)" using assms(9,10) by blast+
  show "\<forall>j < length (nbuf (nq s)). nbuf (nq s) ! j \<noteq> 0 \<longrightarrow> (\<exists>(t, x) \<in> set (npushed s).
      slot (nmask (nq s)) t = j \<and> (nout (nq s) \<le> t \<or> (\<exists>th. m_ticket (npcs s th) = Some t)))"
    using assms(11) by blast
  show "\<forall>th th' t. n_ticket (npcs s th) = Some t \<and> n_ticket (npcs s th') = Some t \<longrightarrow> th = th'"
    using assms(12) by blast
  show "\<forall>th th' t. m_ticket (npcs s th) = Some t \<and> m_ticket (npcs s th') = Some t \<longrightarrow> th = th'"
    using assms(13) by blast
  show "\<forall>th. npc_inv (nq s) (npushed s) (npopped s) (npcs s th)" using assms(14) by blast
qed

lemma n_ticketD:
  assumes "nq_inv k s" "n_ticket (npcs s th) = Some i"
  shows "nout (nq s) \<le> i" "i < nin (nq s)" "nbuf (nq s) ! slot (nmask (nq s)) i = 0"
  using nq_invD(14)[OF assms(1), of th] assms(2)
  by (auto simp: npc_inv_def n_ticket_def Let_def split: npc.splits)

lemma m_ticketD:
  assumes "nq_inv k s" "m_ticket (npcs s th) = Some t"
  shows "t < nout (nq s)" "nin (nq s) \<le> t + 2 ^ k" "t \<notin> fst ` set (npopped s)"
    "(t, nbuf (nq s) ! slot (nmask (nq s)) t) \<in> set (npushed s)"
    "nbuf (nq s) ! slot (nmask (nq s)) t \<noteq> 0"
proof -
  show "t < nout (nq s)" "nin (nq s) \<le> t + 2 ^ k" "t \<notin> fst ` set (npopped s)"
    and *: "(t, nbuf (nq s) ! slot (nmask (nq s)) t) \<in> set (npushed s)"
    using nq_invD(14)[OF assms(1), of th] nq_invD(1)[OF assms(1)] assms(2)
    by (auto simp: npc_inv_def m_ticket_def Let_def split: npc.splits)
  show "nbuf (nq s) ! slot (nmask (nq s)) t \<noteq> 0" using nq_invD(9)[OF assms(1) *] by blast
qed

lemma nslot_len: "nq_inv k s \<Longrightarrow> slot (nmask (nq s)) t < length (nbuf (nq s))"
  using pow2.sl_less[of k t] nq_invD(2,3)[of k s] by (simp flip: of_nat_less_iff)

lemma nslot_apart:
  assumes "nq_inv k s" "th \<noteq> th'"
  shows "n_ticket (npcs s th) = Some i \<Longrightarrow> n_ticket (npcs s th') = Some j \<Longrightarrow>
      slot (nmask (nq s)) i \<noteq> slot (nmask (nq s)) j"
    and "m_ticket (npcs s th) = Some i \<Longrightarrow> m_ticket (npcs s th') = Some j \<Longrightarrow>
      slot (nmask (nq s)) i \<noteq> slot (nmask (nq s)) j \<and> i \<noteq> j"
    and "n_ticket (npcs s th) = Some i \<Longrightarrow> m_ticket (npcs s th') = Some j \<Longrightarrow>
      slot (nmask (nq s)) i \<noteq> slot (nmask (nq s)) j"
proof -
  note N = slot_neq[OF nq_invD(2)[OF assms(1)], of i j] and R = nq_invD(4,5)[OF assms(1)]
  show "slot (nmask (nq s)) i \<noteq> slot (nmask (nq s)) j"
    if "n_ticket (npcs s th) = Some i" "n_ticket (npcs s th') = Some j"
    using N n_ticketD[OF assms(1) that(1)] n_ticketD[OF assms(1) that(2)] R
      nq_invD(12)[OF assms(1), of th i th'] that assms(2) by fastforce
  show "slot (nmask (nq s)) i \<noteq> slot (nmask (nq s)) j \<and> i \<noteq> j"
    if "m_ticket (npcs s th) = Some i" "m_ticket (npcs s th') = Some j"
    using N m_ticketD[OF assms(1) that(1)] m_ticketD[OF assms(1) that(2)] R
      nq_invD(13)[OF assms(1), of th i th'] that assms(2) by fastforce
  show "slot (nmask (nq s)) i \<noteq> slot (nmask (nq s)) j"
    if "n_ticket (npcs s th) = Some i" "m_ticket (npcs s th') = Some j"
    using n_ticketD(3)[OF assms(1) that(1)] m_ticketD(5)[OF assms(1) that(2)] by metis
qed

text \<open>Stability of a thread's assertion under the steps of others.\<close>

lemma npc_inv_in:
  assumes "npc_inv q pu po p" "\<And>t. m_ticket p = Some t \<Longrightarrow> nin q < t + nsize q"
  shows "npc_inv (q\<lparr>nin := nin q + 1\<rparr>) pu po p"
  using assms by (cases p) (auto simp: npc_inv_def m_ticket_def Let_def)

lemma npc_inv_out:
  assumes "npc_inv q pu po p" "\<And>i. n_ticket p = Some i \<Longrightarrow> nout q < i"
  shows "npc_inv (q\<lparr>nout := nout q + 1\<rparr>) pu po p"
  using assms by (cases p) (auto simp: npc_inv_def n_ticket_def Let_def)

lemma npc_inv_store:
  assumes "npc_inv q pu po p"
    and "\<And>t. n_ticket p = Some t \<or> m_ticket p = Some t \<Longrightarrow> slot (nmask q) t \<noteq> slot (nmask q) i"
    and "nin q < nout q + nsize q \<Longrightarrow> slot (nmask q) (nin q) \<noteq> slot (nmask q) i"
  shows "npc_inv (q\<lparr>nbuf := (nbuf q)[slot (nmask q) i := x]\<rparr>) (pu @ [(i, x)]) po p"
  using assms by (cases p) (auto simp: npc_inv_def n_ticket_def m_ticket_def Let_def)

lemma npc_inv_clear:
  assumes "npc_inv q pu po p" "slot (nmask q) t < length (nbuf q)"
    and "\<And>t'. n_ticket p = Some t' \<Longrightarrow> slot (nmask q) t' \<noteq> slot (nmask q) t"
    and "\<And>t'. m_ticket p = Some t' \<Longrightarrow> slot (nmask q) t' \<noteq> slot (nmask q) t \<and> t' \<noteq> t"
  shows "npc_inv (q\<lparr>nbuf := (nbuf q)[slot (nmask q) t := 0]\<rparr>) pu (po @ [(t, x)]) p"
  using assms by (cases p) (auto simp: npc_inv_def n_ticket_def m_ticket_def Let_def nth_list_update)

section \<open>Every step keeps the invariant\<close>

lemma nq_inv_local:
  assumes inv: "nq_inv k s" and "n_ticket p = n_ticket (npcs s th)" "m_ticket p = m_ticket (npcs s th)"
    and "npc_inv (nq s) (npushed s) (npopped s) p"
  shows "nq_inv k (s\<lparr>npcs := (npcs s)(th := p)\<rparr>)"
proof -
  have nt: "n_ticket (if th' = th then p else npcs s th') = n_ticket (npcs s th')"
    and mt: "m_ticket (if th' = th then p else npcs s th') = m_ticket (npcs s th')" for th'
    using assms by auto
  note D = nq_invD[OF inv]
  show ?thesis
  proof (rule nq_invI, goal_cases)
    case (11 j)
    then show ?case using nq_occupiedE[OF inv, of j] by (simp add: mt) blast
  next
    case (12 th1 th2 t) then show ?case using D(12)[of th1 t th2] by (simp add: nt)
  next
    case (13 th1 th2 t) then show ?case using D(13)[of th1 t th2] by (simp add: mt)
  qed (use D assms(4) in \<open>simp_all\<close>)
qed

lemma nq_inv_take_in:
  assumes inv: "nq_inv k s" and pc: "npcs s th = NCas x (nin (nq s))"
  shows "nq_inv k (s\<lparr>nq := (nq s)\<lparr>nin := nin (nq s) + 1\<rparr>, npcs := (npcs s)(th := NStore x (nin (nq s)))\<rparr>)"
proof -
  let ?q = "nq s" and ?i = "nin (nq s)" and ?p = "NStore x (nin (nq s))"
  note D = nq_invD[OF inv]
  have P: "x \<noteq> 0" "?i < nout ?q + 2 ^ k" "nbuf ?q ! slot (nmask ?q) ?i = 0"
    using D(14)[of th] pc D(1) by (auto simp: npc_inv_def Let_def)
  have nt: "n_ticket (if th' = th then ?p else npcs s th') = (if th' = th then Some ?i else n_ticket (npcs s th'))"
    and mt: "m_ticket (if th' = th then ?p else npcs s th') = m_ticket (npcs s th')" for th'
    using pc by (auto simp: n_ticket_def m_ticket_def)
  have c: "?i < t + nsize ?q" if "m_ticket (npcs s th') = Some t" for th' t
  proof -
    have "slot (nmask ?q) ?i \<noteq> slot (nmask ?q) t" using P(3) m_ticketD(5)[OF inv that] by auto
    then have "?i \<noteq> t + 2 ^ k" using D(2) by (auto simp: slot_mod)
    then show ?thesis using m_ticketD(2)[OF inv that] D(1) by simp
  qed
  show ?thesis
  proof (rule nq_invI, goal_cases)
    case (9 t y) then show ?case using D(9,10)[of t y] by simp
  next
    case (11 j)
    then show ?case using nq_occupiedE[OF inv, of j] by (simp add: mt) blast
  next
    case (12 th1 th2 t)
    have "t' < ?i" if "n_ticket (npcs s th') = Some t'" for th' t' using n_ticketD(2)[OF inv that] .
    then show ?case using 12 D(12)[of th1 t th2] by (auto simp: nt split: if_splits)
  next
    case (13 th1 th2 t) then show ?case using D(13)[of th1 t th2] by (simp add: mt)
  next
    case (14 th')
    have "npc_inv (?q\<lparr>nin := ?i + 1\<rparr>) (npushed s) (npopped s) (npcs s th')"
      using npc_inv_in[OF D(14)[of th']] c by blast
    then show ?case using P D(4) by (auto simp: npc_inv_def Let_def)
  qed (use D P in \<open>simp_all\<close>)
qed

lemma nq_inv_take_out:
  assumes inv: "nq_inv k s" and pc: "npcs s th = MCas (nout (nq s))"
  shows "nq_inv k (s\<lparr>nq := (nq s)\<lparr>nout := nout (nq s) + 1\<rparr>, npcs := (npcs s)(th := MTake (nout (nq s)))\<rparr>)"
proof -
  let ?q = "nq s" and ?t = "nout (nq s)" and ?p = "MTake (nout (nq s))"
  note D = nq_invD[OF inv]
  obtain y where y: "(?t, y) \<in> set (npushed s)" and lt: "?t < nin ?q"
    using D(14)[of th] pc by (auto simp: npc_inv_def)
  have v: "nbuf ?q ! slot (nmask ?q) ?t = y" "y \<noteq> 0" using D(9,10)[OF y] by auto
  have nt: "n_ticket (if th' = th then ?p else npcs s th') = n_ticket (npcs s th')"
    and mt: "m_ticket (if th' = th then ?p else npcs s th') = (if th' = th then Some ?t else m_ticket (npcs s th'))" for th'
    using pc by (auto simp: n_ticket_def m_ticket_def)
  have later: "?t < i" if "n_ticket (npcs s th') = Some i" for th' i
    using n_ticketD[OF inv that] v by (cases "i = ?t") auto
  have fresh: "?t \<notin> fst ` set (npopped s)" using D(11) by fastforce
  show ?thesis
  proof (rule nq_invI, goal_cases)
    case (9 t z) then show ?case using D(9,10)[of t z] by simp
  next
    case (10 t z) then show ?case using D(11)[of t z] by simp
  next
    case (11 j)
    then have j: "j < length (nbuf ?q)" "nbuf ?q ! j \<noteq> 0" by simp_all
    obtain t z where t: "(t, z) \<in> set (npushed s)" "slot (nmask ?q) t = j"
      "?t \<le> t \<or> (\<exists>th. m_ticket (npcs s th) = Some t)" by (rule nq_occupiedE[OF inv j])
    have "?t + 1 \<le> t \<or> (\<exists>th'. m_ticket (if th' = th then ?p else npcs s th') = Some t)"
    proof (cases "t = ?t")
      case False
      have "th' \<noteq> th" if "m_ticket (npcs s th') = Some t" for th' using that pc by (auto simp: m_ticket_def)
      then show ?thesis using t(3) False by (auto simp: mt)
    qed (simp add: mt exI[of _ th])
    then show ?case using t by (intro exI[of _ t] exI[of _ z]) simp
  next
    case (12 th1 th2 t) then show ?case using D(12)[of th1 t th2] by (simp add: nt)
  next
    case (13 th1 th2 t)
    have "t' < ?t" if "m_ticket (npcs s th') = Some t'" for th' t' using m_ticketD(1)[OF inv that] .
    then show ?case using 13 D(13)[of th1 t th2] by (auto simp: mt split: if_splits)
  next
    case (14 th')
    have "npc_inv (?q\<lparr>nout := ?t + 1\<rparr>) (npushed s) (npopped s) (npcs s th')"
      using npc_inv_out[OF D(14)[of th']] later by blast
    then show ?case using y v fresh D(1,5) by (auto simp: npc_inv_def Let_def)
  qed (use D lt in \<open>simp_all\<close>)
qed

lemma nq_inv_store:
  assumes inv: "nq_inv k s" and pc: "npcs s th = NStore x i"
  shows "nq_inv k (s\<lparr>nq := (nq s)\<lparr>nbuf := (nbuf (nq s))[slot (nmask (nq s)) i := x]\<rparr>,
    npcs := (npcs s)(th := NPushed), npushed := npushed s @ [(i, x)]\<rparr>)"
proof -
  let ?q = "nq s" and ?p = "NPushed" and ?sl = "slot (nmask (nq s))"
  note D = nq_invD[OF inv] and len = nslot_len[OF inv, of i]
  have i: "n_ticket (npcs s th) = Some i" using pc by (simp add: n_ticket_def)
  note I = n_ticketD[OF inv i]
  have x: "x \<noteq> 0" using D(14)[of th] pc by (simp add: npc_inv_def Let_def)
  have nt: "n_ticket (if th' = th then ?p else npcs s th') = (if th' = th then None else n_ticket (npcs s th'))"
    and mt: "m_ticket (if th' = th then ?p else npcs s th') = m_ticket (npcs s th')" for th'
    using pc by (auto simp: n_ticket_def m_ticket_def)
  have new: "i \<notin> fst ` set (npushed s)"
  proof
    assume "i \<in> fst ` set (npushed s)"
    then obtain y where "(i, y) \<in> set (npushed s)" by auto
    then show False using D(9,10)[of i y] I by auto
  qed
  have apart: "?sl t \<noteq> ?sl i" if "(t, y) \<in> set (npushed s)" "nout ?q \<le> t" for t y
    using D(9,10)[OF that(1)] that(2) I(3) by auto
  have next_slot: "?sl (nin ?q) \<noteq> ?sl i" if "nin ?q < nout ?q + nsize ?q"
    using slot_neq[OF D(2), of "nin ?q" i] I that D(1) by simp
  show ?thesis
  proof (rule nq_invI, goal_cases)
    case (9 t y)
    then show ?case using D(9,10)[of t y] apart[of t y] I x len by auto
  next
    case (11 j)
    show ?case
    proof (cases "j = ?sl i")
      case True
      then show ?thesis using I(1) by (intro exI[of _ i] exI[of _ x]) simp
    next
      case False
      then have j: "j < length (nbuf ?q)" "nbuf ?q ! j \<noteq> 0" using 11 by simp_all
      obtain t z where "(t, z) \<in> set (npushed s)" "?sl t = j"
        "nout ?q \<le> t \<or> (\<exists>th. m_ticket (npcs s th) = Some t)" by (rule nq_occupiedE[OF inv j])
      then show ?thesis by (intro exI[of _ t] exI[of _ z]) (simp add: mt)
    qed
  next
    case (12 th1 th2 t) then show ?case using D(12)[of th1 t th2] by (simp add: nt split: if_splits)
  next
    case (13 th1 th2 t) then show ?case using D(13)[of th1 t th2] by (simp add: mt)
  next
    case (14 th')
    show ?case
    proof (cases "th' = th")
      case False
      have "?sl t \<noteq> ?sl i" if "n_ticket (npcs s th') = Some t \<or> m_ticket (npcs s th') = Some t" for t
        using that nslot_apart(1)[OF inv False _ i] nslot_apart(3)[OF inv False[symmetric] i] by metis
      then show ?thesis using npc_inv_store[OF D(14)[of th'] _ next_slot] False by simp
    qed (simp add: npc_inv_def)
  qed (use D new in \<open>auto\<close>)
qed

lemma nq_inv_clear:
  assumes inv: "nq_inv k s" and pc: "npcs s th = MClear t x"
  shows "nq_inv k (s\<lparr>nq := (nq s)\<lparr>nbuf := (nbuf (nq s))[slot (nmask (nq s)) t := 0]\<rparr>,
    npcs := (npcs s)(th := MPopped x), npopped := npopped s @ [(t, x)]\<rparr>)"
proof -
  let ?q = "nq s" and ?p = "MPopped x" and ?sl = "slot (nmask (nq s))"
  note D = nq_invD[OF inv] and len = nslot_len[OF inv, of t]
  have t: "m_ticket (npcs s th) = Some t" using pc by (simp add: m_ticket_def)
  note T = m_ticketD[OF inv t]
  have tx: "(t, x) \<in> set (npushed s)" using D(14)[of th] pc by (simp add: npc_inv_def Let_def)
  have nt: "n_ticket (if th' = th then ?p else npcs s th') = n_ticket (npcs s th')"
    and mt: "m_ticket (if th' = th then ?p else npcs s th') = (if th' = th then None else m_ticket (npcs s th'))" for th'
    using pc by (auto simp: n_ticket_def m_ticket_def)
  have ahead: "?sl j \<noteq> ?sl t" if "nout ?q \<le> j" "j < nin ?q" for j
    using slot_neq[OF D(2), of j t] T that by simp
  show ?thesis
  proof (rule nq_invI, goal_cases)
    case (9 j y)
    then show ?case using D(9,10)[of j y] ahead[of j] by auto
  next
    case (11 j)
    then have ne: "j \<noteq> ?sl t" using len by auto
    then have j: "j < length (nbuf ?q)" "nbuf ?q ! j \<noteq> 0" using 11 by simp_all
    obtain u z where u: "(u, z) \<in> set (npushed s)" "?sl u = j"
      "nout ?q \<le> u \<or> (\<exists>th. m_ticket (npcs s th) = Some u)" by (rule nq_occupiedE[OF inv j])
    then have "th' \<noteq> th" if "m_ticket (npcs s th') = Some u" for th' using t ne that by auto
    then have "nout ?q \<le> u \<or> (\<exists>th'. m_ticket (if th' = th then ?p else npcs s th') = Some u)"
      using u(3) by (auto simp: mt)
    then show ?case using u by (intro exI[of _ u] exI[of _ z]) simp
  next
    case (12 th1 th2 t) then show ?case using D(12)[of th1 t th2] by (simp add: nt)
  next
    case (13 th1 th2 t) then show ?case using D(13)[of th1 t th2] by (simp add: mt split: if_splits)
  next
    case (14 th')
    show ?case
    proof (cases "th' = th")
      case False
      then show ?thesis
        using npc_inv_clear[OF D(14)[of th'] len] nslot_apart(2)[OF inv False _ t]
          nslot_apart(3)[OF inv False _ t] by simp
    qed (simp add: npc_inv_def)
  qed (use D T tx in \<open>auto\<close>)
qed

lemma nonzero_is_published:
  assumes inv: "nq_inv k s" and t: "nout (nq s) = t" "t < nin (nq s)"
    and occ: "nbuf (nq s) ! slot (nmask (nq s)) t \<noteq> 0"
  shows "t \<in> fst ` set (npushed s)"
proof -
  obtain j y where j: "(j, y) \<in> set (npushed s)" "slot (nmask (nq s)) j = slot (nmask (nq s)) t"
    "nout (nq s) \<le> j \<or> (\<exists>th. m_ticket (npcs s th) = Some j)"
    by (rule nq_occupiedE[OF inv nslot_len[OF inv] occ])
  have "j < t + 2 ^ k \<and> t < j + 2 ^ k"
    using j(3) t nq_invD(5)[OF inv] nq_invD(9)[OF inv j(1)] m_ticketD(1,2)[OF inv, of _ j] by force
  then have "j = t" using slot_neq[OF nq_invD(2)[OF inv], of j t] j(2) by blast
  then show ?thesis using j(1) by (auto intro: rev_image_eqI)
qed

lemmas nq_local_simps = n_ticket_def m_ticket_def npc_inv_def Let_def

lemma nq_inv_push_step:
  assumes inv: "nq_inv k s" and step: "npush_step ch (npcs s th) (nq s) = Some (p, q')"
  shows "nq_inv k (s\<lparr>nq := q', npcs := (npcs s)(th := p),
      npushed := npushed s @ (case npcs s th of NStore x i \<Rightarrow> [(i, x)] | _ \<Rightarrow> [])\<rparr>)"
proof -
  note T = nq_invD(14)[OF inv, of th] and R = nq_invD(1-5)[OF inv]
  have local: ?thesis if "q' = nq s" "n_ticket p = n_ticket (npcs s th)" "m_ticket p = m_ticket (npcs s th)"
    "npc_inv (nq s) (npushed s) (npopped s) p" "(case npcs s th of NStore x i \<Rightarrow> [(i, x)] | _ \<Rightarrow> []) = []"
    using nq_inv_local[OF inv, of p th] that by simp
  show ?thesis
  proof (cases "npcs s th")
    case (NLoad x)
    then show ?thesis using step T by (intro local) (auto simp: nq_local_simps)
  next
    case (NFull x i)
    then show ?thesis using step T R by (intro local) (auto simp: nq_local_simps)
  next
    case (NSlot x i)
    then show ?thesis using step T by (intro local) (auto simp: nq_local_simps split: if_splits)
  next
    case (NCas x i)
    then show ?thesis using step T nq_inv_local[OF inv, of p th] nq_inv_take_in[OF inv, of th x]
      by (auto simp: nq_local_simps split: if_splits)
  next
    case (NStore x i)
    then show ?thesis using step nq_inv_store[OF inv NStore] by auto
  qed (use step in auto)
qed

lemma nq_inv_pop_step:
  assumes inv: "nq_inv k s" and step: "npop_step ch (npcs s th) (nq s) = Some (p, q')"
  shows "nq_inv k (s\<lparr>nq := q', npcs := (npcs s)(th := p),
      npopped := npopped s @ (case npcs s th of MClear t r \<Rightarrow> [(t, r)] | _ \<Rightarrow> [])\<rparr>)"
proof -
  note T = nq_invD(14)[OF inv, of th] and R = nq_invD(1-5)[OF inv]
  have local: ?thesis if "q' = nq s" "n_ticket p = n_ticket (npcs s th)" "m_ticket p = m_ticket (npcs s th)"
    "npc_inv (nq s) (npushed s) (npopped s) p" "(case npcs s th of MClear t r \<Rightarrow> [(t, r)] | _ \<Rightarrow> []) = []"
    using nq_inv_local[OF inv, of p th] that by simp
  show ?thesis
  proof (cases "npcs s th")
    case MLoad
    then show ?thesis using step T by (intro local) (auto simp: nq_local_simps)
  next
    case (MEmpty t)
    then show ?thesis using step T R by (intro local) (auto simp: nq_local_simps)
  next
    case (MSlot t)
    then show ?thesis using step T nonzero_is_published[OF inv, of t]
      by (intro local) (auto simp: nq_local_simps split: if_splits)
  next
    case (MCas t)
    then show ?thesis using step T nq_inv_local[OF inv, of p th] nq_inv_take_out[OF inv, of th]
      by (auto simp: nq_local_simps split: if_splits)
  next
    case (MTake t)
    then show ?thesis using step T by (intro local) (auto simp: nq_local_simps)
  next
    case (MClear t x)
    then show ?thesis using step nq_inv_clear[OF inv MClear] by auto
  qed (use step in auto)
qed

lemma nq_inv_step: "nstep s s' \<Longrightarrow> nq_inv k s \<Longrightarrow> nq_inv k s'"
proof (induction rule: nstep.induct)
  case (call_push s th x)
  then show ?case by (intro nq_inv_local) (auto simp: nq_local_simps)
next
  case (call_pop s th)
  then show ?case by (intro nq_inv_local) (auto simp: nq_local_simps)
next
  case (push ch s th p q')
  then show ?case using nq_inv_push_step by blast
next
  case (pop ch s th p q')
  then show ?case using nq_inv_pop_step by blast
next
  case (return_push s th)
  then show ?case by (intro nq_inv_local) (auto simp: nq_local_simps)
next
  case (return_pop s th r)
  then show ?case by (intro nq_inv_local) (auto simp: nq_local_simps)
qed

lemma nq_inv_reach:
  assumes "nreach (2 ^ k) s"
  shows "nq_inv k s"
  using assms
proof (induction rule: nreach.induct)
  case init
  show ?case by (auto simp: nq_inv_def nstart_def nq_new_def nq_local_simps nat_power_eq)
next
  case (step s s')
  then show ?case using nq_inv_step by blast
qed

section \<open>Concrete runs\<close>

datatype naction = NCallPush nat int | NCallPop nat | NRun nat bool | NReturn nat

fun nexec :: "naction \<Rightarrow> nsys \<Rightarrow> nsys option" where
  "nexec (NCallPush th x) s =
     (if npcs s th = NIdle \<and> x \<noteq> 0 then Some (s\<lparr>npcs := (npcs s)(th := NLoad x)\<rparr>) else None)"
| "nexec (NCallPop th) s =
     (if npcs s th = NIdle then Some (s\<lparr>npcs := (npcs s)(th := MLoad)\<rparr>) else None)"
| "nexec (NRun th ch) s = (case npush_step ch (npcs s th) (nq s) of
       Some (p, q') \<Rightarrow> Some (s\<lparr>nq := q', npcs := (npcs s)(th := p),
         npushed := npushed s @ (case npcs s th of NStore x i \<Rightarrow> [(i, x)] | _ \<Rightarrow> [])\<rparr>)
     | None \<Rightarrow> (case npop_step ch (npcs s th) (nq s) of
         Some (p, q') \<Rightarrow> Some (s\<lparr>nq := q', npcs := (npcs s)(th := p),
           npopped := npopped s @ (case npcs s th of MClear t r \<Rightarrow> [(t, r)] | _ \<Rightarrow> [])\<rparr>)
       | None \<Rightarrow> None))"
| "nexec (NReturn th) s = (case npcs s th of
       NPushed \<Rightarrow> Some (s\<lparr>npcs := (npcs s)(th := NIdle)\<rparr>)
     | MPopped r \<Rightarrow> Some (s\<lparr>npcs := (npcs s)(th := NIdle)\<rparr>)
     | _ \<Rightarrow> None)"

lemma nexec_nstep: "nexec a s = Some s' \<Longrightarrow> nstep s s'"
proof (cases a)
  case (NRun th ch)
  assume "nexec a s = Some s'"
  then show ?thesis using NRun nstep.push[of ch s th] nstep.pop[of ch s th]
    by (auto split: option.splits)
next
  case (NReturn th)
  assume "nexec a s = Some s'"
  then show ?thesis using NReturn nstep.return_push[of s th] nstep.return_pop[of s th]
    by (auto split: npc.splits)
qed (auto split: if_splits intro: nstep.intros)

fun nexec_all :: "naction list \<Rightarrow> nsys \<Rightarrow> nsys option" where
  "nexec_all [] s = Some s"
| "nexec_all (a # as) s = (case nexec a s of None \<Rightarrow> None | Some s' \<Rightarrow> nexec_all as s')"

lemma nexec_all_reach: "nexec_all as s = Some s' \<Longrightarrow> nreach sz s \<Longrightarrow> nreach sz s'"
  by (induction as arbitrary: s) (auto split: option.splits dest: nexec_nstep intro: nreach.step)

lemma ndemo_reach: "\<exists>s. nreach 2 s \<and> npushed s = [(0, 7), (1, 8)] \<and> npopped s = [(0, 7)]"
proof -
  let ?as = "NCallPush 0 7 # replicate 5 (NRun 0 True) @ NCallPush 1 8 # replicate 5 (NRun 1 True) @
     NCallPop 2 # replicate 6 (NRun 2 True)"
  have "map_option (\<lambda>s. (npushed s, npopped s)) (nexec_all ?as (nstart 2)) = Some ([(0, 7), (1, 8)], [(0, 7)])"
    by code_simp
  then show ?thesis using nexec_all_reach[OF _ nreach.init, of ?as 2] by auto
qed

section \<open>Properties\<close>

text \<open>C5: for every capacity that is a power of two, whatever the interleaving, no item of the
  minimal queue is popped twice or invented, and the items written and not yet cleared never
  outnumber the slots.\<close>

theorem nutshell_each_item_once:
  assumes "nreach (2 ^ k) s"
  shows "distinct (map fst (npushed s)) \<and> distinct (map fst (npopped s))
    \<and> set (npopped s) \<subseteq> set (npushed s)
    \<and> card (set (npushed s) - set (npopped s) - {(t, x). t < nout (nq s)}) \<le> 2 ^ k"
proof -
  note inv = nq_inv_reach[OF assms]
  note D = nq_invD[OF inv]
  let ?D = "set (npushed s) - set (npopped s) - {(t, x). t < nout (nq s)}"
  have "inj_on fst ?D" using D(6) by (auto simp: distinct_map intro: inj_on_subset)
  then have "card ?D = card (fst ` ?D)" by (simp add: card_image)
  also have "\<dots> \<le> card {nout (nq s)..<nout (nq s) + 2 ^ k}"
  proof (rule card_mono)
    show "fst ` ?D \<subseteq> {nout (nq s)..<nout (nq s) + 2 ^ k}" using D(5,9) by fastforce
  qed simp
  also have "\<dots> = 2 ^ k" by (simp add: nat_power_eq)
  finally show ?thesis using D(6-8) by blast
qed

lemma nutshell_each_item_once_witness:
  "\<exists>s. nreach 2 s \<and> npushed s = [(0, 7), (1, 8)] \<and> npopped s = [(0, 7)] \<and> set (npopped s) \<subseteq> set (npushed s)"
proof -
  obtain s where "nreach 2 s" "npushed s = [(0, 7), (1, 8)]" "npopped s = [(0, 7)]" using ndemo_reach by blast
  then show ?thesis using nutshell_each_item_once[of 1 s] by (intro exI[of _ s]) simp
qed

end
