(* ===== verification/UniqQueue.thy ===== *)
theory UniqQueue
  imports Ring
begin

text \<open>
  \<open>cpp/lib/queue.h\<close>: the lock-free multi-producer multi-consumer queue \<open>uniq::Queue\<close>, over the
  \<open>Actor\<close> flag \<open>running\<close> of \<open>cpp/lib/Actor.h\<close>. Every thread is a program counter with the local
  variables that are live there, and \<open>thread_step\<close> runs it to its next access of a shared variable:
  one read, write or compare-exchange per step, so that threads interleave at every access. Memory
  is sequentially consistent. A spurious failure of \<open>compare_exchange_weak\<close> is the value \<open>False\<close> of
  the step's \<open>choice\<close>. The virtual hooks \<open>onfull\<close> and \<open>onempty\<close> are empty in this class.
\<close>

section \<open>State\<close>

definition int_max :: int where
  "int_max = 2 ^ 31 - 1"

record 'a queue =
  buffer :: "'a list"
  isfree :: "bool list"
  qin :: int
  qout :: int
  qmask :: int
  running :: bool

text \<open>
  The constructor, with the value \<open>T(0)\<close> as a parameter; doubling \<open>mask\<close> past \<open>2 ^ 30\<close> overflows
  \<open>int\<close>, which is undefined.
\<close>

definition queue_new :: "int \<Rightarrow> 'a \<Rightarrow> 'a queue option" where
  "queue_new sz zero = (if sz > 2 ^ 30 then None else
     let n = double_until sz 1 in
     Some \<lparr>buffer = replicate (nat n) zero, isfree = replicate (nat n) True,
           qin = -1, qout = -1, qmask = n - 1, running = True\<rparr>)"

text \<open>
  Where a thread is in \<open>push(item, wait)\<close> (constructors \<open>P\<dots>\<close>) or \<open>pop(item, wait)\<close> (\<open>O\<dots>\<close>). The
  flag \<open>inwait\<close> tells the evaluation of the condition inside \<open>WAIT\<close> from the one in the \<open>if\<close>.
\<close>

datatype 'a pc =
    Idle
  | PLoad (wait: bool) (item: 'a)                              \<comment> \<open>\<open>i = in\<close>\<close>
  | PFullIn bool 'a (tkt: int) (inwait: bool)                    \<comment> \<open>\<open>full\<close>: \<open>i = in\<close> when \<open>i < 0\<close>\<close>
  | PFullOut bool 'a int int bool                              \<comment> \<open>\<open>full\<close>: \<open>(i - out) > mask\<close>\<close>
  | PRunning bool 'a int bool                                  \<comment> \<open>\<open>running()\<close>\<close>
  | PIsFree bool 'a int                                        \<comment> \<open>\<open>!isfree[i & mask]\<close>\<close>
  | PCas bool 'a int                                           \<comment> \<open>\<open>in.compare_exchange_weak(i, i + 1)\<close>\<close>
  | PStore 'a int                                              \<comment> \<open>\<open>buffer[i & mask] = item\<close>\<close>
  | PClear 'a int                                              \<comment> \<open>\<open>isfree[i & mask] = 0\<close>\<close>
  | PRet int                                                   \<comment> \<open>\<open>return i\<close> or \<open>return 0\<close>\<close>
  | OLoad bool                                                 \<comment> \<open>\<open>o = out\<close>\<close>
  | OSkip bool                                                 \<comment> \<open>\<open>out.compare_exchange_weak(o, 1)\<close>\<close>
  | OEmptyOut bool int bool                                    \<comment> \<open>\<open>empty\<close>: \<open>o = out\<close> when \<open>o < 0\<close>\<close>
  | OEmptyIn bool int int bool                                 \<comment> \<open>\<open>empty\<close>: \<open>o == in\<close>\<close>
  | ORunning bool int bool                                     \<comment> \<open>\<open>running()\<close>\<close>
  | OIsFree bool int                                           \<comment> \<open>\<open>isfree[o & mask]\<close>\<close>
  | OCas bool int                                              \<comment> \<open>\<open>out.compare_exchange_weak(o, o + 1)\<close>\<close>
  | OTake int                                                  \<comment> \<open>\<open>item = buffer[o & mask]\<close>\<close>
  | OFree int 'a                                               \<comment> \<open>\<open>isfree[o & mask] = 1\<close>\<close>
  | ORet int "'a option"                                       \<comment> \<open>\<open>return o\<close> with the item, or \<open>return 0\<close>\<close>

section \<open>The steps of a thread\<close>

definition enter_full :: "bool \<Rightarrow> 'a \<Rightarrow> int \<Rightarrow> bool \<Rightarrow> 'a pc" where
  "enter_full w x i ph = (if i < 0 then PFullIn w x i ph else PFullOut w x i i ph)"

definition enter_empty :: "bool \<Rightarrow> int \<Rightarrow> bool \<Rightarrow> 'a pc" where
  "enter_empty w t ph = (if t < 0 then OEmptyOut w t ph else OEmptyIn w t t ph)"

text \<open>A step of \<open>push\<close>; \<open>None\<close> is a step the standard leaves undefined (overflow of \<open>int\<close>).\<close>

fun push_step :: "bool \<Rightarrow> 'a pc \<Rightarrow> 'a queue \<Rightarrow> ('a pc \<times> 'a queue) option" where
  "push_step ch (PLoad w x) q = Some (enter_full w x (qin q) False, q)"
| "push_step ch (PFullIn w x i ph) q = Some (PFullOut w x i (qin q) ph, q)"
| "push_step ch (PFullOut w x i j ph) q =
     (if j - qout q > int_max then None
      else if j - qout q > qmask q then
        Some (if \<not> ph \<and> \<not> w then PRet 0 else PRunning w x i ph, q)
      else Some (if ph then PIsFree w x i else PRunning w x i ph, q))"
| "push_step ch (PRunning w x i ph) q =
     (if running q then Some (enter_full w x i True, q)
      else Some (if ph then PIsFree w x i else PRet 0, q))"
| "push_step ch (PIsFree w x i) q =
     Some (if isfree q ! slot (qmask q) i then PCas w x i else PLoad w x, q)"
| "push_step ch (PCas w x i) q =
     (if i \<ge> int_max then None
      else if ch \<and> qin q = i then
        Some (if i = 0 then PLoad w x else PStore x i, q\<lparr>qin := i + 1\<rparr>)
      else Some (PLoad w x, q))"
| "push_step ch (PStore x i) q =
     Some (PClear x i, q\<lparr>buffer := (buffer q)[slot (qmask q) i := x]\<rparr>)"
| "push_step ch (PClear x i) q =
     Some (PRet i, q\<lparr>isfree := (isfree q)[slot (qmask q) i := False]\<rparr>)"
| "push_step ch _ q = None"

text \<open>
  A step of \<open>pop\<close>. In the first \<open>PRunning\<close>/\<open>ORunning\<close> the \<open>if\<close> has not returned yet, in the second
  the loop of \<open>WAIT\<close> goes round or ends.
\<close>

fun pop_step :: "bool \<Rightarrow> 'a pc \<Rightarrow> 'a queue \<Rightarrow> ('a pc \<times> 'a queue) option" where
  "pop_step ch (OLoad w) q =
     Some (if qout q = 0 then OSkip w else enter_empty w (qout q) False, q)"
| "pop_step ch (OSkip w) q =
     (if ch \<and> qout q = 0 then Some (enter_empty w 0 False, q\<lparr>qout := 1\<rparr>)
      else Some (OLoad w, q))"
| "pop_step ch (OEmptyOut w t ph) q = Some (OEmptyIn w t (qout q) ph, q)"
| "pop_step ch (OEmptyIn w t p ph) q =
     (if p = qin q then Some (if \<not> ph \<and> \<not> w then ORet 0 None else ORunning w t ph, q)
      else Some (if ph then OIsFree w t else ORunning w t ph, q))"
| "pop_step ch (ORunning w t ph) q =
     (if running q then Some (enter_empty w t True, q)
      else Some (if ph then OIsFree w t else ORet 0 None, q))"
| "pop_step ch (OIsFree w t) q =
     Some (if isfree q ! slot (qmask q) t then OLoad w else OCas w t, q)"
| "pop_step ch (OCas w t) q =
     (if t \<ge> int_max then None
      else if ch \<and> qout q = t then Some (OTake t, q\<lparr>qout := t + 1\<rparr>)
      else Some (OLoad w, q))"
| "pop_step ch (OTake t) q = Some (OFree t (buffer q ! slot (qmask q) t), q)"
| "pop_step ch (OFree t x) q =
     Some (ORet t (Some x), q\<lparr>isfree := (isfree q)[slot (qmask q) t := True]\<rparr>)"
| "pop_step ch _ q = None"

definition thread_step :: "bool \<Rightarrow> 'a pc \<Rightarrow> 'a queue \<Rightarrow> ('a pc \<times> 'a queue) option" where
  "thread_step ch p q = (case push_step ch p q of Some r \<Rightarrow> Some r | None \<Rightarrow> pop_step ch p q)"

section \<open>The whole system\<close>

text \<open>
  Any number of threads, each running calls one after the other. The two logs are ghost state:
  \<open>pushed\<close> gets the ticket and the item when the slot is published, \<open>popped\<close> when it is released.
\<close>

record 'a system =
  shared :: "'a queue"
  pcs :: "nat \<Rightarrow> 'a pc"
  pushed :: "(int \<times> 'a) list"
  popped :: "(int \<times> 'a) list"

datatype 'a action =
    CallPush nat 'a bool | CallPop nat bool | Run nat bool | Return nat | Stop

definition log_push :: "'a pc \<Rightarrow> (int \<times> 'a) list" where
  "log_push p = (case p of PClear x i \<Rightarrow> [(i, x)] | _ \<Rightarrow> [])"

definition log_pop :: "'a pc \<Rightarrow> (int \<times> 'a) list" where
  "log_pop p = (case p of OFree t x \<Rightarrow> [(t, x)] | _ \<Rightarrow> [])"

fun exec :: "'a action \<Rightarrow> 'a system \<Rightarrow> 'a system option" where
  "exec (CallPush th x w) s =
     (if pcs s th = Idle then Some (s\<lparr>pcs := (pcs s)(th := PLoad w x)\<rparr>) else None)"
| "exec (CallPop th w) s =
     (if pcs s th = Idle then Some (s\<lparr>pcs := (pcs s)(th := OLoad w)\<rparr>) else None)"
| "exec (Run th ch) s = (case thread_step ch (pcs s th) (shared s) of None \<Rightarrow> None
     | Some (p, q') \<Rightarrow> Some (s\<lparr>shared := q', pcs := (pcs s)(th := p),
         pushed := pushed s @ log_push (pcs s th), popped := popped s @ log_pop (pcs s th)\<rparr>))"
| "exec (Return th) s = (case pcs s th of
       PRet i \<Rightarrow> Some (s\<lparr>pcs := (pcs s)(th := Idle)\<rparr>)
     | ORet t r \<Rightarrow> Some (s\<lparr>pcs := (pcs s)(th := Idle)\<rparr>)
     | _ \<Rightarrow> None)"
| "exec Stop s = Some (s\<lparr>shared := (shared s)\<lparr>running := False\<rparr>\<rparr>)"

definition start :: "'a queue \<Rightarrow> 'a system" where
  "start q0 = \<lparr>shared = q0, pcs = (\<lambda>_. Idle), pushed = [], popped = []\<rparr>"

inductive reach :: "'a queue \<Rightarrow> 'a system \<Rightarrow> bool" for q0 where
  init: "reach q0 (start q0)"
| step: "reach q0 s \<Longrightarrow> exec a s = Some s' \<Longrightarrow> reach q0 s'"

text \<open>A schedule, run from left to right.\<close>

fun exec_all :: "'a action list \<Rightarrow> 'a system \<Rightarrow> 'a system option" where
  "exec_all [] s = Some s"
| "exec_all (a # as) s = (case exec a s of None \<Rightarrow> None | Some s' \<Rightarrow> exec_all as s')"

lemma exec_all_reach: "exec_all as s = Some s' \<Longrightarrow> reach q0 s \<Longrightarrow> reach q0 s'"
  by (induction as arbitrary: s) (auto split: option.splits intro: reach.step)

lemma exec_all_append:
  "exec_all (as @ bs) s = (case exec_all as s of None \<Rightarrow> None | Some s' \<Rightarrow> exec_all bs s')"
  by (induction as arbitrary: s) (auto split: option.splits)

section \<open>The invariant\<close>

text \<open>
  The ticket a thread holds: it has advanced \<open>in\<close> (\<open>p_ticket\<close>) or \<open>out\<close> (\<open>c_ticket\<close>) and has not
  yet published or released the slot.
\<close>

definition p_ticket :: "'a pc \<Rightarrow> int option" where
  "p_ticket p = (case p of PStore x i \<Rightarrow> Some i | PClear x i \<Rightarrow> Some i | _ \<Rightarrow> None)"

definition c_ticket :: "'a pc \<Rightarrow> int option" where
  "c_ticket p = (case p of OTake t \<Rightarrow> Some t | OFree t x \<Rightarrow> Some t | _ \<Rightarrow> None)"

text \<open>What a thread may rely on at each point, whatever the others do.\<close>

definition thread_inv :: "'a queue \<Rightarrow> (int \<times> 'a) list \<Rightarrow> (int \<times> 'a) list \<Rightarrow> 'a pc \<Rightarrow> bool" where
  "thread_inv q pu po p = (let n = qmask q + 1; sl = slot (qmask q) in case p of
     PFullIn w x i ph \<Rightarrow> -1 \<le> i \<and> i \<le> qin q
   | PFullOut w x i j ph \<Rightarrow> -1 \<le> i \<and> i \<le> j \<and> j \<le> qin q
   | PRunning w x i ph \<Rightarrow> -1 \<le> i \<and> i \<le> qin q
   | PIsFree w x i \<Rightarrow> -1 \<le> i \<and> i \<le> qin q \<and> i < qout q + n
   | PCas w x i \<Rightarrow> -1 \<le> i \<and> i \<le> qin q \<and> i < qout q + n \<and> (qin q = i \<longrightarrow> isfree q ! sl i)
   | PStore x i \<Rightarrow> qout q \<le> i \<and> i < qin q \<and> i \<noteq> 0 \<and> isfree q ! sl i
   | PClear x i \<Rightarrow> qout q \<le> i \<and> i < qin q \<and> i \<noteq> 0 \<and> isfree q ! sl i \<and> buffer q ! sl i = x
   | OEmptyOut w t ph \<Rightarrow> -1 \<le> t \<and> t \<le> qout q \<and> t < 0
   | OEmptyIn w t p ph \<Rightarrow> -1 \<le> t \<and> t \<le> p \<and> p \<le> qout q \<and> (0 \<le> t \<longrightarrow> p = t) \<and> (t = 0 \<longrightarrow> 1 \<le> qout q)
   | ORunning w t ph \<Rightarrow> -1 \<le> t \<and> t \<le> qout q \<and> (t = 0 \<longrightarrow> 1 \<le> qout q)
   | OIsFree w t \<Rightarrow> -1 \<le> t \<and> t \<le> qout q \<and> (t = 0 \<longrightarrow> 1 \<le> qout q)
       \<and> (qout q = t \<longrightarrow> t < qin q \<or> t = 1)
   | OCas w t \<Rightarrow> -1 \<le> t \<and> t \<le> qout q \<and> (qout q = t \<longrightarrow> t \<in> fst ` set pu)
   | OTake t \<Rightarrow> t < qout q \<and> qin q \<le> t + n \<and> \<not> isfree q ! sl t
       \<and> (t, buffer q ! sl t) \<in> set pu \<and> t \<notin> fst ` set po
   | OFree t x \<Rightarrow> t < qout q \<and> qin q \<le> t + n \<and> \<not> isfree q ! sl t
       \<and> (t, x) \<in> set pu \<and> t \<notin> fst ` set po
   | _ \<Rightarrow> True)"

definition shape_inv :: "nat \<Rightarrow> 'a queue \<Rightarrow> bool" where
  "shape_inv k q \<longleftrightarrow> 2 \<le> k \<and> qmask q = 2 ^ k - 1
     \<and> length (buffer q) = 2 ^ k \<and> length (isfree q) = 2 ^ k
     \<and> -1 \<le> qin q \<and> -1 \<le> qout q \<and> qin q - qout q \<le> 2 ^ k
     \<and> (qout q \<le> qin q \<or> qin q = 0 \<and> qout q = 1)"

definition log_inv :: "'a queue \<Rightarrow> (int \<times> 'a) list \<Rightarrow> (int \<times> 'a) list \<Rightarrow> bool" where
  "log_inv q pu po \<longleftrightarrow> distinct (map fst pu) \<and> distinct (map fst po) \<and> set po \<subseteq> set pu
     \<and> (\<forall>(t, x) \<in> set pu. -1 \<le> t \<and> t < qin q \<and> t \<noteq> 0)
     \<and> (\<forall>(t, x) \<in> set pu. qout q \<le> t \<longrightarrow>
          \<not> isfree q ! slot (qmask q) t \<and> buffer q ! slot (qmask q) t = x)
     \<and> (\<forall>(t, x) \<in> set po. t < qout q)"

definition occupied_inv :: "'a system \<Rightarrow> bool" where
  "occupied_inv s \<longleftrightarrow> (\<forall>j < length (isfree (shared s)). \<not> isfree (shared s) ! j \<longrightarrow>
     (\<exists>t \<in> fst ` set (pushed s). slot (qmask (shared s)) t = j
        \<and> (qout (shared s) \<le> t \<or> (\<exists>th. c_ticket (pcs s th) = Some t))))"

definition tickets_inv :: "'a system \<Rightarrow> bool" where
  "tickets_inv s \<longleftrightarrow>
     (\<forall>th th' t. p_ticket (pcs s th) = Some t \<and> p_ticket (pcs s th') = Some t \<longrightarrow> th = th')
   \<and> (\<forall>th th' t. c_ticket (pcs s th) = Some t \<and> c_ticket (pcs s th') = Some t \<longrightarrow> th = th')
   \<and> (\<forall>t. -1 \<le> t \<and> t < qin (shared s) \<and> t \<noteq> 0 \<longrightarrow>
        t \<in> fst ` set (pushed s) \<or> (\<exists>th. p_ticket (pcs s th) = Some t))
   \<and> (\<forall>(t, x) \<in> set (pushed s). t < qout (shared s) \<longrightarrow>
        (t, x) \<in> set (popped s) \<or> (\<exists>th. c_ticket (pcs s th) = Some t))"

definition queue_inv :: "nat \<Rightarrow> 'a system \<Rightarrow> bool" where
  "queue_inv k s \<longleftrightarrow> shape_inv k (shared s) \<and> log_inv (shared s) (pushed s) (popped s) \<and> occupied_inv s
     \<and> tickets_inv s \<and> (\<forall>th. thread_inv (shared s) (pushed s) (popped s) (pcs s th))"

lemmas tickets = p_ticket_def c_ticket_def

text \<open>The shared part of the invariant, read off for the thread's own proof.\<close>

lemma thread_inv_in:
  assumes "thread_inv q pu po p" and "\<And>t. c_ticket p = Some t \<Longrightarrow> qin q < t + qmask q + 1"
  shows "thread_inv (q\<lparr>qin := qin q + 1\<rparr>) pu po p"
  using assms by (cases p) (auto simp: thread_inv_def tickets Let_def)

lemma thread_inv_out:
  assumes "thread_inv q pu po p" "qout q < t" and "\<And>i. p_ticket p = Some i \<Longrightarrow> t \<le> i"
  shows "thread_inv (q\<lparr>qout := t\<rparr>) pu po p"
  using assms by (cases p) (auto simp: thread_inv_def tickets Let_def)

lemma thread_inv_store:
  assumes "thread_inv q pu po p"
    and "\<And>t. p_ticket p = Some t \<or> c_ticket p = Some t \<Longrightarrow> slot (qmask q) t \<noteq> slot (qmask q) i"
  shows "thread_inv (q\<lparr>buffer := (buffer q)[slot (qmask q) i := x]\<rparr>) pu po p"
  using assms by (cases p) (auto simp: thread_inv_def tickets Let_def)

lemma thread_inv_clear:
  assumes "thread_inv q pu po p"
    and "\<And>t. p_ticket p = Some t \<Longrightarrow> slot (qmask q) t \<noteq> slot (qmask q) i"
    and "qin q < qout q + qmask q + 1 \<Longrightarrow> slot (qmask q) (qin q) \<noteq> slot (qmask q) i"
    and "length (isfree q) > slot (qmask q) i"
  shows "thread_inv (q\<lparr>isfree := (isfree q)[slot (qmask q) i := False]\<rparr>) (pu @ [(i, x)]) po p"
  using assms by (cases p) (auto simp: thread_inv_def tickets Let_def nth_list_update)

lemma thread_inv_free:
  assumes "thread_inv q pu po p"
    and "\<And>t'. c_ticket p = Some t' \<Longrightarrow> slot (qmask q) t' \<noteq> slot (qmask q) t \<and> t' \<noteq> t"
    and "length (isfree q) > slot (qmask q) t"
  shows "thread_inv (q\<lparr>isfree := (isfree q)[slot (qmask q) t := True]\<rparr>) pu (po @ [(t, x)]) p"
  using assms by (cases p) (auto simp: thread_inv_def tickets Let_def nth_list_update)

text \<open>A step that changes neither the shared variables nor the ticket of the thread.\<close>

lemma queue_inv_local:
  assumes "queue_inv k s" "p_ticket p = p_ticket (pcs s th)" "c_ticket p = c_ticket (pcs s th)"
    and "thread_inv (shared s) (pushed s) (popped s) p"
  shows "queue_inv k (s\<lparr>pcs := (pcs s)(th := p)\<rparr>)"
proof -
  have "p_ticket (((pcs s)(th := p)) th') = p_ticket (pcs s th')"
    and "c_ticket (((pcs s)(th := p)) th') = c_ticket (pcs s th')" for th'
    using assms by auto
  then show ?thesis
    using assms(1,4) unfolding queue_inv_def occupied_inv_def tickets_inv_def by auto
qed

lemma p_ticketD:
  assumes "queue_inv k s" "p_ticket (pcs s th) = Some i"
  shows "qout (shared s) \<le> i" "i < qin (shared s)" "i \<noteq> 0"
    "isfree (shared s) ! slot (qmask (shared s)) i"
proof -
  have "thread_inv (shared s) (pushed s) (popped s) (pcs s th)"
    using assms(1) by (simp add: queue_inv_def)
  then show "qout (shared s) \<le> i" "i < qin (shared s)" "i \<noteq> 0"
    "isfree (shared s) ! slot (qmask (shared s)) i"
    using assms(2) by (auto simp: thread_inv_def p_ticket_def Let_def split: pc.splits)
qed

lemma c_ticketD:
  assumes "queue_inv k s" "c_ticket (pcs s th) = Some t"
  shows "t < qout (shared s)" "qin (shared s) \<le> t + 2 ^ k" "-1 \<le> t" "t \<noteq> 0"
    "\<not> isfree (shared s) ! slot (qmask (shared s)) t" "t \<in> fst ` set (pushed s)" "t \<notin> fst ` set (popped s)"
proof -
  have "thread_inv (shared s) (pushed s) (popped s) (pcs s th)" "qmask (shared s) = 2 ^ k - 1"
    using assms(1) by (simp_all add: queue_inv_def shape_inv_def)
  then show *: "t < qout (shared s)" "qin (shared s) \<le> t + 2 ^ k"
    "\<not> isfree (shared s) ! slot (qmask (shared s)) t" "t \<notin> fst ` set (popped s)"
    and "t \<in> fst ` set (pushed s)"
    using assms(2)
    by (auto simp: thread_inv_def c_ticket_def Let_def split: pc.splits intro: rev_image_eqI)
  have "\<forall>(t, x) \<in> set (pushed s). -1 \<le> t \<and> t < qin (shared s) \<and> t \<noteq> 0"
    using assms(1) by (simp add: queue_inv_def log_inv_def)
  then show "-1 \<le> t" "t \<noteq> 0" using \<open>t \<in> fst ` set (pushed s)\<close> by auto
qed

lemma shapeD:
  assumes "queue_inv k s"
  shows "2 \<le> k" "qmask (shared s) = 2 ^ k - 1" "length (buffer (shared s)) = 2 ^ k"
    "length (isfree (shared s)) = 2 ^ k" "-1 \<le> qin (shared s)" "-1 \<le> qout (shared s)"
    "qin (shared s) - qout (shared s) \<le> 2 ^ k"
    "qout (shared s) \<le> qin (shared s) \<or> qin (shared s) = 0 \<and> qout (shared s) = 1"
  using assms by (auto simp: queue_inv_def shape_inv_def)

lemma four_le: "queue_inv k s \<Longrightarrow> (4::int) \<le> 2 ^ k"
  using power_increasing[of 2 k "2::int"] shapeD(1)[of k s] by simp

lemma pushedD:
  assumes "queue_inv k s" "(t, x) \<in> set (pushed s)"
  shows "-1 \<le> t" "t < qin (shared s)" "t \<noteq> 0"
    "qout (shared s) \<le> t \<Longrightarrow> \<not> isfree (shared s) ! slot (qmask (shared s)) t"
    "qout (shared s) \<le> t \<Longrightarrow> buffer (shared s) ! slot (qmask (shared s)) t = x"
proof -
  have "log_inv (shared s) (pushed s) (popped s)" using assms(1) by (simp add: queue_inv_def)
  then show "-1 \<le> t" "t < qin (shared s)" "t \<noteq> 0"
    "qout (shared s) \<le> t \<Longrightarrow> \<not> isfree (shared s) ! slot (qmask (shared s)) t"
    "qout (shared s) \<le> t \<Longrightarrow> buffer (shared s) ! slot (qmask (shared s)) t = x"
    using assms(2) by (auto simp: log_inv_def)
qed

lemma ticketsD:
  assumes "queue_inv k s"
  shows "p_ticket (pcs s th) = Some t \<Longrightarrow> p_ticket (pcs s th') = Some t \<Longrightarrow> th = th'"
    "c_ticket (pcs s th) = Some t \<Longrightarrow> c_ticket (pcs s th') = Some t \<Longrightarrow> th = th'"
    "-1 \<le> t \<Longrightarrow> t < qin (shared s) \<Longrightarrow> t \<noteq> 0 \<Longrightarrow>
      t \<in> fst ` set (pushed s) \<or> (\<exists>th. p_ticket (pcs s th) = Some t)"
    "(t, x) \<in> set (pushed s) \<Longrightarrow> t < qout (shared s) \<Longrightarrow>
      (t, x) \<in> set (popped s) \<or> (\<exists>th. c_ticket (pcs s th) = Some t)"
proof -
  have inv: "tickets_inv s" using assms by (simp add: queue_inv_def)
  show "p_ticket (pcs s th) = Some t \<Longrightarrow> p_ticket (pcs s th') = Some t \<Longrightarrow> th = th'"
    using inv by (simp add: tickets_inv_def)
  show "c_ticket (pcs s th) = Some t \<Longrightarrow> c_ticket (pcs s th') = Some t \<Longrightarrow> th = th'"
    using inv by (simp add: tickets_inv_def)
  show "-1 \<le> t \<Longrightarrow> t < qin (shared s) \<Longrightarrow> t \<noteq> 0 \<Longrightarrow>
      t \<in> fst ` set (pushed s) \<or> (\<exists>th. p_ticket (pcs s th) = Some t)"
    using inv by (simp add: tickets_inv_def)
  show "(t, x) \<in> set (pushed s) \<Longrightarrow> t < qout (shared s) \<Longrightarrow>
      (t, x) \<in> set (popped s) \<or> (\<exists>th. c_ticket (pcs s th) = Some t)"
    using inv unfolding tickets_inv_def by blast
qed

lemma tickets_invI:
  assumes "\<And>th th' t. p_ticket (pcs s th) = Some t \<Longrightarrow> p_ticket (pcs s th') = Some t \<Longrightarrow> th = th'"
    "\<And>th th' t. c_ticket (pcs s th) = Some t \<Longrightarrow> c_ticket (pcs s th') = Some t \<Longrightarrow> th = th'"
    "\<And>t. -1 \<le> t \<Longrightarrow> t < qin (shared s) \<Longrightarrow> t \<noteq> 0 \<Longrightarrow>
      t \<in> fst ` set (pushed s) \<or> (\<exists>th. p_ticket (pcs s th) = Some t)"
    "\<And>t x. (t, x) \<in> set (pushed s) \<Longrightarrow> t < qout (shared s) \<Longrightarrow>
      (t, x) \<in> set (popped s) \<or> (\<exists>th. c_ticket (pcs s th) = Some t)"
  shows "tickets_inv s"
  unfolding tickets_inv_def using assms by blast

lemma producers_apart:
  assumes "queue_inv k s" "p_ticket (pcs s th) = Some i" "p_ticket (pcs s th') = Some j" "th \<noteq> th'"
  shows "slot (qmask (shared s)) i \<noteq> slot (qmask (shared s)) j"
proof -
  have "i \<noteq> j" using assms by (auto simp: queue_inv_def tickets_inv_def)
  moreover have "i < j + 2 ^ k" "j < i + 2 ^ k"
    using p_ticketD[OF assms(1,2)] p_ticketD[OF assms(1,3)] shapeD(7)[OF assms(1)] by auto
  ultimately show ?thesis
    using slot_neq[OF shapeD(2)[OF assms(1)]] by blast
qed

lemma consumers_apart:
  assumes "queue_inv k s" "c_ticket (pcs s th) = Some i" "c_ticket (pcs s th') = Some j" "th \<noteq> th'"
  shows "slot (qmask (shared s)) i \<noteq> slot (qmask (shared s)) j \<and> i \<noteq> j"
proof -
  have "i \<noteq> j" using assms by (auto simp: queue_inv_def tickets_inv_def)
  moreover have "i < j + 2 ^ k" "j < i + 2 ^ k"
    using c_ticketD[OF assms(1,2)] c_ticketD[OF assms(1,3)] shapeD(8)[OF assms(1)] four_le[OF assms(1)]
    by auto
  ultimately show ?thesis
    using slot_neq[OF shapeD(2)[OF assms(1)]] by blast
qed

text \<open>A producer takes the ticket \<open>in\<close>, or skips the ticket 0.\<close>

lemma queue_inv_take_in:
  assumes inv: "queue_inv k s" and pc: "pcs s th = PCas w x (qin (shared s))"
    and p: "p = (if qin (shared s) = 0 then PLoad w x else PStore x (qin (shared s)))"
  shows "queue_inv k (s\<lparr>shared := (shared s)\<lparr>qin := qin (shared s) + 1\<rparr>, pcs := (pcs s)(th := p)\<rparr>)"
proof -
  let ?q = "shared s" and ?i = "qin (shared s)"
  let ?q' = "?q\<lparr>qin := ?i + 1\<rparr>"
  have th: "-1 \<le> ?i" "?i < qout ?q + 2 ^ k" "isfree ?q ! slot (qmask ?q) ?i"
    using inv pc by (auto simp: queue_inv_def thread_inv_def shape_inv_def Let_def dest!: spec[of _ th])
  have c: "?i < t + qmask ?q + 1" if "c_ticket (pcs s th') = Some t" for th' t
  proof -
    have "slot (qmask ?q) ?i \<noteq> slot (qmask ?q) t" using th(3) c_ticketD(5)[OF inv that] by auto
    then have "?i \<noteq> t + 2 ^ k" using shapeD(2)[OF inv] by (auto simp: slot_mod)
    then show ?thesis using c_ticketD(2)[OF inv that] shapeD(2)[OF inv] by simp
  qed
  have ct: "c_ticket (if th' = th then p else pcs s th') = c_ticket (pcs s th')" for th'
    using pc p by (simp add: c_ticket_def)
  have pt: "p_ticket (if th' = th then p else pcs s th') =
      (if th' = th \<and> ?i \<noteq> 0 then Some ?i else p_ticket (pcs s th'))" for th'
    using pc p by (simp add: p_ticket_def)
  have "thread_inv ?q' (pushed s) (popped s) (((pcs s)(th := p)) th')" for th'
  proof (cases "th' = th")
    case True
    then show ?thesis using th p pc shapeD[OF inv]
      by (auto simp: thread_inv_def Let_def) 
  next
    case False
    then show ?thesis using inv c by (auto simp: queue_inv_def intro!: thread_inv_in)
  qed
  moreover have "shape_inv k ?q'" using inv th by (auto simp: queue_inv_def shape_inv_def)
  moreover have "log_inv ?q' (pushed s) (popped s)"
    using inv unfolding queue_inv_def log_inv_def by force
  moreover have "occupied_inv (s\<lparr>shared := ?q', pcs := (pcs s)(th := p)\<rparr>)"
    using inv unfolding queue_inv_def occupied_inv_def by (simp add: ct)
  moreover have "tickets_inv (s\<lparr>shared := ?q', pcs := (pcs s)(th := p)\<rparr>)"
  proof (rule tickets_invI, goal_cases)
    case (1 th1 th2 t)
    have "t \<noteq> ?i" if "p_ticket (pcs s th') = Some t" for th' using p_ticketD(2)[OF inv that] by simp
    then show ?case using 1 ticketsD(1)[OF inv, of th1 t th2] by (simp add: pt split: if_splits)
  next
    case (2 th1 th2 t)
    then show ?case using ticketsD(2)[OF inv, of th1 t th2] by (simp add: ct)
  next
    case (3 t)
    then consider "t = ?i" | "t < ?i" by fastforce
    then show ?case
    proof cases
      case 1
      then show ?thesis using 3 by (intro disjI2 exI[of _ th]) (use pc p in \<open>simp add: p_ticket_def\<close>)
    next
      case 2
      then consider "t \<in> fst ` set (pushed s)" | th' where "p_ticket (pcs s th') = Some t"
        using ticketsD(3)[OF inv, of t] 3 by auto
      then show ?thesis
      proof cases
        case (2 th')
        then have "th' \<noteq> th" using pc by (auto simp: p_ticket_def)
        then show ?thesis using 2 by (intro disjI2 exI[of _ th']) (simp add: pt)
      qed simp
    qed
  next
    case (4 t y)
    then show ?case using ticketsD(4)[OF inv, of t y] by (simp add: ct)
  qed
  ultimately show ?thesis by (simp add: queue_inv_def)
qed

lemma occupiedE:
  assumes "queue_inv k s" "j < length (isfree (shared s))" "\<not> isfree (shared s) ! j"
  obtains t x where "(t, x) \<in> set (pushed s)" "slot (qmask (shared s)) t = j"
    "qout (shared s) \<le> t \<or> (\<exists>th. c_ticket (pcs s th) = Some t)"
proof -
  have "occupied_inv s" using assms(1) by (simp add: queue_inv_def)
  then obtain p where "p \<in> set (pushed s)" "slot (qmask (shared s)) (fst p) = j"
    "qout (shared s) \<le> fst p \<or> (\<exists>th. c_ticket (pcs s th) = Some (fst p))"
    using assms(2,3) unfolding occupied_inv_def by blast
  then show thesis using that[of "fst p" "snd p"] by simp
qed

lemma occupied_invI:
  assumes "\<And>j. j < length (isfree (shared s)) \<Longrightarrow> \<not> isfree (shared s) ! j \<Longrightarrow>
    \<exists>t x. (t, x) \<in> set (pushed s) \<and> slot (qmask (shared s)) t = j
      \<and> (qout (shared s) \<le> t \<or> (\<exists>th. c_ticket (pcs s th) = Some t))"
  shows "occupied_inv s"
  unfolding occupied_inv_def
proof (intro allI impI)
  fix j assume "j < length (isfree (shared s))" "\<not> isfree (shared s) ! j"
  then obtain t x where "(t, x) \<in> set (pushed s)" "slot (qmask (shared s)) t = j
      \<and> (qout (shared s) \<le> t \<or> (\<exists>th. c_ticket (pcs s th) = Some t))"
    using assms by blast
  then show "\<exists>t \<in> fst ` set (pushed s). slot (qmask (shared s)) t = j
      \<and> (qout (shared s) \<le> t \<or> (\<exists>th. c_ticket (pcs s th) = Some t))"
    by (intro bexI[of _ t]) (auto intro: rev_image_eqI)
qed

text \<open>A consumer moves \<open>out\<close> over the unused ticket 0.\<close>

lemma queue_inv_skip_out:
  assumes inv: "queue_inv k s" and pc: "pcs s th = OSkip w" and z: "qout (shared s) = 0"
  shows "queue_inv k (s\<lparr>shared := (shared s)\<lparr>qout := 1\<rparr>, pcs := (pcs s)(th := enter_empty w 0 False)\<rparr>)"
proof -
  let ?q = "shared s" and ?p = "enter_empty w 0 False"
  let ?q' = "?q\<lparr>qout := 1\<rparr>"
  have pt: "p_ticket (if th' = th then ?p else pcs s th') = p_ticket (pcs s th')"
    and ct: "c_ticket (if th' = th then ?p else pcs s th') = c_ticket (pcs s th')" for th'
    using pc by (auto simp: p_ticket_def c_ticket_def enter_empty_def)
  have one: "1 \<le> t" if "p_ticket (pcs s th') = Some t" for th' t
    using p_ticketD(1,3)[OF inv that] z by simp
  have "thread_inv ?q' (pushed s) (popped s) (((pcs s)(th := ?p)) th')" for th'
  proof (cases "th' = th")
    case True
    then show ?thesis by (simp add: thread_inv_def enter_empty_def)
  next
    case False
    then show ?thesis using inv one z by (auto simp: queue_inv_def intro!: thread_inv_out)
  qed
  moreover have "shape_inv k ?q'" using inv z by (auto simp: queue_inv_def shape_inv_def)
  moreover have "log_inv ?q' (pushed s) (popped s)"
    using inv z unfolding queue_inv_def log_inv_def by fastforce
  moreover have "occupied_inv (s\<lparr>shared := ?q', pcs := (pcs s)(th := ?p)\<rparr>)"
  proof (rule occupied_invI, goal_cases)
    case (1 j)
    then obtain t x where "(t, x) \<in> set (pushed s)" "slot (qmask ?q) t = j"
      "0 \<le> t \<or> (\<exists>th. c_ticket (pcs s th) = Some t)"
      using occupiedE[OF inv, of j] z by auto
    moreover from this have "t \<noteq> 0" using pushedD(3)[OF inv] by blast
    ultimately show ?case by (intro exI[of _ t] exI[of _ x]) (auto simp: ct)
  qed
  moreover have "tickets_inv (s\<lparr>shared := ?q', pcs := (pcs s)(th := ?p)\<rparr>)"
  proof (rule tickets_invI, goal_cases)
    case (4 t y)
    then have "t < 0" using pushedD(3)[OF inv, of t y] by simp
    then show ?case using ticketsD(4)[OF inv, of t y] 4 z by (simp add: ct)
  qed (use ticketsD(1-3)[OF inv] in \<open>simp add: ct pt\<close>)+
  ultimately show ?thesis by (simp add: queue_inv_def)
qed

text \<open>A consumer takes the ticket \<open>out\<close>, which has been published.\<close>

lemma queue_inv_take_out:
  assumes inv: "queue_inv k s" and pc: "pcs s th = OCas w (qout (shared s))"
  shows "queue_inv k (s\<lparr>shared := (shared s)\<lparr>qout := qout (shared s) + 1\<rparr>,
    pcs := (pcs s)(th := OTake (qout (shared s)))\<rparr>)"
proof -
  let ?q = "shared s" and ?t = "qout (shared s)" and ?p = "OTake (qout (shared s)) :: 'a pc"
  let ?q' = "?q\<lparr>qout := ?t + 1\<rparr>"
  have "thread_inv ?q (pushed s) (popped s) (pcs s th)" using inv by (simp add: queue_inv_def)
  then obtain y where y: "(?t, y) \<in> set (pushed s)" using pc by (auto simp: thread_inv_def)
  note D = pushedD[OF inv y]
  have pt: "p_ticket (if th' = th then ?p else pcs s th') = p_ticket (pcs s th')"
    and ct: "c_ticket (if th' = th then ?p else pcs s th') =
      (if th' = th then Some ?t else c_ticket (pcs s th'))" for th'
    using pc by (auto simp: p_ticket_def c_ticket_def)
  have later: "?t + 1 \<le> t" if "p_ticket (pcs s th') = Some t" for th' t
    using p_ticketD[OF inv that] D(4) by (cases "t = ?t") auto
  have fresh: "?t \<notin> fst ` set (popped s)"
    using inv unfolding queue_inv_def log_inv_def by auto
  have "thread_inv ?q' (pushed s) (popped s) (((pcs s)(th := ?p)) th')" for th'
  proof (cases "th' = th")
    case True
    then show ?thesis using y D fresh shapeD(2,7)[OF inv] by (simp add: thread_inv_def Let_def)
  next
    case False
    then show ?thesis using inv later by (auto simp: queue_inv_def intro!: thread_inv_out)
  qed
  moreover have "shape_inv k ?q'" using inv D(2) by (auto simp: queue_inv_def shape_inv_def)
  moreover have "log_inv ?q' (pushed s) (popped s)"
    using inv unfolding queue_inv_def log_inv_def by fastforce
  moreover have "occupied_inv (s\<lparr>shared := ?q', pcs := (pcs s)(th := ?p)\<rparr>)"
  proof (rule occupied_invI, goal_cases)
    case (1 j)
    then obtain t x where t: "(t, x) \<in> set (pushed s)" "slot (qmask ?q) t = j"
      "?t \<le> t \<or> (\<exists>th. c_ticket (pcs s th) = Some t)"
      using occupiedE[OF inv, of j] by auto
    have "?t + 1 \<le> t \<or> (\<exists>th'. c_ticket (if th' = th then ?p else pcs s th') = Some t)"
    proof (cases "t = ?t")
      case False
      have "th' \<noteq> th" if "c_ticket (pcs s th') = Some t" for th'
        using that pc by (auto simp: c_ticket_def)
      then show ?thesis using t(3) False by (auto simp: ct)
    qed (simp add: ct exI[of _ th])
    then show ?case using t(1,2) by (intro exI[of _ t] exI[of _ x]) simp
  qed
  moreover have "tickets_inv (s\<lparr>shared := ?q', pcs := (pcs s)(th := ?p)\<rparr>)"
  proof (rule tickets_invI, goal_cases)
    case (2 th1 th2 t)
    have "t \<noteq> ?t" if "c_ticket (pcs s th') = Some t" for th' using c_ticketD(1)[OF inv that] by simp
    then show ?case using 2 ticketsD(2)[OF inv, of th1 t th2] by (simp add: ct split: if_splits)
  next
    case (4 t z)
    have "th' \<noteq> th" if "c_ticket (pcs s th') = Some t" for th'
      using that pc by (auto simp: c_ticket_def)
    then show ?case using ticketsD(4)[OF inv, of t z] 4
      by (cases "t = ?t") (auto simp: ct)
  qed (use ticketsD(1,3)[OF inv] in \<open>simp add: pt\<close>)+
  ultimately show ?thesis by (simp add: queue_inv_def)
qed

lemma log_invD:
  assumes "queue_inv k s"
  shows "distinct (map fst (pushed s))" "distinct (map fst (popped s))"
    "set (popped s) \<subseteq> set (pushed s)" "(t, x) \<in> set (popped s) \<Longrightarrow> t < qout (shared s)"
  using assms by (auto simp: queue_inv_def log_inv_def)

lemma log_invI:
  assumes "distinct (map fst pu)" "distinct (map fst po)" "set po \<subseteq> set pu"
    and "\<And>t x. (t, x) \<in> set pu \<Longrightarrow> -1 \<le> t \<and> t < qin q \<and> t \<noteq> 0"
    and "\<And>t x. (t, x) \<in> set pu \<Longrightarrow> qout q \<le> t \<Longrightarrow>
      \<not> isfree q ! slot (qmask q) t \<and> buffer q ! slot (qmask q) t = x"
    and "\<And>t x. (t, x) \<in> set po \<Longrightarrow> t < qout q"
  shows "log_inv q pu po"
  using assms unfolding log_inv_def by auto

text \<open>A producer writes the item into the slot of its ticket.\<close>

lemma queue_inv_store:
  assumes inv: "queue_inv k s" and pc: "pcs s th = PStore x i"
  shows "queue_inv k (s\<lparr>shared := (shared s)\<lparr>buffer := (buffer (shared s))[slot (qmask (shared s)) i := x]\<rparr>,
    pcs := (pcs s)(th := PClear x i)\<rparr>)"
proof -
  let ?q = "shared s" and ?p = "PClear x i" and ?sl = "slot (qmask (shared s))"
  let ?q' = "?q\<lparr>buffer := (buffer ?q)[?sl i := x]\<rparr>"
  have i: "p_ticket (pcs s th) = Some i" using pc by (simp add: p_ticket_def)
  note I = p_ticketD[OF inv i]
  have len: "?sl i < length (buffer ?q)"
    using pow2.sl_less[of k i] shapeD(2,3)[OF inv] by (simp flip: of_nat_less_iff)
  have pt: "p_ticket (if th' = th then ?p else pcs s th') = p_ticket (pcs s th')"
    and ct: "c_ticket (if th' = th then ?p else pcs s th') = c_ticket (pcs s th')" for th'
    using pc by (auto simp: p_ticket_def c_ticket_def)
  have apart: "?sl t \<noteq> ?sl i" if "th' \<noteq> th" "p_ticket (pcs s th') = Some t \<or> c_ticket (pcs s th') = Some t" for th' t
    using that(2)
  proof
    assume "p_ticket (pcs s th') = Some t"
    then show ?thesis using producers_apart[OF inv _ i that(1)] by blast
  next
    assume "c_ticket (pcs s th') = Some t"
    from c_ticketD(5)[OF inv this] I(4) show ?thesis by metis
  qed
  have "thread_inv ?q' (pushed s) (popped s) (((pcs s)(th := ?p)) th')" for th'
  proof (cases "th' = th")
    case True
    then show ?thesis using I len by (simp add: thread_inv_def Let_def)
  next
    case False
    then show ?thesis using inv apart[OF False] by (auto simp: queue_inv_def intro!: thread_inv_store)
  qed
  moreover have "shape_inv k ?q'" using inv by (auto simp: queue_inv_def shape_inv_def)
  moreover have "log_inv ?q' (pushed s) (popped s)"
  proof -
    have "?sl t \<noteq> ?sl i" if "(t, y) \<in> set (pushed s)" "qout ?q \<le> t" for t y
      using pushedD(4)[OF inv that] I(4) by auto
    then show ?thesis using inv unfolding queue_inv_def log_inv_def by fastforce
  qed
  moreover have "occupied_inv (s\<lparr>shared := ?q', pcs := (pcs s)(th := ?p)\<rparr>)"
    using inv by (simp add: queue_inv_def occupied_inv_def ct)
  moreover have "tickets_inv (s\<lparr>shared := ?q', pcs := (pcs s)(th := ?p)\<rparr>)"
    using inv by (simp add: queue_inv_def tickets_inv_def ct pt)
  ultimately show ?thesis by (simp add: queue_inv_def)
qed

text \<open>A producer publishes its slot: from here on the item is in the queue.\<close>

lemma queue_inv_clear:
  assumes inv: "queue_inv k s" and pc: "pcs s th = PClear x i"
  shows "queue_inv k (s\<lparr>shared := (shared s)\<lparr>isfree := (isfree (shared s))[slot (qmask (shared s)) i := False]\<rparr>,
    pcs := (pcs s)(th := PRet i), pushed := pushed s @ [(i, x)]\<rparr>)" (is "queue_inv k ?s'")
proof -
  let ?q = "shared s" and ?p = "PRet i :: 'a pc" and ?sl = "slot (qmask (shared s))"
  let ?q' = "?q\<lparr>isfree := (isfree ?q)[?sl i := False]\<rparr>"
  have i: "p_ticket (pcs s th) = Some i" using pc by (simp add: p_ticket_def)
  note I = p_ticketD[OF inv i]
  have len: "?sl i < length (isfree ?q)"
    using pow2.sl_less[of k i] shapeD(2,4)[OF inv] by (simp flip: of_nat_less_iff)
  have x: "buffer ?q ! ?sl i = x"
    using inv pc by (auto simp: queue_inv_def thread_inv_def Let_def dest!: spec[of _ th])
  have pt: "p_ticket (if th' = th then ?p else pcs s th') =
      (if th' = th then None else p_ticket (pcs s th'))"
    and ct: "c_ticket (if th' = th then ?p else pcs s th') = c_ticket (pcs s th')" for th'
    using pc by (auto simp: p_ticket_def c_ticket_def)
  have new: "i \<notin> fst ` set (pushed s)"
    using pushedD(4)[OF inv] I(1,4) by auto
  have next_slot: "?sl (qin ?q) \<noteq> ?sl i" if "qin ?q < qout ?q + qmask ?q + 1"
    using slot_neq[OF shapeD(2)[OF inv], of "qin ?q" i] I that shapeD(2)[OF inv] by simp
  have "thread_inv ?q' (pushed s @ [(i, x)]) (popped s) (((pcs s)(th := ?p)) th')" for th'
  proof (cases "th' = th")
    case True
    then show ?thesis by (simp add: thread_inv_def)
  next
    case False
    have "?sl t \<noteq> ?sl i" if "p_ticket (pcs s th') = Some t" for t
      using producers_apart[OF inv that i False] .
    then show ?thesis using False inv next_slot len
      by (auto simp: queue_inv_def intro!: thread_inv_clear)
  qed
  moreover have "shape_inv k ?q'" using inv by (auto simp: queue_inv_def shape_inv_def)
  moreover have "log_inv ?q' (pushed s @ [(i, x)]) (popped s)"
  proof (rule log_invI, goal_cases)
    case (4 t y)
    then show ?case using pushedD(1-3)[OF inv, of t y] I(1-3) shapeD(6)[OF inv] by auto
  next
    case (5 t y)
    then show ?case using pushedD(4,5)[OF inv, of t y] x len by (auto simp: nth_list_update)
  qed (use log_invD[OF inv] new in auto)
  moreover have "occupied_inv ?s'"
  proof (rule occupied_invI, goal_cases)
    case (1 j)
    show ?case
    proof (cases "j = ?sl i")
      case True
      then show ?thesis using I(1) by (intro exI[of _ i] exI[of _ x]) simp
    next
      case False
      then obtain t y where "(t, y) \<in> set (pushed s)" "?sl t = j"
        "qout ?q \<le> t \<or> (\<exists>th. c_ticket (pcs s th) = Some t)"
        using occupiedE[OF inv, of j] 1 by auto
      then show ?thesis by (intro exI[of _ t] exI[of _ y]) (auto simp: ct)
    qed
  qed
  moreover have "tickets_inv ?s'"
  proof (rule tickets_invI, goal_cases)
    case (1 th1 th2 t)
    then show ?case using ticketsD(1)[OF inv, of th1 t th2] by (simp add: pt split: if_splits)
  next
    case (2 th1 th2 t)
    then show ?case using ticketsD(2)[OF inv, of th1 t th2] by (simp add: ct)
  next
    case (3 t)
    have "t \<in> fst ` set (pushed s) \<or> (\<exists>th'. p_ticket (pcs s th') = Some t)"
      using ticketsD(3)[OF inv, of t] 3 by simp
    then show ?case
    proof
      assume "\<exists>th'. p_ticket (pcs s th') = Some t"
      then obtain th' where "p_ticket (pcs s th') = Some t" by blast
      then show ?thesis using i by (cases "th' = th") (auto simp: pt)
    qed simp
  next
    case (4 t z)
    then show ?case using ticketsD(4)[OF inv, of t z] I(1) by (auto simp: ct)
  qed
  ultimately show ?thesis by (simp add: queue_inv_def)
qed

text \<open>A consumer releases its slot.\<close>

lemma queue_inv_free:
  assumes inv: "queue_inv k s" and pc: "pcs s th = OFree t x"
  shows "queue_inv k (s\<lparr>shared := (shared s)\<lparr>isfree := (isfree (shared s))[slot (qmask (shared s)) t := True]\<rparr>,
    pcs := (pcs s)(th := ORet t (Some x)), popped := popped s @ [(t, x)]\<rparr>)" (is "queue_inv k ?s'")
proof -
  let ?q = "shared s" and ?p = "ORet t (Some x) :: 'a pc" and ?sl = "slot (qmask (shared s))"
  let ?q' = "?q\<lparr>isfree := (isfree ?q)[?sl t := True]\<rparr>"
  have t: "c_ticket (pcs s th) = Some t" using pc by (simp add: c_ticket_def)
  note T = c_ticketD[OF inv t]
  have len: "?sl t < length (isfree ?q)"
    using pow2.sl_less[of k t] shapeD(2,4)[OF inv] by (simp flip: of_nat_less_iff)
  have tx: "(t, x) \<in> set (pushed s)"
    using inv pc by (auto simp: queue_inv_def thread_inv_def Let_def dest!: spec[of _ th])
  have pt: "p_ticket (if th' = th then ?p else pcs s th') = p_ticket (pcs s th')"
    and ct: "c_ticket (if th' = th then ?p else pcs s th') =
      (if th' = th then None else c_ticket (pcs s th'))" for th'
    using pc by (auto simp: p_ticket_def c_ticket_def)
  have ahead: "?sl j \<noteq> ?sl t" if "qout ?q \<le> j" "j < qin ?q" for j
    using slot_neq[OF shapeD(2)[OF inv], of j t] T that by simp
  have "thread_inv ?q' (pushed s) (popped s @ [(t, x)]) (((pcs s)(th := ?p)) th')" for th'
  proof (cases "th' = th")
    case True
    then show ?thesis by (simp add: thread_inv_def)
  next
    case False
    have "?sl t' \<noteq> ?sl t \<and> t' \<noteq> t" if "c_ticket (pcs s th') = Some t'" for t'
      using consumers_apart[OF inv that t False] .
    then show ?thesis using False inv len by (auto simp: queue_inv_def intro!: thread_inv_free)
  qed
  moreover have "shape_inv k ?q'" using inv by (auto simp: queue_inv_def shape_inv_def)
  moreover have "log_inv ?q' (pushed s) (popped s @ [(t, x)])"
  proof (rule log_invI, goal_cases)
    case (4 j y)
    then show ?case using pushedD(1-3)[OF inv, of j y] by simp
  next
    case (5 j y)
    then have "?sl j \<noteq> ?sl t" using ahead pushedD(2)[OF inv, of j y] by simp
    then show ?case using 5 pushedD(4,5)[OF inv, of j y] by simp
  qed (use log_invD[OF inv] T tx in auto)
  moreover have "occupied_inv ?s'"
  proof (rule occupied_invI, goal_cases)
    case (1 j)
    then have "j \<noteq> ?sl t" using len by auto
    then have j: "j < length (isfree ?q)" "\<not> isfree ?q ! j" using 1 by auto
    obtain t' y where ty: "(t', y) \<in> set (pushed s)" "?sl t' = j"
      "qout ?q \<le> t' \<or> (\<exists>th. c_ticket (pcs s th) = Some t')"
      by (rule occupiedE[OF inv j])
    then have "t' \<noteq> t" using \<open>j \<noteq> ?sl t\<close> by auto
    then have "th' \<noteq> th" if "c_ticket (pcs s th') = Some t'" for th' using t that by auto
    then have "qout ?q \<le> t' \<or> (\<exists>th'. c_ticket (if th' = th then ?p else pcs s th') = Some t')"
      using ty(3) by (auto simp: ct)
    with ty show ?case by (intro exI[of _ t'] exI[of _ y]) simp
  qed
  moreover have "tickets_inv ?s'"
  proof (rule tickets_invI, goal_cases)
    case (1 th1 th2 t)
    then show ?case using ticketsD(1)[OF inv, of th1 t th2] by (simp add: pt)
  next
    case (2 th1 th2 t)
    then show ?case using ticketsD(2)[OF inv, of th1 t th2] by (simp add: ct split: if_splits)
  next
    case (3 t)
    then show ?case using ticketsD(3)[OF inv, of t] by (simp add: pt)
  next
    case (4 t' z)
    then have "(t', z) \<in> set (popped s) \<or> (\<exists>th'. c_ticket (pcs s th') = Some t')"
      using ticketsD(4)[OF inv, of t' z] by simp
    then show ?case
    proof
      assume "\<exists>th'. c_ticket (pcs s th') = Some t'"
      then obtain th' where th': "c_ticket (pcs s th') = Some t'" by blast
      show ?thesis
      proof (cases "th' = th")
        case True
        then have "t' = t" using th' t by simp
        moreover have "(t', z) \<in> set (pushed s)" using 4 by simp
        ultimately have "z = x" using tx log_invD(1)[OF inv] by (auto dest: eq_key_imp_eq_value)
        then show ?thesis using \<open>t' = t\<close> by simp
      qed (use th' in \<open>auto simp: ct\<close>)
    qed simp
  qed
  ultimately show ?thesis by (simp add: queue_inv_def)
qed

text \<open>A consumer that saw an occupied slot has seen a published ticket.\<close>

lemma occupied_is_published:
  assumes inv: "queue_inv k s" and t: "-1 \<le> t" "qout (shared s) = t" "t < qin (shared s) \<or> t = 1"
    and occ: "\<not> isfree (shared s) ! slot (qmask (shared s)) t"
  shows "t \<in> fst ` set (pushed s)"
proof -
  have len: "slot (qmask (shared s)) t < length (isfree (shared s))"
    using pow2.sl_less[of k t] shapeD(2,4)[OF inv] by (simp flip: of_nat_less_iff)
  obtain j y where j: "(j, y) \<in> set (pushed s)" "slot (qmask (shared s)) j = slot (qmask (shared s)) t"
    "qout (shared s) \<le> j \<or> (\<exists>th. c_ticket (pcs s th) = Some j)"
    using occupiedE[OF inv len occ] by blast
  have "j = t"
  proof (rule ccontr)
    assume "j \<noteq> t"
    then have far: "\<not> (j < t + 2 ^ k \<and> t < j + 2 ^ k)"
      using slot_neq[OF shapeD(2)[OF inv], of j t] j(2) by blast
    note R = pushedD(1,2)[OF inv j(1)] shapeD(7,8)[OF inv] four_le[OF inv]
    show False
    proof (cases "qout (shared s) \<le> j")
      case True
      then show False using far R t by linarith
    next
      case False
      then obtain th where c: "c_ticket (pcs s th) = Some j" using j(3) by blast
      show False using far R t False c_ticketD(2)[OF inv c] by linarith
    qed
  qed
  then show ?thesis using j(1) by (auto intro: rev_image_eqI)
qed

text \<open>Steps that only read the shared variables.\<close>

lemma thread_invD: "queue_inv k s \<Longrightarrow> thread_inv (shared s) (pushed s) (popped s) (pcs s th)"
  by (simp add: queue_inv_def)

lemma queue_inv_push:
  assumes inv: "queue_inv k s" and run: "running (shared s)"
    and step: "push_step ch (pcs s th) (shared s) = Some (p, q')"
  shows "queue_inv k (s\<lparr>shared := q', pcs := (pcs s)(th := p),
    pushed := pushed s @ log_push (pcs s th), popped := popped s @ log_pop (pcs s th)\<rparr>)"
proof -
  note T = thread_invD[OF inv, of th] and R = shapeD[OF inv]
  have local: ?thesis if "q' = shared s" "log_push (pcs s th) = []" "log_pop (pcs s th) = []"
    "p_ticket p = p_ticket (pcs s th)" "c_ticket p = c_ticket (pcs s th)"
    "thread_inv (shared s) (pushed s) (popped s) p"
    using queue_inv_local[OF inv, of p th] that by simp
  show ?thesis
  proof (cases "pcs s th")
    case (PLoad w x)
    show ?thesis using PLoad step R by (intro local) (auto simp: tickets thread_inv_def enter_full_def
      log_push_def log_pop_def)
  next
    case (PFullIn w x i ph)
    show ?thesis using PFullIn step T R by (intro local) (auto simp: tickets thread_inv_def
      log_push_def log_pop_def)
  next
    case (PFullOut w x i j ph)
    show ?thesis using PFullOut step T R by (intro local) (auto simp: tickets thread_inv_def Let_def
      log_push_def log_pop_def split: if_splits)
  next
    case (PRunning w x i ph)
    show ?thesis using PRunning step T R run by (intro local) (auto simp: tickets thread_inv_def
      enter_full_def log_push_def log_pop_def split: if_splits)
  next
    case (PIsFree w x i)
    show ?thesis using PIsFree step T R by (intro local) (auto simp: tickets thread_inv_def Let_def
      log_push_def log_pop_def split: if_splits)
  next
    case (PCas w x i)
    show ?thesis
    proof (cases "ch \<and> qin (shared s) = i")
      case True
      then have "q' = (shared s)\<lparr>qin := qin (shared s) + 1\<rparr>"
        "p = (if qin (shared s) = 0 then PLoad w x else PStore x (qin (shared s)))"
        using PCas step by (auto split: if_splits)
      then show ?thesis using queue_inv_take_in[OF inv, of th w x p] PCas True
        by (simp add: log_push_def log_pop_def)
    next
      case False
      then show ?thesis using PCas step by (intro local) (auto simp: tickets thread_inv_def
        log_push_def log_pop_def split: if_splits)
    qed
  next
    case (PStore x i)
    then show ?thesis using step queue_inv_store[OF inv PStore] by (auto simp: log_push_def log_pop_def)
  next
    case (PClear x i)
    then show ?thesis using step queue_inv_clear[OF inv PClear] by (auto simp: log_push_def log_pop_def)
  qed (use step in auto)
qed

lemma queue_inv_pop:
  assumes inv: "queue_inv k s" and run: "running (shared s)"
    and step: "pop_step ch (pcs s th) (shared s) = Some (p, q')"
  shows "queue_inv k (s\<lparr>shared := q', pcs := (pcs s)(th := p),
    pushed := pushed s @ log_push (pcs s th), popped := popped s @ log_pop (pcs s th)\<rparr>)"
proof -
  note T = thread_invD[OF inv, of th] and R = shapeD[OF inv]
  have local: ?thesis if "q' = shared s" "log_push (pcs s th) = []" "log_pop (pcs s th) = []"
    "p_ticket p = p_ticket (pcs s th)" "c_ticket p = c_ticket (pcs s th)"
    "thread_inv (shared s) (pushed s) (popped s) p"
    using queue_inv_local[OF inv, of p th] that by simp
  show ?thesis
  proof (cases "pcs s th")
    case (OLoad w)
    show ?thesis using OLoad step R by (intro local) (auto simp: tickets thread_inv_def enter_empty_def
      log_push_def log_pop_def split: if_splits)
  next
    case (OSkip w)
    show ?thesis
    proof (cases "ch \<and> qout (shared s) = 0")
      case True
      then show ?thesis using OSkip step queue_inv_skip_out[OF inv OSkip]
        by (auto simp: log_push_def log_pop_def)
    next
      case False
      then show ?thesis using OSkip step by (intro local) (auto simp: tickets thread_inv_def
        log_push_def log_pop_def split: if_splits)
    qed
  next
    case (OEmptyOut w t ph)
    show ?thesis using OEmptyOut step T R by (intro local) (auto simp: tickets thread_inv_def
      log_push_def log_pop_def)
  next
    case (OEmptyIn w t e ph)
    show ?thesis using OEmptyIn step T R by (intro local) (auto simp: tickets thread_inv_def
      log_push_def log_pop_def split: if_splits)
  next
    case (ORunning w t ph)
    show ?thesis using ORunning step T R run by (intro local) (auto simp: tickets thread_inv_def
      enter_empty_def log_push_def log_pop_def split: if_splits)
  next
    case (OIsFree w t)
    have "t \<in> fst ` set (pushed s)" if "\<not> isfree (shared s) ! slot (qmask (shared s)) t" "qout (shared s) = t"
      using occupied_is_published[OF inv, of t] T OIsFree that by (auto simp: thread_inv_def)
    then show ?thesis using OIsFree step T by (intro local) (auto simp: tickets thread_inv_def Let_def
      log_push_def log_pop_def split: if_splits)
  next
    case (OCas w t)
    show ?thesis
    proof (cases "ch \<and> qout (shared s) = t")
      case True
      then have "q' = (shared s)\<lparr>qout := qout (shared s) + 1\<rparr>" "p = OTake (qout (shared s))"
        using OCas step by (auto split: if_splits)
      then show ?thesis using queue_inv_take_out[OF inv, of th w] OCas True
        by (simp add: log_push_def log_pop_def)
    next
      case False
      then show ?thesis using OCas step by (intro local) (auto simp: tickets thread_inv_def
        log_push_def log_pop_def split: if_splits)
    qed
  next
    case (OTake t)
    show ?thesis using OTake step T by (intro local) (auto simp: tickets thread_inv_def Let_def
      log_push_def log_pop_def)
  next
    case (OFree t x)
    then show ?thesis using step queue_inv_free[OF inv OFree] by (auto simp: log_push_def log_pop_def)
  qed (use step in auto)
qed

lemma queue_inv_exec:
  assumes inv: "queue_inv k s" and run: "running (shared s)" and step: "exec a s = Some s'"
    and run': "running (shared s')"
  shows "queue_inv k s'"
proof (cases a)
  case (Run th ch)
  then obtain p q' where p: "thread_step ch (pcs s th) (shared s) = Some (p, q')"
    and s': "s' = s\<lparr>shared := q', pcs := (pcs s)(th := p),
      pushed := pushed s @ log_push (pcs s th), popped := popped s @ log_pop (pcs s th)\<rparr>"
    using step by (auto split: option.splits)
  show ?thesis
    using p queue_inv_push[OF inv run, of ch th p q'] queue_inv_pop[OF inv run, of ch th p q'] s'
    by (auto simp: thread_step_def split: option.splits)
next
  case (CallPush th x w)
  then have i: "pcs s th = Idle" and s': "s' = s\<lparr>pcs := (pcs s)(th := PLoad w x)\<rparr>"
    using step by (auto split: if_splits)
  show ?thesis unfolding s' using i by (intro queue_inv_local[OF inv]) (auto simp: tickets thread_inv_def)
next
  case (CallPop th w)
  then have i: "pcs s th = Idle" and s': "s' = s\<lparr>pcs := (pcs s)(th := OLoad w)\<rparr>"
    using step by (auto split: if_splits)
  show ?thesis unfolding s' using i by (intro queue_inv_local[OF inv]) (auto simp: tickets thread_inv_def)
next
  case (Return th)
  then have s': "s' = s\<lparr>pcs := (pcs s)(th := Idle)\<rparr>"
    and p: "p_ticket (pcs s th) = None" "c_ticket (pcs s th) = None"
    using step by (auto simp: tickets split: pc.splits)
  show ?thesis unfolding s' using p by (intro queue_inv_local[OF inv]) (auto simp: tickets thread_inv_def)
next
  case Stop
  then show ?thesis using step run' by auto
qed

lemma exec_ReturnD: "exec (Return th) s = Some s' \<Longrightarrow> s' = s\<lparr>pcs := (pcs s)(th := Idle)\<rparr>"
  by (cases "pcs s th") simp_all

lemma exec_running: "exec a s = Some s' \<Longrightarrow> a \<noteq> Stop \<Longrightarrow> running (shared s') = running (shared s)"
proof (cases a)
  case (Run th ch)
  assume e: "exec a s = Some s'"
  have push: "push_step ch p q = Some (p', q') \<Longrightarrow> running q' = running q" for p p' and q q' :: "'a queue"
    by (cases p) (auto split: if_splits)
  have pop: "pop_step ch p q = Some (p', q') \<Longrightarrow> running q' = running q" for p p' and q q' :: "'a queue"
    by (cases p) (auto split: if_splits)
  show ?thesis using e Run push pop by (auto simp: thread_step_def split: option.splits)
next
  case (Return th)
  assume "exec a s = Some s'"
  then show ?thesis using exec_ReturnD[of th s s'] Return by simp
qed (auto split: if_splits)

lemma running_exec: "exec a s = Some s' \<Longrightarrow> running (shared s') \<Longrightarrow> running (shared s)"
  using exec_running[of a s s'] by (cases a) auto

lemma queue_new_shape:
  assumes "queue_new sz zero = Some q0"
  shows "\<exists>k. q0 = \<lparr>buffer = replicate (2 ^ k) zero, isfree = replicate (2 ^ k) True,
      qin = -1, qout = -1, qmask = 2 ^ k - 1, running = True\<rparr>
    \<and> sz \<le> 2 ^ k \<and> k \<le> 30 \<and> (k = 0 \<or> 2 ^ (k - 1) < sz)"
proof -
  have "sz \<le> 2 ^ 30" using assms by (auto simp: queue_new_def split: if_splits)
  then obtain j where j: "double_until sz (2 ^ 0) = 2 ^ j" "sz \<le> 2 ^ j" "j \<le> 30" "j = 0 \<or> 2 ^ (j - 1) < sz"
    using double_until_pow2[of sz 30 0] by auto
  then have "nat (2 ^ j) = 2 ^ j" by (simp add: nat_power_eq)
  then show ?thesis using j assms by (intro exI[of _ j]) (auto simp: queue_new_def Let_def split: if_splits)
qed

lemma queue_inv_reach:
  assumes "queue_new sz zero = Some q0" "2 < sz" "reach q0 s" "running (shared s)"
  shows "\<exists>k. queue_inv k s \<and> qmask q0 = 2 ^ k - 1 \<and> qmask (shared s) = qmask q0"
proof -
  obtain k where q0: "q0 = \<lparr>buffer = replicate (2 ^ k) zero, isfree = replicate (2 ^ k) True,
      qin = -1, qout = -1, qmask = 2 ^ k - 1, running = True\<rparr>" and k: "sz \<le> 2 ^ k"
    using queue_new_shape[OF assms(1)] by blast
  have "2 \<le> k"
  proof (rule ccontr)
    assume "\<not> 2 \<le> k"
    then have "k = 0 \<or> k = 1" by auto
    then show False using k assms(2) by auto
  qed
  then have init: "queue_inv k (start q0)"
    by (auto simp: q0 start_def queue_inv_def shape_inv_def log_inv_def occupied_inv_def
      tickets_inv_def tickets thread_inv_def)
  have "queue_inv k s" using assms(3,4)
  proof (induction rule: reach.induct)
    case (step s a s')
    then show ?case using queue_inv_exec[of k s a s'] running_exec[of a s s'] by blast
  qed (rule init)
  then show ?thesis using shapeD(2) by (intro exI[of _ k]) (auto simp: q0)
qed

section \<open>Consequences\<close>

text \<open>What is in the queue, oldest first: the slots of the tickets from \<open>out\<close> to \<open>in\<close>, but 0.\<close>

definition live_tickets :: "'a queue \<Rightarrow> int list" where
  "live_tickets q = filter (\<lambda>t. t \<noteq> 0) [qout q..qin q - 1]"

definition contents :: "'a queue \<Rightarrow> 'a list" where
  "contents q = map (\<lambda>t. buffer q ! slot (qmask q) t) (live_tickets q)"

definition quiet :: "'a system \<Rightarrow> bool" where
  "quiet s \<longleftrightarrow> (\<forall>th. pcs s th = Idle)"

lemma quiet_no_tickets: "quiet s \<Longrightarrow> p_ticket (pcs s th) = None \<and> c_ticket (pcs s th) = None"
  by (simp add: quiet_def tickets)

lemma quiet_contents:
  assumes inv: "queue_inv k s" and quiet: "quiet s"
  shows "set (zip (live_tickets (shared s)) (contents (shared s))) = set (pushed s) - set (popped s)"
proof -
  let ?q = "shared s" and ?b = "\<lambda>t. buffer (shared s) ! slot (qmask (shared s)) t"
  have "set (zip (live_tickets ?q) (contents ?q)) = {(t, ?b t) |t. qout ?q \<le> t \<and> t < qin ?q \<and> t \<noteq> 0}"
    by (auto simp: contents_def live_tickets_def set_zip zip_map2 zip_same_conv_map)
  also have "\<dots> = set (pushed s) - set (popped s)"
  proof (intro set_eqI iffI)
    fix p assume "p \<in> {(t, ?b t) |t. qout ?q \<le> t \<and> t < qin ?q \<and> t \<noteq> 0}"
    then obtain t where t: "p = (t, ?b t)" "qout ?q \<le> t" "t < qin ?q" "t \<noteq> 0" by blast
    have "t \<in> fst ` set (pushed s)"
      using ticketsD(3)[OF inv, of t] t shapeD(6)[OF inv] quiet_no_tickets[OF quiet] by auto
    then obtain x where x: "(t, x) \<in> set (pushed s)" by auto
    then have "p \<in> set (pushed s)" using t pushedD(5)[OF inv x] by simp
    moreover have "p \<notin> set (popped s)" using log_invD(4)[OF inv, of t "?b t"] t by auto
    ultimately show "p \<in> set (pushed s) - set (popped s)" by simp
  next
    fix p assume p: "p \<in> set (pushed s) - set (popped s)"
    obtain t x where tx: "p = (t, x)" by (cases p)
    then have "qout ?q \<le> t"
      using ticketsD(4)[OF inv, of t x] p quiet_no_tickets[OF quiet] by fastforce
    then show "p \<in> {(t, ?b t) |t. qout ?q \<le> t \<and> t < qin ?q \<and> t \<noteq> 0}"
      using pushedD[OF inv, of t x] p tx by auto
  qed
  finally show ?thesis .
qed

lemma unpopped_window:
  assumes inv: "queue_inv k s" and "(t, x) \<in> set (pushed s)" "(t, x) \<notin> set (popped s)"
  shows "t < qin (shared s)" "qin (shared s) \<le> t + 2 ^ k"
proof -
  show "t < qin (shared s)" using pushedD(2)[OF inv assms(2)] .
  show "qin (shared s) \<le> t + 2 ^ k"
  proof (cases "qout (shared s) \<le> t")
    case True
    then show ?thesis using shapeD(7)[OF inv] by simp
  next
    case False
    then obtain th where "c_ticket (pcs s th) = Some t"
      using ticketsD(4)[OF inv assms(2)] assms(3) by auto
    then show ?thesis using c_ticketD(2)[OF inv] by blast
  qed
qed

lemma at_most_capacity:
  assumes inv: "queue_inv k s"
  shows "card (set (pushed s) - set (popped s)) \<le> 2 ^ k"
proof -
  let ?D = "set (pushed s) - set (popped s)"
  have "inj_on fst ?D"
    using log_invD(1)[OF inv] by (auto simp: distinct_map intro: inj_on_subset)
  then have "card ?D = card (fst ` ?D)" by (simp add: card_image)
  also have "\<dots> \<le> card {qin (shared s) - 2 ^ k..<qin (shared s)}"
  proof (rule card_mono)
    show "fst ` ?D \<subseteq> {qin (shared s) - 2 ^ k..<qin (shared s)}"
      using unpopped_window[OF inv] by force
  qed simp
  also have "\<dots> = 2 ^ k" by (simp add: nat_power_eq)
  finally show ?thesis .
qed

text \<open>At rest: what is left, in which order.\<close>

lemma quiet_order:
  assumes "queue_new sz zero = Some q0" "2 < sz" "reach q0 s" "running (shared s)" "quiet s"
  shows "set (zip (live_tickets (shared s)) (contents (shared s))) = set (pushed s) - set (popped s)
    \<and> (\<forall>(t, x) \<in> set (popped s). \<forall>(u, y) \<in> set (pushed s) - set (popped s). t < u)"
proof -
  obtain k where inv: "queue_inv k s" using queue_inv_reach[OF assms(1-4)] by blast
  note C = quiet_contents[OF inv assms(5)]
  have "t < u" if "(t, x) \<in> set (popped s)" "(u, y) \<in> set (pushed s) - set (popped s)" for t u x y
  proof -
    have "u \<in> set (live_tickets (shared s))" using that(2) C by (metis set_zip_leftD)
    then show ?thesis using log_invD(4)[OF inv that(1)] by (simp add: live_tickets_def)
  qed
  then show ?thesis using C by blast
qed

text \<open>One thread alone. First the runs of the code, from the tickets at hand.\<close>

lemma solo_push_run:
  assumes "pcs s th = Idle" "running (shared s)" "qin (shared s) = i" "0 < i" "i < int_max"
    and "i - qout (shared s) \<le> qmask (shared s)" "qmask (shared s) < int_max"
    and "isfree (shared s) ! slot (qmask (shared s)) i"
  shows "exec_all (CallPush th x w # replicate 8 (Run th True) @ [Return th]) s = Some
    (s\<lparr>shared := (shared s)\<lparr>qin := i + 1,
        buffer := (buffer (shared s))[slot (qmask (shared s)) i := x],
        isfree := (isfree (shared s))[slot (qmask (shared s)) i := False]\<rparr>,
      pcs := (pcs s)(th := Idle), pushed := pushed s @ [(i, x)]\<rparr>)"
  using assms by (simp add: numeral_eq_Suc thread_step_def enter_full_def log_push_def log_pop_def)

lemma solo_push_run_first:
  assumes "pcs s th = Idle" "running (shared s)" "qin (shared s) = -1" "qout (shared s) = -1"
    and "0 \<le> qmask (shared s)" "isfree (shared s) ! slot (qmask (shared s)) (-1)"
  shows "exec_all (CallPush th x w # replicate 10 (Run th True) @ [Return th]) s = Some
    (s\<lparr>shared := (shared s)\<lparr>qin := 0,
        buffer := (buffer (shared s))[slot (qmask (shared s)) (-1) := x],
        isfree := (isfree (shared s))[slot (qmask (shared s)) (-1) := False]\<rparr>,
      pcs := (pcs s)(th := Idle), pushed := pushed s @ [(-1, x)]\<rparr>)"
  using assms by (simp add: numeral_eq_Suc thread_step_def enter_full_def log_push_def log_pop_def int_max_def)

lemma solo_push_run_skip:
  assumes "pcs s th = Idle" "running (shared s)" "qin (shared s) = 0" "-1 \<le> qout (shared s)"
    and "2 \<le> qmask (shared s)" "qmask (shared s) < int_max"
    and "isfree (shared s) ! slot (qmask (shared s)) 0" "isfree (shared s) ! slot (qmask (shared s)) 1"
  shows "exec_all (CallPush th x w # replicate 14 (Run th True) @ [Return th]) s = Some
    (s\<lparr>shared := (shared s)\<lparr>qin := 2,
        buffer := (buffer (shared s))[slot (qmask (shared s)) 1 := x],
        isfree := (isfree (shared s))[slot (qmask (shared s)) 1 := False]\<rparr>,
      pcs := (pcs s)(th := Idle), pushed := pushed s @ [(1, x)]\<rparr>)"
  using assms by (simp add: numeral_eq_Suc thread_step_def enter_full_def log_push_def log_pop_def int_max_def)

lemma solo_pop_run:
  assumes "pcs s th = Idle" "running (shared s)" "qout (shared s) = t" "0 < t" "t < int_max"
    and "t \<noteq> qin (shared s)" "\<not> isfree (shared s) ! slot (qmask (shared s)) t"
  shows "exec_all (CallPop th w # replicate 8 (Run th True)) s = Some
    (s\<lparr>shared := (shared s)\<lparr>qout := t + 1,
        isfree := (isfree (shared s))[slot (qmask (shared s)) t := True]\<rparr>,
      pcs := (pcs s)(th := ORet t (Some (buffer (shared s) ! slot (qmask (shared s)) t))),
      popped := popped s @ [(t, buffer (shared s) ! slot (qmask (shared s)) t)]\<rparr>)"
  using assms by (simp add: numeral_eq_Suc thread_step_def enter_empty_def log_push_def log_pop_def)

lemma solo_pop_run_first:
  assumes "pcs s th = Idle" "running (shared s)" "qout (shared s) = -1"
    and "qin (shared s) \<noteq> -1" "\<not> isfree (shared s) ! slot (qmask (shared s)) (-1)"
  shows "exec_all (CallPop th w # replicate 10 (Run th True)) s = Some
    (s\<lparr>shared := (shared s)\<lparr>qout := 0,
        isfree := (isfree (shared s))[slot (qmask (shared s)) (-1) := True]\<rparr>,
      pcs := (pcs s)(th := ORet (-1) (Some (buffer (shared s) ! slot (qmask (shared s)) (-1)))),
      popped := popped s @ [(-1, buffer (shared s) ! slot (qmask (shared s)) (-1))]\<rparr>)"
  using assms by (simp add: numeral_eq_Suc thread_step_def enter_empty_def log_push_def log_pop_def int_max_def)

lemma solo_pop_run_skip:
  assumes "pcs s th = Idle" "running (shared s)" "qout (shared s) = 0" "1 < qin (shared s)"
    and "isfree (shared s) ! slot (qmask (shared s)) 0" "\<not> isfree (shared s) ! slot (qmask (shared s)) 1"
  shows "exec_all (CallPop th w # replicate 14 (Run th True)) s = Some
    (s\<lparr>shared := (shared s)\<lparr>qout := 2,
        isfree := (isfree (shared s))[slot (qmask (shared s)) 1 := True]\<rparr>,
      pcs := (pcs s)(th := ORet 1 (Some (buffer (shared s) ! slot (qmask (shared s)) 1))),
      popped := popped s @ [(1, buffer (shared s) ! slot (qmask (shared s)) 1)]\<rparr>)"
  using assms by (simp add: numeral_eq_Suc thread_step_def enter_empty_def log_push_def log_pop_def int_max_def)

text \<open>In a quiet queue a slot is occupied exactly by a live ticket.\<close>

lemma quiet_free:
  assumes inv: "queue_inv k s" and "quiet s" and t: "qin (shared s) \<le> t" "t < qout (shared s) + 2 ^ k"
  shows "isfree (shared s) ! slot (qmask (shared s)) t"
proof (rule ccontr)
  assume occ: "\<not> ?thesis"
  have len: "slot (qmask (shared s)) t < length (isfree (shared s))"
    using pow2.sl_less[of k t] shapeD(2,4)[OF inv] by (simp flip: of_nat_less_iff)
  obtain j y where j: "(j, y) \<in> set (pushed s)" "slot (qmask (shared s)) j = slot (qmask (shared s)) t"
    "qout (shared s) \<le> j \<or> (\<exists>th. c_ticket (pcs s th) = Some j)"
    using occupiedE[OF inv len occ] by blast
  then have "qout (shared s) \<le> j" "j < qin (shared s)"
    using quiet_no_tickets[OF assms(2)] pushedD(2)[OF inv j(1)] by auto
  then show False using slot_neq[OF shapeD(2)[OF inv], of j t] t j(2) by auto
qed

lemma quiet_occupied:
  assumes inv: "queue_inv k s" and "quiet s" and t: "qout (shared s) \<le> t" "t < qin (shared s)" "t \<noteq> 0"
  shows "\<not> isfree (shared s) ! slot (qmask (shared s)) t"
proof -
  have "t \<in> fst ` set (pushed s)"
    using ticketsD(3)[OF inv, of t] t shapeD(6)[OF inv] quiet_no_tickets[OF assms(2)] by auto
  then show ?thesis using pushedD(4)[OF inv] t(1) by auto
qed

lemma contents_append:
  assumes "live_tickets q' = live_tickets q @ [i]" "qmask q' = qmask q"
    and "buffer q' = (buffer q)[slot (qmask q) i := x]" "slot (qmask q) i < length (buffer q)"
    and "\<And>t. t \<in> set (live_tickets q) \<Longrightarrow> slot (qmask q) t \<noteq> slot (qmask q) i"
  shows "contents q' = contents q @ [x]"
  using assms by (simp add: contents_def) (metis nth_list_update_neq)

lemma contents_Cons:
  assumes "live_tickets q = t # live_tickets q'" "qmask q' = qmask q" "buffer q' = buffer q"
  shows "contents q = buffer q ! slot (qmask q) t # contents q'"
  using assms by (simp add: contents_def)

lemma live_tickets_push:
  "qin q = i \<Longrightarrow> i \<noteq> 0 \<Longrightarrow> qout q \<le> i \<Longrightarrow> qin q' = i + 1 \<Longrightarrow> qout q' = qout q \<Longrightarrow>
    live_tickets q' = live_tickets q @ [i]"
  by (simp add: live_tickets_def upto_rec2)

lemma live_tickets_push_skip:
  "qin q = 0 \<Longrightarrow> -1 \<le> qout q \<Longrightarrow> qout q \<le> 1 \<Longrightarrow> qin q' = 2 \<Longrightarrow> qout q' = qout q \<Longrightarrow>
    live_tickets q' = live_tickets q @ [1]"
  by (auto simp: live_tickets_def upto_rec2 upto.simps)

lemma live_tickets_pop:
  "qout q = t \<Longrightarrow> t \<noteq> 0 \<Longrightarrow> t < qin q \<Longrightarrow> qout q' = t + 1 \<Longrightarrow> qin q' = qin q \<Longrightarrow>
    live_tickets q = t # live_tickets q'"
  by (simp add: live_tickets_def upto_rec1)

lemma live_tickets_pop_skip:
  "qout q = 0 \<Longrightarrow> 1 < qin q \<Longrightarrow> qout q' = 2 \<Longrightarrow> qin q' = qin q \<Longrightarrow>
    live_tickets q = 1 # live_tickets q'"
  by (simp add: live_tickets_def upto_rec1)

lemma solo_push:
  assumes inv: "queue_inv k s" and run: "running (shared s)" and quiet: "quiet s"
    and room: "qin (shared s) - qout (shared s) < 2 ^ k"
    and cap: "k \<le> 30" and bound: "qin (shared s) < int_max"
  shows "\<exists>m s'. exec_all (CallPush th x w # replicate m (Run th True) @ [Return th]) s = Some s'
    \<and> quiet s' \<and> contents (shared s') = contents (shared s) @ [x]"
proof -
  let ?q = "shared s" and ?i = "if qin (shared s) = 0 then 1 else qin (shared s)"
  note R = shapeD[OF inv] and n = four_le[OF inv]
  have idle: "pcs s th = Idle" using quiet by (simp add: quiet_def)
  have mask: "qmask ?q < int_max"
  proof -
    have "(2::int) ^ k \<le> 2 ^ 30" using cap by (intro power_increasing) auto
    then show ?thesis using R(2) by (simp add: int_max_def)
  qed
  have i: "qin ?q \<le> ?i" "?i < qout ?q + 2 ^ k" using room R(6,8) n by auto
  have free: "isfree ?q ! slot (qmask ?q) ?i" using quiet_free[OF inv quiet i] .
  let ?s' = "\<lambda>j. s\<lparr>shared := ?q\<lparr>qin := j + 1, buffer := (buffer ?q)[slot (qmask ?q) j := x],
      isfree := (isfree ?q)[slot (qmask ?q) j := False]\<rparr>,
    pcs := (pcs s)(th := Idle), pushed := pushed s @ [(j, x)]\<rparr>"
  have "\<exists>m. exec_all (CallPush th x w # replicate m (Run th True) @ [Return th]) s = Some (?s' ?i)"
  proof -
    consider "qin ?q = -1" | "qin ?q = 0" | "0 < qin ?q" using R(5) by linarith
    then show ?thesis
    proof cases
      case 1
      then have "qout ?q = -1" using R(6,8) by auto
      then show ?thesis using solo_push_run_first[OF idle run 1, of x w] 1 free R(2) n
        by (intro exI[of _ 10]) (simp del: exec_all.simps)
    next
      case 2
      have "isfree ?q ! slot (qmask ?q) 0" using quiet_free[OF inv quiet, of 0] 2 R(6) n by auto
      then show ?thesis using solo_push_run_skip[OF idle run 2, of x w] 2 free R(2,6) n mask
        by (intro exI[of _ 14]) (simp del: exec_all.simps)
    next
      case 3
      then show ?thesis
        using solo_push_run[OF idle run refl 3 bound _ mask, of x w] 3 free room R(2)
        by (intro exI[of _ 8]) (simp del: exec_all.simps)
    qed
  qed
  moreover have "contents (shared (?s' ?i)) = contents ?q @ [x]"
  proof (rule contents_append[where i = ?i])
    show "live_tickets (shared (?s' ?i)) = live_tickets ?q @ [?i]"
      using live_tickets_push[of ?q "qin ?q" "shared (?s' ?i)"]
        live_tickets_push_skip[of ?q "shared (?s' ?i)"] R(6,8) by auto
    show "slot (qmask ?q) ?i < length (buffer ?q)"
      using pow2.sl_less[of k ?i] R(2,3) by (simp flip: of_nat_less_iff)
    show "slot (qmask ?q) t \<noteq> slot (qmask ?q) ?i" if "t \<in> set (live_tickets ?q)" for t
      using slot_neq[OF R(2), of t ?i] that i by (auto simp: live_tickets_def)
  qed simp_all
  moreover have "quiet (?s' ?i)" using quiet by (simp add: quiet_def)
  ultimately show ?thesis by blast
qed

lemma solo_pop:
  assumes inv: "queue_inv k s" and run: "running (shared s)" and quiet: "quiet s"
    and items: "contents (shared s) = x # xs" and bound: "qout (shared s) < int_max"
  shows "\<exists>m t s'. exec_all (CallPop th w # replicate m (Run th True)) s = Some s'
    \<and> pcs s' th = ORet t (Some x) \<and> contents (shared s') = xs \<and> (\<forall>th'. th' \<noteq> th \<longrightarrow> pcs s' th' = Idle)"
proof -
  let ?q = "shared s" and ?t = "if qout (shared s) = 0 then 1 else qout (shared s)"
  note R = shapeD[OF inv] and n = four_le[OF inv]
  have idle: "pcs s th = Idle" using quiet by (simp add: quiet_def)
  have "live_tickets ?q \<noteq> []" using items by (auto simp: contents_def)
  then obtain u where "u \<in> set (live_tickets ?q)" using last_in_set by blast
  then have t: "?t < qin ?q" "qout ?q \<le> ?t" by (auto simp: live_tickets_def)
  have occ: "\<not> isfree ?q ! slot (qmask ?q) ?t" using quiet_occupied[OF inv quiet, of ?t] t by auto
  let ?x = "buffer ?q ! slot (qmask ?q) ?t"
  let ?s' = "s\<lparr>shared := ?q\<lparr>qout := ?t + 1, isfree := (isfree ?q)[slot (qmask ?q) ?t := True]\<rparr>,
    pcs := (pcs s)(th := ORet ?t (Some ?x)), popped := popped s @ [(?t, ?x)]\<rparr>"
  have run': "\<exists>m. exec_all (CallPop th w # replicate m (Run th True)) s = Some ?s'"
  proof -
    consider "qout ?q = -1" | "qout ?q = 0" | "0 < qout ?q" using R(6) by linarith
    then show ?thesis
    proof cases
      case 1
      then show ?thesis using solo_pop_run_first[OF idle run 1, of w] 1 t occ
        by (intro exI[of _ 10]) (simp del: exec_all.simps)
    next
      case 2
      have "isfree ?q ! slot (qmask ?q) 0"
      proof (rule ccontr)
        assume occ0: "\<not> ?thesis"
        have len: "slot (qmask ?q) 0 < length (isfree ?q)"
          using pow2.sl_less[of k 0] R(2,4) by (simp flip: of_nat_less_iff)
        obtain j y where j: "(j, y) \<in> set (pushed s)" "slot (qmask ?q) j = slot (qmask ?q) 0"
          "qout ?q \<le> j \<or> (\<exists>th. c_ticket (pcs s th) = Some j)"
          using occupiedE[OF inv len occ0] by blast
        then show False
          using slot_neq[OF R(2), of j 0] pushedD(1-3)[OF inv j(1)] quiet_no_tickets[OF quiet] 2 R(7) by auto
      qed
      then show ?thesis using solo_pop_run_skip[OF idle run 2, of w] 2 t occ
        by (intro exI[of _ 14]) (simp del: exec_all.simps)
    next
      case 3
      then show ?thesis using solo_pop_run[OF idle run refl 3 bound, of w] 3 t occ
        by (intro exI[of _ 8]) (simp del: exec_all.simps)
    qed
  qed
  have c: "contents ?q = ?x # contents (shared ?s')"
  proof (rule contents_Cons)
    show "live_tickets ?q = ?t # live_tickets (shared ?s')"
      using live_tickets_pop[of ?q "qout ?q" "shared ?s'"] live_tickets_pop_skip[of ?q "shared ?s'"] t
      by auto
  qed simp_all
  have "pcs ?s' th = ORet ?t (Some x)" "contents (shared ?s') = xs"
    "\<forall>th'. th' \<noteq> th \<longrightarrow> pcs ?s' th' = Idle"
    using c items quiet by (simp_all add: quiet_def)
  with run' show ?thesis by blast
qed

section \<open>Concrete runs\<close>

text \<open>Two items pushed into a queue of four slots and one popped again, by three threads.\<close>

definition demo_queue :: "int queue" where
  "demo_queue = the (queue_new 4 0)"

definition demo_state :: "int system" where
  "demo_state = the (exec_all
     (CallPush 0 7 True # replicate 10 (Run 0 True) @ [Return 0] @
      CallPush 1 8 True # replicate 14 (Run 1 True) @ [Return 1] @
      CallPop 2 True # replicate 10 (Run 2 True) @ [Return 2]) (start demo_queue))"

lemma demo_new: "queue_new 4 0 = Some demo_queue"
  by code_simp

lemma demo_queue_eq: "demo_queue = \<lparr>buffer = [0, 0, 0, 0], isfree = [True, True, True, True],
    qin = -1, qout = -1, qmask = 3, running = True\<rparr>"
  by code_simp

lemma demo_exec: "exec_all
     (CallPush 0 7 True # replicate 10 (Run 0 True) @ [Return 0] @
      CallPush 1 8 True # replicate 14 (Run 1 True) @ [Return 1] @
      CallPop 2 True # replicate 10 (Run 2 True) @ [Return 2]) (start demo_queue) = Some
    \<lparr>shared = \<lparr>buffer = [0, 8, 0, 7], isfree = [True, False, True, True],
      qin = 2, qout = 0, qmask = 3, running = True\<rparr>,
     pcs = \<lambda>_. Idle, pushed = [(-1, 7), (1, 8)], popped = [(-1, 7)]\<rparr>"
  by (simp add: demo_queue_eq start_def numeral_eq_Suc thread_step_def enter_full_def enter_empty_def log_push_def
    log_pop_def int_max_def slot_def fun_eq_iff)

lemma demo_reach: "reach demo_queue demo_state"
  unfolding demo_state_def demo_exec option.sel
  by (rule exec_all_reach[OF demo_exec reach.init])

lemma demo_state_eq: "demo_state =
    \<lparr>shared = \<lparr>buffer = [0, 8, 0, 7], isfree = [True, False, True, True],
      qin = 2, qout = 0, qmask = 3, running = True\<rparr>,
     pcs = \<lambda>_. Idle, pushed = [(-1, 7), (1, 8)], popped = [(-1, 7)]\<rparr>"
  unfolding demo_state_def demo_exec by simp

lemma demo_running: "running (shared demo_state)" and demo_quiet: "quiet demo_state"
  by (simp_all add: demo_state_eq quiet_def)

text \<open>A pop that does not wait on a queue where \<open>out\<close> has skipped ahead of \<open>in\<close>.\<close>

definition spin_queue :: "int queue" where
  "spin_queue = \<lparr>buffer = [0, 0, 0, 7], isfree = [True, True, True, True],
    qin = 0, qout = 1, qmask = 3, running = True\<rparr>"

definition spin_pcs :: "int pc set" where
  "spin_pcs = {OLoad False, OEmptyIn False 1 1 False, ORunning False 1 False,
     OEmptyIn False 1 1 True, OIsFree False 1}"

lemma spin_forever:
  "shared s = spin_queue \<Longrightarrow> pcs s 0 \<in> spin_pcs \<Longrightarrow>
    \<exists>s'. exec_all (map (Run 0) chs) s = Some s' \<and> pcs s' 0 \<in> spin_pcs"
proof (induction chs arbitrary: s)
  case (Cons ch chs)
  have "\<exists>s1. exec (Run 0 ch) s = Some s1 \<and> shared s1 = spin_queue \<and> pcs s1 0 \<in> spin_pcs"
    using Cons.prems
    by (auto simp: spin_pcs_def spin_queue_def thread_step_def enter_empty_def slot_def)
  then obtain s1 where "exec (Run 0 ch) s = Some s1" "shared s1 = spin_queue" "pcs s1 0 \<in> spin_pcs"
    by blast
  then show ?case using Cons.IH[of s1] by simp
qed simp

lemma spin_reached: "\<exists>s. reach demo_queue s \<and> shared s = spin_queue \<and> quiet s
    \<and> pushed s = [(-1, 7)] \<and> popped s = [(-1, 7)]"
proof -
  let ?as = "CallPush 0 7 True # replicate 10 (Run 0 True) @ [Return 0] @
      CallPop 0 False # replicate 10 (Run 0 True) @ [Return 0] @
      CallPop 0 False # replicate 3 (Run 0 True) @ [Return 0]"
  have "exec_all ?as (start demo_queue) = Some \<lparr>shared = spin_queue,
     pcs = \<lambda>_. Idle, pushed = [(-1, 7)], popped = [(-1, 7)]\<rparr>"
    by (simp add: demo_queue_eq spin_queue_def start_def numeral_eq_Suc thread_step_def enter_full_def
      enter_empty_def log_push_def log_pop_def int_max_def slot_def fun_eq_iff)
  from exec_all_reach[OF this reach.init] show ?thesis by (intro exI) (auto simp: quiet_def)
qed

section \<open>Properties\<close>

text \<open>The constructor makes the capacity the smallest power of two that is at least the size
  asked for (and at least 1), all slots free and the two counters equal at -1.\<close>

lemma queue_new_capacity:
  assumes "queue_new sz zero = Some q0"
  shows "\<exists>k. qmask q0 + 1 = 2 ^ k \<and> sz \<le> 2 ^ k \<and> (k = 0 \<or> 2 ^ (k - 1) < sz)
    \<and> isfree q0 = replicate (2 ^ k) True \<and> length (buffer q0) = 2 ^ k
    \<and> qin q0 = -1 \<and> qout q0 = -1 \<and> running q0"
proof -
  obtain k where "q0 = \<lparr>buffer = replicate (2 ^ k) zero, isfree = replicate (2 ^ k) True,
      qin = -1, qout = -1, qmask = 2 ^ k - 1, running = True\<rparr>"
    "sz \<le> 2 ^ k" "k = 0 \<or> 2 ^ (k - 1) < sz"
    using queue_new_shape[OF assms] by blast
  then show ?thesis by (intro exI[of _ k]) simp
qed

lemma queue_new_capacity_witness: "\<exists>k. qmask demo_queue + 1 = 2 ^ k \<and> 4 \<le> (2::int) ^ k"
  using queue_new_capacity[OF demo_new] by blast

text \<open>C1: whatever the interleaving of any number of producers and consumers, while the queue runs
  and has at least four slots no two pushes get the same ticket, every pop delivers an item that
  was pushed under the ticket it returns, and no item is delivered twice.\<close>

theorem queue_each_item_once:
  assumes "queue_new sz zero = Some q0" "2 < sz" "reach q0 s" "running (shared s)"
  shows "distinct (map fst (pushed s)) \<and> distinct (map fst (popped s)) \<and> set (popped s) \<subseteq> set (pushed s)"
proof -
  obtain k where "queue_inv k s" using queue_inv_reach[OF assms] by blast
  then show ?thesis using log_invD by blast
qed

lemma queue_each_item_once_witness:
  "distinct (map fst (pushed demo_state)) \<and> popped demo_state = [(-1, 7)] \<and> (-1, 7) \<in> set (pushed demo_state)"
  using queue_each_item_once[OF demo_new _ demo_reach demo_running] by (simp add: demo_state_eq)

text \<open>The items that are published and not yet released never outnumber the slots.\<close>

theorem queue_bounded:
  assumes "queue_new sz zero = Some q0" "2 < sz" "reach q0 s" "running (shared s)"
  shows "int (card (set (pushed s) - set (popped s))) \<le> qmask q0 + 1"
proof -
  obtain k where "queue_inv k s" "qmask q0 = 2 ^ k - 1" using queue_inv_reach[OF assms] by blast
  moreover from this(1) have "int (card (set (pushed s) - set (popped s))) \<le> int (2 ^ k)"
    using at_most_capacity by (simp only: of_nat_le_iff)
  ultimately show ?thesis by simp
qed

lemma queue_bounded_witness: "int (card (set (pushed demo_state) - set (popped demo_state))) \<le> 4"
  using queue_bounded[OF demo_new _ demo_reach demo_running] by (simp add: demo_queue_eq)

text \<open>C2: nothing is lost and order is kept: in a queue that runs and was made for more than two slots (so it has at least four), when no
  call is under way, the items pushed and not
  popped are exactly those in the slots from \<open>out\<close> to \<open>in\<close>, and each of them has a later ticket
  than every item popped.\<close>

theorem queue_fifo_conserved:
  assumes "queue_new sz zero = Some q0" "2 < sz" "reach q0 s" "running (shared s)" "quiet s"
  shows "set (zip (live_tickets (shared s)) (contents (shared s))) = set (pushed s) - set (popped s)
    \<and> (\<forall>(t, x) \<in> set (popped s). \<forall>(u, y) \<in> set (pushed s) - set (popped s). t < u)"
  using quiet_order[OF assms] .

lemma queue_fifo_conserved_witness:
  "set (zip (live_tickets (shared demo_state)) (contents (shared demo_state))) = {(1, 8)}"
  using queue_fifo_conserved[OF demo_new _ demo_reach demo_running demo_quiet] by (simp add: demo_state_eq)

text \<open>C3: a push alone on a queue that runs, was made for more than two slots, is not full and whose tickets have not reached the largest
  \<open>int\<close> returns after finitely many steps and appends the item: the queue refines a list of items on which push is \<open>@\<close>.\<close>

theorem queue_push_appends:
  assumes "queue_new sz zero = Some q0" "2 < sz" "reach q0 s" "running (shared s)" "quiet s"
    and "qin (shared s) - qout (shared s) \<le> qmask q0" "qin (shared s) < int_max"
  shows "\<exists>m s'. exec_all (CallPush th x w # replicate m (Run th True) @ [Return th]) s = Some s'
    \<and> quiet s' \<and> contents (shared s') = contents (shared s) @ [x]"
proof -
  obtain k where inv: "queue_inv k s" and k: "qmask q0 = 2 ^ k - 1" using queue_inv_reach[OF assms(1-4)] by blast
  obtain j where "j \<le> 30" "qmask q0 = 2 ^ j - 1"
    using queue_new_shape[OF assms(1)] by (metis queue.select_convs(5))
  then have "(2::int) ^ k = 2 ^ j" using k by simp
  then have "k \<le> 30" using \<open>j \<le> 30\<close> by simp
  then show ?thesis using solo_push[OF inv assms(4,5)] assms(6,7) k by simp
qed

lemma queue_push_appends_witness:
  "\<exists>m s'. exec_all (CallPush 5 9 False # replicate m (Run 5 True) @ [Return 5]) demo_state = Some s'
    \<and> contents (shared s') = [8, 9]"
proof -
  have "contents (shared demo_state) = [8]"
    by (simp add: demo_state_eq contents_def live_tickets_def slot_def upto.simps)
  then show ?thesis
    using queue_push_appends[OF demo_new _ demo_reach demo_running demo_quiet, of 5 9 False]
    by (auto simp: demo_state_eq demo_queue_eq int_max_def)
qed

text \<open>C4: a pop alone on a queue with items that runs, was made for more than two slots and whose tickets have not reached the largest
  \<open>int\<close> returns after finitely many steps with the oldest item, which is removed.\<close>

theorem queue_pop_takes_first:
  assumes "queue_new sz zero = Some q0" "2 < sz" "reach q0 s" "running (shared s)" "quiet s"
    and "contents (shared s) = x # xs" "qout (shared s) < int_max"
  shows "\<exists>m t s'. exec_all (CallPop th w # replicate m (Run th True)) s = Some s'
    \<and> pcs s' th = ORet t (Some x) \<and> contents (shared s') = xs"
proof -
  obtain k where inv: "queue_inv k s" using queue_inv_reach[OF assms(1-4)] by blast
  show ?thesis using solo_pop[OF inv assms(4-7)] by blast
qed

lemma queue_pop_takes_first_witness:
  "\<exists>m t s'. exec_all (CallPop 5 True # replicate m (Run 5 True)) demo_state = Some s'
    \<and> pcs s' 5 = ORet t (Some 8) \<and> contents (shared s') = []"
proof -
  have c: "contents (shared demo_state) = 8 # []"
    by (simp add: demo_state_eq contents_def live_tickets_def slot_def upto.simps)
  show ?thesis
    by (rule queue_pop_takes_first[OF demo_new _ demo_reach demo_running demo_quiet c])
      (simp_all add: demo_state_eq int_max_def)
qed

text \<open>The bound of four slots is needed. With the default size 1 there is a run in which one
  pushed item is popped twice, once under a ticket that no push returned.\<close>

theorem queue_size_one_duplicates:
  "\<exists>s. reach (the (queue_new 1 (0::int))) s \<and> running (shared s)
    \<and> pushed s = [(-1, 7)] \<and> popped s = [(1, 7), (-1, 7)]"
proof -
  let ?as = "CallPush 0 7 True # replicate 10 (Run 0 True) @ [Return 0] @
      CallPop 1 True # replicate 8 (Run 1 True) @ CallPop 2 True # replicate 2 (Run 2 True) @
      CallPop 3 True # replicate 8 (Run 3 True) @ [Return 3] @ replicate 2 (Run 1 True) @ [Return 1]"
  have "map_option (\<lambda>s. (running (shared s), pushed s, popped s))
      (exec_all ?as (start (the (queue_new 1 (0::int))))) = Some (True, [(-1, 7)], [(1, 7), (-1, 7)])"
    by code_simp
  then show ?thesis using exec_all_reach[OF _ reach.init, of ?as "the (queue_new 1 (0::int))"] by auto
qed

text \<open>On an empty queue whose \<open>out\<close> has skipped the ticket 0 ahead of \<open>in\<close> - after one push,
  one pop and one failed pop - a pop with \<open>wait = false\<close> does not return 0: alone, it never
  returns, however long it runs and however its compare-exchanges fare.\<close>

theorem queue_nowait_pop_spins:
  "\<exists>s. reach demo_queue s \<and> running (shared s) \<and> quiet s \<and> contents (shared s) = []
    \<and> (\<forall>chs. \<exists>s'. exec_all (CallPop 0 False # map (Run 0) chs) s = Some s'
        \<and> (\<forall>t r. pcs s' 0 \<noteq> ORet t r))"
proof -
  obtain s where s: "reach demo_queue s" "shared s = spin_queue" "quiet s" using spin_reached by blast
  have "\<exists>s'. exec_all (CallPop 0 False # map (Run 0) chs) s = Some s' \<and> (\<forall>t r. pcs s' 0 \<noteq> ORet t r)" for chs
  proof -
    have "\<exists>s'. exec_all (map (Run 0) chs) (s\<lparr>pcs := (pcs s)(0 := OLoad False)\<rparr>) = Some s' \<and> pcs s' 0 \<in> spin_pcs"
      using s by (intro spin_forever) (simp_all add: spin_pcs_def)
    then obtain s' where s': "exec_all (map (Run 0) chs) (s\<lparr>pcs := (pcs s)(0 := OLoad False)\<rparr>) = Some s'"
      "pcs s' 0 \<in> spin_pcs" by blast
    have "pcs s 0 = Idle" using s(3) by (simp add: quiet_def)
    then have "exec_all (CallPop 0 False # map (Run 0) chs) s = Some s'" using s'(1) by simp
    moreover have "pcs s' 0 \<noteq> ORet t r" for t r using s'(2) by (auto simp: spin_pcs_def)
    ultimately show ?thesis by blast
  qed
  moreover have "contents (shared s) = []" by (simp add: s spin_queue_def contents_def live_tickets_def)
  ultimately show ?thesis using s by (intro exI[of _ s]) (simp add: spin_queue_def)
qed

end
