(* ===== verification/Pool.thy ===== *)
theory Pool
  imports UniqQueue
begin

text \<open>
  \<open>cpp/lib/pool.h\<close> and \<open>cpp/lib/Worker.h\<close>: threads that take functions from a \<open>uniq::Queue\<close> and run
  them. A \<open>ThreadPool\<close> is a queue with any number of such threads, a \<open>Worker\<close> a queue with one. The
  model composes the queue's own system (\<open>exec\<close> of \<open>UniqQueue\<close>) with the loops of the workers and
  with the calls of \<open>run\<close>, which any other thread and any function under way may make.
\<close>

section \<open>State\<close>

datatype kind = ThreadPool | Worker

text \<open>Where a worker is in its loop; every other thread is a \<open>Client\<close>.\<close>

datatype 'a work =
    Client
  | WTest                                  \<comment> \<open>at \<open>running()\<close>\<close>
  | WPop                                   \<comment> \<open>in \<open>pop(f)\<close>\<close>
  | WTask 'a                               \<comment> \<open>in \<open>f()\<close>\<close>
  | WSleep                                 \<comment> \<open>at \<open>sleep(1)\<close>, a \<open>Worker\<close> only\<close>
  | WDone

text \<open>Where a thread is in \<open>run(f)\<close>.\<close>

datatype 'a call =
    NoCall
  | RTest 'a                               \<comment> \<open>at \<open>!running()\<close>, a \<open>ThreadPool\<close> only\<close>
  | RCount 'a                              \<comment> \<open>at \<open>counter() < 0\<close>\<close>
  | RStart 'a                              \<comment> \<open>at \<open>start()\<close>\<close>
  | RPush                                  \<comment> \<open>in \<open>push(f)\<close>\<close>

text \<open>
  The log \<open>started\<close> of the functions started, with the tickets they were popped under, and the flag
  \<open>stopped\<close> of a call of \<open>stop()\<close> are ghost state. \<open>aborted\<close> is the end of the process by
  \<open>std::terminate\<close>.
\<close>

record 'a pool =
  psys :: "'a system"
  work :: "nat \<Rightarrow> 'a work"
  calls :: "nat \<Rightarrow> 'a call"
  started :: "(int \<times> 'a) list"
  stopped :: bool
  aborted :: bool

text \<open>The constructor: \<open>n\<close> threads in the worker's loop, the others clients.\<close>

definition pool_new :: "'a queue \<Rightarrow> nat \<Rightarrow> 'a pool" where
  "pool_new q0 n = \<lparr>psys = start q0, work = (\<lambda>th. if th < n then WTest else Client),
     calls = (\<lambda>_. NoCall), started = [], stopped = False, aborted = False\<rparr>"

section \<open>Steps\<close>

text \<open>A step of the queue under the pool.\<close>

definition lift_exec :: "'a action \<Rightarrow> 'a pool \<Rightarrow> 'a pool option" where
  "lift_exec a p = map_option (\<lambda>s. p\<lparr>psys := s\<rparr>) (exec a (psys p))"

definition set_work :: "nat \<Rightarrow> 'a work \<Rightarrow> 'a pool \<Rightarrow> 'a pool" where
  "set_work th w p = p\<lparr>work := (work p)(th := w)\<rparr>"

definition set_call :: "nat \<Rightarrow> 'a call \<Rightarrow> 'a pool \<Rightarrow> 'a pool" where
  "set_call th c p = p\<lparr>calls := (calls p)(th := c)\<rparr>"

definition pool_running :: "'a pool \<Rightarrow> bool" where
  "pool_running p = running (shared (psys p))"

definition begin_push :: "nat \<Rightarrow> 'a \<Rightarrow> 'a pool \<Rightarrow> 'a pool option" where
  "begin_push th x p = lift_exec (CallPush th x True) (set_call th RPush p)"

definition begin_pop :: "nat \<Rightarrow> 'a pool \<Rightarrow> 'a pool option" where
  "begin_pop th p = lift_exec (CallPop th True) (set_work th WPop p)"

text \<open>\<open>run(f)\<close>: \<open>if(!running() && counter() < 0) start(); return push(f);\<close>\<close>

fun call_step :: "nat \<Rightarrow> bool \<Rightarrow> 'a call \<Rightarrow> 'a pool \<Rightarrow> 'a pool option" where
  "call_step th ch (RTest x) p =
     (if pool_running p then begin_push th x p else Some (set_call th (RCount x) p))"
| "call_step th ch (RCount x) p =
     (if qout (shared (psys p)) - 1 < 0 then Some (set_call th (RStart x) p) else begin_push th x p)"
| "call_step th ch (RStart x) p =
     begin_push th x (p\<lparr>psys := (psys p)\<lparr>shared := (shared (psys p))\<lparr>running := True\<rparr>\<rparr>\<rparr>)"
| "call_step th ch RPush p = (case pcs (psys p) th of
       PRet i \<Rightarrow> lift_exec (Return th) (set_call th NoCall p)
     | _ \<Rightarrow> lift_exec (Run th ch) p)"
| "call_step th ch NoCall p = None"

text \<open>
  The loop of a worker: \<open>while(running() && pop(f)) f();\<close> of a pool and
  \<open>while(running()) { try { while(pop(f)) f(); } catch(...) { \<dots> } sleep(1); }\<close> of a \<open>Worker\<close>.
\<close>

definition no_task :: "kind \<Rightarrow> 'a work" where
  "no_task kd = (case kd of ThreadPool \<Rightarrow> WDone | Worker \<Rightarrow> WSleep)"

fun work_step :: "kind \<Rightarrow> nat \<Rightarrow> bool \<Rightarrow> 'a work \<Rightarrow> 'a pool \<Rightarrow> 'a pool option" where
  "work_step kd th ch WTest p = (if pool_running p then begin_pop th p else Some (set_work th WDone p))"
| "work_step kd th ch WPop p = (case pcs (psys p) th of
       ORet t r \<Rightarrow>
         (if t = 0 then lift_exec (Return th) (set_work th (no_task kd) p)
          else (case r of None \<Rightarrow> None
            | Some x \<Rightarrow> lift_exec (Return th) (set_work th (WTask x) (p\<lparr>started := started p @ [(t, x)]\<rparr>))))
     | _ \<Rightarrow> lift_exec (Run th ch) p)"
| "work_step kd th ch (WTask x) p =
     (case kd of ThreadPool \<Rightarrow> Some (set_work th WTest p) | Worker \<Rightarrow> begin_pop th p)"
| "work_step kd th ch WSleep p = Some (set_work th WTest p)"
| "work_step kd th ch _ p = None"

text \<open>An exception out of \<open>f()\<close>: a \<open>Worker\<close> catches it, in a pool it leaves the thread's function.\<close>

definition throw_step :: "kind \<Rightarrow> nat \<Rightarrow> 'a pool \<Rightarrow> 'a pool option" where
  "throw_step kd th p = (case (calls p th, work p th) of
       (NoCall, WTask x) \<Rightarrow> (case kd of ThreadPool \<Rightarrow> Some (p\<lparr>aborted := True\<rparr>)
                                    | Worker \<Rightarrow> Some (set_work th WSleep p))
     | _ \<Rightarrow> None)"

text \<open>A client and a function under way may call \<open>run\<close> and \<open>stop\<close>.\<close>

definition may_call :: "nat \<Rightarrow> 'a pool \<Rightarrow> bool" where
  "may_call th p = (case (calls p th, work p th) of
      (NoCall, Client) \<Rightarrow> True | (NoCall, WTask x) \<Rightarrow> True | _ \<Rightarrow> False)"

datatype 'a pool_action = Submit nat 'a | Step nat bool | Throw nat | StopPool nat

fun pool_exec :: "kind \<Rightarrow> 'a pool_action \<Rightarrow> 'a pool \<Rightarrow> 'a pool option" where
  "pool_exec kd (Submit th x) p = (if aborted p \<or> \<not> may_call th p then None
     else case kd of ThreadPool \<Rightarrow> Some (set_call th (RTest x) p) | Worker \<Rightarrow> begin_push th x p)"
| "pool_exec kd (Step th ch) p = (if aborted p then None
     else if calls p th \<noteq> NoCall then call_step th ch (calls p th) p
     else work_step kd th ch (work p th) p)"
| "pool_exec kd (Throw th) p = (if aborted p then None else throw_step kd th p)"
| "pool_exec kd (StopPool th) p = (if aborted p \<or> \<not> may_call th p then None
     else lift_exec Stop (p\<lparr>stopped := True\<rparr>))"

inductive pool_reach :: "kind \<Rightarrow> 'a queue \<Rightarrow> nat \<Rightarrow> 'a pool \<Rightarrow> bool" for kd q0 n where
  init: "pool_reach kd q0 n (pool_new q0 n)"
| step: "pool_reach kd q0 n p \<Longrightarrow> pool_exec kd a p = Some p' \<Longrightarrow> pool_reach kd q0 n p'"

fun pool_exec_all :: "kind \<Rightarrow> 'a pool_action list \<Rightarrow> 'a pool \<Rightarrow> 'a pool option" where
  "pool_exec_all kd [] p = Some p"
| "pool_exec_all kd (a # as) p = (case pool_exec kd a p of None \<Rightarrow> None | Some p' \<Rightarrow> pool_exec_all kd as p')"

lemma pool_exec_all_reach:
  "pool_exec_all kd as p = Some p' \<Longrightarrow> pool_reach kd q0 n p \<Longrightarrow> pool_reach kd q0 n p'"
  by (induction as arbitrary: p) (auto split: option.splits intro: pool_reach.step)

section \<open>Well-formed states\<close>

definition pushing :: "'a pc \<Rightarrow> bool" where
  "pushing pc = (case pc of PLoad w x \<Rightarrow> True | PFullIn w x i ph \<Rightarrow> True | PFullOut w x i j ph \<Rightarrow> True
     | PRunning w x i ph \<Rightarrow> True | PIsFree w x i \<Rightarrow> True | PCas w x i \<Rightarrow> True | PStore x i \<Rightarrow> True
     | PClear x i \<Rightarrow> True | PRet i \<Rightarrow> True | _ \<Rightarrow> False)"

definition popping :: "'a pc \<Rightarrow> bool" where
  "popping pc = (pc \<noteq> Idle \<and> \<not> pushing pc)"

definition calling :: "'a work \<Rightarrow> bool" where
  "calling w = (case w of Client \<Rightarrow> True | WTask x \<Rightarrow> True | _ \<Rightarrow> False)"

text \<open>The three layers of a thread fit: only \<open>run\<close> pushes, only the worker's loop pops.\<close>

definition frame_ok :: "'a work \<Rightarrow> 'a call \<Rightarrow> 'a pc \<Rightarrow> bool" where
  "frame_ok w c pc = (case c of
       NoCall \<Rightarrow> (if w = WPop then popping pc else pc = Idle)
     | RPush \<Rightarrow> calling w \<and> pushing pc
     | _ \<Rightarrow> calling w \<and> pc = Idle)"

definition pool_wf :: "'a pool \<Rightarrow> bool" where
  "pool_wf p \<longleftrightarrow> (\<forall>th. frame_ok (work p th) (calls p th) (pcs (psys p) th))"

lemmas pool_updates = lift_exec_def set_work_def set_call_def begin_push_def begin_pop_def

lemma push_step_kind: "push_step ch p q = Some (p', q') \<Longrightarrow> pushing p \<and> pushing p'"
  by (cases p) (auto simp: pushing_def enter_full_def split: if_splits)

lemma pop_step_kind: "pop_step ch p q = Some (p', q') \<Longrightarrow> popping p \<and> popping p'"
  by (cases p) (auto simp: popping_def pushing_def enter_empty_def split: if_splits)

lemma thread_step_kind:
  "thread_step ch p q = Some (p', q') \<Longrightarrow> (pushing p \<longrightarrow> pushing p') \<and> (popping p \<longrightarrow> popping p')"
  using push_step_kind[of ch p q p' q'] pop_step_kind[of ch p q p' q']
  by (auto simp: thread_step_def popping_def split: option.splits)

lemma pool_wf_upd:
  assumes "pool_wf p" "frame_ok w c pc"
    and "work p' = (work p)(th := w)" "calls p' = (calls p)(th := c)" "pcs (psys p') = (pcs (psys p))(th := pc)"
  shows "pool_wf p'"
  using assms by (simp add: pool_wf_def)

lemma frame_at: "pool_wf p \<Longrightarrow> frame_ok (work p th) (calls p th) (pcs (psys p) th)"
  by (simp add: pool_wf_def)

lemma run_pcs: "exec (Run th ch) s = Some s' \<Longrightarrow> \<exists>pc. pcs s' = (pcs s)(th := pc)
    \<and> (pushing (pcs s th) \<longrightarrow> pushing pc) \<and> (popping (pcs s th) \<longrightarrow> popping pc)"
  by (auto split: option.splits dest: thread_step_kind)

lemma return_pcs: "exec (Return th) s = Some s' \<Longrightarrow> pcs s' = (pcs s)(th := Idle)"
  by (drule exec_ReturnD) simp

lemma begin_push_wf:
  assumes "pool_wf p" "calling (work p th)" "begin_push th x p = Some p'"
  shows "pool_wf p'"
proof -
  have "p' = p\<lparr>calls := (calls p)(th := RPush), psys := (psys p)\<lparr>pcs := (pcs (psys p))(th := PLoad True x)\<rparr>\<rparr>"
    using assms(3) by (auto simp: pool_updates split: if_splits)
  then show ?thesis using assms(2)
    by (intro pool_wf_upd[OF assms(1), of "work p th" RPush "PLoad True x" p' th])
      (simp_all add: frame_ok_def pushing_def)
qed

lemma begin_pop_wf:
  assumes "pool_wf p" "calls p th = NoCall" "begin_pop th p = Some p'"
  shows "pool_wf p'"
proof -
  have "p' = p\<lparr>work := (work p)(th := WPop), psys := (psys p)\<lparr>pcs := (pcs (psys p))(th := OLoad True)\<rparr>\<rparr>"
    using assms(3) by (auto simp: pool_updates split: if_splits)
  then show ?thesis using assms(2)
    by (intro pool_wf_upd[OF assms(1), of WPop NoCall "OLoad True" p' th])
      (simp_all add: frame_ok_def pushing_def popping_def fun_upd_idem)
qed

lemma set_work_wf:
  assumes "pool_wf p" "calls p th = NoCall" "work p th \<noteq> WPop" "w \<noteq> WPop"
  shows "pool_wf (set_work th w p)"
proof -
  have "pcs (psys p) th = Idle" using frame_at[OF assms(1), of th] assms(2,3) by (simp add: frame_ok_def)
  then show ?thesis using assms(2,4)
    by (intro pool_wf_upd[OF assms(1), of w NoCall Idle _ th])
      (simp_all add: set_work_def frame_ok_def fun_upd_idem)
qed

lemma set_call_wf:
  assumes "pool_wf p" "calling (work p th)" "calls p th \<noteq> RPush" "c \<noteq> RPush" "c \<noteq> NoCall"
  shows "pool_wf (set_call th c p)"
proof -
  have w: "work p th \<noteq> WPop" using assms(2) by (auto simp: calling_def)
  then have "pcs (psys p) th = Idle" using frame_at[OF assms(1), of th] assms(3)
    by (auto simp: frame_ok_def split: call.splits)
  then show ?thesis using assms(2,4,5) w
    by (intro pool_wf_upd[OF assms(1), of "work p th" c Idle _ th])
      (simp_all add: set_call_def frame_ok_def fun_upd_idem split: call.splits)
qed

lemma run_wf:
  assumes "pool_wf p" "lift_exec (Run th ch) p = Some p'" and "calls p th = RPush \<or> calls p th = NoCall \<and> work p th = WPop"
  shows "pool_wf p'"
proof -
  obtain s' where s': "exec (Run th ch) (psys p) = Some s'" and p': "p' = p\<lparr>psys := s'\<rparr>"
    using assms(2) by (auto simp: lift_exec_def)
  obtain pc where pc: "pcs s' = (pcs (psys p))(th := pc)" "pushing (pcs (psys p) th) \<longrightarrow> pushing pc"
    "popping (pcs (psys p) th) \<longrightarrow> popping pc" using run_pcs[OF s'] by blast
  show ?thesis using frame_at[OF assms(1), of th] assms(3) pc p'
    by (intro pool_wf_upd[OF assms(1), of "work p th" "calls p th" pc p' th])
      (auto simp: frame_ok_def)
qed

lemma return_wf:
  assumes "pool_wf p" "lift_exec (Return th) p1 = Some p'"
    and "psys p1 = psys p" "calls p1 = (calls p)(th := NoCall)" "work p1 = (work p)(th := w)" "w \<noteq> WPop"
  shows "pool_wf p'"
proof -
  obtain s' where "exec (Return th) (psys p) = Some s'" "p' = p1\<lparr>psys := s'\<rparr>"
    using assms(2,3) by (auto simp: lift_exec_def simp del: exec.simps)
  then show ?thesis using assms return_pcs[of th "psys p" s']
    by (intro pool_wf_upd[OF assms(1), of w NoCall Idle p' th]) (auto simp: frame_ok_def)
qed

lemma call_step_wf:
  assumes "pool_wf p" "calls p th = c" "c \<noteq> NoCall" "call_step th ch c p = Some p'"
  shows "pool_wf p'"
proof -
  have w: "calling (work p th)" using frame_at[OF assms(1), of th] assms(2,3)
    by (auto simp: frame_ok_def split: call.splits)
  show ?thesis
  proof (cases c)
    case (RTest x)
    then show ?thesis using assms w begin_push_wf[of p th x p'] set_call_wf[of p th "RCount x"]
      by (auto split: if_splits)
  next
    case (RCount x)
    then show ?thesis using assms w begin_push_wf[of p th x p'] set_call_wf[of p th "RStart x"]
      by (auto split: if_splits)
  next
    case (RStart x)
    let ?p = "p\<lparr>psys := (psys p)\<lparr>shared := (shared (psys p))\<lparr>running := True\<rparr>\<rparr>\<rparr>"
    have "pool_wf ?p" using assms(1) by (simp add: pool_wf_def)
    then show ?thesis using RStart assms(4) w begin_push_wf[of ?p th x p'] by simp
  next
    case RPush
    show ?thesis
    proof (cases "\<exists>i. pcs (psys p) th = PRet i")
      case True
      then have "lift_exec (Return th) (set_call th NoCall p) = Some p'" using assms(4) RPush by auto
      then show ?thesis using w
        by (rule_tac return_wf[OF assms(1), of th "set_call th NoCall p" p' "work p th"])
          (auto simp: set_call_def calling_def)
    next
      case False
      then have "lift_exec (Run th ch) p = Some p'" using assms(4) RPush by (auto split: pc.splits)
      then show ?thesis using run_wf[OF assms(1)] assms(2) RPush by blast
    qed
  qed (use assms in auto)
qed

lemma work_step_wf:
  assumes "pool_wf p" "calls p th = NoCall" "work p th = w" "work_step kd th ch w p = Some p'"
  shows "pool_wf p'"
proof (cases w)
  case WTest
  then show ?thesis using assms begin_pop_wf[of p th p'] set_work_wf[of p th WDone] by (auto split: if_splits)
next
  case WPop
  show ?thesis
  proof (cases "\<exists>t r. pcs (psys p) th = ORet t r")
    case True
    then obtain t r where pc: "pcs (psys p) th = ORet t r" by blast
    let ?x = "the r"
    have "lift_exec (Return th) (set_work th (no_task kd) p) = Some p'
      \<or> lift_exec (Return th) (set_work th (WTask ?x) (p\<lparr>started := started p @ [(t, ?x)]\<rparr>)) = Some p'"
      using assms(4) WPop pc by (auto split: if_splits option.splits)
    moreover have "(calls p)(th := NoCall) = calls p" using assms(2) by (simp add: fun_upd_idem)
    ultimately show ?thesis using assms(2)
      return_wf[OF assms(1), of th "set_work th (no_task kd) p" p' "no_task kd"]
      return_wf[OF assms(1), of th "set_work th (WTask ?x) (p\<lparr>started := started p @ [(t, ?x)]\<rparr>)" p' "WTask ?x"]
      by (auto simp: set_work_def no_task_def split: kind.splits)
  next
    case False
    then have "lift_exec (Run th ch) p = Some p'" using assms(4) WPop by (auto split: pc.splits)
    then show ?thesis using run_wf[OF assms(1)] assms(2,3) WPop by blast
  qed
next
  case (WTask x)
  then show ?thesis using assms begin_pop_wf[of p th p'] set_work_wf[of p th WTest] by (auto split: kind.splits)
next
  case WSleep
  then show ?thesis using assms set_work_wf[of p th WTest] by auto
qed (use assms in auto)

lemma pool_exec_wf:
  assumes "pool_wf p" "pool_exec kd a p = Some p'"
  shows "pool_wf p'"
proof (cases a)
  case (Submit th x)
  then have "calls p th = NoCall" "calling (work p th)" using assms(2)
    by (auto simp: may_call_def calling_def split: if_splits call.splits work.splits)
  then show ?thesis using Submit assms set_call_wf[of p th "RTest x"] begin_push_wf[of p th x p']
    by (auto split: if_splits kind.splits)
next
  case (Step th ch)
  then show ?thesis using assms call_step_wf[OF assms(1)] work_step_wf[OF assms(1)] by (auto split: if_splits)
next
  case (Throw th)
  then show ?thesis using assms set_work_wf[of p th WSleep]
    by (auto simp: throw_step_def pool_wf_def split: if_splits kind.splits call.splits work.splits)
next
  case (StopPool th)
  then show ?thesis using assms by (auto simp: lift_exec_def pool_wf_def split: if_splits)
qed

lemma pool_new_wf: "pool_wf (pool_new q0 n)"
  by (simp add: pool_wf_def pool_new_def frame_ok_def start_def)

lemma pool_reach_wf: "pool_reach kd q0 n p \<Longrightarrow> pool_wf p"
  by (induction rule: pool_reach.induct) (auto intro: pool_new_wf pool_exec_wf)

section \<open>Every function runs once\<close>

text \<open>
  The functions popped are those started and those with which a \<open>pop\<close> is about to return; no
  ticket is in two of these places.
\<close>

definition pending :: "'a system \<Rightarrow> (int \<times> 'a) set" where
  "pending s = {(t, x). \<exists>th. pcs s th = ORet t (Some x)}"

definition delivered :: "'a system \<Rightarrow> (int \<times> 'a) list \<Rightarrow> bool" where
  "delivered s l \<longleftrightarrow> distinct (map fst l) \<and> set (popped s) = set l \<union> pending s
     \<and> (\<forall>th t. pcs s th = ORet t None \<longrightarrow> t = 0)
     \<and> (\<forall>th t x. pcs s th = ORet t (Some x) \<longrightarrow> t \<noteq> 0 \<and> t \<notin> fst ` set l)
     \<and> (\<forall>th th' t x y. pcs s th = ORet t (Some x) \<longrightarrow> pcs s th' = ORet t (Some y) \<longrightarrow> th = th')"

lemma deliveredI:
  assumes "distinct (map fst l)" "set (popped s) = set l \<union> pending s"
    "\<And>th t. pcs s th = ORet t None \<Longrightarrow> t = 0"
    "\<And>th t x. pcs s th = ORet t (Some x) \<Longrightarrow> t \<noteq> 0 \<and> t \<notin> fst ` set l"
    "\<And>th th' t x y. pcs s th = ORet t (Some x) \<Longrightarrow> pcs s th' = ORet t (Some y) \<Longrightarrow> th = th'"
  shows "delivered s l"
  unfolding delivered_def using assms by blast

lemma deliveredD:
  assumes "delivered s l"
  shows "distinct (map fst l)" "set (popped s) = set l \<union> pending s"
    "pcs s th = ORet t None \<Longrightarrow> t = 0"
    "pcs s th = ORet t (Some x) \<Longrightarrow> t \<noteq> 0" "pcs s th = ORet t (Some x) \<Longrightarrow> t \<notin> fst ` set l"
    "pcs s th = ORet t (Some x) \<Longrightarrow> pcs s th' = ORet t (Some y) \<Longrightarrow> th = th'"
  using assms unfolding delivered_def by blast+

definition ret_of :: "'a pc \<Rightarrow> (int \<times> 'a) option" where
  "ret_of pc = (case pc of ORet t (Some x) \<Rightarrow> Some (t, x) | _ \<Rightarrow> None)"

lemma ret_of_Some [simp]: "ret_of pc = Some (t, x) \<longleftrightarrow> pc = ORet t (Some x)"
  by (auto simp: ret_of_def split: pc.splits option.splits)

lemma pending_upd:
  assumes "pcs s' = (pcs s)(th := pc)" "\<And>t x th'. pcs s th = ORet t (Some x) \<Longrightarrow> pcs s th' = ORet t (Some x) \<Longrightarrow> th' = th"
  shows "pending s' = (pending s - set_option (ret_of (pcs s th))) \<union> set_option (ret_of pc)"
proof (intro set_eqI)
  fix r :: "int \<times> 'a"
  obtain t x where r: "r = (t, x)" by (cases r)
  have "(\<exists>th'. pcs s' th' = ORet t (Some x)) \<longleftrightarrow>
    pc = ORet t (Some x) \<or> (\<exists>th'. th' \<noteq> th \<and> pcs s th' = ORet t (Some x))"
    unfolding assms(1) by (metis fun_upd_other fun_upd_same)
  also have "(\<exists>th'. th' \<noteq> th \<and> pcs s th' = ORet t (Some x)) \<longleftrightarrow>
    (\<exists>th'. pcs s th' = ORet t (Some x)) \<and> pcs s th \<noteq> ORet t (Some x)"
    using assms(2) by metis
  finally show "r \<in> pending s' \<longleftrightarrow> r \<in> (pending s - set_option (ret_of (pcs s th))) \<union> set_option (ret_of pc)"
    by (auto simp: r pending_def)
qed

lemma delivered_local:
  assumes d: "delivered s l" and "popped s' = popped s" "pcs s' = (pcs s)(th := pc)"
    and old: "ret_of (pcs s th) = None" and new: "ret_of pc = None" "\<And>t. pc = ORet t None \<Longrightarrow> t = 0"
  shows "delivered s' l"
proof (rule deliveredI)
  have "pending s' = pending s"
    using pending_upd[OF assms(3)] old new(1) deliveredD(6)[OF d] by simp
  then show "set (popped s') = set l \<union> pending s'" using deliveredD(2)[OF d] assms(2) by simp
  have pc: "pc \<noteq> ORet t (Some x)" for t x using new(1) by (auto simp: ret_of_def)
  fix th1 t
  show "pcs s' th1 = ORet t None \<Longrightarrow> t = 0"
    using deliveredD(3)[OF d, of th1 t] assms(3) new(2) by (auto split: if_splits)
  fix x assume t1: "pcs s' th1 = ORet t (Some x)"
  then have s: "pcs s th1 = ORet t (Some x)" using assms(3) pc by (auto split: if_splits)
  then show "t \<noteq> 0 \<and> t \<notin> fst ` set l" using deliveredD(4,5)[OF d] by blast
  fix th2 y assume "pcs s' th2 = ORet t (Some y)"
  then have "pcs s th2 = ORet t (Some y)" using assms(3) pc by (auto split: if_splits)
  then show "th1 = th2" using deliveredD(6)[OF d] s by blast
qed (rule deliveredD(1)[OF d])

lemma delivered_free:
  assumes d: "delivered s l" and po: "popped s' = popped s @ [(t, x)]"
    and pc: "pcs s' = (pcs s)(th := ORet t (Some x))"
    and new: "t \<notin> fst ` set (popped s)" "t \<noteq> 0" "ret_of (pcs s th) = None"
  shows "delivered s' l"
proof (rule deliveredI)
  have "pending s' = insert (t, x) (pending s)"
    using pending_upd[OF pc] new(3) deliveredD(6)[OF d] by (simp add: ret_of_def)
  then show "set (popped s') = set l \<union> pending s'" using deliveredD(2)[OF d] po by simp
  have tl: "t \<notin> fst ` set l" using deliveredD(2)[OF d] new(1) by auto
  have other: "pcs s th' \<noteq> ORet t (Some y)" for th' y
    using deliveredD(2)[OF d] new(1) by (force simp: pending_def)
  fix th1 u
  show "pcs s' th1 = ORet u None \<Longrightarrow> u = 0"
    using deliveredD(3)[OF d, of th1 u] pc by (auto split: if_splits)
  fix y assume t1: "pcs s' th1 = ORet u (Some y)"
  show "u \<noteq> 0 \<and> u \<notin> fst ` set l"
    using t1 deliveredD(4,5)[OF d, of th1 u y] pc new(2) tl by (auto split: if_splits)
  fix th2 z assume "pcs s' th2 = ORet u (Some z)"
  then show "th1 = th2" using t1 pc other deliveredD(6)[OF d, of th1 u y th2 z] by (auto split: if_splits)
qed (rule deliveredD(1)[OF d])

lemma delivered_return:
  assumes d: "delivered s l" and po: "popped s' = popped s"
    and pc: "pcs s' = (pcs s)(th := Idle)" and th: "pcs s th = ORet t (Some x)"
  shows "delivered s' (l @ [(t, x)])"
proof (rule deliveredI)
  have new: "t \<notin> fst ` set l" using deliveredD(5)[OF d th] .
  then show "distinct (map fst (l @ [(t, x)]))" using deliveredD(1)[OF d] by auto
  have uniq: "pcs s th' = ORet t (Some y) \<Longrightarrow> th' = th" for th' y using deliveredD(6)[OF d th] by blast
  have "pending s' = pending s - {(t, x)}"
    using pending_upd[OF pc] th deliveredD(6)[OF d] by (auto simp: ret_of_def)
  moreover have "(t, x) \<in> pending s" using th by (auto simp: pending_def)
  ultimately show "set (popped s') = set (l @ [(t, x)]) \<union> pending s'"
    using deliveredD(2)[OF d] po by auto
  fix th1 u
  show "pcs s' th1 = ORet u None \<Longrightarrow> u = 0"
    using deliveredD(3)[OF d, of th1 u] pc by (auto split: if_splits)
  fix y assume t1: "pcs s' th1 = ORet u (Some y)"
  then have s: "th1 \<noteq> th" "pcs s th1 = ORet u (Some y)" using pc by (auto split: if_splits)
  then show "u \<noteq> 0 \<and> u \<notin> fst ` set (l @ [(t, x)])"
    using deliveredD(4,5)[OF d s(2)] uniq by auto
  fix th2 z assume "pcs s' th2 = ORet u (Some z)"
  then show "th1 = th2" using pc deliveredD(6)[OF d s(2), of th2 z] by (auto split: if_splits)
qed

lemma thread_step_ret:
  assumes "thread_step ch p q = Some (p', q')"
  shows "(\<forall>t r. p \<noteq> ORet t r) \<and> (\<forall>t r. p' = ORet t r \<longrightarrow>
     (t = 0 \<and> r = None \<and> log_pop p = []) \<or> (\<exists>x. p = OFree t x \<and> r = Some x))
   \<and> (\<forall>t x. p = OFree t x \<longrightarrow> p' = ORet t (Some x))"
proof -
  have push: "push_step ch p q = Some (p', q') \<Longrightarrow> \<not> (\<exists>t r. p' = ORet t r) \<and> \<not> (\<exists>t x. p = OFree t x)
     \<and> \<not> (\<exists>t r. p = ORet t r)"
    by (cases p) (auto simp: enter_full_def split: if_splits)
  have pop: "pop_step ch p q = Some (p', q') \<Longrightarrow> ?thesis"
    by (cases p) (auto simp: enter_empty_def log_pop_def split: if_splits)
  show ?thesis using assms push pop by (auto simp: thread_step_def split: option.splits)
qed

lemma delivered_run:
  assumes inv: "queue_inv k s" and d: "delivered s l" and step: "exec (Run th ch) s = Some s'"
  shows "delivered s' l"
proof -
  obtain p q' where p: "thread_step ch (pcs s th) (shared s) = Some (p, q')"
    and s': "pcs s' = (pcs s)(th := p)" "popped s' = popped s @ log_pop (pcs s th)"
    using step by (auto split: option.splits)
  note R = thread_step_ret[OF p]
  show ?thesis
  proof (cases "\<exists>t x. pcs s th = OFree t x")
    case True
    then obtain t x where tx: "pcs s th = OFree t x" by blast
    then have "t \<noteq> 0" "t \<notin> fst ` set (popped s)"
      using c_ticketD(4,7)[OF inv, of th t] by (simp_all add: c_ticket_def)
    moreover have "p = ORet t (Some x)" using R tx by blast
    ultimately show ?thesis using s' tx by (intro delivered_free[OF d, of s' t x th]) (simp_all add: log_pop_def ret_of_def)
  next
    case False
    then have "log_pop (pcs s th) = []" by (auto simp: log_pop_def split: pc.splits)
    moreover have "ret_of (pcs s th) = None" "ret_of p = None"
      using R False by (auto simp: ret_of_def split: pc.splits option.splits)
    ultimately show ?thesis using s' R False by (intro delivered_local[OF d, of s' th p]) auto
  qed
qed

definition pool_inv :: "'a queue \<Rightarrow> 'a pool \<Rightarrow> bool" where
  "pool_inv q0 p \<longleftrightarrow> pool_wf p \<and> (\<not> stopped p \<longrightarrow> reach q0 (psys p) \<and> pool_running p
     \<and> (\<forall>th x. calls p th \<noteq> RCount x \<and> calls p th \<noteq> RStart x) \<and> delivered (psys p) (started p))"

lemma pool_invI:
  assumes "pool_wf p'" "\<not> stopped p' \<Longrightarrow> reach q0 (psys p')" "\<not> stopped p' \<Longrightarrow> pool_running p'"
    "\<And>th x. \<not> stopped p' \<Longrightarrow> calls p' th \<noteq> RCount x \<and> calls p' th \<noteq> RStart x"
    "\<not> stopped p' \<Longrightarrow> delivered (psys p') (started p')"
  shows "pool_inv q0 p'"
  using assms unfolding pool_inv_def by blast

lemma delivered_call:
  assumes "delivered s l" "exec a s = Some s'" "a = CallPush th x w \<or> a = CallPop th w"
  shows "delivered s' l"
proof -
  obtain pc where "pcs s' = (pcs s)(th := pc)" "popped s' = popped s" "ret_of pc = None" "\<forall>t. pc \<noteq> ORet t None"
    "pcs s th = Idle"
    using assms(2,3) by (auto split: if_splits simp: ret_of_def)
  then show ?thesis by (intro delivered_local[OF assms(1), of s' th pc]) (auto simp: ret_of_def)
qed

text \<open>\<open>lift_exec\<close> on a pool that differs from the invariant one in the loop state only.\<close>

lemma pool_inv_lift:
  assumes inv: "pool_inv q0 p" and e: "lift_exec a p1 = Some p'" "a \<noteq> Stop"
    and p1: "psys p1 = psys p" "stopped p1 = stopped p"
    and c: "\<And>th x. \<not> stopped p \<Longrightarrow> calls p1 th \<noteq> RCount x \<and> calls p1 th \<noteq> RStart x"
    and wf: "pool_wf p'"
    and d: "\<And>s'. \<not> stopped p \<Longrightarrow> exec a (psys p) = Some s' \<Longrightarrow> delivered s' (started p1)"
  shows "pool_inv q0 p'"
proof -
  obtain s' where s': "exec a (psys p) = Some s'" "p' = p1\<lparr>psys := s'\<rparr>"
    using e(1) p1(1) by (auto simp: lift_exec_def simp del: exec.simps)
  show ?thesis
  proof (rule pool_invI[OF wf])
    assume "\<not> stopped p'"
    then have ns: "\<not> stopped p" using s' p1 by simp
    then have "reach q0 (psys p)" "pool_running p" using inv by (auto simp: pool_inv_def)
    then show "reach q0 (psys p')" "pool_running p'"
      using s' exec_running[OF s'(1) e(2)] by (auto intro: reach.step simp: pool_running_def)
    show "delivered (psys p') (started p')" using d[OF ns s'(1)] s' by simp
    show "calls p' th \<noteq> RCount x \<and> calls p' th \<noteq> RStart x" for th x using c[OF ns] s' by simp
  qed
qed

lemma pool_inv_upd:
  assumes "pool_inv q0 p" "psys p' = psys p" "started p' = started p" "stopped p' = stopped p" "pool_wf p'"
    and "\<And>th x. \<not> stopped p \<Longrightarrow> calls p' th \<noteq> RCount x \<and> calls p' th \<noteq> RStart x"
  shows "pool_inv q0 p'"
  using assms by (auto simp: pool_inv_def pool_running_def)

lemma pool_inv_calls: "pool_inv q0 p \<Longrightarrow> \<not> stopped p \<Longrightarrow> calls p th \<noteq> RCount x \<and> calls p th \<noteq> RStart x"
  by (simp add: pool_inv_def)

lemma pool_inv_delivered: "pool_inv q0 p \<Longrightarrow> \<not> stopped p \<Longrightarrow> delivered (psys p) (started p)"
  by (simp add: pool_inv_def)

lemma begin_push_inv:
  assumes inv: "pool_inv q0 p" and w: "calling (work p th)" and e: "begin_push th x p = Some p'"
  shows "pool_inv q0 p'"
proof (rule pool_inv_lift[OF inv e[unfolded begin_push_def]])
  show "pool_wf p'" using begin_push_wf[OF _ w e] inv by (simp add: pool_inv_def)
  show "delivered s' (started (set_call th RPush p))"
    if "\<not> stopped p" "exec (CallPush th x True) (psys p) = Some s'" for s'
    using delivered_call[OF pool_inv_delivered[OF inv that(1)] that(2), of th x True] by (simp add: set_call_def)
qed (auto simp: set_call_def dest: pool_inv_calls[OF inv])

lemma begin_pop_inv:
  assumes inv: "pool_inv q0 p" and c: "calls p th = NoCall" and e: "begin_pop th p = Some p'"
  shows "pool_inv q0 p'"
proof (rule pool_inv_lift[OF inv e[unfolded begin_pop_def]])
  show "pool_wf p'" using begin_pop_wf[OF _ c e] inv by (simp add: pool_inv_def)
  show "delivered s' (started (set_work th WPop p))"
    if "\<not> stopped p" "exec (CallPop th True) (psys p) = Some s'" for s'
    using delivered_call[OF pool_inv_delivered[OF inv that(1)] that(2), of th _ True] by (simp add: set_work_def)
qed (auto simp: set_work_def dest: pool_inv_calls[OF inv])

lemma run_inv:
  assumes new: "queue_new sz zero = Some q0" "2 < sz"
    and inv: "pool_inv q0 p" and e: "lift_exec (Run th ch) p = Some p'" and wf: "pool_wf p'"
  shows "pool_inv q0 p'"
proof (rule pool_inv_lift[OF inv e])
  show "delivered s' (started p)" if ns: "\<not> stopped p" and s': "exec (Run th ch) (psys p) = Some s'" for s'
  proof -
    have "reach q0 (psys p)" "running (shared (psys p))"
      using inv ns by (auto simp: pool_inv_def pool_running_def)
    then obtain k where "queue_inv k (psys p)" using queue_inv_reach[OF new] by blast
    then show ?thesis using delivered_run[OF _ pool_inv_delivered[OF inv ns] s'] by blast
  qed
qed (auto simp: wf dest: pool_inv_calls[OF inv])

lemma return_inv:
  assumes inv: "pool_inv q0 p" and e: "lift_exec (Return th) p1 = Some p'" and wf: "pool_wf p'"
    and p1: "psys p1 = psys p" "stopped p1 = stopped p"
      "started p1 = started p @ (case ret_of (pcs (psys p) th) of None \<Rightarrow> [] | Some r \<Rightarrow> [r])"
    and c: "\<And>th x. \<not> stopped p \<Longrightarrow> calls p1 th \<noteq> RCount x \<and> calls p1 th \<noteq> RStart x"
  shows "pool_inv q0 p'"
proof (rule pool_inv_lift[OF inv e _ p1(1,2) c wf])
  show "delivered s' (started p1)"
    if ns: "\<not> stopped p" and s': "exec (Return th) (psys p) = Some s'" for s'
  proof -
    note d = pool_inv_delivered[OF inv ns]
    have po: "popped s' = popped (psys p)" using exec_ReturnD[OF s'] by simp
    note pc = return_pcs[OF s']
    show ?thesis
    proof (cases "ret_of (pcs (psys p) th)")
      case None
      then show ?thesis using delivered_local[OF d po pc] p1(3) by (simp add: ret_of_def)
    next
      case (Some r)
      obtain t x where "r = (t, x)" by (cases r)
      then have t: "ret_of (pcs (psys p) th) = Some (t, x)" using Some by simp
      then have "started p1 = started p @ [(t, x)]" using p1(3) by (simp only: option.simps)
      then show ?thesis using delivered_return[OF d po pc, of t x] t by simp
    qed
  qed
qed simp_all

lemma call_step_inv:
  assumes new: "queue_new sz zero = Some q0" "2 < sz"
    and inv: "pool_inv q0 p" and c: "calls p th = c" "c \<noteq> NoCall" and e: "call_step th ch c p = Some p'"
  shows "pool_inv q0 p'"
proof -
  have wf: "pool_wf p" using inv by (simp add: pool_inv_def)
  then have w: "calling (work p th)" using frame_at[OF wf, of th] c
    by (auto simp: frame_ok_def split: call.splits)
  note wf' = call_step_wf[OF wf c e]
  show ?thesis
  proof (cases c)
    case (RTest x)
    show ?thesis
    proof (cases "pool_running p")
      case True
      then show ?thesis using begin_push_inv[OF inv w] e RTest by simp
    next
      case False
      then have "stopped p" using inv by (auto simp: pool_inv_def)
      then show ?thesis using e RTest False wf' by (auto simp: pool_inv_def set_call_def)
    qed
  next
    case (RCount x)
    then have st: "stopped p" using pool_inv_calls[OF inv, of th x] c(1) by blast
    show ?thesis
    proof (cases "qout (shared (psys p)) - 1 < 0")
      case True
      then show ?thesis using e RCount st wf' by (auto simp: pool_inv_def set_call_def)
    next
      case False
      then show ?thesis using begin_push_inv[OF inv w] e RCount by simp
    qed
  next
    case (RStart x)
    then have "stopped p" using pool_inv_calls[OF inv, of th x] c(1) by blast
    then have "stopped p'" using e RStart by (auto simp: pool_updates simp del: exec.simps)
    then show ?thesis using wf' by (simp add: pool_inv_def)
  next
    case RPush
    show ?thesis
    proof (cases "\<exists>i. pcs (psys p) th = PRet i")
      case True
      then have "lift_exec (Return th) (set_call th NoCall p) = Some p'" "ret_of (pcs (psys p) th) = None"
        using e RPush by (auto simp: ret_of_def)
      then show ?thesis using wf' pool_inv_calls[OF inv]
        by (intro return_inv[OF inv, of th "set_call th NoCall p" p']) (auto simp: set_call_def)
    next
      case False
      then have "lift_exec (Run th ch) p = Some p'" using e RPush by (auto split: pc.splits)
      then show ?thesis using run_inv[OF new inv _ wf'] by blast
    qed
  qed (use c in auto)
qed

lemma set_work_inv:
  assumes "pool_inv q0 p" "pool_wf (set_work th w p)"
  shows "pool_inv q0 (set_work th w p)"
  using assms by (intro pool_inv_upd[OF assms(1)]) (auto simp: set_work_def dest: pool_inv_calls[OF assms(1)])

lemma work_step_inv:
  assumes new: "queue_new sz zero = Some q0" "2 < sz"
    and inv: "pool_inv q0 p" and c: "calls p th = NoCall" "work p th = w" and e: "work_step kd th ch w p = Some p'"
  shows "pool_inv q0 p'"
proof -
  have wf: "pool_wf p" using inv by (simp add: pool_inv_def)
  note wf' = work_step_wf[OF wf c e]
  show ?thesis
  proof (cases w)
    case WTest
    then show ?thesis using e begin_pop_inv[OF inv c(1)] set_work_inv[OF inv, of th WDone] wf'
      by (auto split: if_splits)
  next
    case WPop
    show ?thesis
    proof (cases "\<exists>t r. pcs (psys p) th = ORet t r")
      case True
      then obtain t r where pc: "pcs (psys p) th = ORet t r" by blast
      show ?thesis
      proof (cases "stopped p")
        case True
        then have "stopped p'" using e WPop pc
          by (auto simp: pool_updates split: if_splits option.splits simp del: exec.simps)
        then show ?thesis using wf' by (simp add: pool_inv_def)
      next
        case False
        note d = pool_inv_delivered[OF inv False]
        consider (none) "t = 0" "r = None" | (task) x where "t \<noteq> 0" "r = Some x"
          using deliveredD(3,4)[OF d, of th t] pc by (cases r) auto
        then show ?thesis
        proof cases
          case none
          then show ?thesis using e WPop pc wf' pool_inv_calls[OF inv]
            by (intro return_inv[OF inv, of th "set_work th (no_task kd) p" p'])
              (auto simp: set_work_def ret_of_def)
        next
          case (task x)
          then show ?thesis using e WPop pc wf' pool_inv_calls[OF inv]
            by (intro return_inv[OF inv, of th "set_work th (WTask x) (p\<lparr>started := started p @ [(t, x)]\<rparr>)" p'])
              (auto simp: set_work_def ret_of_def)
        qed
      qed
    next
      case False
      then have "lift_exec (Run th ch) p = Some p'" using e WPop by (auto split: pc.splits)
      then show ?thesis using run_inv[OF new inv _ wf'] by blast
    qed
  next
    case (WTask x)
    then show ?thesis using e begin_pop_inv[OF inv c(1)] set_work_inv[OF inv, of th WTest] wf'
      by (auto split: kind.splits)
  next
    case WSleep
    then show ?thesis using e set_work_inv[OF inv, of th WTest] wf' by auto
  qed (use e in auto)
qed

lemma pool_exec_inv:
  assumes new: "queue_new sz zero = Some q0" "2 < sz"
    and inv: "pool_inv q0 p" and e: "pool_exec kd a p = Some p'"
  shows "pool_inv q0 p'"
proof -
  have wf: "pool_wf p" using inv by (simp add: pool_inv_def)
  note wf' = pool_exec_wf[OF wf e]
  show ?thesis
  proof (cases a)
    case (Submit th x)
    then have w: "calling (work p th)" using e
      by (auto simp: may_call_def calling_def split: if_splits call.splits work.splits)
    show ?thesis
    proof (cases kd)
      case ThreadPool
      then have "p' = set_call th (RTest x) p" using e Submit by (auto split: if_splits)
      then show ?thesis
        using wf' pool_inv_calls[OF inv] by (intro pool_inv_upd[OF inv]) (auto simp: set_call_def)
    next
      case Worker
      then show ?thesis using e Submit begin_push_inv[OF inv w] by (auto split: if_splits)
    qed
  next
    case (Step th ch)
    then show ?thesis using e call_step_inv[OF new inv] work_step_inv[OF new inv] by (auto split: if_splits)
  next
    case (Throw th)
    then consider "p' = p\<lparr>aborted := True\<rparr>" | "p' = set_work th WSleep p" using e
      by (auto simp: throw_step_def split: if_splits kind.splits call.splits work.splits)
    then show ?thesis
    proof cases
      case 1
      then show ?thesis using wf' pool_inv_calls[OF inv] by (intro pool_inv_upd[OF inv]) simp_all
    next
      case 2
      then show ?thesis using wf' set_work_inv[OF inv] by simp
    qed
  next
    case (StopPool th)
    then have "stopped p'" using e by (auto simp: lift_exec_def split: if_splits)
    then show ?thesis using wf' by (simp add: pool_inv_def)
  qed
qed

lemma pool_reach_inv:
  assumes "queue_new sz zero = Some q0" "2 < sz" "pool_reach kd q0 n p"
  shows "pool_inv q0 p"
  using assms(3)
proof (induction rule: pool_reach.induct)
  case init
  have "running q0" using queue_new_shape[OF assms(1)] by auto
  then show ?case using reach.init[of q0] pool_new_wf[of q0 n]
    by (simp add: pool_inv_def pool_new_def pool_running_def delivered_def pending_def start_def)
next
  case (step p a p')
  then show ?case using pool_exec_inv[OF assms(1,2)] by blast
qed

section \<open>After \<open>stop()\<close>\<close>

text \<open>
  What is left to do of a call once \<open>running\<close> is false: a number that every step of the thread
  lowers and no step of another raises, however the threads interleave.
\<close>

fun stop_rank :: "int \<Rightarrow> 'a pc \<Rightarrow> nat" where
  "stop_rank out (PLoad w x) = 4"
| "stop_rank out (PFullIn w x i ph) = (if ph then 9 else 3)"
| "stop_rank out (PFullOut w x i j ph) = (if ph then 8 else 2)"
| "stop_rank out (PRunning w x i ph) = (if ph then 7 else 1)"
| "stop_rank out (PIsFree w x i) = 6"
| "stop_rank out (PCas w x i) = 5"
| "stop_rank out (PStore x i) = 2"
| "stop_rank out (PClear x i) = 1"
| "stop_rank out (OLoad w) = (if out \<le> 0 then 7 else 5)"
| "stop_rank out (OSkip w) = (if out < 0 then 8 else 6)"
| "stop_rank out (OEmptyOut w t ph) = (if ph then 12 else 4)"
| "stop_rank out (OEmptyIn w t p ph) = (if ph then 11 else 3)"
| "stop_rank out (ORunning w t ph) = (if ph then 10 else 2)"
| "stop_rank out (OIsFree w t) = 9"
| "stop_rank out (OCas w t) = 8"
| "stop_rank out (OTake t) = 2"
| "stop_rank out (OFree t x) = 1"
| "stop_rank out _ = 0"

lemma stop_rank_le: "stop_rank out pc \<le> 12"
  by (cases pc) auto

lemma push_stop_rank:
  "push_step True p q = Some (p', q') \<Longrightarrow> \<not> running q \<Longrightarrow>
    stop_rank (qout q') p' < stop_rank (qout q) p \<and> qout q' = qout q"
  by (cases p) (auto simp: enter_full_def split: if_splits)

lemma pop_stop_rank:
  "pop_step True p q = Some (p', q') \<Longrightarrow> \<not> running q \<Longrightarrow> stop_rank (qout q') p' < stop_rank (qout q) p"
  by (cases p) (auto simp: enter_empty_def split: if_splits)

lemma thread_stop_rank:
  "thread_step True p q = Some (p', q') \<Longrightarrow> \<not> running q \<Longrightarrow> stop_rank (qout q') p' < stop_rank (qout q) p"
  using push_stop_rank[of p q p' q'] pop_stop_rank[of p q p' q']
  by (auto simp: thread_step_def split: option.splits)

lemma thread_step_out: "thread_step ch p q = Some (p', q') \<Longrightarrow> qout q \<le> qout q'"
proof -
  have "push_step ch p q = Some (p', q') \<Longrightarrow> qout q \<le> qout q'"
    by (cases p) (auto split: if_splits)
  moreover have "pop_step ch p q = Some (p', q') \<Longrightarrow> qout q \<le> qout q'"
    by (cases p) (auto split: if_splits)
  ultimately show "thread_step ch p q = Some (p', q') \<Longrightarrow> qout q \<le> qout q'"
    by (auto simp: thread_step_def split: option.splits)
qed

lemma stop_rank_out: "out \<le> out' \<Longrightarrow> stop_rank out' pc \<le> stop_rank out pc"
  by (cases pc) auto

text \<open>The steps of one thread in a schedule.\<close>

definition own :: "nat \<Rightarrow> 'a action list \<Rightarrow> nat" where
  "own th as = length (filter (\<lambda>a. \<exists>ch. a = Run th ch) as)"

lemma stop_rank_exec:
  assumes "exec a s = Some s'" "\<not> running (shared s)" "a \<noteq> Return th" "a \<noteq> Run th False"
    and "pcs s th \<noteq> Idle"
  shows "stop_rank (qout (shared s')) (pcs s' th) + (if \<exists>ch. a = Run th ch then 1 else 0)
      \<le> stop_rank (qout (shared s)) (pcs s th)
    \<and> \<not> running (shared s') \<and> pcs s' th \<noteq> Idle"
proof -
  have kind: "thread_step ch p q = Some (p', q') \<Longrightarrow> p' \<noteq> Idle" for ch p p' and q q' :: "'a queue"
    by (cases "push_step ch p q")
      (auto simp: thread_step_def popping_def pushing_def dest: push_step_kind pop_step_kind)
  have run: "running (shared s') = running (shared s)" if "a \<noteq> Stop" using exec_running[OF assms(1) that] .
  show ?thesis
  proof (cases a)
    case (Run u ch)
    then obtain p q' where p: "thread_step ch (pcs s u) (shared s) = Some (p, q')"
      and s': "pcs s' = (pcs s)(u := p)" "shared s' = q'"
      using assms(1) by (auto split: option.splits)
    show ?thesis
    proof (cases "u = th")
      case True
      then have "ch = True" using assms(4) Run by (cases ch) auto
      then show ?thesis using thread_stop_rank[of "pcs s th" "shared s" p q'] kind p s' True Run run assms(2) by auto
    next
      case False
      then show ?thesis using stop_rank_out[OF thread_step_out[OF p]] s' Run run assms(2,5) by auto
    qed
  next
    case Stop
    then show ?thesis using assms(1,2,5) by auto
  next
    case (CallPush u x w)
    then have "u \<noteq> th" "s' = s\<lparr>pcs := (pcs s)(u := PLoad w x)\<rparr>" using assms(1,5) by (auto split: if_splits)
    then show ?thesis using CallPush assms(2,5) by simp
  next
    case (CallPop u w)
    then have "u \<noteq> th" "s' = s\<lparr>pcs := (pcs s)(u := OLoad w)\<rparr>" using assms(1,5) by (auto split: if_splits)
    then show ?thesis using CallPop assms(2,5) by simp
  next
    case (Return u)
    then have "u \<noteq> th" "shared s' = shared s" "pcs s' = (pcs s)(u := Idle)"
      using assms(1,3) exec_ReturnD[of u s s'] by auto
    then show ?thesis using Return assms(2,5) by simp
  qed
qed

lemma stop_wait_free:
  assumes "exec_all as s = Some s'" "\<not> running (shared s)" "pcs s th \<noteq> Idle"
    and "Return th \<notin> set as" "Run th False \<notin> set as"
  shows "own th as + stop_rank (qout (shared s')) (pcs s' th) \<le> stop_rank (qout (shared s)) (pcs s th)"
  using assms
proof (induction as arbitrary: s)
  case (Cons a as)
  then obtain s1 where s1: "exec a s = Some s1" "exec_all as s1 = Some s'" by (auto split: option.splits)
  have a: "a \<noteq> Return th" "a \<noteq> Run th False" using Cons.prems(4,5) by auto
  note R = stop_rank_exec[OF s1(1) Cons.prems(2) a Cons.prems(3)]
  have "own th as + stop_rank (qout (shared s')) (pcs s' th) \<le> stop_rank (qout (shared s1)) (pcs s1 th)"
    using R Cons.prems(4,5) by (intro Cons.IH[OF s1(2)]) auto
  then show ?case using R by (auto simp: own_def split: if_splits)
qed (simp add: own_def)

text \<open>The same for a thread of a \<open>ThreadPool\<close>: what is left to do before its function returns.\<close>

definition call_rank :: "int \<Rightarrow> 'a call \<Rightarrow> 'a pc \<Rightarrow> nat" where
  "call_rank out c pc = (case c of NoCall \<Rightarrow> 0 | RPush \<Rightarrow> 1 + stop_rank out pc | RCount x \<Rightarrow> 6 | RTest x \<Rightarrow> 7 | RStart x \<Rightarrow> 0)"

definition work_rank :: "int \<Rightarrow> 'a work \<Rightarrow> 'a call \<Rightarrow> 'a pc \<Rightarrow> nat" where
  "work_rank out w c pc = (case w of WTest \<Rightarrow> 1 | WPop \<Rightarrow> 3 + stop_rank out pc | WTask x \<Rightarrow> 2 | WSleep \<Rightarrow> 2 | _ \<Rightarrow> 0)
     + call_rank out c pc"

definition left_to_do :: "'a pool \<Rightarrow> nat \<Rightarrow> nat" where
  "left_to_do p th = work_rank (qout (shared (psys p))) (work p th) (calls p th) (pcs (psys p) th)"

text \<open>Stopped for good: with \<open>out\<close> at least 1, \<open>counter()\<close> is not below zero and \<open>run\<close> does not start the pool again. (After the first
  pop alone \<open>out\<close> may still be 0.)\<close>

definition stopped_for_good :: "'a pool \<Rightarrow> bool" where
  "stopped_for_good p \<longleftrightarrow> \<not> pool_running p \<and> 1 \<le> qout (shared (psys p)) \<and> (\<forall>th x. calls p th \<noteq> RStart x)"

definition own_steps :: "nat \<Rightarrow> 'a pool_action list \<Rightarrow> nat" where
  "own_steps th as = length (filter (\<lambda>a. \<exists>ch. a = Step th ch) as)"

lemma left_to_do_le: "pool_wf p \<Longrightarrow> left_to_do p th \<le> 15"
  using frame_at[of p th] stop_rank_le[of "qout (shared (psys p))" "pcs (psys p) th"]
  by (auto simp: left_to_do_def work_rank_def call_rank_def frame_ok_def calling_def
    split: work.splits call.splits)

text \<open>A step of the thread that changes its own layers only.\<close>

lemma left_to_do_other:
  assumes "work p' th = work p th" "calls p' th = calls p th" "pcs (psys p') th = pcs (psys p) th"
    and "qout (shared (psys p)) \<le> qout (shared (psys p'))"
  shows "left_to_do p' th \<le> left_to_do p th"
  using stop_rank_out[OF assms(4), of "pcs (psys p) th"] assms(1-3)
  by (auto simp: left_to_do_def work_rank_def call_rank_def split: work.splits call.splits)

lemma run_left:
  assumes e: "lift_exec (Run th True) p = Some p'" and r: "\<not> pool_running p"
    and c: "work p th = WPop \<and> calls p th = NoCall \<or> calling (work p th) \<and> calls p th = RPush"
  shows "left_to_do p' th < left_to_do p th"
proof -
  obtain pc q' where t: "thread_step True (pcs (psys p) th) (shared (psys p)) = Some (pc, q')"
    and p': "pcs (psys p') th = pc" "shared (psys p') = q'" "work p' = work p" "calls p' = calls p"
    using e by (auto simp: lift_exec_def split: option.splits)
  have "stop_rank (qout q') pc < stop_rank (qout (shared (psys p))) (pcs (psys p) th)"
    using thread_stop_rank[OF t] r by (simp add: pool_running_def)
  then show ?thesis using c p'
    by (auto simp: left_to_do_def work_rank_def call_rank_def calling_def split: work.splits)
qed

lemma call_step_left:
  assumes g: "stopped_for_good p" and wf: "pool_wf p" and c: "calls p th \<noteq> NoCall"
    and e: "call_step th True (calls p th) p = Some p'"
  shows "left_to_do p' th < left_to_do p th"
proof -
  have w: "calling (work p th)" using frame_at[OF wf, of th] c by (auto simp: frame_ok_def split: call.splits)
  show ?thesis
  proof (cases "calls p th")
    case (RTest x)
    then have "p' = set_call th (RCount x) p" using e g by (simp add: stopped_for_good_def)
    then show ?thesis using RTest w
      by (auto simp: left_to_do_def work_rank_def call_rank_def set_call_def calling_def split: work.splits)
  next
    case (RCount x)
    then have "begin_push th x p = Some p'" using e g by (simp add: stopped_for_good_def)
    then have "calls p' th = RPush" "pcs (psys p') th = PLoad True x" "work p' = work p"
      by (auto simp: pool_updates split: if_splits)
    then show ?thesis using RCount w
      by (auto simp: left_to_do_def work_rank_def call_rank_def calling_def split: work.splits)
  next
    case RPush
    show ?thesis
    proof (cases "\<exists>i. pcs (psys p) th = PRet i")
      case True
      then have "calls p' th = NoCall" "work p' = work p"
        using e RPush by (auto simp: lift_exec_def set_call_def)
      then show ?thesis using RPush w
        by (auto simp: left_to_do_def work_rank_def call_rank_def calling_def split: work.splits)
    next
      case False
      then have "lift_exec (Run th True) p = Some p'" using e RPush by (auto split: pc.splits)
      then show ?thesis using run_left[of th p p'] g w RPush by (simp add: stopped_for_good_def)
    qed
  qed (use c g in \<open>auto simp: stopped_for_good_def\<close>)
qed

lemma work_step_left:
  assumes g: "stopped_for_good p" and wf: "pool_wf p" and c: "calls p th = NoCall"
    and e: "work_step ThreadPool th True (work p th) p = Some p'"
  shows "left_to_do p' th < left_to_do p th"
proof (cases "work p th")
  case WTest
  then have "p' = set_work th WDone p" using e g by (simp add: stopped_for_good_def)
  then show ?thesis using WTest c by (simp add: left_to_do_def work_rank_def call_rank_def set_work_def)
next
  case WPop
  show ?thesis
  proof (cases "\<exists>t r. pcs (psys p) th = ORet t r")
    case True
    then obtain t r where "pcs (psys p) th = ORet t r" by blast
    then have "work p' th = WDone \<or> (\<exists>x. work p' th = WTask x)" "calls p' th = NoCall"
      using e WPop c by (auto simp: lift_exec_def set_work_def no_task_def split: if_splits option.splits)
    then show ?thesis using WPop c by (auto simp: left_to_do_def work_rank_def call_rank_def)
  next
    case False
    then have "lift_exec (Run th True) p = Some p'" using e WPop by (auto split: pc.splits)
    then show ?thesis using run_left[of th p p'] g c WPop by (simp add: stopped_for_good_def)
  qed
next
  case (WTask x)
  then have "p' = set_work th WTest p" using e by simp
  then show ?thesis using WTask c by (simp add: left_to_do_def work_rank_def call_rank_def set_work_def)
next
  case WSleep
  then have "p' = set_work th WTest p" using e by simp
  then show ?thesis using WSleep c by (simp add: left_to_do_def work_rank_def call_rank_def set_work_def)
qed (use e in auto)

text \<open>What one action leaves of another thread's state, and of the end of the pool.\<close>

lemma lift_exec_others:
  assumes "lift_exec a p1 = Some p'" "psys p1 = psys p"
    and "a = Run u ch \<or> a = Return u \<or> a = CallPush u x w \<or> a = CallPop u w \<or> a = Stop"
  shows "qout (shared (psys p)) \<le> qout (shared (psys p'))
    \<and> (\<not> pool_running p \<longrightarrow> \<not> pool_running p') \<and> (th \<noteq> u \<longrightarrow> pcs (psys p') th = pcs (psys p) th)
    \<and> work p' = work p1 \<and> calls p' = calls p1"
proof -
  obtain s' where s': "exec a (psys p) = Some s'" "p' = p1\<lparr>psys := s'\<rparr>"
    using assms(1,2) by (auto simp: lift_exec_def simp del: exec.simps)
  have run: "a \<noteq> Stop \<Longrightarrow> running (shared s') = running (shared (psys p))" using exec_running[OF s'(1)] .
  show ?thesis using assms(3)
  proof (elim disjE)
    assume a: "a = Run u ch"
    then obtain pc q' where "thread_step ch (pcs (psys p) u) (shared (psys p)) = Some (pc, q')"
      "shared s' = q'" "pcs s' = (pcs (psys p))(u := pc)"
      using s'(1) by (auto split: option.splits)
    then show ?thesis using thread_step_out run a s'(2) by (auto simp: pool_running_def)
  next
    assume "a = Return u"
    then have "s' = (psys p)\<lparr>pcs := (pcs (psys p))(u := Idle)\<rparr>" using exec_ReturnD s'(1) by blast
    then show ?thesis using s'(2) by (simp add: pool_running_def)
  qed (use s' in \<open>auto simp: pool_running_def split: if_splits\<close>)
qed

text \<open>A step of thread \<open>u\<close> leaves the layers of the others alone and cannot start the pool again.\<close>

definition only_by :: "nat \<Rightarrow> 'a pool \<Rightarrow> 'a pool \<Rightarrow> bool" where
  "only_by u p p' \<longleftrightarrow> qout (shared (psys p)) \<le> qout (shared (psys p')) \<and> \<not> pool_running p'
     \<and> (\<forall>th. th \<noteq> u \<longrightarrow> work p' th = work p th \<and> calls p' th = calls p th \<and> pcs (psys p') th = pcs (psys p) th)
     \<and> (\<forall>x. calls p' u \<noteq> RStart x)"

lemma only_by_lift:
  assumes "lift_exec a p1 = Some p'" "psys p1 = psys p" "\<not> pool_running p"
    and "a = Run u ch \<or> a = Return u \<or> a = CallPush u x w \<or> a = CallPop u w \<or> a = Stop"
    and "\<And>th. th \<noteq> u \<Longrightarrow> work p1 th = work p th" "\<And>th. th \<noteq> u \<Longrightarrow> calls p1 th = calls p th"
    and "\<And>x. calls p1 u \<noteq> RStart x"
  shows "only_by u p p'"
  using lift_exec_others[OF assms(1,2,4)] assms(3,5,6,7) by (simp add: only_by_def)

lemma only_by_upd:
  assumes "psys p' = psys p" "\<not> pool_running p"
    and "\<And>th. th \<noteq> u \<Longrightarrow> work p' th = work p th" "\<And>th. th \<noteq> u \<Longrightarrow> calls p' th = calls p th"
    and "\<And>x. calls p' u \<noteq> RStart x"
  shows "only_by u p p'"
  using assms by (simp add: only_by_def pool_running_def)

lemma only_by_begin:
  "begin_push u x p = Some p' \<Longrightarrow> \<not> pool_running p \<Longrightarrow> only_by u p p'"
  "begin_pop u p = Some p' \<Longrightarrow> \<not> pool_running p \<Longrightarrow> \<forall>x. calls p u \<noteq> RStart x \<Longrightarrow> only_by u p p'"
  unfolding begin_push_def begin_pop_def
  by (erule only_by_lift; auto simp: set_call_def set_work_def)+

lemma only_by_call:
  assumes g: "stopped_for_good p" and e: "call_step u ch (calls p u) p = Some p'"
  shows "only_by u p p'"
proof -
  have r: "\<not> pool_running p" using g by (simp add: stopped_for_good_def)
  show ?thesis
  proof (cases "calls p u")
    case (RTest x)
    then have "p' = set_call u (RCount x) p" using e r by simp
    then show ?thesis using r by (intro only_by_upd) (simp_all add: set_call_def)
  next
    case (RCount x)
    then have "begin_push u x p = Some p'" using e g by (simp add: stopped_for_good_def)
    then show ?thesis using only_by_begin(1)[of u x p p'] r by simp
  next
    case RPush
    show ?thesis
    proof (cases "\<exists>i. pcs (psys p) u = PRet i")
      case True
      then have l: "lift_exec (Return u) (set_call u NoCall p) = Some p'" using e RPush by auto
      show ?thesis by (rule only_by_lift[OF l]) (simp_all add: set_call_def r)
    next
      case False
      then have l: "lift_exec (Run u ch) p = Some p'" using e RPush by (auto split: pc.splits)
      show ?thesis by (rule only_by_lift[OF l]) (simp_all add: RPush r)
    qed
  qed (use e g in \<open>auto simp: stopped_for_good_def\<close>)
qed

lemma only_by_work:
  assumes g: "stopped_for_good p" and c: "calls p u = NoCall" and e: "work_step kd u ch (work p u) p = Some p'"
  shows "only_by u p p'"
proof -
  have r: "\<not> pool_running p" using g by (simp add: stopped_for_good_def)
  have set: "only_by u p (set_work u w p)" for w
    using r c by (intro only_by_upd) (simp_all add: set_work_def)
  show ?thesis
  proof (cases "work p u")
    case WPop
    show ?thesis
    proof (cases "\<exists>t r. pcs (psys p) u = ORet t r")
      case True
      then obtain w l where l: "lift_exec (Return u) (set_work u w (p\<lparr>started := l\<rparr>)) = Some p'"
        using e WPop by (auto split: if_splits option.splits) (metis pool.surjective pool.update_convs(4))
      show ?thesis by (rule only_by_lift[OF l]) (simp_all add: set_work_def c r)
    next
      case False
      then have l: "lift_exec (Run u ch) p = Some p'" using e WPop by (auto split: pc.splits)
      show ?thesis by (rule only_by_lift[OF l]) (simp_all add: c r)
    qed
  next
    case (WTask x)
    then show ?thesis using e set only_by_begin(2)[OF _ r] c by (auto split: kind.splits)
  qed (use e set r in auto)
qed

lemma only_by_stopped:
  assumes "stopped_for_good p" "only_by u p p'"
  shows "stopped_for_good p'"
  using assms unfolding stopped_for_good_def only_by_def by (metis order_trans)

lemma only_by_left:
  assumes "only_by u p p'" "th \<noteq> u"
  shows "left_to_do p' th \<le> left_to_do p th"
  using assms by (intro left_to_do_other) (simp_all add: only_by_def)

lemma only_by_exec:
  assumes g: "stopped_for_good p" and e: "pool_exec ThreadPool a p = Some p'"
  shows "\<exists>u. only_by u p p' \<and> a \<in> range (Submit u) \<union> range (Step u) \<union> {Throw u, StopPool u}"
proof -
  have r: "\<not> pool_running p" using g by (simp add: stopped_for_good_def)
  show ?thesis
  proof (cases a)
    case (Submit u x)
    then have "p' = set_call u (RTest x) p" using e by (auto split: if_splits)
    then show ?thesis using r Submit by (intro exI[of _ u]) (auto intro: only_by_upd simp: set_call_def)
  next
    case (Step u ch)
    have "only_by u p p'" using e Step only_by_call[OF g] only_by_work[OF g] by (auto split: if_splits)
    then show ?thesis using Step by blast
  next
    case (Throw u)
    then have "p' = p\<lparr>aborted := True\<rparr>" using e
      by (auto simp: throw_step_def split: if_splits call.splits work.splits)
    then show ?thesis using Throw r g by (intro exI[of _ u]) (auto intro!: only_by_upd simp: stopped_for_good_def)
  next
    case (StopPool u)
    then have l: "lift_exec Stop (p\<lparr>stopped := True\<rparr>) = Some p'" using e by (auto split: if_splits)
    then have "only_by u p p'" using g r by (intro only_by_lift[OF l]) (auto simp: stopped_for_good_def)
    then show ?thesis using StopPool by blast
  qed
qed

lemma pool_exec_left:
  assumes g: "stopped_for_good p" and wf: "pool_wf p" and e: "pool_exec ThreadPool a p = Some p'"
    and a: "\<And>x. a \<noteq> Submit th x" "a \<noteq> Step th False"
  shows "stopped_for_good p' \<and> pool_wf p'
    \<and> left_to_do p' th + (if \<exists>ch. a = Step th ch then 1 else 0) \<le> left_to_do p th"
proof -
  obtain u where u: "only_by u p p'" "a \<in> range (Submit u) \<union> range (Step u) \<union> {Throw u, StopPool u}"
    using only_by_exec[OF g e] by blast
  have "left_to_do p' th + (if \<exists>ch. a = Step th ch then 1 else 0) \<le> left_to_do p th"
  proof (cases "u = th")
    case False
    then show ?thesis using only_by_left[OF u(1), of th] u(2) by auto
  next
    case True
    then consider ch where "a = Step th ch" | "a = Throw th" | "a = StopPool th" using u(2) a(1) by blast
    then show ?thesis
    proof cases
      case (1 ch)
      then have "ch = True" using a(2) by (cases ch) auto
      then have "left_to_do p' th < left_to_do p th"
        using e 1 call_step_left[OF g wf] work_step_left[OF g wf] by (auto split: if_splits)
      then show ?thesis using 1 by simp
    next
      case 2
      then have "p' = p\<lparr>aborted := True\<rparr>" using e
        by (auto simp: throw_step_def split: if_splits call.splits work.splits)
      then show ?thesis using 2 by (simp add: left_to_do_def)
    next
      case 3
      then have l: "lift_exec Stop (p\<lparr>stopped := True\<rparr>) = Some p'" using e by (auto split: if_splits)
      then have "left_to_do p' th \<le> left_to_do p th" by (intro left_to_do_other) (auto simp: lift_exec_def)
      then show ?thesis using 3 by simp
    qed
  qed
  then show ?thesis using only_by_stopped[OF g u(1)] pool_exec_wf[OF wf e] by blast
qed

lemma pool_exec_all_left:
  assumes "pool_exec_all ThreadPool as p = Some p'" "stopped_for_good p" "pool_wf p"
    and "\<forall>x. Submit th x \<notin> set as" "Step th False \<notin> set as"
  shows "own_steps th as + left_to_do p' th \<le> left_to_do p th"
  using assms
proof (induction as arbitrary: p)
  case (Cons a as)
  then obtain p1 where p1: "pool_exec ThreadPool a p = Some p1" "pool_exec_all ThreadPool as p1 = Some p'"
    by (auto split: option.splits)
  have "\<And>x. a \<noteq> Submit th x" "a \<noteq> Step th False" using Cons.prems(4,5) by auto
  note R = pool_exec_left[OF Cons.prems(2,3) p1(1) this]
  have "own_steps th as + left_to_do p' th \<le> left_to_do p1 th"
    using R Cons.prems(4,5) by (intro Cons.IH[OF p1(2)]) auto
  then show ?case using R by (auto simp: own_steps_def split: if_splits)
qed (simp add: own_steps_def)

section \<open>Bounds on the tickets\<close>

text \<open>
  Bounds on the tickets that hold in every state, stopped or not: with them only an overflow of the
  ticket counters can keep a thread from its next step.
\<close>

definition pc_bound :: "'a queue \<Rightarrow> 'a pc \<Rightarrow> bool" where
  "pc_bound q pc = (case pc of
       PFullIn w x i ph \<Rightarrow> i \<le> qin q | PFullOut w x i j ph \<Rightarrow> i \<le> qin q \<and> j \<le> qin q
     | PRunning w x i ph \<Rightarrow> i \<le> qin q | PIsFree w x i \<Rightarrow> i \<le> qin q | PCas w x i \<Rightarrow> i \<le> qin q
     | OEmptyOut w t ph \<Rightarrow> t \<le> qout q | OEmptyIn w t u ph \<Rightarrow> t \<le> qout q | ORunning w t ph \<Rightarrow> t \<le> qout q
     | OIsFree w t \<Rightarrow> t \<le> qout q | OCas w t \<Rightarrow> t \<le> qout q
     | ORet t r \<Rightarrow> r = None \<longrightarrow> t = 0 | _ \<Rightarrow> True)"

definition ticket_bounds :: "'a system \<Rightarrow> bool" where
  "ticket_bounds s \<longleftrightarrow> -1 \<le> qin (shared s) \<and> -1 \<le> qout (shared s) \<and> (\<forall>th. pc_bound (shared s) (pcs s th))"

lemma pc_bound_mono: "pc_bound q pc \<Longrightarrow> qin q \<le> qin q' \<Longrightarrow> qout q \<le> qout q' \<Longrightarrow> pc_bound q' pc"
  by (cases pc) (auto simp: pc_bound_def)

lemma push_step_bound:
  "push_step ch p q = Some (p', q') \<Longrightarrow> pc_bound q p \<Longrightarrow> pc_bound q' p' \<and> qin q \<le> qin q'"
  by (cases p) (auto simp: pc_bound_def enter_full_def split: if_splits)

lemma pop_step_bound:
  "pop_step ch p q = Some (p', q') \<Longrightarrow> pc_bound q p \<Longrightarrow> pc_bound q' p' \<and> qin q' = qin q"
  by (cases p) (auto simp: pc_bound_def enter_empty_def split: if_splits)

lemma thread_step_bound:
  "thread_step ch p q = Some (p', q') \<Longrightarrow> pc_bound q p \<Longrightarrow> pc_bound q' p' \<and> qin q \<le> qin q'"
  using push_step_bound[of ch p q p' q'] pop_step_bound[of ch p q p' q']
  by (auto simp: thread_step_def split: option.splits)

lemma ticket_bounds_upd:
  assumes "ticket_bounds s" "pcs s' = (pcs s)(th := pc)" "pc_bound (shared s') pc"
    and "qin (shared s) \<le> qin (shared s')" "qout (shared s) \<le> qout (shared s')"
  shows "ticket_bounds s'"
  using assms pc_bound_mono[OF _ assms(4,5)] unfolding ticket_bounds_def by (auto intro: order_trans)

lemma ticket_bounds_exec:
  assumes b: "ticket_bounds s" and e: "exec a s = Some s'"
  shows "ticket_bounds s'"
proof (cases a)
  case (Run th ch)
  then obtain p q' where p: "thread_step ch (pcs s th) (shared s) = Some (p, q')"
    and s': "shared s' = q'" "pcs s' = (pcs s)(th := p)"
    using e by (auto split: option.splits)
  have "pc_bound (shared s) (pcs s th)" using b by (simp add: ticket_bounds_def)
  then show ?thesis using thread_step_bound[OF p] thread_step_out[OF p] s'
    by (intro ticket_bounds_upd[OF b, of s' th p]) auto
next
  case (CallPush th x w)
  then have "s' = s\<lparr>pcs := (pcs s)(th := PLoad w x)\<rparr>" using e by (simp split: if_splits)
  then show ?thesis by (intro ticket_bounds_upd[OF b, of s' th "PLoad w x"]) (simp_all add: pc_bound_def)
next
  case (CallPop th w)
  then have "s' = s\<lparr>pcs := (pcs s)(th := OLoad w)\<rparr>" using e by (simp split: if_splits)
  then show ?thesis by (intro ticket_bounds_upd[OF b, of s' th "OLoad w"]) (simp_all add: pc_bound_def)
next
  case (Return th)
  then have "s' = s\<lparr>pcs := (pcs s)(th := Idle)\<rparr>" using exec_ReturnD e by blast
  then show ?thesis by (intro ticket_bounds_upd[OF b, of s' th Idle]) (simp_all add: pc_bound_def)
next
  case Stop
  then have "s' = s\<lparr>shared := (shared s)\<lparr>running := False\<rparr>\<rparr>" using e by simp
  then show ?thesis by (intro ticket_bounds_upd[OF b, of s' 0 "pcs s 0"])
    (use b pc_bound_mono[of "shared s"] in \<open>auto simp: ticket_bounds_def\<close>)
qed

text \<open>What an action does to the system of the queue: at most one step of it.\<close>

lemma lift_exec_psys:
  assumes "lift_exec a p1 = Some p'" "psys p1 = s" "ticket_bounds s"
  shows "ticket_bounds (psys p')"
proof -
  obtain s' where "exec a s = Some s'" "p' = p1\<lparr>psys := s'\<rparr>"
    using assms(1,2) by (auto simp: lift_exec_def simp del: exec.simps)
  then show ?thesis using ticket_bounds_exec[OF assms(3)] by simp
qed

lemma begin_psys:
  "begin_push th x p = Some p' \<Longrightarrow> ticket_bounds (psys p) \<Longrightarrow> ticket_bounds (psys p')"
  "begin_pop th p = Some p' \<Longrightarrow> ticket_bounds (psys p) \<Longrightarrow> ticket_bounds (psys p')"
  unfolding begin_push_def begin_pop_def
  by (erule lift_exec_psys; simp add: set_call_def set_work_def)+

lemma call_step_psys:
  assumes "call_step th ch c p = Some p'" "ticket_bounds (psys p)"
  shows "ticket_bounds (psys p')"
proof (cases c)
  case (RTest x)
  then show ?thesis using assms begin_psys(1)[of th x p p'] by (auto simp: set_call_def split: if_splits)
next
  case (RCount x)
  then show ?thesis using assms begin_psys(1)[of th x p p'] by (auto simp: set_call_def split: if_splits)
next
  case (RStart x)
  let ?s = "(psys p)\<lparr>shared := (shared (psys p))\<lparr>running := True\<rparr>\<rparr>"
  have "ticket_bounds ?s" using assms(2) pc_bound_mono[of "shared (psys p)"] by (auto simp: ticket_bounds_def)
  then show ?thesis using RStart assms(1) begin_psys(1)[of th x "p\<lparr>psys := ?s\<rparr>" p'] by simp
next
  case RPush
  show ?thesis
  proof (cases "\<exists>i. pcs (psys p) th = PRet i")
    case True
    then have "lift_exec (Return th) (set_call th NoCall p) = Some p'" using assms(1) RPush by auto
    then show ?thesis by (rule lift_exec_psys[OF _ _ assms(2)]) (simp add: set_call_def)
  next
    case False
    then have "lift_exec (Run th ch) p = Some p'" using assms(1) RPush by (auto split: pc.splits)
    then show ?thesis by (rule lift_exec_psys[OF _ _ assms(2)]) simp
  qed
qed (use assms in auto)

lemma work_step_psys:
  assumes "work_step kd th ch w p = Some p'" "ticket_bounds (psys p)"
  shows "ticket_bounds (psys p')"
proof (cases w)
  case WTest
  then show ?thesis using assms begin_psys(2)[of th p p'] by (auto simp: set_work_def split: if_splits)
next
  case WPop
  show ?thesis
  proof (cases "\<exists>t r. pcs (psys p) th = ORet t r")
    case True
    then obtain w l where "lift_exec (Return th) (set_work th w (p\<lparr>started := l\<rparr>)) = Some p'"
      using assms(1) WPop by (auto split: if_splits option.splits) (metis pool.surjective pool.update_convs(4))
    then show ?thesis by (rule lift_exec_psys[OF _ _ assms(2)]) (simp add: set_work_def)
  next
    case False
    then have "lift_exec (Run th ch) p = Some p'" using assms(1) WPop by (auto split: pc.splits)
    then show ?thesis by (rule lift_exec_psys[OF _ _ assms(2)]) simp
  qed
next
  case (WTask x)
  then show ?thesis using assms begin_psys(2)[of th p p'] by (auto simp: set_work_def split: kind.splits)
qed (use assms in \<open>auto simp: set_work_def\<close>)

lemma pool_exec_psys:
  assumes "pool_exec kd a p = Some p'" "ticket_bounds (psys p)"
  shows "ticket_bounds (psys p')"
proof (cases a)
  case (Submit th x)
  then show ?thesis using assms begin_psys(1)[of th x p p'] by (auto simp: set_call_def split: if_splits kind.splits)
next
  case (Step th ch)
  then show ?thesis using assms call_step_psys work_step_psys by (auto split: if_splits)
next
  case (Throw th)
  then have "psys p' = psys p" using assms(1)
    by (auto simp: throw_step_def set_work_def split: if_splits kind.splits call.splits work.splits)
  then show ?thesis using assms(2) by simp
next
  case (StopPool th)
  then have "lift_exec Stop (p\<lparr>stopped := True\<rparr>) = Some p'" using assms(1) by (auto split: if_splits)
  then show ?thesis by (rule lift_exec_psys[OF _ _ assms(2)]) simp
qed

lemma pool_reach_bounds:
  assumes "queue_new sz zero = Some q0" "pool_reach kd q0 n p"
  shows "ticket_bounds (psys p)"
  using assms(2)
proof (induction rule: pool_reach.induct)
  case init
  then show ?case using queue_new_shape[OF assms(1)]
    by (auto simp: ticket_bounds_def pool_new_def start_def pc_bound_def)
next
  case (step p a p')
  then show ?case using pool_exec_psys by blast
qed

section \<open>No thread is stuck\<close>

lemma thread_step_enabled:
  assumes b: "ticket_bounds s" and r: "qin (shared s) < int_max" "qout (shared s) < int_max"
    and pc: "pcs s th \<noteq> Idle" "\<And>i. pcs s th \<noteq> PRet i" "\<And>t r. pcs s th \<noteq> ORet t r"
  shows "thread_step ch (pcs s th) (shared s) \<noteq> None"
proof -
  have "pc_bound (shared s) (pcs s th)" "-1 \<le> qout (shared s)" using b by (simp_all add: ticket_bounds_def)
  then show ?thesis using r pc by (cases "pcs s th") (auto simp: thread_step_def pc_bound_def)
qed

lemma run_enabled:
  assumes "ticket_bounds (psys p)" "qin (shared (psys p)) < int_max" "qout (shared (psys p)) < int_max"
    "pcs (psys p) th \<noteq> Idle" "\<And>i. pcs (psys p) th \<noteq> PRet i" "\<And>t r. pcs (psys p) th \<noteq> ORet t r"
  shows "\<exists>p'. lift_exec (Run th ch) p = Some p'"
  using thread_step_enabled[OF assms, of ch] by (auto simp: lift_exec_def)

lemma begin_enabled:
  "pcs (psys p) th = Idle \<Longrightarrow> \<exists>p'. begin_push th x p = Some p'"
  "pcs (psys p) th = Idle \<Longrightarrow> \<exists>p'. begin_pop th p = Some p'"
  by (simp_all add: pool_updates)

lemma call_step_enabled:
  assumes inv: "ticket_bounds (psys p)" and r: "qin (shared (psys p)) < int_max" "qout (shared (psys p)) < int_max"
    and f: "frame_ok (work p th) c (pcs (psys p) th)" and c: "c \<noteq> NoCall"
  shows "\<exists>p'. call_step th ch c p = Some p'"
proof (cases c)
  case (RTest x)
  then show ?thesis using begin_enabled(1)[of p th x] f by (auto simp: frame_ok_def)
next
  case (RCount x)
  then show ?thesis using begin_enabled(1)[of p th x] f by (auto simp: frame_ok_def)
next
  case (RStart x)
  then show ?thesis using f by (auto simp: frame_ok_def intro!: begin_enabled(1))
next
  case RPush
  then have pc: "pushing (pcs (psys p) th)" using f by (simp add: frame_ok_def)
  show ?thesis
  proof (cases "\<exists>i. pcs (psys p) th = PRet i")
    case True
    then show ?thesis using RPush by (auto simp: lift_exec_def set_call_def)
  next
    case False
    then have "\<exists>p'. lift_exec (Run th ch) p = Some p'"
      using pc by (intro run_enabled[OF inv r]) (auto simp: pushing_def)
    then show ?thesis using RPush False by (auto split: pc.splits)
  qed
qed (use c in auto)

lemma work_step_enabled:
  assumes inv: "ticket_bounds (psys p)" and r: "qin (shared (psys p)) < int_max" "qout (shared (psys p)) < int_max"
    and f: "frame_ok w NoCall (pcs (psys p) th)"
    and w: "w \<noteq> Client" "w \<noteq> WDone"
  shows "\<exists>p'. work_step kd th ch w p = Some p'"
proof (cases w)
  case WTest
  then show ?thesis using begin_enabled(2)[of p th] f by (auto simp: frame_ok_def)
next
  case WPop
  then have pc: "popping (pcs (psys p) th)" using f by (simp add: frame_ok_def)
  show ?thesis
  proof (cases "\<exists>t r. pcs (psys p) th = ORet t r")
    case True
    then obtain t r where tr: "pcs (psys p) th = ORet t r" by blast
    moreover have "pc_bound (shared (psys p)) (pcs (psys p) th)" using inv by (simp add: ticket_bounds_def)
    ultimately have "t = 0 \<or> r \<noteq> None" by (auto simp: pc_bound_def)
    then show ?thesis using WPop tr by (auto simp: lift_exec_def set_work_def)
  next
    case False
    then have "\<exists>p'. lift_exec (Run th ch) p = Some p'"
      using pc by (intro run_enabled[OF inv r]) (auto simp: popping_def pushing_def)
    then show ?thesis using WPop False by (auto split: pc.splits)
  qed
next
  case (WTask x)
  then show ?thesis using begin_enabled(2)[of p th] f by (auto simp: frame_ok_def split: kind.splits)
qed (use w in auto)

lemma pool_exec_all_append:
  "pool_exec_all kd (as @ bs) p = (case pool_exec_all kd as p of None \<Rightarrow> None | Some p' \<Rightarrow> pool_exec_all kd bs p')"
  by (induction as arbitrary: p) (auto split: option.splits)

lemma pool_exec_stopped:
  assumes g: "stopped_for_good p" and e: "pool_exec ThreadPool a p = Some p'"
  shows "stopped_for_good p'"
  using only_by_exec[OF g e] only_by_stopped[OF g] by blast

lemma pool_exec_all_stopped:
  "pool_exec_all ThreadPool as p = Some p' \<Longrightarrow> stopped_for_good p \<Longrightarrow> stopped_for_good p'"
  by (induction as arbitrary: p) (auto split: option.splits dest: pool_exec_stopped)

section \<open>Running on to the end\<close>

text \<open>A step moves the ticket counters by one at most and does not end the process.\<close>

definition little_moved :: "'a pool \<Rightarrow> 'a pool \<Rightarrow> bool" where
  "little_moved p p' \<longleftrightarrow> qin (shared (psys p')) \<le> qin (shared (psys p)) + 1
     \<and> qout (shared (psys p')) \<le> qout (shared (psys p)) + 1 \<and> aborted p' = aborted p"

lemma thread_step_tickets:
  "thread_step ch pc q = Some (pc', q') \<Longrightarrow> qin q' \<le> qin q + 1 \<and> qout q' \<le> qout q + 1"
proof -
  have "push_step ch pc q = Some (pc', q') \<Longrightarrow> qin q' \<le> qin q + 1 \<and> qout q' \<le> qout q + 1"
    by (cases pc) (auto split: if_splits)
  moreover have "pop_step ch pc q = Some (pc', q') \<Longrightarrow> qin q' \<le> qin q + 1 \<and> qout q' \<le> qout q + 1"
    by (cases pc) (auto split: if_splits)
  ultimately show "thread_step ch pc q = Some (pc', q') \<Longrightarrow> qin q' \<le> qin q + 1 \<and> qout q' \<le> qout q + 1"
    by (auto simp: thread_step_def split: option.splits)
qed

lemma little_moved_lift:
  assumes "lift_exec a p1 = Some p'" "psys p1 = psys p" "aborted p1 = aborted p"
  shows "little_moved p p'"
proof -
  obtain s' where s': "exec a (psys p) = Some s'" "p' = p1\<lparr>psys := s'\<rparr>"
    using assms(1,2) by (auto simp: lift_exec_def simp del: exec.simps)
  have "qin (shared s') \<le> qin (shared (psys p)) + 1 \<and> qout (shared s') \<le> qout (shared (psys p)) + 1"
  proof (cases a)
    case (Run th ch)
    then show ?thesis using s'(1) by (auto split: option.splits dest: thread_step_tickets)
  next
    case (Return th)
    then have "s' = (psys p)\<lparr>pcs := (pcs (psys p))(th := Idle)\<rparr>" using exec_ReturnD s'(1) by blast
    then show ?thesis by simp
  qed (use s'(1) in \<open>auto split: if_splits\<close>)
  then show ?thesis using s'(2) assms(3) by (simp add: little_moved_def)
qed

lemma little_moved_same: "psys p' = psys p \<Longrightarrow> aborted p' = aborted p \<Longrightarrow> little_moved p p'"
  by (simp add: little_moved_def)

lemma little_moved_call:
  assumes g: "stopped_for_good p" and e: "call_step th ch (calls p th) p = Some p'"
  shows "little_moved p p'"
proof (cases "calls p th")
  case (RTest x)
  then show ?thesis using e g by (auto simp: stopped_for_good_def set_call_def intro: little_moved_same)
next
  case (RCount x)
  then have l: "lift_exec (CallPush th x True) (set_call th RPush p) = Some p'"
    using e g by (simp add: stopped_for_good_def begin_push_def del: exec.simps)
  show ?thesis by (rule little_moved_lift[OF l]) (simp_all add: set_call_def)
next
  case RPush
  then have "lift_exec (Return th) (set_call th NoCall p) = Some p' \<or> lift_exec (Run th ch) p = Some p'"
    using e by (auto split: pc.splits)
  then show ?thesis
  proof
    assume l: "lift_exec (Return th) (set_call th NoCall p) = Some p'"
    show ?thesis by (rule little_moved_lift[OF l]) (simp_all add: set_call_def)
  qed (simp add: little_moved_lift)
qed (use e g in \<open>auto simp: stopped_for_good_def\<close>)

lemma little_moved_work:
  assumes g: "stopped_for_good p" and e: "work_step ThreadPool th ch (work p th) p = Some p'"
  shows "little_moved p p'"
proof (cases "work p th")
  case WPop
  then consider l w where "lift_exec (Return th) (set_work th w (p\<lparr>started := l\<rparr>)) = Some p'" | "lift_exec (Run th ch) p = Some p'"
    using e by (auto split: pc.splits if_splits option.splits) (metis pool.surjective pool.update_convs(4))
  then show ?thesis
  proof cases
    case (1 l w)
    show ?thesis by (rule little_moved_lift[OF 1]) (simp_all add: set_work_def)
  qed (simp add: little_moved_lift)
qed (use e g in \<open>auto simp: stopped_for_good_def set_work_def intro: little_moved_same\<close>)

text \<open>A thread has returned: a worker from its function, any other from its call of \<open>run\<close>.\<close>

definition returned :: "'a pool \<Rightarrow> nat \<Rightarrow> bool" where
  "returned p th \<longleftrightarrow> calls p th = NoCall \<and> work p th \<in> {Client, WDone}"

lemma runs_to_return:
  assumes "stopped_for_good p" "pool_wf p" "ticket_bounds (psys p)" "\<not> aborted p"
    and "qin (shared (psys p)) + int (left_to_do p th) < int_max" "qout (shared (psys p)) + int (left_to_do p th) < int_max"
  shows "\<exists>m p'. m \<le> left_to_do p th \<and> pool_exec_all ThreadPool (replicate m (Step th True)) p = Some p' \<and> returned p' th"
  using assms
proof (induction "left_to_do p th" arbitrary: p rule: less_induct)
  case less
  show ?case
  proof (cases "returned p th")
    case True
    then show ?thesis by (intro exI[of _ 0] exI[of _ p]) simp
  next
    case False
    have f: "frame_ok (work p th) (calls p th) (pcs (psys p) th)" using frame_at[OF less.prems(2)] .
    have r: "qin (shared (psys p)) < int_max" "qout (shared (psys p)) < int_max" using less.prems(5,6) by linarith+
    have "\<exists>p1. pool_exec ThreadPool (Step th True) p = Some p1"
    proof (cases "calls p th = NoCall")
      case True
      then show ?thesis using work_step_enabled[OF less.prems(3) r, of "work p th" th ThreadPool True] f False less.prems(4)
        by (auto simp: returned_def)
    next
      case c: False
      then show ?thesis using call_step_enabled[OF less.prems(3) r f c] less.prems(4) by simp
    qed
    then obtain p1 where p1: "pool_exec ThreadPool (Step th True) p = Some p1" by blast
    have L: "stopped_for_good p1 \<and> pool_wf p1 \<and> left_to_do p1 th + 1 \<le> left_to_do p th"
      using pool_exec_left[OF less.prems(1,2) p1, of th] by (auto simp: ex_bool_eq)
    have M: "little_moved p p1"
      using p1 little_moved_call[OF less.prems(1)] little_moved_work[OF less.prems(1)] by (auto split: if_splits)
    have "ticket_bounds (psys p1)" using pool_exec_psys[OF p1 less.prems(3)] .
    then obtain m p' where m: "m \<le> left_to_do p1 th" "returned p' th"
      "pool_exec_all ThreadPool (replicate m (Step th True)) p1 = Some p'"
      using less.hyps[of p1] L M less.prems(4-6) by (auto simp: little_moved_def)
    then show ?thesis using L p1 by (intro exI[of _ "Suc m"] exI[of _ p']) simp
  qed
qed

section \<open>Properties\<close>

text \<open>
  A pool of two threads, for the witnesses: a client submits a function, the first thread starts it,
  the second finds the queue empty and waits; then \<open>stop()\<close> is called.
\<close>

definition demo_pool_queue :: "nat queue" where
  "demo_pool_queue = the (queue_new 4 0)"

definition demo_pool_run :: "nat pool_action list" where
  "demo_pool_run = Submit 5 7 # replicate 12 (Step 5 True) @ replicate 12 (Step 0 True) @ replicate 3 (Step 1 True)"

definition demo_pool :: "nat pool" where
  "demo_pool = the (pool_exec_all ThreadPool demo_pool_run (pool_new demo_pool_queue 2))"

lemma demo_pool_exec: "pool_exec_all ThreadPool demo_pool_run (pool_new demo_pool_queue 2) = Some demo_pool"
  and demo_pool_facts: "started demo_pool = [(-1, 7)]" "stopped demo_pool = False" "aborted demo_pool = False"
    "work demo_pool 0 = WTask 7" "calls demo_pool 0 = NoCall" "pushed (psys demo_pool) = [(-1, 7)]"
    "qin (shared (psys demo_pool)) = 0" "qout (shared (psys demo_pool)) = 1"
proof -
  have "map_option (\<lambda>p. (started p, stopped p, aborted p, work p 0, calls p 0, pushed (psys p),
      qin (shared (psys p)), qout (shared (psys p))))
      (pool_exec_all ThreadPool demo_pool_run (pool_new demo_pool_queue 2))
    = Some ([(-1, 7)], False, False, WTask 7, NoCall, [(-1, 7)], 0, 1)"
    by code_simp
  then show "pool_exec_all ThreadPool demo_pool_run (pool_new demo_pool_queue 2) = Some demo_pool"
    "started demo_pool = [(-1, 7)]" "stopped demo_pool = False" "aborted demo_pool = False"
    "work demo_pool 0 = WTask 7" "calls demo_pool 0 = NoCall" "pushed (psys demo_pool) = [(-1, 7)]"
    "qin (shared (psys demo_pool)) = 0" "qout (shared (psys demo_pool)) = 1"
    by (auto simp: demo_pool_def)
qed

lemma demo_pool_new: "queue_new 4 (0::nat) = Some demo_pool_queue"
  by (simp add: demo_pool_queue_def queue_new_def Let_def)

lemma demo_pool_reach: "pool_reach ThreadPool demo_pool_queue 2 demo_pool"
  using pool_exec_all_reach[OF demo_pool_exec pool_reach.init] .

lemma demo_pool_calls: "calls demo_pool th \<noteq> RStart x"
  using pool_inv_calls[OF pool_reach_inv[OF demo_pool_new _ demo_pool_reach]] by (simp add: demo_pool_facts)

text \<open>C6: while nobody has called \<open>stop()\<close>, a pool, whose queue has 64 slots, or a worker whose queue was made for more than two, starts
  every function at most once, under the ticket it was pushed with, and only functions pushed. When
  no call of the queue is under way the functions not started are exactly those in the
  queue, and all were pushed after those started.\<close>

theorem pool_starts_each_once:
  assumes "queue_new sz null = Some q0" "2 < sz" "pool_reach kd q0 n p" "\<not> stopped p"
  shows "distinct (map fst (started p)) \<and> set (started p) \<subseteq> set (pushed (psys p))
    \<and> (quiet (psys p) \<longrightarrow>
        set (pushed (psys p)) - set (started p)
          = set (zip (live_tickets (shared (psys p))) (contents (shared (psys p))))
        \<and> (\<forall>(t, x) \<in> set (started p). \<forall>(u, y) \<in> set (pushed (psys p)) - set (started p). t < u))"
proof -
  have inv: "pool_inv q0 p" using pool_reach_inv[OF assms(1-3)] .
  then have r: "reach q0 (psys p)" "running (shared (psys p))"
    using assms(4) by (auto simp: pool_inv_def pool_running_def)
  note d = pool_inv_delivered[OF inv assms(4)]
  obtain k where "queue_inv k (psys p)" using queue_inv_reach[OF assms(1,2) r] by blast
  then have "set (popped (psys p)) \<subseteq> set (pushed (psys p))" using log_invD by blast
  then have sub: "set (started p) \<subseteq> set (pushed (psys p))" using deliveredD(2)[OF d] by blast
  have "set (pushed (psys p)) - set (started p)
          = set (zip (live_tickets (shared (psys p))) (contents (shared (psys p))))
      \<and> (\<forall>(t, x) \<in> set (started p). \<forall>(u, y) \<in> set (pushed (psys p)) - set (started p). t < u)"
    if q: "quiet (psys p)"
  proof -
    have "pending (psys p) = {}" using q by (simp add: pending_def quiet_def)
    then have "set (started p) = set (popped (psys p))" using deliveredD(2)[OF d] by simp
    then show ?thesis using quiet_order[OF assms(1,2) r q] by simp
  qed
  then show ?thesis using deliveredD(1)[OF d] sub by blast
qed

lemma pool_starts_each_once_witness:
  "distinct (map fst (started demo_pool)) \<and> started demo_pool = [(-1, 7)] \<and> (-1, 7) \<in> set (pushed (psys demo_pool))"
  using pool_starts_each_once[OF demo_pool_new _ demo_pool_reach] by (simp add: demo_pool_facts)

text \<open>The states of a pool are well formed - a thread pushes only inside \<open>run\<close>, \<open>run\<close> is
  called only by clients and functions under way, a thread pops only in the loop of a worker - and,
  stopped or not, no thread is stuck: unless it is a client at rest or a worker that has returned,
  or the process has ended or a ticket counter is at its largest value, it has a next step.\<close>

theorem pool_threads_well_formed:
  assumes "queue_new sz null = Some q0" "pool_reach kd q0 n p" "\<not> aborted p"
    and "qin (shared (psys p)) < int_max" "qout (shared (psys p)) < int_max"
  shows "frame_ok (work p th) (calls p th) (pcs (psys p) th)
    \<and> (work p th \<in> {Client, WDone} \<and> calls p th = NoCall \<or> (\<exists>p'. pool_exec kd (Step th ch) p = Some p'))"
proof -
  note b = pool_reach_bounds[OF assms(1,2)]
  have f: "frame_ok (work p th) (calls p th) (pcs (psys p) th)" using frame_at[OF pool_reach_wf[OF assms(2)]] .
  have "\<exists>p'. pool_exec kd (Step th ch) p = Some p'" if "work p th \<notin> {Client, WDone} \<or> calls p th \<noteq> NoCall"
  proof (cases "calls p th = NoCall")
    case True
    then show ?thesis using work_step_enabled[OF b assms(4,5), of "work p th" th kd ch] f that assms(3) by auto
  next
    case False
    then show ?thesis using call_step_enabled[OF b assms(4,5) f False] assms(3) by simp
  qed
  then show ?thesis using f by blast
qed

lemma pool_threads_well_formed_witness:
  "frame_ok (WTask 7) NoCall (pcs (psys demo_pool) 0) \<and> (\<exists>p'. pool_exec ThreadPool (Step 0 True) demo_pool = Some p')"
  using pool_threads_well_formed[OF demo_pool_new demo_pool_reach, of 0 True]
  by (simp add: demo_pool_facts int_max_def)




text \<open>A pool stopped before it has popped anything is started again by the next \<open>run\<close>, but its threads
  have returned: the function is pushed and no thread is left to start it.\<close>

lemma pool_restart_without_workers:
  "map_option (\<lambda>p. (pool_running p, work p 0, calls p 5, map snd (pushed (psys p)), started p))
     (pool_exec_all ThreadPool (StopPool 5 # Step 0 True # Submit 5 7 # replicate 14 (Step 5 True))
       (pool_new demo_pool_queue 1)) = Some (True, WDone, NoCall, [7], [])"
  by code_simp

end
