(* ===== verification/OpenQueue.thy ===== *)
theory OpenQueue
  imports Prelude "HOL-Library.Sublist"
begin

text \<open>
  \<open>cpp/lib/OpenQueue.h\<close>: the queue with a mutex and a condition variable. As in \<open>UniqQueue\<close> a call is
  a program counter and threads interleave at every access of a shared variable. The mutex is the
  thread that holds it, the condition variable the list of the threads asleep on it: \<open>notify_one\<close>
  wakes one of them, any of them may also wake by itself, and a thread woken takes the mutex again.
  The counters are \<open>atomic<int>\<close>, which wrap.
\<close>

section \<open>State\<close>

record 'a oqueue =
  items :: "'a list"
  holder :: "nat option"
  sleepers :: "nat list"
  oin :: "32 word"
  oout :: "32 word"
  omax :: int

definition oqueue_new :: "int \<Rightarrow> 'a oqueue" where
  "oqueue_new mx = \<lparr>items = [], holder = None, sleepers = [], oin = 1, oout = 1, omax = mx\<rparr>"

datatype 'a opc =
    OIdle
  | QWait 'a                                \<comment> \<open>\<open>WAIT(q.size() < maxsize)\<close>\<close>
  | QLock 'a                                \<comment> \<open>\<open>lock_guard\<close>\<close>
  | QPush 'a                                \<comment> \<open>\<open>q.push(item)\<close>\<close>
  | QNotify 'a                              \<comment> \<open>\<open>notEmpty.notify_one()\<close>\<close>
  | QInc 'a                                 \<comment> \<open>\<open>return in++\<close>\<close>
  | QUnlock "32 word"
  | QRet "32 word"
  | DLock                                   \<comment> \<open>\<open>unique_lock\<close>\<close>
  | DTest                                   \<comment> \<open>\<open>!q.empty()\<close>\<close>
  | DSleep                                  \<comment> \<open>asleep in \<open>notEmpty.wait\<close>\<close>
  | DWake                                   \<comment> \<open>woken, before it has the mutex again\<close>
  | DFront                                  \<comment> \<open>\<open>item = q.front()\<close>\<close>
  | DPop 'a                                 \<comment> \<open>\<open>q.pop()\<close>\<close>
  | DInc 'a                                 \<comment> \<open>\<open>return out++\<close>\<close>
  | DUnlock 'a "32 word"
  | DRet 'a "32 word"

text \<open>The logs are ghost state: the items pushed and popped, and what the calls return.\<close>

record 'a osystem =
  oshared :: "'a oqueue"
  opcs :: "nat \<Rightarrow> 'a opc"
  items_in :: "'a list"
  items_out :: "'a list"
  push_log :: "(32 word \<times> 'a) list"
  pop_log :: "(32 word \<times> 'a) list"

section \<open>Steps\<close>

text \<open>\<open>q.size() < maxsize\<close> compares a \<open>size_t\<close> with an \<open>int\<close>, which is converted.\<close>

definition below_max :: "'a oqueue \<Rightarrow> bool" where
  "below_max q \<longleftrightarrow> int (length (items q)) < (if omax q < 0 then omax q + 2 ^ 64 else omax q)"

definition acquire :: "nat \<Rightarrow> 'a oqueue \<Rightarrow> 'a oqueue option" where
  "acquire th q = (if holder q = None then Some (q\<lparr>holder := Some th\<rparr>) else None)"

definition release :: "'a oqueue \<Rightarrow> 'a oqueue" where
  "release q = q\<lparr>holder := None\<rparr>"

definition goto :: "nat \<Rightarrow> 'a opc \<Rightarrow> 'a oqueue \<Rightarrow> 'a osystem \<Rightarrow> 'a osystem" where
  "goto th pc q s = s\<lparr>oshared := q, opcs := (opcs s)(th := pc)\<rparr>"

text \<open>Waking the thread \<open>w\<close>.\<close>

definition wake :: "nat \<Rightarrow> 'a osystem \<Rightarrow> 'a osystem" where
  "wake w s = goto w DWake ((oshared s)\<lparr>sleepers := remove1 w (sleepers (oshared s))\<rparr>) s"

text \<open>\<open>push\<close>; \<open>w\<close> is the thread that a notification wakes, if any is asleep.\<close>

fun opush_step :: "nat \<Rightarrow> nat \<Rightarrow> 'a opc \<Rightarrow> 'a osystem \<Rightarrow> 'a osystem option" where
  "opush_step th w (QWait x) s = (let q = oshared s in
     Some (if omax q = 0 \<or> below_max q then goto th (QLock x) q s else s))"
| "opush_step th w (QLock x) s = map_option (\<lambda>q. goto th (QPush x) q s) (acquire th (oshared s))"
| "opush_step th w (QPush x) s = (let q = oshared s in
     Some (goto th (QNotify x) (q\<lparr>items := items q @ [x]\<rparr>) (s\<lparr>items_in := items_in s @ [x]\<rparr>)))"
| "opush_step th w (QNotify x) s =
     (if sleepers (oshared s) = [] then Some (goto th (QInc x) (oshared s) s)
      else if w \<in> set (sleepers (oshared s)) then Some (goto th (QInc x) (oshared (wake w s)) (wake w s))
      else None)"
| "opush_step th w (QInc x) s = (let q = oshared s in
     Some (goto th (QUnlock (oin q)) (q\<lparr>oin := oin q + 1\<rparr>) (s\<lparr>push_log := push_log s @ [(oin q, x)]\<rparr>)))"
| "opush_step th w (QUnlock t) s = Some (goto th (QRet t) (release (oshared s)) s)"
| "opush_step th w _ s = None"

text \<open>\<open>pop\<close>; \<open>front\<close> of an empty queue would be undefined.\<close>

fun opop_step :: "nat \<Rightarrow> 'a opc \<Rightarrow> 'a osystem \<Rightarrow> 'a osystem option" where
  "opop_step th DLock s = map_option (\<lambda>q. goto th DTest q s) (acquire th (oshared s))"
| "opop_step th DTest s = (let q = oshared s in
     Some (if items q \<noteq> [] then goto th DFront q s
       else goto th DSleep (release (q\<lparr>sleepers := sleepers q @ [th]\<rparr>)) s))"
| "opop_step th DWake s = map_option (\<lambda>q. goto th DTest q s) (acquire th (oshared s))"
| "opop_step th DFront s = (case items (oshared s) of [] \<Rightarrow> None | x # xs \<Rightarrow> Some (goto th (DPop x) (oshared s) s))"
| "opop_step th (DPop x) s = (case items (oshared s) of [] \<Rightarrow> None
     | y # ys \<Rightarrow> Some (goto th (DInc x) ((oshared s)\<lparr>items := ys\<rparr>) (s\<lparr>items_out := items_out s @ [x]\<rparr>)))"
| "opop_step th (DInc x) s = (let q = oshared s in
     Some (goto th (DUnlock x (oout q)) (q\<lparr>oout := oout q + 1\<rparr>) (s\<lparr>pop_log := pop_log s @ [(oout q, x)]\<rparr>)))"
| "opop_step th (DUnlock x t) s = Some (goto th (DRet x t) (release (oshared s)) s)"
| "opop_step th _ s = None"

datatype 'a oaction = OCallPush nat 'a | OCallPop nat | OStep nat nat | OReturn nat | OWakeUp nat

fun oexec :: "'a oaction \<Rightarrow> 'a osystem \<Rightarrow> 'a osystem option" where
  "oexec (OCallPush th x) s = (if opcs s th = OIdle then Some (goto th (QWait x) (oshared s) s) else None)"
| "oexec (OCallPop th) s = (if opcs s th = OIdle then Some (goto th DLock (oshared s) s) else None)"
| "oexec (OStep th w) s = (case opush_step th w (opcs s th) s of Some s' \<Rightarrow> Some s' | None \<Rightarrow> opop_step th (opcs s th) s)"
| "oexec (OReturn th) s = (case opcs s th of
       QRet t \<Rightarrow> Some (goto th OIdle (oshared s) s)
     | DRet x t \<Rightarrow> Some (goto th OIdle (oshared s) s)
     | _ \<Rightarrow> None)"
| "oexec (OWakeUp th) s = (if th \<in> set (sleepers (oshared s)) then Some (wake th s) else None)"

definition ostart :: "int \<Rightarrow> 'a osystem" where
  "ostart mx = \<lparr>oshared = oqueue_new mx, opcs = (\<lambda>_. OIdle), items_in = [], items_out = [],
     push_log = [], pop_log = []\<rparr>"

inductive oreach :: "int \<Rightarrow> 'a osystem \<Rightarrow> bool" for mx where
  init: "oreach mx (ostart mx)"
| step: "oreach mx s \<Longrightarrow> oexec a s = Some s' \<Longrightarrow> oreach mx s'"

fun oexec_all :: "'a oaction list \<Rightarrow> 'a osystem \<Rightarrow> 'a osystem option" where
  "oexec_all [] s = Some s"
| "oexec_all (a # as) s = (case oexec a s of None \<Rightarrow> None | Some s' \<Rightarrow> oexec_all as s')"

lemma oexec_all_reach: "oexec_all as s = Some s' \<Longrightarrow> oreach mx s \<Longrightarrow> oreach mx s'"
  by (induction as arbitrary: s) (auto split: option.splits intro: oreach.step)

text \<open>The queries, which read the counters without the mutex.\<close>

definition oq_size :: "'a oqueue \<Rightarrow> int" where
  "oq_size q = sint (oin q) - sint (oout q)"

definition oq_full :: "'a oqueue \<Rightarrow> bool" where
  "oq_full q \<longleftrightarrow> oq_size q \<ge> omax q"

definition oq_empty :: "'a oqueue \<Rightarrow> bool" where
  "oq_empty q \<longleftrightarrow> items q = []"

definition oq_done :: "'a oqueue \<Rightarrow> int" where
  "oq_done q = sint (oout q) - 1"

section \<open>Mutual exclusion\<close>

definition holding :: "'a opc \<Rightarrow> bool" where
  "holding pc = (case pc of QPush x \<Rightarrow> True | QNotify x \<Rightarrow> True | QInc x \<Rightarrow> True | QUnlock t \<Rightarrow> True
     | DTest \<Rightarrow> True | DFront \<Rightarrow> True | DPop x \<Rightarrow> True | DInc x \<Rightarrow> True | DUnlock x t \<Rightarrow> True | _ \<Rightarrow> False)"

definition mutex_inv :: "'a osystem \<Rightarrow> bool" where
  "mutex_inv s \<longleftrightarrow> (\<forall>th. holding (opcs s th) \<longleftrightarrow> holder (oshared s) = Some th)
     \<and> (\<forall>th. opcs s th = DSleep \<longleftrightarrow> th \<in> set (sleepers (oshared s))) \<and> distinct (sleepers (oshared s))"

text \<open>A step of the model, cut into the cases the invariants need: what the thread does to its
  program counter, the mutex, the items, the logs and the sleepers.\<close>

inductive ostep :: "nat \<Rightarrow> 'a osystem \<Rightarrow> 'a osystem \<Rightarrow> bool" for th s where
  call: "opcs s th = OIdle \<Longrightarrow> pc = QWait x \<or> pc = DLock \<Longrightarrow> ostep th s (goto th pc (oshared s) s)"
| return: "opcs s th = QRet t \<or> opcs s th = DRet x t \<Longrightarrow> ostep th s (goto th OIdle (oshared s) s)"
| full: "opcs s th = QWait x \<Longrightarrow> omax (oshared s) \<noteq> 0 \<Longrightarrow> \<not> below_max (oshared s) \<Longrightarrow> ostep th s s"
| pass: "opcs s th = QWait x \<Longrightarrow> omax (oshared s) = 0 \<or> below_max (oshared s) \<Longrightarrow>
    ostep th s (goto th (QLock x) (oshared s) s)"
| lock: "(opcs s th, pc) = (QLock x, QPush x) \<or> (opcs s th, pc) = (DLock, DTest) \<or> (opcs s th, pc) = (DWake, DTest) \<Longrightarrow>
    holder (oshared s) = None \<Longrightarrow> ostep th s (goto th pc ((oshared s)\<lparr>holder := Some th\<rparr>) s)"
| unlock: "(opcs s th, pc) = (QUnlock t, QRet t) \<or> (opcs s th, pc) = (DUnlock x t, DRet x t) \<Longrightarrow>
    ostep th s (goto th pc ((oshared s)\<lparr>holder := None\<rparr>) s)"
| push: "opcs s th = QPush x \<Longrightarrow> ostep th s (goto th (QNotify x) ((oshared s)\<lparr>items := items (oshared s) @ [x]\<rparr>)
    (s\<lparr>items_in := items_in s @ [x]\<rparr>))"
| notify_none: "opcs s th = QNotify x \<Longrightarrow> sleepers (oshared s) = [] \<Longrightarrow> ostep th s (goto th (QInc x) (oshared s) s)"
| notify: "opcs s th = QNotify x \<Longrightarrow> w \<in> set (sleepers (oshared s)) \<Longrightarrow>
    ostep th s (goto th (QInc x) (oshared (wake w s)) (wake w s))"
| count_in: "opcs s th = QInc x \<Longrightarrow> ostep th s (goto th (QUnlock (oin (oshared s)))
    ((oshared s)\<lparr>oin := oin (oshared s) + 1\<rparr>) (s\<lparr>push_log := push_log s @ [(oin (oshared s), x)]\<rparr>))"
| sleep: "opcs s th = DTest \<Longrightarrow> items (oshared s) = [] \<Longrightarrow>
    ostep th s (goto th DSleep ((oshared s)\<lparr>sleepers := sleepers (oshared s) @ [th], holder := None\<rparr>) s)"
| go: "opcs s th = DTest \<Longrightarrow> items (oshared s) \<noteq> [] \<Longrightarrow> ostep th s (goto th DFront (oshared s) s)"
| front: "opcs s th = DFront \<Longrightarrow> items (oshared s) = x # xs \<Longrightarrow> ostep th s (goto th (DPop x) (oshared s) s)"
| pop: "opcs s th = DPop x \<Longrightarrow> items (oshared s) = y # ys \<Longrightarrow>
    ostep th s (goto th (DInc x) ((oshared s)\<lparr>items := ys\<rparr>) (s\<lparr>items_out := items_out s @ [x]\<rparr>))"
| count_out: "opcs s th = DInc x \<Longrightarrow> ostep th s (goto th (DUnlock x (oout (oshared s)))
    ((oshared s)\<lparr>oout := oout (oshared s) + 1\<rparr>) (s\<lparr>pop_log := pop_log s @ [(oout (oshared s), x)]\<rparr>))"
| wakeup: "th \<in> set (sleepers (oshared s)) \<Longrightarrow> ostep th s (wake th s)"

lemma opush_ostep: "opush_step th w (opcs s th) s = Some s' \<Longrightarrow> ostep th s s'"
  by (cases "opcs s th")
    (auto simp: Let_def acquire_def release_def intro: ostep.intros split: if_splits)

lemma opop_ostep: "opop_step th (opcs s th) s = Some s' \<Longrightarrow> ostep th s s'"
  by (cases "opcs s th")
    (auto simp: Let_def acquire_def release_def intro: ostep.intros split: if_splits list.splits)

lemma oexec_ostep: "oexec a s = Some s' \<Longrightarrow> \<exists>th. ostep th s s'"
proof (cases a)
  case (OStep th w)
  assume "oexec a s = Some s'"
  then show ?thesis using OStep opush_ostep[of th w s s'] opop_ostep[of th s s'] by (auto split: option.splits)
next
  case (OReturn th)
  assume "oexec a s = Some s'"
  then show ?thesis using OReturn by (cases "opcs s th") (auto intro: ostep.intros)
qed (auto intro: ostep.intros split: if_splits)

lemma mutex_goto:
  assumes "mutex_inv s2" "opcs s2 th = pc0" "opcs s' = (opcs s2)(th := pc)"
    and "pc0 \<noteq> DSleep" "pc \<noteq> DSleep" "sleepers (oshared s') = sleepers (oshared s2)"
    and "holder (oshared s') = (if holding pc then Some th else if holding pc0 then None else holder (oshared s2))"
    and "holding pc \<and> \<not> holding pc0 \<Longrightarrow> holder (oshared s2) = None"
  shows "mutex_inv s'"
proof -
  have h: "holding (opcs s2 t) \<longleftrightarrow> holder (oshared s2) = Some t" for t using assms(1) by (simp add: mutex_inv_def)
  have "holding (opcs s' t) \<longleftrightarrow> holder (oshared s') = Some t" for t
    using h[of t] h[of th] assms(2,3,7,8) by (auto split: if_splits)
  then show ?thesis using assms by (auto simp: mutex_inv_def)
qed

lemma mutex_goto_same:
  assumes "mutex_inv s" "opcs s th \<noteq> DSleep" "pc \<noteq> DSleep" "holding pc = holding (opcs s th)"
    and "opcs s2 = opcs s" "sleepers q = sleepers (oshared s)" "holder q = holder (oshared s)"
  shows "mutex_inv (goto th pc q s2)"
proof -
  have "holding (opcs s th) \<longleftrightarrow> holder (oshared s) = Some th" using assms(1) by (simp add: mutex_inv_def)
  then show ?thesis using assms
    by (intro mutex_goto[OF assms(1), of th "opcs s th" _ pc]) (auto simp: goto_def)
qed

lemma mutex_invD:
  assumes "mutex_inv s"
  shows "holding (opcs s th) \<longleftrightarrow> holder (oshared s) = Some th"
    "opcs s th = DSleep \<longleftrightarrow> th \<in> set (sleepers (oshared s))"
  using assms by (simp_all add: mutex_inv_def)

lemma mutex_wake:
  assumes "mutex_inv s" "w \<in> set (sleepers (oshared s))"
  shows "mutex_inv (wake w s)"
proof -
  have w: "opcs s w = DSleep" using assms by (simp add: mutex_inv_def)
  have h: "\<not> holding (DSleep :: 'a opc)" "\<not> holding (DWake :: 'a opc)" by (simp_all add: holding_def)
  moreover have "holder (oshared s) \<noteq> Some w" using assms(1) w h(1) unfolding mutex_inv_def by metis
  ultimately show ?thesis using assms
    by (auto simp: mutex_inv_def wake_def goto_def)
qed

lemma mutex_ostep:
  assumes inv: "mutex_inv s" and st: "ostep th s s'"
  shows "mutex_inv s'"
  using st
proof cases
  case (sleep)
  have h: "\<not> holding (DSleep :: 'a opc)" "holding (DTest :: 'a opc)" by (simp_all add: holding_def)
  have "opcs s th \<noteq> DSleep" using sleep by simp
  then have "th \<notin> set (sleepers (oshared s))" using inv unfolding mutex_inv_def by blast
  moreover have "holder (oshared s) = Some th" using inv sleep h(2) unfolding mutex_inv_def by metis
  ultimately show ?thesis using inv sleep h by (auto simp: mutex_inv_def goto_def)
next
  case (notify x w)
  then have m: "mutex_inv (wake w s)" using mutex_wake[OF inv] by blast
  have "w \<noteq> th" using mutex_invD(2)[OF inv, of th] notify by auto
  then have "opcs (wake w s) th = QNotify x" using notify by (simp add: wake_def goto_def)
  then show ?thesis unfolding notify(1)
    using m by (intro mutex_goto[OF m, of th "QNotify x" _ "QInc x"])
      (auto simp: goto_def holding_def mutex_inv_def)
next
  case wakeup
  then show ?thesis using mutex_wake[OF inv] by simp
next
  case full
  then show ?thesis using inv by simp
next
  case (lock pc x)
  then show ?thesis unfolding lock(1)
    by (intro mutex_goto[OF inv, of th "opcs s th" _ pc]) (auto simp: goto_def holding_def)
next
  case (unlock pc t x)
  then show ?thesis unfolding unlock(1)
    by (intro mutex_goto[OF inv, of th "opcs s th" _ pc]) (auto simp: goto_def holding_def)
next
  case (call pc x)
  then show ?thesis unfolding call(1)
    by (intro mutex_goto[OF inv, of th "opcs s th" _ pc]) (auto simp: goto_def holding_def)
next
  case (return t x)
  then show ?thesis unfolding return(1)
    by (intro mutex_goto[OF inv, of th "opcs s th" _ OIdle]) (auto simp: goto_def holding_def)
qed (auto intro!: mutex_goto_same[OF inv] simp: holding_def)


section \<open>The logs\<close>

text \<open>The thread in the critical section, and what it has not logged yet.\<close>

definition inside :: "'a osystem \<Rightarrow> 'a opc" where
  "inside s = (case holder (oshared s) of None \<Rightarrow> OIdle | Some th \<Rightarrow> opcs s th)"

definition not_counted_in :: "'a opc \<Rightarrow> 'a list" where
  "not_counted_in pc = (case pc of QNotify x \<Rightarrow> [x] | QInc x \<Rightarrow> [x] | _ \<Rightarrow> [])"

definition not_counted_out :: "'a opc \<Rightarrow> 'a list" where
  "not_counted_out pc = (case pc of DInc x \<Rightarrow> [x] | _ \<Rightarrow> [])"

definition numbered :: "(32 word \<times> 'a) list \<Rightarrow> bool" where
  "numbered l \<longleftrightarrow> map fst l = map of_nat [1..<Suc (length l)]"

definition oq_log_inv :: "'a osystem \<Rightarrow> bool" where
  "oq_log_inv s \<longleftrightarrow> items_in s = items_out s @ items (oshared s)
     \<and> items_in s = map snd (push_log s) @ not_counted_in (inside s)
     \<and> items_out s = map snd (pop_log s) @ not_counted_out (inside s)
     \<and> numbered (push_log s) \<and> numbered (pop_log s)
     \<and> oin (oshared s) = of_nat (length (push_log s)) + 1 \<and> oout (oshared s) = of_nat (length (pop_log s)) + 1
     \<and> (case inside s of DPop x \<Rightarrow> items (oshared s) \<noteq> [] \<and> hd (items (oshared s)) = x
          | DFront \<Rightarrow> items (oshared s) \<noteq> []
          | QNotify x \<Rightarrow> items (oshared s) \<noteq> [] | QInc x \<Rightarrow> items (oshared s) \<noteq> [] | _ \<Rightarrow> True)"

lemma numbered_snoc [simp]:
  "numbered (l @ [(t, x)]) \<longleftrightarrow> numbered l \<and> t = of_nat (length l) + 1"
  by (auto simp: numbered_def)

lemma inside_at: "mutex_inv s \<Longrightarrow> holding (opcs s th) \<Longrightarrow> inside s = opcs s th"
  using mutex_invD(1)[of s th] by (simp add: inside_def)

text \<open>A step outside the critical section leaves the logs alone.\<close>

lemma oq_log_inv_outside:
  assumes "oq_log_inv s" "items (oshared s') = items (oshared s)" "oin (oshared s') = oin (oshared s)"
    "oout (oshared s') = oout (oshared s)" "items_in s' = items_in s" "items_out s' = items_out s"
    "push_log s' = push_log s" "pop_log s' = pop_log s"
    and "inside s' = inside s \<or> (not_counted_in (inside s') = not_counted_in (inside s)
        \<and> not_counted_out (inside s') = not_counted_out (inside s)
        \<and> (case inside s' of DPop x \<Rightarrow> False | DFront \<Rightarrow> False | QNotify x \<Rightarrow> False
             | QInc x \<Rightarrow> items (oshared s) \<noteq> [] | _ \<Rightarrow> True))"
  shows "oq_log_inv s'"
  using assms unfolding oq_log_inv_def by (elim disjE) (auto split: opc.splits)

lemma inside_goto:
  assumes "mutex_inv s" "\<not> holding (opcs s th)" "\<not> holding pc" "holder q = holder (oshared s)"
  shows "inside (goto th pc q s) = inside s"
  using mutex_invD(1)[OF assms(1), of th] assms by (auto simp: inside_def goto_def split: option.splits)

lemma inside_goto_held: "holder q = Some th \<Longrightarrow> inside (goto th pc q s) = pc"
  by (simp add: inside_def goto_def)

lemma inside_wake:
  assumes "mutex_inv s" "w \<in> set (sleepers (oshared s))"
  shows "inside (wake w s) = inside s"
proof -
  have "opcs s w = DSleep" using mutex_invD(2)[OF assms(1)] assms(2) by blast
  then have "\<not> holding (opcs s w)" by (simp add: holding_def)
  then show ?thesis using assms(1) unfolding wake_def by (intro inside_goto) (simp_all add: holding_def)
qed

lemma oq_log_inv_wake:
  assumes "mutex_inv s" "oq_log_inv s" "w \<in> set (sleepers (oshared s))"
  shows "oq_log_inv (wake w s)"
  using inside_wake[OF assms(1,3)] by (intro oq_log_inv_outside[OF assms(2)]) (simp_all add: wake_def goto_def)

lemma oq_log_inv_ostep:
  assumes m: "mutex_inv s" and inv: "oq_log_inv s" and st: "ostep th s s'"
  shows "oq_log_inv s'"
proof -
  have held: "holding (opcs s th) \<Longrightarrow> holder (oshared s) = Some th" using mutex_invD(1)[OF m] by blast
  show ?thesis using st
  proof cases
    case (call pc x)
    then have "inside s' = inside s" using inside_goto[OF m, of th pc "oshared s"] by (auto simp: holding_def)
    then show ?thesis using call(1) by (intro oq_log_inv_outside[OF inv]) (simp_all add: goto_def)
  next
    case (return t x)
    then have "inside s' = inside s" using inside_goto[OF m, of th OIdle "oshared s"] by (auto simp: holding_def)
    then show ?thesis using return(1) by (intro oq_log_inv_outside[OF inv]) (simp_all add: goto_def)
  next
    case full
    then show ?thesis using inv by simp
  next
    case (pass x)
    then have "inside s' = inside s" using inside_goto[OF m, of th "QLock x" "oshared s"] by (auto simp: holding_def)
    then show ?thesis using pass(1) by (intro oq_log_inv_outside[OF inv]) (simp_all add: goto_def)
  next
    case (lock pc x)
    have "inside s' = pc" unfolding lock(1) by (simp add: inside_goto_held)
    moreover have "inside s = OIdle" using lock by (simp add: inside_def)
    ultimately show ?thesis using lock
      by (intro oq_log_inv_outside[OF inv]) (auto simp: goto_def not_counted_in_def not_counted_out_def)
  next
    case (unlock pc t x)
    then have "inside s = opcs s th" using inside_at[OF m, of th] by (auto simp: holding_def)
    moreover have "inside s' = OIdle" using unlock(1) by (simp add: inside_def goto_def)
    ultimately show ?thesis using unlock
      by (intro oq_log_inv_outside[OF inv]) (auto simp: goto_def not_counted_in_def not_counted_out_def)
  next
    case (push x)
    then have i: "inside s = QPush x" "holder (oshared s) = Some th" using inside_at[OF m, of th] held by (auto simp: holding_def)
    then have "inside s' = QNotify x" using push(1) by (simp add: inside_def goto_def)
    then show ?thesis using push(1) i inv by (auto simp: oq_log_inv_def goto_def not_counted_in_def not_counted_out_def)
  next
    case (notify_none x)
    then have i: "inside s = QNotify x" "holder (oshared s) = Some th" using inside_at[OF m, of th] held by (auto simp: holding_def)
    then have "inside s' = QInc x" using notify_none(1) by (simp add: inside_def goto_def)
    then show ?thesis using notify_none(1) i inv
      by (auto simp: oq_log_inv_def goto_def not_counted_in_def not_counted_out_def)
  next
    case (notify x w)
    then have i: "inside s = QNotify x" "holder (oshared s) = Some th" using inside_at[OF m, of th] held by (auto simp: holding_def)
    then have "inside s' = QInc x" using notify(1) by (simp add: inside_def goto_def wake_def)
    then show ?thesis using notify(1) i inv
      by (auto simp: oq_log_inv_def goto_def wake_def not_counted_in_def not_counted_out_def)
  next
    case (count_in x)
    then have i: "inside s = QInc x" "holder (oshared s) = Some th" using inside_at[OF m, of th] held by (auto simp: holding_def)
    then have "inside s' = QUnlock (oin (oshared s))" using count_in(1) by (simp add: inside_def goto_def)
    then show ?thesis using count_in(1) i inv
      by (auto simp: oq_log_inv_def goto_def not_counted_in_def not_counted_out_def)
  next
    case (sleep)
    then have i: "inside s = DTest" using inside_at[OF m, of th] by (auto simp: holding_def)
    have "inside s' = OIdle" using sleep(1) by (simp add: inside_def goto_def)
    then show ?thesis using sleep(1) i
      by (intro oq_log_inv_outside[OF inv]) (auto simp: goto_def not_counted_in_def not_counted_out_def)
  next
    case (go)
    then have i: "inside s = DTest" "holder (oshared s) = Some th" using inside_at[OF m, of th] held by (auto simp: holding_def)
    then have "inside s' = DFront" using go(1) by (simp add: inside_def goto_def)
    then show ?thesis using go i inv by (auto simp: oq_log_inv_def goto_def not_counted_in_def not_counted_out_def)
  next
    case (front x xs)
    then have i: "inside s = DFront" "holder (oshared s) = Some th" using inside_at[OF m, of th] held by (auto simp: holding_def)
    then have "inside s' = DPop x" using front(1) by (simp add: inside_def goto_def)
    then show ?thesis using front i inv by (auto simp: oq_log_inv_def goto_def not_counted_in_def not_counted_out_def)
  next
    case (pop x y ys)
    then have i: "inside s = DPop x" "holder (oshared s) = Some th" using inside_at[OF m, of th] held by (auto simp: holding_def)
    then have "inside s' = DInc x" using pop(1) by (simp add: inside_def goto_def)
    moreover have "y = x" using inv i pop by (simp add: oq_log_inv_def)
    ultimately show ?thesis using pop i inv by (auto simp: oq_log_inv_def goto_def not_counted_in_def not_counted_out_def)
  next
    case (count_out x)
    then have i: "inside s = DInc x" "holder (oshared s) = Some th" using inside_at[OF m, of th] held by (auto simp: holding_def)
    then have "inside s' = DUnlock x (oout (oshared s))" using count_out(1) by (simp add: inside_def goto_def)
    then show ?thesis using count_out(1) i inv
      by (auto simp: oq_log_inv_def goto_def not_counted_in_def not_counted_out_def)
  next
    case wakeup
    then show ?thesis using oq_log_inv_wake[OF m inv] by simp
  qed
qed

lemma inv_reach:
  assumes "oreach mx s"
  shows "mutex_inv s" "oq_log_inv s" "omax (oshared s) = mx"
proof -
  have "mutex_inv s \<and> oq_log_inv s \<and> omax (oshared s) = mx" using assms
  proof (induction rule: oreach.induct)
    case init
    then show ?case
      by (auto simp: mutex_inv_def oq_log_inv_def ostart_def oqueue_new_def holding_def inside_def
        not_counted_in_def not_counted_out_def numbered_def)
  next
    case (step s a s')
    then obtain th where st: "ostep th s s'" using oexec_ostep by blast
    have "omax (oshared s') = omax (oshared s)" using st by cases (simp_all add: goto_def wake_def)
    then show ?case using mutex_ostep[OF _ st] oq_log_inv_ostep[OF _ _ st] step.IH by simp
  qed
  then show "mutex_inv s" "oq_log_inv s" "omax (oshared s) = mx" by auto
qed

lemma prefix_append_last:
  assumes "xs @ is = ys @ [x]" "is \<noteq> []"
  shows "prefix xs ys"
proof -
  have "is = butlast is @ [last is]" using assms(2) by simp
  then have "(xs @ butlast is) @ [last is] = ys @ [x]" using assms(1) by (metis append.assoc)
  then have "xs @ butlast is = ys" by simp
  then show ?thesis by (metis prefixI)
qed

lemma numbered_prefix:
  assumes "numbered l" "numbered m" "prefix (map snd l) (map snd m)"
  shows "prefix l m"
proof -
  have n: "l' = zip (map of_nat [1..<Suc (length l')]) (map snd l')" if "numbered l'" for l' :: "(32 word \<times> 'a) list"
    using that zip_map_fst_snd[of l'] unfolding numbered_def by metis
  have le: "length l \<le> length m" using prefix_length_le[OF assms(3)] by simp
  have "take (length l) m = zip (take (length l) (map of_nat [1..<Suc (length m)])) (take (length l) (map snd m))"
    using n[OF assms(2)] take_zip by metis
  moreover have "take (length l) (map snd m) = map snd l"
    using assms(3) by (auto simp: prefix_def)
  moreover have "take (length l) (map of_nat [1..<Suc (length m)]) = (map of_nat [1..<Suc (length l)] :: 32 word list)"
    using le by (simp add: take_map take_upt del: upt_Suc)
  ultimately have "take (length l) m = l" using n[OF assms(1)] by simp
  then show ?thesis using take_is_prefix by metis
qed

lemma logs_prefix:
  assumes "oreach mx s"
  shows "prefix (pop_log s) (push_log s)"
proof (rule numbered_prefix)
  note inv = inv_reach(2)[OF assms]
  show "numbered (pop_log s)" "numbered (push_log s)" using inv by (simp_all add: oq_log_inv_def)
  have e: "items_out s @ items (oshared s) = map snd (push_log s) @ not_counted_in (inside s)"
    using inv unfolding oq_log_inv_def by metis
  have o: "prefix (map snd (pop_log s)) (items_out s)" using inv unfolding oq_log_inv_def by (metis prefixI)
  have "prefix (items_out s) (map snd (push_log s))"
  proof (cases "not_counted_in (inside s) = []")
    case True
    then show ?thesis using e by (metis append_Nil2 prefixI)
  next
    case False
    then obtain x where "inside s = QNotify x \<or> inside s = QInc x" "not_counted_in (inside s) = [x]"
      by (auto simp: not_counted_in_def split: opc.splits)
    moreover from this(1) have "items (oshared s) \<noteq> []" using inv by (auto simp: oq_log_inv_def)
    ultimately show ?thesis using prefix_append_last e by metis
  qed
  then show "prefix (map snd (pop_log s)) (map snd (push_log s))" using o prefix_order.trans by blast
qed

section \<open>The bound on the items\<close>

definition past_check :: "'a opc \<Rightarrow> bool" where
  "past_check pc = (case pc of QLock x \<Rightarrow> True | QPush x \<Rightarrow> True | _ \<Rightarrow> False)"

definition bound_inv :: "nat set \<Rightarrow> 'a osystem \<Rightarrow> bool" where
  "bound_inv T s \<longleftrightarrow> (\<forall>th x. opcs s th \<in> {QWait x, QLock x, QPush x} \<longrightarrow> th \<in> T)
     \<and> int (length (items (oshared s))) + int (card {th \<in> T. past_check (opcs s th)})
        \<le> omax (oshared s) - 1 + int (card T)"

lemma bound_goto:
  assumes inv: "bound_inv T s" and fin: "finite T" and "past_check pc \<Longrightarrow> past_check (opcs s th)"
    and "length (items q) + (if past_check (opcs s th) \<and> \<not> past_check pc then 0 else 1)
      \<le> length (items (oshared s)) + 1"
    and "omax q = omax (oshared s)" and "\<And>x. pc = QWait x \<Longrightarrow> th \<in> T" and "opcs s2 = opcs s"
  shows "bound_inv T (goto th pc q s2)"
proof -
  have T: "past_check (opcs s t) \<Longrightarrow> t \<in> T" for t
    using inv by (auto simp: bound_inv_def past_check_def split: opc.splits)
  let ?A = "{t \<in> T. past_check (opcs s t)}" and ?B = "{t \<in> T. past_check (((opcs s)(th := pc)) t)}"
  have sub: "?B \<subseteq> ?A" and fA: "finite ?A" using assms(3) fin by auto
  have cards: "card ?B + (if past_check (opcs s th) \<and> \<not> past_check pc then 1 else 0) \<le> card ?A"
  proof (cases "past_check (opcs s th) \<and> \<not> past_check pc")
    case True
    then have "th \<in> ?A" "th \<notin> ?B" using T by auto
    then have "card ?B < card ?A" using sub fA by (intro psubset_card_mono) blast+
    then show ?thesis using True by simp
  next
    case False
    then show ?thesis using card_mono[OF fA sub] by (simp only: if_False add_0_right)
  qed
  have both: "a + (if c then 1 else 0) \<le> b \<Longrightarrow> x + (if c then 0 else 1) \<le> y + 1 \<Longrightarrow> x + a \<le> y + b"
    for c and a b x y :: nat
    by (auto split: if_splits)
  have "int (length (items (oshared s))) + int (card ?A) \<le> omax (oshared s) - 1 + int (card T)"
    using inv unfolding bound_inv_def by blast
  then have "int (length (items q)) + int (card ?B) \<le> omax (oshared s) - 1 + int (card T)"
    using both[OF cards assms(4)] by linarith
  moreover have "\<forall>t x. ((opcs s)(th := pc)) t \<in> {QWait x, QLock x, QPush x} \<longrightarrow> t \<in> T"
    using inv assms(3,6) T by (auto simp: bound_inv_def past_check_def)
  moreover have "opcs (goto th pc q s2) = (opcs s)(th := pc)" "oshared (goto th pc q s2) = q"
    using assms(7) by (simp_all add: goto_def)
  ultimately show ?thesis unfolding bound_inv_def by (simp only: assms(5))
qed

lemma bound_ostep:
  assumes inv: "bound_inv T s" and m: "mutex_inv s" and fin: "finite T" and st: "ostep th s s'"
    and new: "\<And>x. opcs s th = OIdle \<Longrightarrow> opcs s' th = QWait x \<Longrightarrow> th \<in> T" and pos: "0 < omax (oshared s)"
  shows "bound_inv T s'"
  using st
proof cases
  case (pass x)
  have th: "th \<in> T" using inv pass by (auto simp: bound_inv_def)
  have "int (length (items (oshared s))) \<le> omax (oshared s) - 1"
    using pass pos by (auto simp: below_max_def)
  moreover have "card {t \<in> T. past_check (opcs s' t)} \<le> card T" using fin by (intro card_mono) auto
  moreover have "\<forall>t x. opcs s' t \<in> {QWait x, QLock x, QPush x} \<longrightarrow> t \<in> T"
    using inv th pass(1) by (auto simp: bound_inv_def goto_def)
  ultimately show ?thesis using pass(1) by (simp add: bound_inv_def goto_def)
next
  case (notify x w)
  have w: "bound_inv T (wake w s)" unfolding wake_def
    by (rule bound_goto[OF inv fin]) (auto simp: past_check_def)
  have "w \<noteq> th" using mutex_invD(2)[OF m, of th] notify by auto
  then have "opcs (wake w s) th = QNotify x" using notify by (simp add: wake_def goto_def)
  then show ?thesis unfolding notify(1) by (intro bound_goto[OF w fin]) (auto simp: past_check_def)
next
  case wakeup
  then show ?thesis unfolding wake_def by (simp, intro bound_goto[OF inv fin]) (auto simp: past_check_def)
next
  case (call pc x)
  then have "\<And>x. pc = QWait x \<Longrightarrow> th \<in> T" using new by (simp add: goto_def)
  then show ?thesis unfolding call(1) using call(2,3)
    by (intro bound_goto[OF inv fin]) (auto simp: past_check_def)
qed (use inv in \<open>auto intro!: bound_goto[OF inv fin] simp: past_check_def\<close>)

lemma oexec_call:
  assumes "oexec a s = Some s'" "mutex_inv s"
  shows "\<exists>th. ostep th s s' \<and> (\<forall>x. opcs s th = OIdle \<longrightarrow> opcs s' th = QWait x \<longrightarrow> a = OCallPush th x)"
proof (cases a)
  case (OStep th w)
  then have "ostep th s s'" using assms(1) opush_ostep[of th w s s'] opop_ostep[of th s s'] by (auto split: option.splits)
  moreover have "opcs s th \<noteq> OIdle" using OStep assms(1) by (cases "opcs s th") auto
  ultimately show ?thesis by blast
next
  case (OReturn th)
  then have "ostep th s s'" "opcs s th \<noteq> OIdle" using assms(1) by (cases "opcs s th"; auto intro: ostep.intros)+
  then show ?thesis by blast
next
  case (OWakeUp th)
  then have "ostep th s s'" "opcs s th = DSleep"
    using assms mutex_invD(2)[OF assms(2), of th] by (auto intro: ostep.intros split: if_splits)
  then show ?thesis by auto
next
  case (OCallPush th x)
  then have "opcs s th = OIdle" "s' = goto th (QWait x) (oshared s) s" using assms(1) by (simp_all split: if_splits)
  then show ?thesis using ostep.call[of s th "QWait x"] OCallPush by (intro exI[of _ th]) (auto simp: goto_def)
next
  case (OCallPop th)
  then have "opcs s th = OIdle" "s' = goto th DLock (oshared s) s" using assms(1) by (simp_all split: if_splits)
  then show ?thesis using ostep.call[of s th DLock] by (intro exI[of _ th]) (auto simp: goto_def)
qed

lemma bound_oexec_all:
  assumes "oexec_all as s = Some s'" "bound_inv T s" "finite T" "oreach mx s" "0 < mx"
    and "\<And>th x. OCallPush th x \<in> set as \<Longrightarrow> th \<in> T"
  shows "bound_inv T s'"
  using assms
proof (induction as arbitrary: s)
  case (Cons a as)
  then obtain s1 where s1: "oexec a s = Some s1" "oexec_all as s1 = Some s'" by (auto split: option.splits)
  note I = inv_reach[OF Cons.prems(4)]
  obtain th where th: "ostep th s s1" "\<And>x. opcs s th = OIdle \<Longrightarrow> opcs s1 th = QWait x \<Longrightarrow> a = OCallPush th x"
    using oexec_call[OF s1(1) I(1)] by blast
  have "bound_inv T s1"
    using th(2) Cons.prems(5,6) I(3) by (intro bound_ostep[OF Cons.prems(2) I(1) Cons.prems(3) th(1)]) auto
  moreover have "oreach mx s1" using Cons.prems(4) s1(1) oreach.step by blast
  ultimately show ?case using Cons.IH[OF s1(2)] Cons.prems(3,5,6) by auto
qed simp

lemma bound_start: "finite T \<Longrightarrow> 0 < mx \<Longrightarrow> bound_inv T (ostart mx)"
  by (simp add: bound_inv_def ostart_def oqueue_new_def past_check_def)

section \<open>Wake-ups\<close>

text \<open>The calls of \<open>pop\<close> that are awake and will look at the items again or take one.\<close>

definition awake :: "'a opc \<Rightarrow> bool" where
  "awake pc = (case pc of DLock \<Rightarrow> True | DTest \<Rightarrow> True | DWake \<Rightarrow> True | DFront \<Rightarrow> True | DPop x \<Rightarrow> True | _ \<Rightarrow> False)"

definition notifying :: "'a opc \<Rightarrow> nat" where
  "notifying pc = (case pc of QNotify x \<Rightarrow> 1 | _ \<Rightarrow> 0)"

definition awake_threads :: "'a osystem \<Rightarrow> nat set" where
  "awake_threads s = {th. awake (opcs s th)}"

definition wake_inv :: "'a osystem \<Rightarrow> bool" where
  "wake_inv s \<longleftrightarrow> finite (awake_threads s)
     \<and> (sleepers (oshared s) \<noteq> [] \<longrightarrow>
          length (items (oshared s)) \<le> card (awake_threads s) + notifying (inside s))"

lemma awake_goto:
  assumes "opcs s' = (opcs s)(th := pc)"
  shows "awake_threads s' = (if awake pc then insert th (awake_threads s) else awake_threads s - {th})"
  using assms by (auto simp: awake_threads_def)

lemma awake_wake: "awake_threads (wake w s) = insert w (awake_threads s)"
  by (auto simp: awake_threads_def wake_def goto_def awake_def)

lemma wake_invI:
  assumes "wake_inv s" "finite (awake_threads s')"
    and "sleepers (oshared s') \<noteq> [] \<Longrightarrow> sleepers (oshared s) \<noteq> []"
    and "length (items (oshared s')) + card (awake_threads s) + notifying (inside s)
      \<le> length (items (oshared s)) + card (awake_threads s') + notifying (inside s')"
  shows "wake_inv s'"
  using assms unfolding wake_inv_def by auto

text \<open>A step of \<open>th\<close> to \<open>pc\<close> that wakes nobody.\<close>

lemma wake_goto:
  assumes inv: "wake_inv s" and pcs: "opcs s' = (opcs s)(th := pc)"
    and sl: "sleepers (oshared s') \<noteq> [] \<Longrightarrow> sleepers (oshared s) \<noteq> []"
    and le: "length (items (oshared s')) + (if awake (opcs s th) \<and> \<not> awake pc then 1 else 0) + notifying (inside s)
      \<le> length (items (oshared s)) + (if awake pc \<and> \<not> awake (opcs s th) then 1 else 0) + notifying (inside s')"
  shows "wake_inv s'"
proof (rule wake_invI[OF inv _ sl])
  have fin: "finite (awake_threads s)" using inv by (simp add: wake_inv_def)
  note A = awake_goto[OF pcs]
  show "finite (awake_threads s')" using fin A by simp
  have th: "th \<in> awake_threads s \<longleftrightarrow> awake (opcs s th)" by (simp add: awake_threads_def)
  have "card (awake_threads s') + (if awake (opcs s th) \<and> \<not> awake pc then 1 else 0)
      = card (awake_threads s) + (if awake pc \<and> \<not> awake (opcs s th) then 1 else 0)"
  proof (cases "awake pc")
    case True
    then show ?thesis using A th fin by (simp add: card_insert_if)
  next
    case False
    then have "awake_threads s' = awake_threads s - {th}" using A by simp
    moreover have "th \<in> awake_threads s \<Longrightarrow> card (awake_threads s - {th}) + 1 = card (awake_threads s)"
      using fin by (metis Suc_eq_plus1 card.remove)
    ultimately show ?thesis using False th by (cases "th \<in> awake_threads s") simp_all
  qed
  then show "length (items (oshared s')) + card (awake_threads s) + notifying (inside s)
      \<le> length (items (oshared s)) + card (awake_threads s') + notifying (inside s')"
    using le by (auto split: if_splits)
qed

lemma wake_ostep:
  assumes m: "mutex_inv s" and l: "oq_log_inv s" and inv: "wake_inv s" and st: "ostep th s s'"
  shows "wake_inv s'"
proof -
  have held: "holding (opcs s th) \<Longrightarrow> holder (oshared s) = Some th" using mutex_invD(1)[OF m] by blast
  have fin: "finite (awake_threads s)" using inv by (simp add: wake_inv_def)
  have new: "w \<notin> awake_threads s" if "w \<in> set (sleepers (oshared s))" for w
  proof -
    have "opcs s w = DSleep" using mutex_invD(2)[OF m] that by blast
    then show ?thesis by (simp add: awake_threads_def awake_def)
  qed
  note defs = goto_def awake_def notifying_def
  show ?thesis using st
  proof cases
    case (call pc x)
    then have "inside s' = inside s" using inside_goto[OF m, of th pc "oshared s"] by (auto simp: holding_def)
    then show ?thesis using call by (intro wake_goto[OF inv, of s' th pc]) (auto simp: defs)
  next
    case (return t x)
    then have "inside s' = inside s" using inside_goto[OF m, of th OIdle "oshared s"] by (auto simp: holding_def)
    then show ?thesis using return by (intro wake_goto[OF inv, of s' th OIdle]) (auto simp: defs)
  next
    case full
    then show ?thesis using inv by simp
  next
    case (pass x)
    then have "inside s' = inside s" using inside_goto[OF m, of th "QLock x" "oshared s"] by (auto simp: holding_def)
    then show ?thesis using pass by (intro wake_goto[OF inv, of s' th "QLock x"]) (auto simp: defs)
  next
    case (lock pc x)
    have "inside s' = pc" unfolding lock(1) by (simp add: inside_goto_held)
    moreover have "inside s = OIdle" using lock by (simp add: inside_def)
    ultimately show ?thesis using lock by (intro wake_goto[OF inv, of s' th pc]) (auto simp: defs)
  next
    case (unlock pc t x)
    then have "inside s = opcs s th" using inside_at[OF m, of th] by (auto simp: holding_def)
    moreover have "inside s' = OIdle" using unlock(1) by (simp add: inside_def goto_def)
    ultimately show ?thesis using unlock by (intro wake_goto[OF inv, of s' th pc]) (auto simp: defs)
  next
    case (push x)
    then have i: "inside s = QPush x" "holder (oshared s) = Some th" using inside_at[OF m, of th] held by (auto simp: holding_def)
    then have "inside s' = QNotify x" using push(1) by (simp add: inside_def goto_def)
    then show ?thesis using push i by (intro wake_goto[OF inv, of s' th "QNotify x"]) (auto simp: defs)
  next
    case (notify_none x)
    then have i: "inside s = QNotify x" "holder (oshared s) = Some th" using inside_at[OF m, of th] held by (auto simp: holding_def)
    have "awake_threads s' = awake_threads s - {th}" using awake_goto[of s' s th "QInc x"] notify_none(1)
      by (simp add: defs)
    then show ?thesis using notify_none fin by (simp add: wake_inv_def goto_def)
  next
    case (notify x w)
    then have i: "inside s = QNotify x" "holder (oshared s) = Some th" using inside_at[OF m, of th] held by (auto simp: holding_def)
    then have "inside s' = QInc x" using notify(1) by (simp add: inside_def goto_def wake_def)
    moreover have "awake_threads s' = insert w (awake_threads s)"
    proof -
      have "awake_threads s' = awake_threads (wake w s) - {th}"
        using awake_goto[of s' "wake w s" th "QInc x"] notify(1) by (simp add: defs)
      moreover have "th \<notin> awake_threads s" using notify by (simp add: awake_threads_def awake_def)
      moreover have "th \<noteq> w" using mutex_invD(2)[OF m, of th] notify by auto
      ultimately show ?thesis unfolding awake_wake by auto
    qed
    ultimately show ?thesis using notify new[of w] fin i
      by (intro wake_invI[OF inv]) (auto simp: goto_def wake_def notifying_def)
  next
    case (count_in x)
    then have i: "inside s = QInc x" "holder (oshared s) = Some th" using inside_at[OF m, of th] held by (auto simp: holding_def)
    then have "inside s' = QUnlock (oin (oshared s))" using count_in(1) by (simp add: inside_def goto_def)
    then show ?thesis using count_in i by (intro wake_goto[OF inv, of s' th "QUnlock (oin (oshared s))"]) (auto simp: defs)
  next
    case sleep
    have "finite (awake_threads s')" using awake_goto[of s' s th DSleep] fin sleep(1) by (simp add: defs)
    then show ?thesis using sleep by (simp add: wake_inv_def goto_def)
  next
    case go
    then have i: "inside s = DTest" "holder (oshared s) = Some th" using inside_at[OF m, of th] held by (auto simp: holding_def)
    then have "inside s' = DFront" using go(1) by (simp add: inside_def goto_def)
    then show ?thesis using go i by (intro wake_goto[OF inv, of s' th DFront]) (auto simp: defs)
  next
    case (front x xs)
    then have i: "inside s = DFront" "holder (oshared s) = Some th" using inside_at[OF m, of th] held by (auto simp: holding_def)
    then have "inside s' = DPop x" using front(1) by (simp add: inside_def goto_def)
    then show ?thesis using front i by (intro wake_goto[OF inv, of s' th "DPop x"]) (auto simp: defs)
  next
    case (pop x y ys)
    then have i: "inside s = DPop x" "holder (oshared s) = Some th" using inside_at[OF m, of th] held by (auto simp: holding_def)
    then have "inside s' = DInc x" using pop(1) by (simp add: inside_def goto_def)
    then show ?thesis using pop i by (intro wake_goto[OF inv, of s' th "DInc x"]) (auto simp: defs)
  next
    case (count_out x)
    then have i: "inside s = DInc x" "holder (oshared s) = Some th" using inside_at[OF m, of th] held by (auto simp: holding_def)
    then have "inside s' = DUnlock x (oout (oshared s))" using count_out(1) by (simp add: inside_def goto_def)
    then show ?thesis using count_out i by (intro wake_goto[OF inv, of s' th "DUnlock x (oout (oshared s))"]) (auto simp: defs)
  next
    case wakeup
    moreover have "sleepers (oshared (wake th s)) \<noteq> [] \<Longrightarrow> sleepers (oshared s) \<noteq> []"
      "items (oshared (wake th s)) = items (oshared s)"
      by (auto simp: wake_def goto_def)
    ultimately show ?thesis using new[of th] fin inside_wake[OF m wakeup(2)]
      by (intro wake_invI[OF inv]) (simp_all add: awake_wake)
  qed
qed

lemma wake_reach: "oreach mx s \<Longrightarrow> wake_inv s"
proof (induction rule: oreach.induct)
  case init
  then show ?case by (simp add: wake_inv_def awake_threads_def ostart_def oqueue_new_def awake_def)
next
  case (step s a s')
  then show ?case using oexec_ostep[OF step(2)] inv_reach(1,2)[OF step(1)] wake_ostep by blast
qed

text \<open>A state in which no call can go on.\<close>

definition stuck :: "'a osystem \<Rightarrow> bool" where
  "stuck s \<longleftrightarrow> (\<forall>th w s'. oexec (OStep th w) s = Some s' \<longrightarrow> s' = s) \<and> (\<forall>th. oexec (OReturn th) s = None)"

lemma stuck_step:
  assumes "stuck s" "oexec (OStep th w) s = Some s'" "opcs s' th \<noteq> opcs s th"
  shows False
  using assms unfolding stuck_def by blast

lemma stuck_no_holder:
  assumes st: "stuck s" and m: "mutex_inv s" and l: "oq_log_inv s"
  shows "holder (oshared s) = None"
proof (rule ccontr)
  assume "holder (oshared s) \<noteq> None"
  then obtain th where th: "holder (oshared s) = Some th" by blast
  then have h: "holding (opcs s th)" using mutex_invD(1)[OF m] by blast
  then have i: "inside s = opcs s th" using inside_at[OF m] by blast
  have w: "hd (sleepers (oshared s)) \<noteq> th" if "sleepers (oshared s) \<noteq> []"
  proof -
    have "opcs s (hd (sleepers (oshared s))) = DSleep" using mutex_invD(2)[OF m] that by simp
    then show ?thesis using h by (auto simp: holding_def)
  qed
  have "\<exists>s'. oexec (OStep th (hd (sleepers (oshared s)))) s = Some s' \<and> opcs s' th \<noteq> opcs s th"
    using h l i w by (cases "opcs s th")
      (auto simp: holding_def Let_def goto_def wake_def oq_log_inv_def release_def split: list.splits)
  then show False using stuck_step[OF st] by blast
qed

lemma stuck_pcs:
  assumes st: "stuck s" and m: "mutex_inv s" and l: "oq_log_inv s"
  shows "opcs s th \<in> {OIdle, DSleep} \<or> (\<exists>x. opcs s th = QWait x \<and> omax (oshared s) \<noteq> 0 \<and> \<not> below_max (oshared s))"
proof -
  note none = stuck_no_holder[OF assms]
  have "\<not> holding (opcs s th)" using mutex_invD(1)[OF m, of th] none by simp
  moreover have "(\<exists>s'. oexec (OStep th 0) s = Some s' \<and> opcs s' th \<noteq> opcs s th) \<or> oexec (OReturn th) s \<noteq> None"
    if "\<not> holding (opcs s th)" "opcs s th \<notin> {OIdle, DSleep}"
      "\<And>x. opcs s th = QWait x \<Longrightarrow> omax (oshared s) = 0 \<or> below_max (oshared s)"
    using that none by (cases "opcs s th") (auto simp: holding_def Let_def goto_def acquire_def)
  moreover have "oexec (OReturn th) s = None" using st by (simp add: stuck_def del: oexec.simps)
  moreover have "\<not> (\<exists>s'. oexec (OStep th 0) s = Some s' \<and> opcs s' th \<noteq> opcs s th)"
    using stuck_step[OF st] by metis
  ultimately show ?thesis by metis
qed

section \<open>Properties\<close>

definition demo_two_pushes :: "nat oaction list" where
  "demo_two_pushes = [OCallPush 0 7, OCallPush 1 8, OStep 0 0, OStep 1 0]
     @ replicate 5 (OStep 0 0) @ replicate 5 (OStep 1 0)"

definition demo_two :: "nat osystem" where
  "demo_two = the (oexec_all demo_two_pushes (ostart 1))"

definition demo_one_out :: "nat osystem" where
  "demo_one_out = the (oexec_all (OCallPop 2 # replicate 6 (OStep 2 0)) demo_two)"

lemma demo_two_exec: "oexec_all demo_two_pushes (ostart 1) = Some demo_two"
  and demo_two_items: "items (oshared demo_two) = [7, 8]"
  and demo_one_exec: "oexec_all (OCallPop 2 # replicate 6 (OStep 2 0)) demo_two = Some demo_one_out"
  and demo_one_facts: "items_in demo_one_out = [7, 8]" "items_out demo_one_out = [7]" "items (oshared demo_one_out) = [8]"
    "push_log demo_one_out = [(1, 7), (2, 8)]" "pop_log demo_one_out = [(1, 7)]" "holder (oshared demo_one_out) = None"
proof -
  have "map_option (\<lambda>s. (items (oshared s), map_option (\<lambda>t. (items_in t, items_out t, items (oshared t), push_log t,
      pop_log t, holder (oshared t))) (oexec_all (OCallPop 2 # replicate 6 (OStep 2 0)) s)))
      (oexec_all demo_two_pushes (ostart 1))
    = Some ([7, 8], Some ([7, 8], [7], [8], [(1, 7), (2, 8)], [(1, 7)], None))"
    by code_simp
  then show "oexec_all demo_two_pushes (ostart 1) = Some demo_two" "items (oshared demo_two) = [7, 8]"
    "oexec_all (OCallPop 2 # replicate 6 (OStep 2 0)) demo_two = Some demo_one_out"
    "items_in demo_one_out = [7, 8]" "items_out demo_one_out = [7]" "items (oshared demo_one_out) = [8]"
    "push_log demo_one_out = [(1, 7), (2, 8)]" "pop_log demo_one_out = [(1, 7)]" "holder (oshared demo_one_out) = None"
    by (auto simp: demo_two_def demo_one_out_def simp del: oexec_all.simps replicate.simps)
qed

lemma demo_two_reach: "oreach 1 demo_two" and demo_one_reach: "oreach 1 demo_one_out"
  using oexec_all_reach[OF demo_two_exec oreach.init] oexec_all_reach[OF demo_one_exec] by blast+


text \<open>C8: whatever the interleaving, the items popped followed by those in the queue are the items
  pushed, in order; and the calls of \<open>pop\<close> return, one after the other, exactly the items and the
  numbers that the calls of \<open>push\<close> returned.\<close>

theorem openqueue_fifo:
  assumes "oreach mx s"
  shows "items_in s = items_out s @ items (oshared s) \<and> prefix (pop_log s) (push_log s)
    \<and> (holder (oshared s) = None \<longrightarrow> push_log s = zip (map of_nat [1..<Suc (length (items_in s))]) (items_in s))"
proof -
  note inv = inv_reach(2)[OF assms]
  have "push_log s = zip (map of_nat [1..<Suc (length (items_in s))]) (items_in s)"
    if "holder (oshared s) = None"
  proof -
    have "not_counted_in (inside s) = []" using that by (simp add: inside_def not_counted_in_def)
    then have "items_in s = map snd (push_log s)" using inv unfolding oq_log_inv_def by (metis append_Nil2)
    moreover have "map fst (push_log s) = map of_nat [1..<Suc (length (push_log s))]"
      using inv unfolding oq_log_inv_def numbered_def by blast
    ultimately show ?thesis by (metis length_map zip_map_fst_snd)
  qed
  moreover have "items_in s = items_out s @ items (oshared s)" using inv unfolding oq_log_inv_def by blast
  ultimately show ?thesis using logs_prefix[OF assms] by blast
qed

lemma openqueue_fifo_witness:
  "prefix (pop_log demo_one_out) (push_log demo_one_out) \<and> push_log demo_one_out = [(1, 7), (2, 8)]"
  using openqueue_fifo[OF demo_one_reach] by (simp add: demo_one_facts)

text \<open>C10: \<open>maxsize\<close> is tested before the mutex is taken, so it does not bound the queue alone: for a positive \<open>maxsize\<close>, when \<open>n\<close>
  threads call \<open>push\<close> anywhere in a schedule there are at most \<open>maxsize + n - 1\<close> items at its end.\<close>

theorem openqueue_bounded:
  assumes "0 < mx" "oexec_all as (ostart mx) = Some s" "finite T"
    and "\<And>th x. OCallPush th x \<in> set as \<Longrightarrow> th \<in> T"
  shows "int (length (items (oshared s))) \<le> mx - 1 + int (card T)"
proof -
  have "bound_inv T s"
    using bound_oexec_all[OF assms(2) bound_start[OF assms(3,1)] assms(3) oreach.init assms(1)] assms(4) by blast
  moreover have "omax (oshared s) = mx" using inv_reach(3)[OF oexec_all_reach[OF assms(2) oreach.init]] .
  ultimately show ?thesis unfolding bound_inv_def by linarith
qed

lemma openqueue_bounded_witness:
  "int (length (items (oshared demo_two))) \<le> 1 - 1 + int (card {0, 1::nat}) \<and> length (items (oshared demo_two)) = 2"
  using openqueue_bounded[OF _ demo_two_exec, of "{0, 1}"]
  by (auto simp: demo_two_items demo_two_pushes_def)

text \<open>C9: no wake-up is lost and nothing deadlocks. If every call is waiting - no step of a call
  changes the state - then they sleep in \<open>pop\<close> or wait for room in \<open>push\<close>, never some of each: a
  sleeper means that the queue is empty.\<close>

theorem openqueue_no_deadlock:
  assumes "oreach mx s" "- (2 ^ 31) \<le> mx" "stuck s"
  shows "(\<forall>th. opcs s th = OIdle) \<or> (\<forall>th. opcs s th \<in> {OIdle, DSleep}) \<and> items (oshared s) = []
    \<or> (\<forall>th. opcs s th = OIdle \<or> (\<exists>x. opcs s th = QWait x)) \<and> mx \<noteq> 0 \<and> \<not> below_max (oshared s)"
proof -
  note inv = inv_reach[OF assms(1)]
  note pcs = stuck_pcs[OF assms(3) inv(1,2)]
  show ?thesis
  proof (cases "sleepers (oshared s) = []")
    case True
    then have "opcs s th \<noteq> DSleep" for th using mutex_invD(2)[OF inv(1), of th] by simp
    then have "opcs s th = OIdle \<or> (\<exists>x. opcs s th = QWait x \<and> mx \<noteq> 0 \<and> \<not> below_max (oshared s))" for th
      using pcs[of th] inv(3) by auto
    then show ?thesis by blast
  next
    case False
    have "\<not> awake (opcs s th)" for th using pcs[of th] by (auto simp: awake_def)
    then have "awake_threads s = {}" by (simp add: awake_threads_def)
    moreover have "inside s = OIdle" using stuck_no_holder[OF assms(3) inv(1,2)] by (simp add: inside_def)
    ultimately have e: "items (oshared s) = []"
      using wake_reach[OF assms(1)] False by (simp add: wake_inv_def notifying_def)
    then have "mx \<noteq> 0 \<Longrightarrow> below_max (oshared s)" using inv(3) assms(2) by (auto simp: below_max_def)
    then have "opcs s th \<in> {OIdle, DSleep}" for th using pcs[of th] inv(3) by auto
    then show ?thesis using e by blast
  qed
qed


lemma openqueue_no_deadlock_witness:
  "\<exists>s :: nat osystem. oreach 1 s \<and> stuck s \<and> opcs s 2 = DSleep \<and> items (oshared s) = []"
proof -
  let ?s = "(ostart 1)\<lparr>oshared := (oqueue_new 1)\<lparr>sleepers := [2]\<rparr>, opcs := (\<lambda>_. OIdle)(2 := DSleep)\<rparr> :: nat osystem"
  have "oexec_all [OCallPop 2, OStep 2 0, OStep 2 0] (ostart 1) = Some ?s"
    by (simp add: ostart_def goto_def acquire_def release_def oqueue_new_def)
  then have r: "oreach 1 ?s" using oexec_all_reach oreach.init by blast
  have st: "stuck ?s" by (auto simp: stuck_def)
  have "opcs ?s 2 = DSleep" by simp
  then show ?thesis using openqueue_no_deadlock[OF r _ st] r st
    by (intro exI[of _ ?s]) (auto dest: spec[of _ "2::nat"])
qed

text \<open>At rest the queries are those of the list of items.\<close>

lemma openqueue_queries:
  assumes "oreach mx s" "holder (oshared s) = None" "length (items_in s) < 2 ^ 31 - 1"
  shows "oq_size (oshared s) = int (length (items (oshared s))) \<and> oq_done (oshared s) = int (length (items_out s))
    \<and> (oq_empty (oshared s) \<longleftrightarrow> oq_size (oshared s) = 0)"
proof -
  note inv = inv_reach(2)[OF assms(1)]
  have "not_counted_in (inside s) = []" "not_counted_out (inside s) = []"
    using assms(2) by (simp_all add: inside_def not_counted_in_def not_counted_out_def)
  then have n: "length (push_log s) = length (items_in s)" "length (pop_log s) = length (items_out s)"
    using inv unfolding oq_log_inv_def by (metis append_Nil2 length_map)+
  have w: "sint (of_nat k + 1 :: 32 word) = int k + 1" if "k < 2 ^ 31 - 1" for k
  proof -
    have "of_nat k + 1 = (word_of_int (int k + 1) :: 32 word)" by simp
    then have "sint (of_nat k + 1 :: 32 word) = signed_take_bit 31 (int k + 1)"
      using sint_sbintrunc'[of "int k + 1", where 'a = 32] by simp
    then show ?thesis using that by (simp add: signed_take_bit_int_eq_self)
  qed
  have l: "length (items_in s) = length (items_out s) + length (items (oshared s))"
    using inv unfolding oq_log_inv_def by (metis length_append)
  have c: "oin (oshared s) = of_nat (length (items_in s)) + 1" "oout (oshared s) = of_nat (length (items_out s)) + 1"
    using inv n unfolding oq_log_inv_def by metis+
  have "sint (oin (oshared s)) = int (length (items_in s)) + 1" "sint (oout (oshared s)) = int (length (items_out s)) + 1"
    unfolding c using assms(3) l by (intro w; linarith)+
  then show ?thesis using l by (simp add: oq_size_def oq_done_def oq_empty_def)
qed

end
