(* ===== verification/Atomics.thy ===== *)
theory Atomics
  imports Prelude "HOL-Library.Signed_Division"
begin

text \<open>
  \<open>cpp/lib/Atomic.h\<close>, and on top of it \<open>cpp/lib/Counter.h\<close> and \<open>cpp/lib/Id.h\<close>. The value of an
  \<open>Atomic<T>\<close> for a signed type \<open>T\<close> of \<open>'l\<close> bits is an \<open>'l word\<close>. As in the queues a call is a program
  counter and each step is one access: the fetch-and-modify operations are one step, the loops on
  \<open>CAS\<close> a load and a compare-exchange.
\<close>

section \<open>Operations\<close>

datatype rmw = Add | Sub | Xch | BitAnd | BitOr | BitXor | Store | Load

fun rmw_new :: "rmw \<Rightarrow> 'l::len word \<Rightarrow> 'l word \<Rightarrow> 'l word" where
  "rmw_new Add x v = x + v"
| "rmw_new Sub x v = x - v"
| "rmw_new Xch x v = v"
| "rmw_new BitAnd x v = and x v"
| "rmw_new BitOr x v = or x v"
| "rmw_new BitXor x v = xor x v"
| "rmw_new Store x v = v"
| "rmw_new Load x v = x"

text \<open>\<open>operator=\<close> returns its argument, the others the value before.\<close>

definition rmw_result :: "rmw \<Rightarrow> 'l::len word \<Rightarrow> 'l word \<Rightarrow> 'l word" where
  "rmw_result op x v = (if op = Store then v else x)"

datatype scale = Mul | Div | Mod

text \<open>\<open>value*v\<close>, \<open>value/v\<close>, \<open>value%v\<close>; overflow and division by zero are undefined.\<close>

definition scale_new :: "scale \<Rightarrow> 'l::len word \<Rightarrow> 'l word \<Rightarrow> 'l word option" where
  "scale_new op x v = (let r = (case op of Mul \<Rightarrow> sint x * sint v | Div \<Rightarrow> sint x sdiv sint v | Mod \<Rightarrow> sint x smod sint v)
     in if op \<noteq> Mul \<and> v = 0 then None
        else if op = Mod \<and> sint x sdiv sint v \<noteq> sint (word_of_int (sint x sdiv sint v) :: 'l word) then None
        else if sint (word_of_int r :: 'l word) = r then Some (word_of_int r) else None)"

datatype 'v aop =
    Rmw rmw 'v
  | SwapLower 'v
  | SwapGreater 'v
  | Scale scale 'v

datatype 'v ares = Val 'v | Flag bool | Void

text \<open>Where a thread is in a call; the \<open>old\<close> of the two swaps is an \<open>int\<close> whatever \<open>T\<close> is.\<close>

datatype 'v apc =
    AIdle
  | ARmw rmw 'v
  | LLoad 'v                          \<comment> \<open>\<open>old = value; if(old <= v) return 0;\<close>\<close>
  | LCas 'v "32 word"                 \<comment> \<open>\<open>while(!CAS(old, v))\<close>\<close>
  | GLoad 'v
  | GCas 'v "32 word"
  | MRead scale 'v                    \<comment> \<open>\<open>r = value * v\<close>\<close>
  | MArg scale 'v 'v           \<comment> \<open>the argument \<open>value\<close> of \<open>CAS(value, r)\<close>\<close>
  | MCas scale 'v 'v 'v \<comment> \<open>the compare-exchange with it\<close>
  | MStore scale 'v 'v         \<comment> \<open>\<open>value = r\<close>\<close>
  | ARet "'v aop" "'v ares"

text \<open>A step; the last component is the result, when this step decides it.\<close>

fun atomic_step :: "'l::len word apc \<Rightarrow> 'l word \<Rightarrow> ('l word apc \<times> 'l word) option" where
  "atomic_step (ARmw op v) x = Some (ARet (Rmw op v) (Val (rmw_result op x v)), rmw_new op x v)"
| "atomic_step (LLoad v) x = (let old = scast x :: 32 word in
     Some (if sint old \<le> sint v then ARet (SwapLower v) (Flag False) else LCas v old, x))"
| "atomic_step (LCas v old) x =
     (if scast old = x then Some (ARet (SwapLower v) (Flag True), v) else Some (LLoad v, x))"
| "atomic_step (GLoad v) x = (let old = scast x :: 32 word in
     Some (if sint old \<ge> sint v then ARet (SwapGreater v) (Flag False) else GCas v old, x))"
| "atomic_step (GCas v old) x =
     (if scast old = x then Some (ARet (SwapGreater v) (Flag True), v) else Some (GLoad v, x))"
| "atomic_step (MRead op v) x = map_option (\<lambda>r. (MArg op v r, x)) (scale_new op x v)"
| "atomic_step (MArg op v r) x = Some (MCas op v r x, x)"
| "atomic_step (MCas op v r old) x = (if old = x then Some (MStore op v r, r) else Some (MRead op v, x))"
| "atomic_step (MStore op v r) x = Some (ARet (Scale op v) Void, r)"
| "atomic_step _ x = None"

fun atomic_entry :: "'l::len word aop \<Rightarrow> 'l word apc" where
  "atomic_entry (Rmw op v) = ARmw op v"
| "atomic_entry (SwapLower v) = LLoad v"
| "atomic_entry (SwapGreater v) = GLoad v"
| "atomic_entry (Scale op v) = MRead op v"

section \<open>The system\<close>

text \<open>\<open>decided\<close> and \<open>returned\<close> are ghost state: the calls in the order in which their results were
  decided, and in the order in which they returned.\<close>

record 'v asystem =
  avalue :: 'v
  apcs :: "nat \<Rightarrow> 'v apc"
  decided :: "(nat \<times> 'v aop \<times> 'v ares) list"
  returned :: "(nat \<times> 'v aop \<times> 'v ares) list"

datatype 'v aaction = ACall nat "'v aop" | AStep nat | AReturn nat

definition log_decided :: "nat \<Rightarrow> 'l word apc \<Rightarrow> (nat \<times> 'l word aop \<times> 'l word ares) list" where
  "log_decided th pc = (case pc of ARet op r \<Rightarrow> [(th, op, r)] | _ \<Rightarrow> [])"

fun aexec :: "'l::len word aaction \<Rightarrow> 'l word asystem \<Rightarrow> 'l word asystem option" where
  "aexec (ACall th op) s = (if apcs s th = AIdle then Some (s\<lparr>apcs := (apcs s)(th := atomic_entry op)\<rparr>) else None)"
| "aexec (AStep th) s = (case atomic_step (apcs s th) (avalue s) of None \<Rightarrow> None
     | Some (pc, x) \<Rightarrow> Some (s\<lparr>avalue := x, apcs := (apcs s)(th := pc), decided := decided s @ log_decided th pc\<rparr>))"
| "aexec (AReturn th) s = (case apcs s th of
       ARet op r \<Rightarrow> Some (s\<lparr>apcs := (apcs s)(th := AIdle), returned := returned s @ [(th, op, r)]\<rparr>)
     | _ \<Rightarrow> None)"

definition astart :: "'l::len word \<Rightarrow> 'l word asystem" where
  "astart x = \<lparr>avalue = x, apcs = (\<lambda>_. AIdle), decided = [], returned = []\<rparr>"

fun aexec_all :: "'l::len word aaction list \<Rightarrow> 'l word asystem \<Rightarrow> 'l word asystem option" where
  "aexec_all [] s = Some s"
| "aexec_all (a # as) s = (case aexec a s of None \<Rightarrow> None | Some s' \<Rightarrow> aexec_all as s')"

section \<open>The operations one after the other\<close>

fun atomic_spec :: "'l::len word aop \<Rightarrow> 'l word \<Rightarrow> 'l word \<times> 'l word ares" where
  "atomic_spec (Rmw op v) x = (rmw_new op x v, Val (rmw_result op x v))"
| "atomic_spec (SwapLower v) x = (if sint x \<le> sint v then (x, Flag False) else (v, Flag True))"
| "atomic_spec (SwapGreater v) x = (if sint x \<ge> sint v then (x, Flag False) else (v, Flag True))"
| "atomic_spec (Scale op v) x = (case scale_new op x v of None \<Rightarrow> (x, Void) | Some r \<Rightarrow> (r, Void))"

text \<open>The value after a sequence of calls, if each of them returns what is recorded.\<close>

fun replay :: "'l::len word \<Rightarrow> (nat \<times> 'l word aop \<times> 'l word ares) list \<Rightarrow> 'l word option" where
  "replay x [] = Some x"
| "replay x ((th, op, r) # l) = (if snd (atomic_spec op x) = r then replay (fst (atomic_spec op x)) l else None)"

lemma replay_snoc: "replay x (l @ [(th, op, r)]) = Option.bind (replay x l)
    (\<lambda>y. if snd (atomic_spec op y) = r then Some (fst (atomic_spec op y)) else None)"
  by (induction x l rule: replay.induct) auto

definition calls_of :: "nat \<Rightarrow> (nat \<times> 'l word aop \<times> 'l word ares) list \<Rightarrow> (nat \<times> 'l word aop \<times> 'l word ares) list" where
  "calls_of th l = filter (\<lambda>e. fst e = th) l"

text \<open>
  The calls for which the class is linearizable: not \<open>*=\<close>, \<open>/=\<close> and \<open>%=\<close>, and the swaps only where \<open>T\<close>
  is \<open>int\<close>.
\<close>

definition sound_op :: "'l::len word aop \<Rightarrow> bool" where
  "sound_op op = (case op of Rmw r v \<Rightarrow> True | Scale sc v \<Rightarrow> False | _ \<Rightarrow> LENGTH('l) = 32)"

definition sound_pc :: "'l::len word apc \<Rightarrow> bool" where
  "sound_pc pc = (case pc of AIdle \<Rightarrow> True | ARmw op v \<Rightarrow> True | ARet op r \<Rightarrow> sound_op op
     | LLoad v \<Rightarrow> LENGTH('l) = 32 | LCas v old \<Rightarrow> LENGTH('l) = 32 \<and> sint v < sint old
     | GLoad v \<Rightarrow> LENGTH('l) = 32 | GCas v old \<Rightarrow> LENGTH('l) = 32 \<and> sint old < sint v | _ \<Rightarrow> False)"

definition atomic_inv :: "'l::len word \<Rightarrow> 'l word asystem \<Rightarrow> bool" where
  "atomic_inv x0 s \<longleftrightarrow> replay x0 (decided s) = Some (avalue s) \<and> (\<forall>th. sound_pc (apcs s th))
     \<and> (\<forall>th. calls_of th (decided s) = calls_of th (returned s) @ log_decided th (apcs s th))"

lemma int_of_value:
  fixes x :: "'l::len word"
  assumes "LENGTH('l) = 32"
  shows "sint (scast x :: 32 word) = sint x" "scast (scast x :: 32 word) = x"
    "sint (scast (old :: 32 word) :: 'l word) = sint old"
  using assms by (auto intro: sint_up_scast scast_up_scast_id simp: is_up)

lemma atomic_step_spec:
  assumes "atomic_step pc x = Some (pc', x')" "sound_pc pc"
  shows "sound_pc pc' \<and> (\<forall>op r. pc \<noteq> ARet op r) \<and> pc' \<noteq> AIdle
    \<and> (\<forall>op r. pc' = ARet op r \<longrightarrow> atomic_spec op x = (x', r)) \<and> ((\<forall>op r. pc' \<noteq> ARet op r) \<longrightarrow> x' = x)"
  using assms by (cases pc) (auto simp: sound_pc_def sound_op_def Let_def int_of_value split: if_splits)

lemma calls_of_append [simp]: "calls_of th (l @ m) = calls_of th l @ calls_of th m"
  by (simp add: calls_of_def)

lemma calls_of_log: "calls_of th (log_decided u pc) = (if th = u then log_decided u pc else [])"
  by (auto simp: calls_of_def log_decided_def split: apc.splits)

lemma entry_sound: "sound_op op \<Longrightarrow> sound_pc (atomic_entry op) \<and> log_decided th (atomic_entry op) = []"
  by (cases op) (auto simp: sound_op_def sound_pc_def log_decided_def)

lemma atomic_inv_exec:
  assumes inv: "atomic_inv x0 s" and e: "aexec a s = Some s'" and a: "\<And>th op. a = ACall th op \<Longrightarrow> sound_op op"
  shows "atomic_inv x0 s'"
proof (cases a)
  case (ACall th op)
  then have s': "s' = s\<lparr>apcs := (apcs s)(th := atomic_entry op)\<rparr>" "log_decided th (apcs s th) = []"
    using e by (auto simp: log_decided_def split: if_splits)
  then show ?thesis using inv entry_sound[OF a[OF ACall], of th] unfolding atomic_inv_def by (auto split: if_splits)
next
  case (AStep th)
  then obtain pc x where p: "atomic_step (apcs s th) (avalue s) = Some (pc, x)"
    and s': "s' = s\<lparr>avalue := x, apcs := (apcs s)(th := pc), decided := decided s @ log_decided th pc\<rparr>"
    using e by (auto split: option.splits)
  have S: "sound_pc pc" "\<forall>op r. apcs s th \<noteq> ARet op r" "\<forall>op r. pc = ARet op r \<longrightarrow> atomic_spec op (avalue s) = (x, r)"
    "(\<forall>op r. pc \<noteq> ARet op r) \<longrightarrow> x = avalue s"
    using atomic_step_spec[OF p] inv by (auto simp: atomic_inv_def)
  have "replay x0 (decided s @ log_decided th pc) = Some x"
  proof (cases "\<exists>op r. pc = ARet op r")
    case True
    then obtain op r where pc: "pc = ARet op r" by blast
    then have "atomic_spec op (avalue s) = (x, r)" using S(3) by blast
    then show ?thesis using inv pc by (simp add: atomic_inv_def log_decided_def replay_snoc)
  next
    case False
    then have "log_decided th pc = []" "x = avalue s" using S(4) by (auto simp: log_decided_def split: apc.splits)
    then show ?thesis using inv by (simp add: atomic_inv_def)
  qed
  moreover have "log_decided th (apcs s th) = []" using S(2) by (auto simp: log_decided_def split: apc.splits)
  then have "calls_of t (decided s') = calls_of t (returned s') @ log_decided t (apcs s' t)" for t
    using inv s' by (auto simp: atomic_inv_def calls_of_log)
  ultimately show ?thesis using inv s' S(1) unfolding atomic_inv_def by auto
next
  case (AReturn th)
  then obtain op r where pc: "apcs s th = ARet op r"
    and s': "s' = s\<lparr>apcs := (apcs s)(th := AIdle), returned := returned s @ [(th, op, r)]\<rparr>"
    using e by (auto split: apc.splits)
  have "calls_of t (decided s') = calls_of t (returned s') @ log_decided t (apcs s' t)" for t
    using inv pc s' by (auto simp: atomic_inv_def calls_of_def log_decided_def)
  then show ?thesis using inv s' unfolding atomic_inv_def by (auto simp: sound_pc_def)
qed

lemma atomic_inv_exec_all:
  assumes "aexec_all as s = Some s'" "atomic_inv x0 s" "\<And>th op. ACall th op \<in> set as \<Longrightarrow> sound_op op"
  shows "atomic_inv x0 s'"
  using assms
proof (induction as arbitrary: s)
  case (Cons a as)
  then obtain s1 where s1: "aexec a s = Some s1" "aexec_all as s1 = Some s'" by (auto split: option.splits)
  have "atomic_inv x0 s1" using Cons.prems(3) by (intro atomic_inv_exec[OF Cons.prems(2) s1(1)]) auto
  then show ?case using Cons.IH[OF s1(2)] Cons.prems(3) by auto
qed simp

lemma atomic_inv_start: "atomic_inv x0 (astart x0)"
  by (simp add: atomic_inv_def astart_def sound_pc_def log_decided_def calls_of_def)

section \<open>\<open>Counter\<close>\<close>

text \<open>\<open>operator()(inc)\<close> and \<open>value++\<close>, which the actor's \<open>beat\<close> is.\<close>

definition counter_new :: "int \<Rightarrow> 64 word asystem" where
  "counter_new n = astart (word_of_int n)"

definition counter_call :: "64 word \<Rightarrow> 64 word aop" where
  "counter_call inc = Rmw Add inc"

definition counter_beat :: "64 word aop" where
  "counter_beat = Rmw Add 1"

text \<open>What a sequence of such calls adds.\<close>

fun added :: "(nat \<times> 'l::len word aop \<times> 'l word ares) list \<Rightarrow> 'l word" where
  "added [] = 0"
| "added ((th, Rmw Add v, r) # l) = v + added l"
| "added (e # l) = added l"

lemma replay_added:
  assumes "replay x l = Some y" "\<forall>(th, op, r) \<in> set l. \<exists>v. op = Rmw Add v"
  shows "y = x + added l"
  using assms
proof (induction l arbitrary: x)
  case (Cons e l)
  obtain th v r where e: "e = (th, Rmw Add v, r)" using Cons.prems(2) by (cases e) auto
  then show ?case using Cons.IH[of "x + v"] Cons.prems by (auto simp: add.assoc split: if_splits)
qed simp

section \<open>\<open>Id\<close>\<close>

text \<open>
  The numbers given out so far, per group, are the map \<open>Ids\<close>, whose entries start at zero; the
  constructor runs under a mutex. \<open>ty\<close> is the name \<open>anyType\<close> gives to the class.
\<close>

definition group_of :: "string \<Rightarrow> string \<Rightarrow> string" where
  "group_of ty gr = (if gr = [] then ty else gr)"

definition id_new :: "string \<Rightarrow> string \<Rightarrow> (string \<Rightarrow> 64 word) \<Rightarrow> 64 word \<times> (string \<Rightarrow> 64 word)" where
  "id_new ty gr ids = (let g = group_of ty gr; n = ids g + 1 in (n, ids(g := n)))"

fun id_all :: "string \<Rightarrow> string list \<Rightarrow> (string \<Rightarrow> 64 word) \<Rightarrow> 64 word list \<times> (string \<Rightarrow> 64 word)" where
  "id_all ty [] ids = ([], ids)"
| "id_all ty (g # gs) ids = (let (n, ids') = id_new ty g ids; (ns, ids'') = id_all ty gs ids' in (n # ns, ids''))"

lemma id_all_Cons:
  "fst (id_all ty (g # gs) ids) = fst (id_new ty g ids) # fst (id_all ty gs (snd (id_new ty g ids)))"
  by (simp split: prod.splits)

lemma id_new_counts: "snd (id_new ty g ids) h = ids h + (if group_of ty g = h then 1 else 0)"
  "fst (id_new ty g ids) = ids (group_of ty g) + 1"
  by (simp_all add: id_new_def Let_def)

lemma id_all_numbers:
  assumes "k < length gs"
  shows "fst (id_all ty gs ids) ! k = ids (group_of ty (gs ! k))
    + of_nat (length (filter (\<lambda>g. group_of ty g = group_of ty (gs ! k)) (take (Suc k) gs)))"
  using assms
proof (induction gs arbitrary: k ids)
  case (Cons g gs)
  show ?case
  proof (cases k)
    case 0
    then show ?thesis by (simp add: id_all_Cons id_new_counts del: id_all.simps)
  next
    case (Suc j)
    then have "j < length gs" using Cons.prems by simp
    then have "fst (id_all ty (g # gs) ids) ! k
        = snd (id_new ty g ids) (group_of ty (gs ! j))
          + of_nat (length (filter (\<lambda>g. group_of ty g = group_of ty (gs ! j)) (take (Suc j) gs)))"
      using Cons.IH[of j "snd (id_new ty g ids)"] Suc by (simp add: id_all_Cons del: id_all.simps)
    then show ?thesis unfolding id_new_counts Suc by (simp add: add.assoc)
  qed
qed simp

text \<open>Counters add up: whatever the interleaving, the value is the start plus all that was added.\<close>

lemma decided_calls:
  assumes "aexec_all as s = Some s'" "\<forall>th. \<forall>op. ACall th op \<in> set as \<longrightarrow> P op"
    and "\<forall>e \<in> set (decided s). P (fst (snd e))"
    and "\<forall>th. case apcs s th of AIdle \<Rightarrow> True | ARmw op v \<Rightarrow> P (Rmw op v) | ARet op r \<Rightarrow> True | _ \<Rightarrow> False"
    and "\<And>op. P op \<Longrightarrow> \<exists>r v. op = Rmw r v"
  shows "\<forall>e \<in> set (decided s'). P (fst (snd e))"
  using assms(1-4)
proof (induction as arbitrary: s)
  case (Cons a as)
  then obtain s1 where s1: "aexec a s = Some s1" "aexec_all as s1 = Some s'" by (auto split: option.splits)
  have "(\<forall>e \<in> set (decided s1). P (fst (snd e)))
    \<and> (\<forall>th. case apcs s1 th of AIdle \<Rightarrow> True | ARmw op v \<Rightarrow> P (Rmw op v) | ARet op r \<Rightarrow> True | _ \<Rightarrow> False)"
  proof (cases a)
    case (ACall th op)
    then have "P op" "s1 = s\<lparr>apcs := (apcs s)(th := atomic_entry op)\<rparr>"
      using s1(1) Cons.prems(2) by (auto split: if_splits)
    then show ?thesis using Cons.prems(3,4) assms(5)[of op] by auto
  next
    case (AStep th)
    then obtain pc x where pc: "atomic_step (apcs s th) (avalue s) = Some (pc, x)"
      "s1 = s\<lparr>avalue := x, apcs := (apcs s)(th := pc), decided := decided s @ log_decided th pc\<rparr>"
      using s1(1) by (auto split: option.splits)
    have "case apcs s th of AIdle \<Rightarrow> True | ARmw op v \<Rightarrow> P (Rmw op v) | ARet op r \<Rightarrow> True | _ \<Rightarrow> False"
      using Cons.prems(4) by blast
    then obtain op v r where "apcs s th = ARmw op v" "P (Rmw op v)" "pc = ARet (Rmw op v) r"
      using pc(1) by (cases "apcs s th") auto
    then show ?thesis using Cons.prems(3,4) pc(2) by (auto simp: log_decided_def)
  next
    case (AReturn th)
    then obtain op r where "apcs s th = ARet op r"
      "s1 = s\<lparr>apcs := (apcs s)(th := AIdle), returned := returned s @ [(th, op, r)]\<rparr>"
      using s1(1) by (auto split: apc.splits)
    then show ?thesis using Cons.prems(3,4) by simp
  qed
  then show ?case using Cons.IH[OF s1(2)] Cons.prems(2) by auto
qed simp

lemma counter_sums:
  assumes "aexec_all as (counter_new n) = Some s"
    and "\<forall>th. \<forall>op. ACall th op \<in> set as \<longrightarrow> (\<exists>inc. op = counter_call inc)"
  shows "avalue s = word_of_int n + added (decided s)"
proof -
  have "\<forall>e \<in> set (decided s). \<exists>inc. fst (snd e) = counter_call inc"
    using assms by (intro decided_calls[OF assms(1)]) (auto simp: counter_new_def astart_def counter_call_def)
  moreover have "sound_op op" if c: "ACall th op \<in> set as" for th op
  proof -
    obtain inc where "op = Rmw Add inc" using assms(2) c unfolding counter_call_def by blast
    then show ?thesis by (simp add: sound_op_def)
  qed
  then have "atomic_inv (word_of_int n) s"
    using assms(1) by (intro atomic_inv_exec_all[OF _ atomic_inv_start]) (simp_all add: counter_new_def)
  ultimately show ?thesis by (intro replay_added) (auto simp: atomic_inv_def counter_call_def)
qed

section \<open>Properties\<close>

definition demo_atomic_run :: "32 word aaction list" where
  "demo_atomic_run = [ACall 0 (SwapLower 3), ACall 1 (Rmw Add 4), AStep 0, AStep 1, AStep 0, AStep 0, AStep 0,
     AReturn 1, AReturn 0]"

definition demo_atomic :: "32 word asystem" where
  "demo_atomic = the (aexec_all demo_atomic_run (astart 5))"

lemma demo_atomic_exec: "aexec_all demo_atomic_run (astart 5) = Some demo_atomic"
  and demo_atomic_facts: "avalue demo_atomic = 3"
    "decided demo_atomic = [(1, Rmw Add 4, Val 5), (0, SwapLower 3, Flag True)]"
    "returned demo_atomic = [(1, Rmw Add 4, Val 5), (0, SwapLower 3, Flag True)]"
proof -
  have "map_option (\<lambda>s. (avalue s, decided s, returned s)) (aexec_all demo_atomic_run (astart 5))
    = Some (3, [(1, Rmw Add 4, Val 5), (0, SwapLower 3, Flag True)], [(1, Rmw Add 4, Val 5), (0, SwapLower 3, Flag True)])"
    by code_simp
  then show "aexec_all demo_atomic_run (astart 5) = Some demo_atomic" "avalue demo_atomic = 3"
    "decided demo_atomic = [(1, Rmw Add 4, Val 5), (0, SwapLower 3, Flag True)]"
    "returned demo_atomic = [(1, Rmw Add 4, Val 5), (0, SwapLower 3, Flag True)]"
    by (auto simp: demo_atomic_def simp del: aexec_all.simps)
qed

text \<open>C11: but for \<open>*=\<close>, \<open>/=\<close>, \<open>%=\<close>, and for the swaps when \<open>T\<close> is \<open>int\<close>, an \<open>Atomic\<close> is linearizable: there is
  one order of the calls in which, one after the other, they leave the value that is there
  and give the results that were returned; a call takes its place in it between its start and its
  return, and the calls of each thread are in their own order.\<close>

theorem atomic_linearizable:
  fixes x0 :: "'l::len word"
  assumes "aexec_all as (astart x0) = Some s" "\<And>th op. ACall th op \<in> set as \<Longrightarrow> sound_op op"
  shows "replay x0 (decided s) = Some (avalue s)
    \<and> (\<forall>th. calls_of th (decided s) = calls_of th (returned s) @ log_decided th (apcs s th))"
proof -
  have "atomic_inv x0 s" using assms(2) by (intro atomic_inv_exec_all[OF assms(1) atomic_inv_start])
  then show ?thesis unfolding atomic_inv_def by blast
qed

lemma atomic_linearizable_witness:
  "replay 5 (decided demo_atomic) = Some (3 :: 32 word) \<and> length (returned demo_atomic) = 2"
proof -
  have "sound_op op" if "ACall th op \<in> set demo_atomic_run" for th op
    using that by (auto simp: demo_atomic_run_def sound_op_def)
  then show ?thesis using atomic_linearizable[OF demo_atomic_exec] demo_atomic_facts(1,3) by simp
qed

text \<open>Two ways in which it is not. A \<open>*=\<close> reads the value again for its compare-exchange and then
  stores its product a second time, so that an addition in between is lost: from 2, \<open>*= 3\<close> and \<open>+= 1\<close> leave 6, which
  no order of the two gives. And with 64 bits \<open>swapLower\<close> compares the low 32 bits: at \<open>2 ^ 32 + 5\<close> it never
  returns, however long it runs alone, and at \<open>2 ^ 32\<close> it takes the value for 0.\<close>

theorem atomic_not_linearizable:
  "(\<exists>s. aexec_all [ACall 0 (Scale Mul 3), AStep 0, ACall 1 (Rmw Add 1), AStep 1, AStep 0, AStep 0, AStep 0,
        AReturn 1, AReturn 0] (astart (2 :: 32 word)) = Some s \<and> avalue s = 6 \<and> length (returned s) = 2)
   \<and> (\<forall>n. \<exists>s. aexec_all (ACall 0 (SwapLower 3) # replicate n (AStep 0)) (astart (2 ^ 32 + 5 :: 64 word)) = Some s
        \<and> decided s = [])
   \<and> (\<exists>s. aexec_all [ACall 0 (SwapLower 3), AStep 0, AReturn 0] (astart (2 ^ 32 :: 64 word)) = Some s
        \<and> avalue s = 2 ^ 32 \<and> returned s = [(0, SwapLower 3, Flag False)])"
proof (intro conjI allI)
  have "map_option (\<lambda>s. (avalue s, length (returned s))) (aexec_all [ACall 0 (Scale Mul 3), AStep 0, ACall 1 (Rmw Add 1),
      AStep 1, AStep 0, AStep 0, AStep 0, AReturn 1, AReturn 0] (astart (2 :: 32 word))) = Some (6, 2)"
    by code_simp
  then show "\<exists>s. aexec_all [ACall 0 (Scale Mul 3), AStep 0, ACall 1 (Rmw Add 1), AStep 1, AStep 0, AStep 0, AStep 0,
        AReturn 1, AReturn 0] (astart (2 :: 32 word)) = Some s \<and> avalue s = 6 \<and> length (returned s) = 2"
    by (simp only: map_option_eq_Some prod.inject)
  have "map_option (\<lambda>s. (avalue s, returned s)) (aexec_all [ACall 0 (SwapLower 3), AStep 0, AReturn 0]
      (astart (2 ^ 32 :: 64 word))) = Some (2 ^ 32, [(0, SwapLower 3, Flag False)])"
    by code_simp
  then show "\<exists>s. aexec_all [ACall 0 (SwapLower 3), AStep 0, AReturn 0] (astart (2 ^ 32 :: 64 word)) = Some s
        \<and> avalue s = 2 ^ 32 \<and> returned s = [(0, SwapLower 3, Flag False)]"
    by (simp only: map_option_eq_Some prod.inject)
  have steps: "atomic_step (LLoad 3) (2 ^ 32 + 5 :: 64 word) = Some (LCas 3 5, 2 ^ 32 + 5)"
    "atomic_step (LCas 3 5) (2 ^ 32 + 5 :: 64 word) = Some (LLoad 3, 2 ^ 32 + 5)"
    by code_simp+
  fix n
  have "\<exists>s'. aexec_all (replicate n (AStep 0)) s = Some s' \<and> decided s' = []"
    if "avalue s = (2 ^ 32 + 5 :: 64 word)" "apcs s 0 \<in> {LLoad 3, LCas 3 5}" "decided s = []" for s
    using that
  proof (induction n arbitrary: s)
    case (Suc n)
    obtain pc where "atomic_step (apcs s 0) (avalue s) = Some (pc, 2 ^ 32 + 5)" "pc \<in> {LLoad 3, LCas 3 5}"
      using Suc.prems steps by auto
    moreover from this(2) have "log_decided 0 pc = []" by (auto simp: log_decided_def)
    ultimately show ?case
      using Suc.IH[of "s\<lparr>avalue := 2 ^ 32 + 5, apcs := (apcs s)(0 := pc), decided := []\<rparr>"] Suc.prems by simp
  qed simp
  from this[of "(astart (2 ^ 32 + 5 :: 64 word))\<lparr>apcs := (\<lambda>_. AIdle)(0 := LLoad 3)\<rparr>"]
  show "\<exists>s. aexec_all (ACall 0 (SwapLower 3) # replicate n (AStep 0)) (astart (2 ^ 32 + 5 :: 64 word)) = Some s \<and> decided s = []"
    by (simp add: astart_def)
qed

end
