(* ===== verification/StateMachine.thy ===== *)
theory StateMachine
  imports Prelude
begin

text \<open>
  \<open>cpp/lib/State.h\<close>: a state machine whose states have a name and two callbacks. A callback is a value of a
  type \<open>'f\<close> and \<open>None\<close> an empty \<open>voidfunction\<close>; what a call of the class does is the machine it leaves,
  the list of the callbacks it made, in order, and the error it throws, if any. The callbacks do not
  change the machine themselves.
\<close>

section \<open>State\<close>

record 'f state_record =
  sname :: string
  onenter :: "'f option"
  onexit :: "'f option"

record 'f machine =
  current :: int
  states :: "'f state_record list"

text \<open>
  \<open>NotFound\<close> is the \<open>invalid_argument\<close> of \<open>check\<close>, \<open>EmptyCall\<close> the \<open>bad_function_call\<close> of an empty
  callback, \<open>Assert\<close> a failed \<open>assert\<close>, \<open>OutOfRange\<close> an undefined index.
\<close>

datatype state_error = NotFound | EmptyCall | Assert | OutOfRange

definition machine_new :: "'f machine" where
  "machine_new = \<lparr>current = -1, states = []\<rparr>"

section \<open>Operations\<close>

fun find_state :: "string \<Rightarrow> 'f state_record list \<Rightarrow> nat" where
  "find_state n [] = 0"
| "find_state n (s # ss) = (if sname s = n then 0 else Suc (find_state n ss))"

text \<open>\<open>int r = (it != states.end()) ? states.end()-it-1 : -1\<close>.\<close>

definition state_id :: "'f machine \<Rightarrow> string \<Rightarrow> int" where
  "state_id m n = (let it = find_state n (states m); e = length (states m) in
     if it < e then int e - int it - 1 else -1)"

definition state_id_check :: "'f machine \<Rightarrow> string \<Rightarrow> state_error + nat" where
  "state_id_check m n = (let r = state_id m n in if r \<ge> 0 then Inr (nat r) else Inl NotFound)"

definition state_at :: "'f machine \<Rightarrow> int \<Rightarrow> state_error + 'f state_record" where
  "state_at m i = (if 0 \<le> i \<and> i < int (length (states m)) then Inr (states m ! nat i) else Inl OutOfRange)"

definition state_name :: "'f machine \<Rightarrow> int \<Rightarrow> state_error + string" where
  "state_name m i = (if i \<ge> 0 \<and> i < int (length (states m)) then Inr (sname (states m ! nat i)) else Inl NotFound)"

text \<open>The part of \<open>enter\<close> before the state entered is looked up.\<close>

definition leave :: "'f machine \<Rightarrow> state_error + 'f list" where
  "leave m = (if current m \<ge> 0 then rbind (state_at m (current m)) (\<lambda>s. Inr (case onexit s of None \<Rightarrow> [] | Some f \<Rightarrow> [f]))
     else Inr [])"

definition enter :: "string \<Rightarrow> 'f machine \<Rightarrow> 'f list \<times> 'f machine \<times> state_error option" where
  "enter n m = (case leave m of Inl e \<Rightarrow> ([], m, Some e)
     | Inr out \<Rightarrow> (case state_id_check m n of Inl e \<Rightarrow> (out, m, Some e)
         | Inr i \<Rightarrow> (case onenter (states m ! i) of None \<Rightarrow> (out, m, Some EmptyCall)
             | Some f \<Rightarrow> (out @ [f], m\<lparr>current := int i\<rparr>, None))))"

definition state_on :: "string \<Rightarrow> 'f option \<Rightarrow> 'f option \<Rightarrow> 'f machine \<Rightarrow> 'f list \<times> 'f machine \<times> state_error option" where
  "state_on n fi fo m = (let i = state_id m n;
       m' = (if i < 0 then m\<lparr>states := states m @ [\<lparr>sname = n, onenter = fi, onexit = fo\<rparr>]\<rparr>
             else m\<lparr>states := (states m)[nat i := (states m ! nat i)\<lparr>onenter := fi, onexit := fo\<rparr>]\<rparr>)
     in if current m' < 0 then enter n m' else ([], m', None))"

definition remove_state :: "string \<Rightarrow> 'f machine \<Rightarrow> state_error + 'f machine" where
  "remove_state n m = rbind (state_id_check m n) (\<lambda>i. Inr (m\<lparr>states := take i (states m) @ drop (Suc i) (states m)\<rparr>))"

text \<open>\<open>assert(current)\<close> and \<open>current && \<dots>\<close> test an \<open>int\<close> for being other than 0.\<close>

definition machine_string :: "'f machine \<Rightarrow> state_error + string" where
  "machine_string m = (if current m = 0 then Inl Assert else rbind (state_at m (current m)) (\<lambda>s. Inr (sname s)))"

definition machine_int :: "'f machine \<Rightarrow> state_error + int" where
  "machine_int m = (if current m = 0 then Inl Assert else Inr (current m))"

definition is_state :: "string \<Rightarrow> 'f machine \<Rightarrow> state_error + bool" where
  "is_state n m = (if current m = 0 then Inr False else rbind (state_at m (current m)) (\<lambda>s. Inr (sname s = n)))"

definition is_index :: "int \<Rightarrow> 'f machine \<Rightarrow> bool" where
  "is_index i m \<longleftrightarrow> current m \<noteq> 0 \<and> current m = i"

section \<open>Well-formed machines\<close>

definition names :: "'f machine \<Rightarrow> string list" where
  "names m = map sname (states m)"

text \<open>
  The names are distinct, the current state is one of the states, and there is none only
  before the first has been entered.
\<close>

definition machine_wf :: "'f machine \<Rightarrow> bool" where
  "machine_wf m \<longleftrightarrow> distinct (names m) \<and> -1 \<le> current m \<and> current m < int (length (states m))"

lemma find_state_less: "find_state n ss < length ss \<longleftrightarrow> n \<in> sname ` set ss"
  by (induction ss) auto

lemma find_state_nth: "n \<in> sname ` set ss \<Longrightarrow> sname (ss ! find_state n ss) = n"
  by (induction ss) auto

lemma find_state_distinct: "distinct (map sname ss) \<Longrightarrow> k < length ss \<Longrightarrow> find_state (sname (ss ! k)) ss = k"
proof (induction ss arbitrary: k)
  case (Cons s ss)
  then show ?case by (cases k) (auto simp: image_iff)
qed simp

lemma state_id_bounds: "-1 \<le> state_id m n \<and> state_id m n < int (length (states m)) \<and> (state_id m n < 0 \<longleftrightarrow> n \<notin> set (names m))"
  using find_state_less[of n "states m"] by (auto simp: state_id_def Let_def names_def)

lemma state_id_mirror:
  "distinct (names m) \<Longrightarrow> k < length (states m) \<Longrightarrow> state_id m (sname (states m ! k)) = int (length (states m) - 1 - k)"
  using find_state_distinct[of "states m" k] by (simp add: state_id_def Let_def names_def of_nat_diff)

lemma leave_wf: "machine_wf m \<Longrightarrow> \<exists>out. leave m = Inr out"
  by (auto simp: leave_def machine_wf_def state_at_def)

lemma enter_cases:
  assumes "machine_wf m"
  obtains (unknown) out where "leave m = Inr out" "n \<notin> set (names m)" "enter n m = (out, m, Some NotFound)"
  | (empty) out where "leave m = Inr out" "n \<in> set (names m)" "onenter (states m ! nat (state_id m n)) = None"
      "enter n m = (out, m, Some EmptyCall)"
  | (entered) out f where "leave m = Inr out" "n \<in> set (names m)" "onenter (states m ! nat (state_id m n)) = Some f"
      "enter n m = (out @ [f], m\<lparr>current := state_id m n\<rparr>, None)"
proof -
  obtain out where out: "leave m = Inr out" using leave_wf[OF assms] by blast
  note b = state_id_bounds[of m n]
  show thesis
  proof (cases "n \<in> set (names m)")
    case False
    then have "state_id_check m n = Inl NotFound" using b by (simp add: state_id_check_def Let_def)
    then show ?thesis using out False by (intro unknown) (simp_all add: enter_def)
  next
    case True
    then have "state_id_check m n = Inr (nat (state_id m n))" "int (nat (state_id m n)) = state_id m n"
      using b by (simp_all add: state_id_check_def Let_def)
    then show ?thesis using out True
      by (cases "onenter (states m ! nat (state_id m n))") (auto intro: empty entered simp: enter_def)
  qed
qed

lemma enter_wf:
  assumes "machine_wf m" "enter n m = (fs, m', e)"
  shows "machine_wf m' \<and> states m' = states m"
  by (rule enter_cases[OF assms(1), of n]) (use assms state_id_bounds[of m n] in \<open>auto simp: machine_wf_def names_def\<close>)

lemma enter_error:
  assumes "machine_wf m" "enter n m = (fs, m', e)"
  shows "(e = Some NotFound \<longleftrightarrow> n \<notin> set (names m)) \<and> e \<in> {None, Some NotFound, Some EmptyCall}
    \<and> (e \<noteq> None \<longrightarrow> m' = m)"
  by (rule enter_cases[OF assms(1), of n]) (use assms(2) in auto)

definition with_state :: "string \<Rightarrow> 'f option \<Rightarrow> 'f option \<Rightarrow> 'f machine \<Rightarrow> 'f machine" where
  "with_state n fi fo m = (if state_id m n < 0 then m\<lparr>states := states m @ [\<lparr>sname = n, onenter = fi, onexit = fo\<rparr>]\<rparr>
     else m\<lparr>states := (states m)[nat (state_id m n) := (states m ! nat (state_id m n))\<lparr>onenter := fi, onexit := fo\<rparr>]\<rparr>)"

lemma state_on_with: "state_on n fi fo m = (let m' = with_state n fi fo m in
    if current m < 0 then enter n m' else ([], m', None))"
  by (simp add: state_on_def with_state_def Let_def)

lemma with_state_names: "names (with_state n fi fo m) = (if n \<in> set (names m) then names m else names m @ [n])"
proof (cases "state_id m n < 0")
  case True
  then show ?thesis using state_id_bounds[of m n] by (auto simp: with_state_def names_def)
next
  case False
  note b = state_id_bounds[of m n]
  then have i: "nat (state_id m n) < length (states m)" using False by linarith
  have "(map sname (states m))[nat (state_id m n) := sname (states m ! nat (state_id m n))] = map sname (states m)"
    using i by (metis list_update_id nth_map)
  then have "names (with_state n fi fo m) = names m" using False by (simp add: with_state_def names_def map_update)
  then show ?thesis using b False by auto
qed

lemma with_state_wf: "machine_wf m \<Longrightarrow> machine_wf (with_state n fi fo m)"
proof -
  assume wf: "machine_wf m"
  have "length (states m) \<le> length (states (with_state n fi fo m))" "current (with_state n fi fo m) = current m"
    by (simp_all add: with_state_def)
  then show ?thesis using wf with_state_names[of n fi fo m] by (auto simp: machine_wf_def)
qed

lemma state_on_wf:
  assumes wf: "machine_wf m" and e: "state_on n fi fo m = (fs, m', e)"
  shows "machine_wf m' \<and> names m' = (if n \<in> set (names m) then names m else names m @ [n]) \<and> e \<in> {None, Some EmptyCall}"
proof (cases "current m < 0")
  case True
  then have en: "enter n (with_state n fi fo m) = (fs, m', e)" using e by (simp add: state_on_with Let_def)
  note wf' = with_state_wf[OF wf, of n fi fo]
  have "states m' = states (with_state n fi fo m)" using enter_wf[OF wf' en] by blast
  then have "names m' = names (with_state n fi fo m)" by (simp add: names_def)
  moreover have "n \<in> set (names (with_state n fi fo m))" by (simp add: with_state_names)
  ultimately show ?thesis using enter_wf[OF wf' en] enter_error[OF wf' en] with_state_names[of n fi fo m] by auto
next
  case False
  then show ?thesis using e with_state_wf[OF wf, of n fi fo] with_state_names[of n fi fo m]
    by (auto simp: state_on_with Let_def)
qed

text \<open>A program of calls: \<open>on\<close> and \<open>enter\<close>, each of whose errors the caller catches.\<close>

datatype 'f machine_call = On string "'f option" "'f option" | Enter string

definition call_machine :: "'f machine_call \<Rightarrow> 'f machine \<Rightarrow> 'f list \<times> 'f machine \<times> state_error option" where
  "call_machine c m = (case c of On n fi fo \<Rightarrow> state_on n fi fo m | Enter n \<Rightarrow> enter n m)"

definition run_machine :: "'f machine_call list \<Rightarrow> 'f machine \<Rightarrow> 'f machine" where
  "run_machine cs m = fold (\<lambda>c m. fst (snd (call_machine c m))) cs m"

lemma call_machine_wf: "machine_wf m \<Longrightarrow> machine_wf (fst (snd (call_machine c m)))"
proof -
  assume wf: "machine_wf m"
  obtain fs m' e where c: "call_machine c m = (fs, m', e)" by (metis prod_cases3)
  then have "machine_wf m'" using state_on_wf[OF wf] enter_wf[OF wf] by (cases c) (auto simp: call_machine_def)
  then show ?thesis using c by simp
qed

lemma run_machine_wf: "machine_wf m \<Longrightarrow> machine_wf (run_machine cs m)"
  unfolding run_machine_def by (induction cs arbitrary: m) (auto intro: call_machine_wf)

lemma machine_new_wf: "machine_wf machine_new"
  by (simp add: machine_wf_def machine_new_def names_def)

section \<open>Properties\<close>

definition demo_machine :: "nat machine" where
  "demo_machine = run_machine [On ''off'' (Some 1) (Some 2), On ''on'' (Some 3) (Some 4), Enter ''off''] machine_new"



text \<open>The number of a state counts from the end. \<open>enter\<close> of the state at position \<open>k\<close> of
  \<open>n\<close> enters the state at \<open>n - 1 - k\<close> - that of the name asked for only in the middle - after the exit
  callback of the current one; and no query ever says that the machine is in the state at position 0.\<close>

theorem machine_enter_mirrored:
  assumes "machine_wf m" "k < length (states m)" "j = length (states m) - 1 - k" "onenter (states m ! j) = Some f"
  shows "(\<exists>out. leave m = Inr out \<and> enter (names m ! k) m = (out @ [f], m\<lparr>current := int j\<rparr>, None))
    \<and> (machine_string (m\<lparr>current := int j\<rparr>) = Inr (names m ! k) \<longleftrightarrow> k = j \<and> k \<noteq> 0)
    \<and> is_state (names m ! k) (m\<lparr>current := int j\<rparr>) = Inr (k = j \<and> k \<noteq> 0)"
proof -
  have id: "state_id m (names m ! k) = int j"
    using state_id_mirror[of m k] assms(1-3) by (simp add: machine_wf_def names_def)
  have "names m ! k \<in> set (names m)" using assms(2) by (simp add: names_def)
  then have "\<exists>out. leave m = Inr out \<and> enter (names m ! k) m = (out @ [f], m\<lparr>current := int j\<rparr>, None)"
    by (rule_tac enter_cases[OF assms(1), of "names m ! k"]) (use id assms(4) in auto)
  moreover have j: "j < length (states m)" using assms(2,3) by simp
  then have "names m ! j = names m ! k \<longleftrightarrow> k = j"
    using assms(1,2) nth_eq_iff_index_eq[of "names m" j k] by (auto simp: machine_wf_def names_def)
  then have "sname (states m ! j) = names m ! k \<longleftrightarrow> k = j" using j by (simp add: names_def)
  then have "machine_string (m\<lparr>current := int j\<rparr>) = Inr (names m ! k) \<longleftrightarrow> k = j \<and> k \<noteq> 0"
    "is_state (names m ! k) (m\<lparr>current := int j\<rparr>) = Inr (k = j \<and> k \<noteq> 0)"
    using j by (auto simp: machine_string_def is_state_def state_at_def)
  ultimately show ?thesis by blast
qed

lemma machine_enter_mirrored_witness:
  "names demo_machine = [''off'', ''on''] \<and> enter ''on'' demo_machine = ([4, 1], demo_machine\<lparr>current := 0\<rparr>, None)"
proof -
  have s: "demo_machine = \<lparr>current = 1, states = [\<lparr>sname = ''off'', onenter = Some 1, onexit = Some 2\<rparr>,
      \<lparr>sname = ''on'', onenter = Some 3, onexit = Some 4\<rparr>]\<rparr>"
    by code_simp
  have wf: "machine_wf demo_machine" unfolding s by (simp add: machine_wf_def names_def)
  show ?thesis using machine_enter_mirrored[OF wf, of 1 0 1] unfolding s by (simp add: names_def leave_def state_at_def)
qed

text \<open>\<open>remove\<close> erases the mirrored state too and leaves \<open>current\<close> as it was: the current state may be gone, and
  the next query then indexes out of range.\<close>

lemma machine_remove_breaks:
  "map_sum (\<lambda>e. e) (\<lambda>m. (names m, current m, machine_string m)) (remove_state ''off'' demo_machine)
    = Inr ([''off''], 1, Inl OutOfRange)"
  by code_simp

end
