(* ===== verification/Trees.thy ===== *)
theory Trees
  imports Prelude
begin

text \<open>
  \<open>cpp/lib/Node.h\<close>: trees of nodes that own their children and point to their parent, in a heap whose
  addresses are the order of allocation; and the two walks to the root of \<open>cpp/lib/Tree.h\<close>. What
  the nodes stand for is a tree as a datatype, which the operations refine.
\<close>

section \<open>The heap\<close>

record 'v node =
  nname :: string
  nvalue :: 'v
  nparent :: "nat option"
  nchildren :: "nat list"

type_synonym 'v heap = "'v node list"

datatype heap_error = Dangling

definition node_new :: "string \<Rightarrow> 'v \<Rightarrow> 'v heap" where
  "node_new n v = [\<lparr>nname = n, nvalue = v, nparent = None, nchildren = []\<rparr>]"

definition addChild :: "nat \<Rightarrow> string \<Rightarrow> 'v \<Rightarrow> 'v heap \<Rightarrow> nat \<times> 'v heap" where
  "addChild a n v h = (length h,
     h[a := (h ! a)\<lparr>nchildren := nchildren (h ! a) @ [length h]\<rparr>]
       @ [\<lparr>nname = n, nvalue = v, nparent = Some a, nchildren = []\<rparr>])"

text \<open>\<open>operator[](i)\<close>; an index past the end is undefined.\<close>

definition node_child :: "'v heap \<Rightarrow> nat \<Rightarrow> nat \<Rightarrow> nat option" where
  "node_child h a i = (if i < length (nchildren (h ! a)) then Some (nchildren (h ! a) ! i) else None)"

text \<open>\<open>path()\<close>: the loop to the root, then \<open>reverse\<close>; \<open>None\<close> is a loop that does not end.\<close>

partial_function (option) node_path_loop :: "'v heap \<Rightarrow> nat option \<Rightarrow> string list \<Rightarrow> (heap_error + string list) option" where
  "node_path_loop h n v = (case n of None \<Rightarrow> Some (Inr v)
     | Some a \<Rightarrow> if a < length h then node_path_loop h (nparent (h ! a)) (v @ [nname (h ! a)]) else Some (Inl Dangling))"

definition node_path :: "'v heap \<Rightarrow> nat \<Rightarrow> (heap_error + string list) option" where
  "node_path h a = obind (node_path_loop h (Some a) []) (\<lambda>v. Some (Inr (rev v)))"

text \<open>\<open>level()\<close> and \<open>path()\<close> of \<open>Tree\<close>; the second does not move \<open>n\<close>.\<close>

partial_function (option) tree_level_loop :: "'v heap \<Rightarrow> nat \<Rightarrow> int \<Rightarrow> (heap_error + int) option" where
  "tree_level_loop h n l = (if n < length h then
     (case nparent (h ! n) of None \<Rightarrow> Some (Inr l) | Some p \<Rightarrow> tree_level_loop h p (l + 1)) else Some (Inl Dangling))"

definition tree_level :: "'v heap \<Rightarrow> nat \<Rightarrow> (heap_error + int) option" where
  "tree_level h a = tree_level_loop h a 0"

partial_function (option) tree_path_loop :: "'v heap \<Rightarrow> nat \<Rightarrow> string list \<Rightarrow> (heap_error + string list) option" where
  "tree_path_loop h n v = (if n < length h then
     (case nparent (h ! n) of None \<Rightarrow> Some (Inr v) | Some p \<Rightarrow> tree_path_loop h n (v @ [nname (h ! n)]))
     else Some (Inl Dangling))"

definition tree_path :: "'v heap \<Rightarrow> nat \<Rightarrow> (heap_error + string list) option" where
  "tree_path h a = obind (tree_path_loop h a []) (\<lambda>v. Some (Inr (rev v)))"

section \<open>Well-formed heaps\<close>

text \<open>
  Parents are allocated before their children, the children of a node are the nodes that have it as
  parent, each once.
\<close>

definition heap_wf :: "'v heap \<Rightarrow> bool" where
  "heap_wf h \<longleftrightarrow> (\<forall>a < length h.
     (\<forall>p. nparent (h ! a) = Some p \<longrightarrow> p < a \<and> a \<in> set (nchildren (h ! p)))
   \<and> (\<forall>c \<in> set (nchildren (h ! a)). c < length h \<and> nparent (h ! c) = Some a)
   \<and> distinct (nchildren (h ! a)))"

lemma heap_wf_parent:
  assumes "heap_wf h" "a < length h" "nparent (h ! a) = Some p"
  shows "p < a" "a \<in> set (nchildren (h ! p))"
  using assms unfolding heap_wf_def by blast+

lemma heap_wf_child:
  assumes "heap_wf h" "a < length h" "c \<in> set (nchildren (h ! a))"
  shows "c < length h" "nparent (h ! c) = Some a" "a < c"
proof -
  show c: "c < length h" "nparent (h ! c) = Some a" using assms unfolding heap_wf_def by blast+
  show "a < c" using heap_wf_parent(1)[OF assms(1) c] .
qed

lemma node_new_wf: "heap_wf (node_new n v)"
  by (simp add: heap_wf_def node_new_def)

lemma addChild_nth:
  assumes "a < length h" "addChild a n v h = (c, h')"
  shows "c = length h" "length h' = Suc (length h)"
    "b < length h \<Longrightarrow> b \<noteq> a \<Longrightarrow> h' ! b = h ! b"
    "h' ! a = (h ! a)\<lparr>nchildren := nchildren (h ! a) @ [length h]\<rparr>"
    "h' ! length h = \<lparr>nname = n, nvalue = v, nparent = Some a, nchildren = []\<rparr>"
    "b < length h \<Longrightarrow> nparent (h' ! b) = nparent (h ! b) \<and> nname (h' ! b) = nname (h ! b) \<and> nvalue (h' ! b) = nvalue (h ! b)"
  using assms by (auto simp: addChild_def nth_append nth_list_update)

lemma addChild_wf:
  assumes wf: "heap_wf h" and a: "a < length h" and e: "addChild a n v h = (c, h')"
  shows "heap_wf h'"
  unfolding heap_wf_def
proof (intro allI impI)
  note nth = addChild_nth[OF a e]
  have ch: "nchildren (h' ! b) = nchildren (h ! b) @ (if b = a then [length h] else [])" if "b < length h" for b
    using nth(3,4) that by (cases "b = a") auto
  fix b assume "b < length h'"
  then consider "b < length h" | "b = length h" using nth(2) by linarith
  then show "(\<forall>p. nparent (h' ! b) = Some p \<longrightarrow> p < b \<and> b \<in> set (nchildren (h' ! p)))
    \<and> (\<forall>c \<in> set (nchildren (h' ! b)). c < length h' \<and> nparent (h' ! c) = Some b) \<and> distinct (nchildren (h' ! b))"
  proof cases
    case 1
    have d: "distinct (nchildren (h ! b))" using wf 1 by (simp add: heap_wf_def)
    have new: "length h \<notin> set (nchildren (h ! b))" using heap_wf_child(1)[OF wf 1] by blast
    have "p < b \<and> b \<in> set (nchildren (h' ! p))" if "nparent (h' ! b) = Some p" for p
      using heap_wf_parent[OF wf 1, of p] nth(6)[OF 1] ch[of p] that 1 by auto
    moreover have "d < length h' \<and> nparent (h' ! d) = Some b" if "d \<in> set (nchildren (h' ! b))" for d
    proof (cases "d \<in> set (nchildren (h ! b))")
      case True
      then show ?thesis using heap_wf_child(1,2)[OF wf 1 True] nth(2) nth(6)[of d] by simp
    next
      case False
      then have "d = length h" "b = a" using that ch[OF 1] by (auto split: if_splits)
      then show ?thesis using nth(2,5) by simp
    qed
    ultimately show ?thesis using d new ch[OF 1] by auto
  next
    case 2
    then show ?thesis using nth(4,5) a by auto
  qed
qed

section \<open>Walks to the root\<close>

text \<open>Each node has one chain of ancestors, of decreasing addresses.\<close>

inductive anc :: "'v heap \<Rightarrow> nat \<Rightarrow> nat \<Rightarrow> bool" for h b where
  self: "anc h b b"
| up: "anc h b p \<Longrightarrow> nparent (h ! a) = Some p \<Longrightarrow> anc h b a"

inductive_cases ancE: "anc h b a"

lemma anc_le: "anc h b a \<Longrightarrow> heap_wf h \<Longrightarrow> a < length h \<Longrightarrow> b \<le> a"
proof (induction rule: anc.induct)
  case (up p a)
  then have "p < a" using heap_wf_parent(1) by blast
  then show ?case using up by simp
qed simp

lemma anc_sibling:
  assumes wf: "heap_wf h" and b: "b < length h" and c: "c \<in> set (nchildren (h ! b))" and d: "d \<in> set (nchildren (h ! b))"
    and "anc h c a" "anc h d a" "a < length h"
  shows "c = d"
proof -
  have not: "\<not> anc h e b" if "e \<in> set (nchildren (h ! b))" for e
    using anc_le[OF _ wf b] heap_wf_child(3)[OF wf b that] by fastforce
  note par = heap_wf_child(2)[OF wf b]
  show ?thesis using assms(5-7)
  proof (induction rule: anc.induct)
    case self
    show ?case using self(1) by (rule ancE) (use par[OF c] not[OF d] in auto)
  next
    case (up p a)
    have p: "p < length h" using heap_wf_parent(1)[OF wf up(5,2)] up(5) by simp
    show ?case using up(4)
    proof (rule ancE)
      assume "a = d"
      then show ?case using up(1,2) par[OF d] not[OF c] by simp
    next
      fix p' assume "anc h d p'" "nparent (h ! a) = Some p'"
      then show ?case using up(2,3) p by simp
    qed
  qed
qed

text \<open>The names on the chain, from the root.\<close>

function chain :: "'v heap \<Rightarrow> nat \<Rightarrow> string list" where
  "chain h a = (case nparent (h ! a) of None \<Rightarrow> [nname (h ! a)]
     | Some p \<Rightarrow> if p < a then chain h p @ [nname (h ! a)] else [nname (h ! a)])"
  by auto
termination by (relation "measure snd") auto

declare chain.simps [simp del]

lemma chain_root: "nparent (h ! a) = None \<Longrightarrow> chain h a = [nname (h ! a)]"
  by (simp add: chain.simps)

lemma chain_child: "heap_wf h \<Longrightarrow> a < length h \<Longrightarrow> nparent (h ! a) = Some p \<Longrightarrow> chain h a = chain h p @ [nname (h ! a)]"
  using heap_wf_parent(1)[of h a p] by (subst chain.simps) simp

lemma node_path_loop_chain:
  assumes "heap_wf h" "a < length h"
  shows "node_path_loop h (Some a) v = Some (Inr (v @ rev (chain h a)))"
  using assms(2)
proof (induction a arbitrary: v rule: less_induct)
  case (less a)
  show ?case
  proof (cases "nparent (h ! a)")
    case None
    then show ?thesis using less.prems by (subst node_path_loop.simps) (simp add: chain_root node_path_loop.simps)
  next
    case (Some p)
    then have "p < a" "p < length h" using heap_wf_parent(1)[OF assms(1) less.prems Some] less.prems by auto
    then show ?thesis using less.IH[of p "v @ [nname (h ! a)]"] less.prems Some chain_child[OF assms(1) less.prems Some]
      by (subst node_path_loop.simps) simp
  qed
qed

lemma node_path_chain: "heap_wf h \<Longrightarrow> a < length h \<Longrightarrow> node_path h a = Some (Inr (chain h a))"
  by (simp add: node_path_def node_path_loop_chain)

lemma tree_level_chain:
  assumes "heap_wf h" "a < length h"
  shows "tree_level_loop h a l = Some (Inr (l + int (length (chain h a)) - 1))"
  using assms(2)
proof (induction a arbitrary: l rule: less_induct)
  case (less a)
  show ?case
  proof (cases "nparent (h ! a)")
    case None
    then show ?thesis using less.prems by (subst tree_level_loop.simps) (simp add: chain_root)
  next
    case (Some p)
    then have "p < a" "p < length h" using heap_wf_parent(1)[OF assms(1) less.prems Some] less.prems by auto
    then show ?thesis using less.IH[of p "l + 1"] less.prems Some chain_child[OF assms(1) less.prems Some]
      by (subst tree_level_loop.simps) simp
  qed
qed

text \<open>The loop of \<open>Tree::path()\<close> goes round for ever as soon as there is a parent.\<close>

lemma tree_path_loop_returns:
  fixes h :: "'v heap"
  assumes "tree_path_loop h n v = Some r"
  shows "n < length h \<longrightarrow> nparent (h ! n) = None"
proof (rule tree_path_loop.raw_induct[of "\<lambda>h n v r. n < length h \<longrightarrow> nparent (h ! n) = None", OF _ assms], intro impI, rule ccontr)
  fix f :: "'v heap \<Rightarrow> nat \<Rightarrow> string list \<Rightarrow> (heap_error + string list) option" and h n v r
  assume ih: "\<And>h n v r. f h n v = Some r \<Longrightarrow> n < length h \<longrightarrow> nparent (h ! n) = None"
    and run: "(if n < length h then (case nparent (h ! n) of None \<Rightarrow> Some (Inr v) | Some p \<Rightarrow> f h n (v @ [nname (h ! n)]))
     else Some (Inl Dangling)) = Some r"
    and n: "n < length h" "nparent (h ! n) \<noteq> None"
  then have "f h n (v @ [nname (h ! n)]) = Some r" by auto
  from ih[OF this] show False using n by simp
qed

lemma tree_path_diverges:
  assumes "n < length h" "nparent (h ! n) = Some p"
  shows "tree_path h n = None"
  using tree_path_loop_returns[of h n "[]"] assms unfolding tree_path_def
  by (cases "tree_path_loop h n []") auto

section \<open>The tree a node stands for\<close>

datatype 'v rtree = RNode (rname: string) (rvalue: 'v) (rchildren: "'v rtree list")

function tree_of :: "'v heap \<Rightarrow> nat \<Rightarrow> 'v rtree" where
  "tree_of h a = RNode (nname (h ! a)) (nvalue (h ! a))
     (map (tree_of h) (filter (\<lambda>c. a < c \<and> c < length h) (nchildren (h ! a))))"
  by auto
termination by (relation "measure (\<lambda>(h, a). length h - a)") auto

declare tree_of.simps [simp del]

text \<open>Where a route of child numbers leads, from a node and in a tree.\<close>

fun follow :: "'v heap \<Rightarrow> nat \<Rightarrow> nat list \<Rightarrow> nat option" where
  "follow h a [] = Some a"
| "follow h a (i # r) = (case node_child h a i of None \<Rightarrow> None | Some c \<Rightarrow> follow h c r)"

fun tree_insert :: "nat list \<Rightarrow> 'v rtree \<Rightarrow> 'v rtree \<Rightarrow> 'v rtree" where
  "tree_insert [] t (RNode n v ts) = RNode n v (ts @ [t])"
| "tree_insert (i # r) t (RNode n v ts) = RNode n v (if i < length ts then ts[i := tree_insert r t (ts ! i)] else ts)"

fun route_names :: "nat list \<Rightarrow> 'v rtree \<Rightarrow> string list" where
  "route_names [] (RNode n v ts) = [n]"
| "route_names (i # r) (RNode n v ts) = n # (if i < length ts then route_names r (ts ! i) else [])"

lemma tree_of_wf:
  assumes "heap_wf h" "a < length h"
  shows "tree_of h a = RNode (nname (h ! a)) (nvalue (h ! a)) (map (tree_of h) (nchildren (h ! a)))"
proof -
  have "filter (\<lambda>c. a < c \<and> c < length h) (nchildren (h ! a)) = nchildren (h ! a)"
    using heap_wf_child(1,3)[OF assms] by (simp add: filter_id_conv)
  then show ?thesis by (simp add: tree_of.simps)
qed

lemma node_child_wf:
  assumes "heap_wf h" "a < length h" "node_child h a i = Some c"
  shows "i < length (nchildren (h ! a))" "c = nchildren (h ! a) ! i" "c \<in> set (nchildren (h ! a))" "c < length h"
proof -
  show i: "i < length (nchildren (h ! a))" "c = nchildren (h ! a) ! i"
    using assms(3) by (auto simp: node_child_def split: if_splits)
  then show "c \<in> set (nchildren (h ! a))" by simp
  then show "c < length h" using heap_wf_child(1)[OF assms(1,2)] by blast
qed

lemma anc_trans: "anc h b a \<Longrightarrow> anc h c b \<Longrightarrow> anc h c a"
  by (induction rule: anc.induct) (auto intro: anc.up)

lemma follow_anc:
  "heap_wf h \<Longrightarrow> b < length h \<Longrightarrow> follow h b route = Some a \<Longrightarrow> a < length h \<and> anc h b a"
proof (induction route arbitrary: b)
  case Nil
  then show ?case by (simp add: anc.self)
next
  case (Cons i route)
  then obtain c where c: "node_child h b i = Some c" "follow h c route = Some a" by (auto split: option.splits)
  note nc = node_child_wf[OF Cons.prems(1,2) c(1)]
  have "a < length h \<and> anc h c a" using Cons.IH[OF Cons.prems(1) nc(4) c(2)] .
  moreover have "anc h b c" using heap_wf_child(2)[OF Cons.prems(1,2) nc(3)] anc.self anc.up by metis
  ultimately show ?case using anc_trans by metis
qed

text \<open>A node that is no ancestor of the parent keeps its tree.\<close>

lemma tree_of_unchanged:
  assumes wf: "heap_wf h" and a: "a < length h" and e: "addChild a n v h = (c, h')"
    and "b < length h" "\<not> anc h b a"
  shows "tree_of h' b = tree_of h b"
  using assms(4,5)
proof (induction "length h - b" arbitrary: b rule: less_induct)
  case less
  note wf' = addChild_wf[OF wf a e] and nth = addChild_nth[OF a e]
  have b: "b \<noteq> a" "b < length h'" using less.prems nth(2) anc.self by auto
  have "tree_of h' d = tree_of h d" if d: "d \<in> set (nchildren (h ! b))" for d
  proof -
    note ch = heap_wf_child[OF wf less.prems(1) d]
    have "\<not> anc h d a"
    proof
      assume "anc h d a"
      moreover have "anc h b d" using ch(2) anc.self anc.up by metis
      ultimately show False using anc_trans less.prems(2) by metis
    qed
    then show ?thesis using less.hyps[of d] ch less.prems(1) by auto
  qed
  then show ?case using tree_of_wf[OF wf less.prems(1)] tree_of_wf[OF wf' b(2)] nth(3)[OF less.prems(1) b(1)] by simp
qed

lemma tree_of_addChild:
  assumes wf: "heap_wf h" and e: "addChild a n v h = (c, h')"
    and "b < length h" "follow h b route = Some a"
  shows "tree_of h' b = tree_insert route (RNode n v []) (tree_of h b)
    \<and> follow h' b (route @ [length (nchildren (h ! a))]) = Some c"
  using assms(3,4)
proof (induction route arbitrary: b)
  case Nil
  then have [simp]: "b = a" by simp
  note a = Nil.prems(1)[simplified]
  note wf' = addChild_wf[OF wf a e] and nth = addChild_nth[OF a e]
  have l: "a < length h'" "length h < length h'" using a nth(2) by simp_all
  have "tree_of h' d = tree_of h d" if d: "d \<in> set (nchildren (h ! a))" for d
  proof -
    note ch = heap_wf_child[OF wf a d]
    have "\<not> anc h d a" using anc_le[OF _ wf a] ch(3) by fastforce
    then show ?thesis using tree_of_unchanged[OF wf a e ch(1)] by blast
  qed
  moreover have "tree_of h' (length h) = RNode n v []" using tree_of_wf[OF wf' l(2)] nth(5) by simp
  ultimately show ?case using tree_of_wf[OF wf a] tree_of_wf[OF wf' l(1)] nth(1,4)
    by (simp add: node_child_def)
next
  case (Cons i route)
  have a: "a < length h" "anc h b a" using follow_anc[OF wf Cons.prems] by auto
  note wf' = addChild_wf[OF wf a(1) e] and nth = addChild_nth[OF a(1) e]
  obtain d where d: "node_child h b i = Some d" "follow h d route = Some a"
    using Cons.prems(2) by (auto split: option.splits)
  note nc = node_child_wf[OF wf Cons.prems(1) d(1)]
  have da: "anc h d a" using follow_anc[OF wf nc(4) d(2)] by blast
  have "b \<noteq> a"
    using anc_le[OF da wf a(1)] heap_wf_child(3)[OF wf Cons.prems(1) nc(3)] by auto
  then have hb: "h' ! b = h ! b" using nth(3) Cons.prems(1) by blast
  have bl: "b < length h'" using Cons.prems(1) nth(2) by simp
  have other: "tree_of h' x = tree_of h x" if "x \<in> set (nchildren (h ! b))" "x \<noteq> d" for x
  proof (rule tree_of_unchanged[OF wf a(1) e])
    show "x < length h" using heap_wf_child(1)[OF wf Cons.prems(1) that(1)] .
    show "\<not> anc h x a" using anc_sibling[OF wf Cons.prems(1) that(1) nc(3) _ da a(1)] that(2) by blast
  qed
  note IH = Cons.IH[OF nc(4) d(2)]
  have dist: "distinct (nchildren (h ! b))" using wf Cons.prems(1) unfolding heap_wf_def by blast
  have "map (tree_of h') (nchildren (h ! b))
      = (map (tree_of h) (nchildren (h ! b)))[i := tree_insert route (RNode n v []) (tree_of h d)]"
  proof (rule nth_equalityI)
    fix j assume j: "j < length (map (tree_of h') (nchildren (h ! b)))"
    show "map (tree_of h') (nchildren (h ! b)) ! j
      = (map (tree_of h) (nchildren (h ! b)))[i := tree_insert route (RNode n v []) (tree_of h d)] ! j"
    proof (cases "j = i")
      case True
      then show ?thesis using IH nc(1,2) by simp
    next
      case False
      then have "nchildren (h ! b) ! j \<noteq> d" using dist j nc(1,2) by (simp add: nth_eq_iff_index_eq)
      then show ?thesis using False other[of "nchildren (h ! b) ! j"] j by simp
    qed
  qed simp
  moreover have "node_child h' b i = Some d" using d(1) hb unfolding node_child_def by metis
  ultimately show ?case
    using tree_of_wf[OF wf Cons.prems(1)] tree_of_wf[OF wf' bl] hb nc(1,2) IH by simp
qed

lemma chain_route:
  assumes "heap_wf h" "b < length h" "follow h b route = Some a"
  shows "chain h a = butlast (chain h b) @ route_names route (tree_of h b)"
  using assms(2,3)
proof (induction route arbitrary: b)
  case Nil
  have "chain h b = butlast (chain h b) @ [nname (h ! b)]"
    by (cases "nparent (h ! b)") (subst (1 2) chain.simps, simp)+
  then show ?case using Nil tree_of_wf[OF assms(1) Nil.prems(1)] by simp
next
  case (Cons i route)
  then obtain d where d: "node_child h b i = Some d" "follow h d route = Some a" by (auto split: option.splits)
  note nc = node_child_wf[OF assms(1) Cons.prems(1) d(1)]
  have "chain h d = chain h b @ [nname (h ! d)]"
    using chain_child[OF assms(1) nc(4)] heap_wf_child(2)[OF assms(1) Cons.prems(1) nc(3)] by blast
  moreover have "chain h b = butlast (chain h b) @ [nname (h ! b)]"
    by (cases "nparent (h ! b)") (subst (1 2) chain.simps, simp)+
  ultimately have "butlast (chain h d) = butlast (chain h b) @ [nname (h ! b)]" by simp
  then show ?case using Cons.IH[OF nc(4) d(2)] tree_of_wf[OF assms(1) Cons.prems(1)] nc(1,2) by simp
qed


text \<open>The heaps of a root to which nodes have been added.\<close>

inductive grown :: "'v heap \<Rightarrow> bool" where
  root: "grown (node_new n v)"
| add: "grown h \<Longrightarrow> a < length h \<Longrightarrow> grown (snd (addChild a n v h))"

lemma grown_wf: "grown h \<Longrightarrow> heap_wf h \<and> h \<noteq> [] \<and> nparent (h ! 0) = None"
proof (induction rule: grown.induct)
  case (root n v)
  then show ?case using node_new_wf by (simp add: node_new_def)
next
  case (add h a n v)
  obtain c h' where e: "addChild a n v h = (c, h')" by fastforce
  have "0 < length h" using add by simp
  then show ?case using addChild_wf[OF _ add(2) e] addChild_nth(2)[OF add(2) e] addChild_nth(6)[OF add(2) e, of 0] add.IH e
    by auto
qed

section \<open>Properties\<close>

definition demo_heap :: "nat heap" where
  "demo_heap = snd (addChild 0 ''b'' 3 (snd (addChild 0 ''a'' 1 (node_new ''root'' 0))))"

lemma demo_heap_eq: "demo_heap = [\<lparr>nname = ''root'', nvalue = 0, nparent = None, nchildren = [1, 2]\<rparr>,
      \<lparr>nname = ''a'', nvalue = 1, nparent = Some 0, nchildren = []\<rparr>,
      \<lparr>nname = ''b'', nvalue = 3, nparent = Some 0, nchildren = []\<rparr>]"
  by code_simp

lemma demo_heap_grown: "grown demo_heap"
  unfolding demo_heap_def by (intro grown.intros) (simp_all add: node_new_def addChild_def)

text \<open>C37: trees of nodes refine trees. Whatever has been added before, \<open>addChild\<close> on the node at the end of a
  route adds a leaf as the last child there and changes nothing else, the new node is at the end
  of the longer route, and \<open>path()\<close> returns and gives the names along it; the heap stays well formed.\<close>

theorem node_tree_refines:
  assumes "grown h" "follow h 0 route = Some a" "addChild a n v h = (c, h')"
  shows "heap_wf h' \<and> tree_of h' 0 = tree_insert route (RNode n v []) (tree_of h 0)
    \<and> follow h' 0 (route @ [length (nchildren (h ! a))]) = Some c
    \<and> node_path h' c = Some (Inr (route_names route (tree_of h 0) @ [n]))"
proof -
  note g = grown_wf[OF assms(1)]
  then have z: "0 < length h" by simp
  have a: "a < length h" using follow_anc[OF _ z assms(2)] g by blast
  have wf': "heap_wf h'" using addChild_wf[OF _ a assms(3)] g by blast
  note nth = addChild_nth[OF a assms(3)]
  have c: "c < length h'" "nparent (h' ! c) = Some a" "nname (h' ! c) = n" using nth(1,2,5) by simp_all
  have "chain h' a = chain h a"
  proof -
    have "b < length h \<Longrightarrow> chain h' b = chain h b" for b
    proof (induction b rule: less_induct)
      case (less b)
      then show ?case using nth(6)[OF less.prems]
        by (subst (1 2) chain.simps) (auto split: option.splits)
    qed
    then show ?thesis using a by blast
  qed
  moreover have "chain h a = route_names route (tree_of h 0)"
    using chain_route[OF _ z assms(2)] g by (simp add: chain_root)
  ultimately have "chain h' c = route_names route (tree_of h 0) @ [n]"
    using chain_child[OF wf' c(1,2)] c(3) by simp
  then show ?thesis using wf' tree_of_addChild[OF _ assms(3) z assms(2)] g node_path_chain[OF wf' c(1)] by simp
qed

lemma node_tree_refines_witness:
  "\<exists>h'. addChild 2 ''c'' 4 demo_heap = (3, h') \<and> node_path h' 3 = Some (Inr [''root'', ''b'', ''c''])"
proof -
  have f: "follow demo_heap 0 [1] = Some 2" unfolding demo_heap_eq by (simp add: node_child_def)
  have t: "route_names [1] (tree_of demo_heap 0) = [''root'', ''b'']"
    unfolding demo_heap_eq by (simp add: tree_of.simps)
  obtain h' where "addChild 2 ''c'' 4 demo_heap = (3, h')" unfolding demo_heap_eq by (simp add: addChild_def)
  then show ?thesis using node_tree_refines[OF demo_heap_grown f] t by auto
qed

text \<open>In \<open>Tree\<close>, \<open>level()\<close> is the number of ancestors, but \<open>path()\<close> returns only for a root: with a parent its
  loop never ends, since it does not move to the parent.\<close>

theorem tree_path_only_roots:
  assumes "grown h" "a < length h"
  shows "tree_level h a = Some (Inr (int (length (chain h a)) - 1))
    \<and> tree_path h a = (if nparent (h ! a) = None then Some (Inr []) else None)"
proof -
  have "heap_wf h" using grown_wf[OF assms(1)] by blast
  then have "tree_level h a = Some (Inr (int (length (chain h a)) - 1))"
    using tree_level_chain[of h a 0] assms(2) by (simp add: tree_level_def)
  moreover have "nparent (h ! a) = None \<Longrightarrow> tree_path h a = Some (Inr [])"
    using assms(2) by (simp add: tree_path_def tree_path_loop.simps)
  ultimately show ?thesis using tree_path_diverges[OF assms(2)] by auto
qed

lemma tree_path_only_roots_witness: "tree_path demo_heap 2 = None \<and> tree_path demo_heap 0 = Some (Inr [])"
  using tree_path_only_roots[OF demo_heap_grown, of 2] tree_path_only_roots[OF demo_heap_grown, of 0]
  unfolding demo_heap_eq by simp

end
