(* ===== verification/Utils.thy ===== *)
theory Utils
  imports Prelude
begin

text \<open>
  \<open>cpp/lib/utils.h\<close> (the helpers on strings and numbers), \<open>cpp/lib/Color.h\<close> and \<open>cpp/lib/Named.h\<close>.
  Characters are the \<open>char\<close>s of the C locale.
\<close>

section \<open>Strings\<close>

text \<open>\<open>isspace\<close> of the C locale: space, tab, newline, vertical tab, form feed, carriage return.\<close>

definition is_space :: "char \<Rightarrow> bool" where
  "is_space c \<longleftrightarrow> (of_char c :: nat) \<in> {32, 9, 10, 11, 12, 13}"

text \<open>\<open>trim\<close>: the first position that is no space from the front, and from the back; nothing when they cross.\<close>

definition trim :: "string \<Rightarrow> string" where
  "trim s = (let wsfront = length (takeWhile is_space s); wsback = length s - length (takeWhile is_space (rev s))
     in if wsback \<le> wsfront then [] else take (wsback - wsfront) (drop wsfront s))"

definition to_lower :: "char \<Rightarrow> char" where
  "to_lower c = (let n = of_char c :: nat in if 65 \<le> n \<and> n \<le> 90 then char_of (n + 32) else c)"

definition lower :: "string \<Rightarrow> string" where
  "lower s = map to_lower s"

fun join :: "string list \<Rightarrow> string \<Rightarrow> string" where
  "join [] d = []"
| "join (r # v) d = fold (\<lambda>x r. r @ d @ x) v r"

text \<open>
  \<open>getline\<close> takes the characters up to the delimiter, which it drops; it fails at the end of the text. So
  nothing follows a last delimiter.
\<close>

fun getline :: "char \<Rightarrow> string \<Rightarrow> string \<times> string" where
  "getline d [] = ([], [])"
| "getline d (c # s) = (if c = d then ([], s) else (case getline d s of (l, r) \<Rightarrow> (c # l, r)))"

lemma getline_shorter: "getline d s = (l, r) \<Longrightarrow> s \<noteq> [] \<Longrightarrow> length r < length s"
proof (induction s arbitrary: l r)
  case (Cons c s)
  then show ?case by (cases s) (force split: if_splits prod.splits)+
qed simp

function split_text :: "string \<Rightarrow> char \<Rightarrow> string list" where
  "split_text s d = (if s = [] then [] else (case getline d s of (l, r) \<Rightarrow> l # split_text r d))"
  by auto
termination by (relation "measure (length \<circ> fst)") (auto dest: getline_shorter[OF sym])

declare split_text.simps [simp del]

definition repeat_text :: "string \<Rightarrow> int \<Rightarrow> string" where
  "repeat_text s n = concat (replicate (nat n) s)"

definition sign :: "int \<Rightarrow> int" where
  "sign v = (if v \<ge> 0 then 1 else -1)"

text \<open>\<open>char\<close> is signed, \<open>c * 76963\<close> is an \<open>int\<close>, which becomes a \<open>u64\<close>.\<close>

definition hash_step :: "char \<Rightarrow> 64 word \<Rightarrow> 64 word" where
  "hash_step c h = xor (h * 54059) (word_of_int (sint (of_char c :: 8 word) * 76963))"

definition hash_text :: "string \<Rightarrow> 64 word" where
  "hash_text s = fold hash_step s 37"

text \<open>\<open>check\<close> throws \<open>invalid_argument\<close> with its message.\<close>

definition check :: "bool \<Rightarrow> string \<Rightarrow> string + unit" where
  "check e msg = (if e then Inr () else Inl msg)"

lemma getline_append:
  "getline d s = (if d \<in> set s then (takeWhile (\<lambda>c. c \<noteq> d) s, tl (dropWhile (\<lambda>c. c \<noteq> d) s)) else (s, []))"
  by (induction s) auto

lemma split_no_delim: "s \<noteq> [] \<Longrightarrow> d \<notin> set s \<Longrightarrow> split_text s d = [s]"
  by (subst split_text.simps) (simp add: getline_append split_text.simps)

lemma split_delim: "d \<notin> set l \<Longrightarrow> split_text (l @ d # r) d = l # split_text r d"
proof -
  assume l: "d \<notin> set l"
  then have "takeWhile (\<lambda>c. c \<noteq> d) (l @ d # r) = l" "dropWhile (\<lambda>c. c \<noteq> d) (l @ d # r) = d # r"
    by (induction l) auto
  then show ?thesis by (subst split_text.simps) (simp add: getline_append)
qed

text \<open>\<open>join\<close> as a recursion from the left.\<close>

lemma join_Cons: "join (x # y # v) d = x @ d @ join (y # v) d"
proof -
  have "fold (\<lambda>x r. r @ d @ x) v (p @ q) = p @ fold (\<lambda>x r. r @ d @ x) v q" for p q
    by (induction v arbitrary: q) auto
  from this[of "x @ d" y] show ?thesis by simp
qed

lemma join_single: "join [x] d = x"
  by simp

lemma split_join:
  assumes "\<forall>x \<in> set v. d \<notin> set x" "v = [] \<or> last v \<noteq> []"
  shows "split_text (join v [d]) d = v"
  using assms
proof (induction v rule: induct_list012)
  case 1
  then show ?case by (simp add: split_text.simps)
next
  case (2 x)
  then show ?case by (simp add: split_no_delim)
next
  case (3 x y v)
  then show ?case using split_delim[of d x "join (y # v) [d]"] by (simp add: join_Cons del: join.simps)
qed

lemma join_split:
  "join (split_text s d) [d] = (if s \<noteq> [] \<and> last s = d then butlast s else s)
    \<and> (\<forall>x \<in> set (split_text s d). d \<notin> set x)"
proof (induction "length s" arbitrary: s rule: less_induct)
  case less
  show ?case
  proof (cases "d \<in> set s")
    case False
    then show ?thesis using last_in_set[of s]
      by (cases "s = []") (auto simp: split_no_delim split_text.simps[of "[]"])
  next
    case True
    then obtain l r where s: "s = l @ d # r" "d \<notin> set l" by (meson split_list_first)
    note IH = less[of r]
    have r: "join (split_text r d) [d] = (if r \<noteq> [] \<and> last r = d then butlast r else r)"
      "\<forall>x \<in> set (split_text r d). d \<notin> set x"
      using IH s(1) by auto
    show ?thesis
    proof (cases "split_text r d")
      case Nil
      then have "r = []" using split_text.simps[of r d] by (simp split: if_splits prod.splits)
      then show ?thesis using s Nil by (simp add: split_delim)
    next
      case (Cons y v)
      then have ne: "r \<noteq> []" using split_text.simps[of r d] by (simp split: if_splits)
      have "split_text s d = l # split_text r d" unfolding s(1) using split_delim[OF s(2)] .
      then have "join (split_text s d) [d] = l @ [d] @ join (split_text r d) [d]"
        unfolding Cons by (simp only: join_Cons)
      then show ?thesis using r ne s by (simp add: split_delim butlast_append)
    qed
  qed
qed

lemma takeWhile_prefix: "\<forall>c \<in> set a. P c \<Longrightarrow> \<not> P x \<Longrightarrow> takeWhile P (a @ x # b) = a"
  by (induction a) auto

lemma trim_parts:
  "\<exists>p q. s = p @ trim s @ q \<and> (\<forall>c \<in> set (p @ q). is_space c)
    \<and> (trim s \<noteq> [] \<longrightarrow> \<not> is_space (hd (trim s)) \<and> \<not> is_space (last (trim s)))"
proof -
  let ?p = "takeWhile is_space s" and ?q = "rev (takeWhile is_space (rev s))"
  show ?thesis
  proof (cases "\<forall>c \<in> set s. is_space c")
    case True
    then have "trim s = []" by (simp add: trim_def takeWhile_eq_all_conv[THEN iffD2])
    then show ?thesis using True by (intro exI[of _ s] exI[of _ "[]"]) simp
  next
    case False
    then obtain a x b where s1: "s = a @ x # b" "\<forall>c \<in> set a. is_space c" "\<not> is_space x"
      using split_list_first_prop[of s "\<lambda>c. \<not> is_space c"] by auto
    obtain e y f where s2: "s = e @ y # f" "\<forall>c \<in> set f. is_space c" "\<not> is_space y"
      using False split_list_last_prop[of s "\<lambda>c. \<not> is_space c"] by auto
    have p: "takeWhile is_space s = a" using s1 takeWhile_prefix[of a is_space x b] by simp
    have "takeWhile is_space (rev s) = rev f" using s2 takeWhile_prefix[of "rev f" is_space y "rev e"] by simp
    then have q: "length (takeWhile is_space (rev s)) = length f" by simp
    have le: "length a \<le> length e"
    proof (rule ccontr)
      assume "\<not> length a \<le> length e"
      then have "length e < length a" by simp
      moreover have "s ! length e = y" using s2(1) by simp
      moreover have "length e < length a \<Longrightarrow> s ! length e = a ! length e" unfolding s1(1) by (simp add: nth_append)
      ultimately have "y \<in> set a" by (metis nth_mem)
      then show False using s1(2) s2(3) by blast
    qed
    have e_end: "length s - length f = Suc (length e)" using s2(1) by simp
    have t: "trim s = take (Suc (length e) - length a) (drop (length a) s)"
      using le by (simp add: trim_def p q e_end Let_def)
    have s3: "take (Suc (length e)) s = e @ [y]" "drop (Suc (length e)) s = f" using s2(1) by simp_all
    have "take (length a) s = a" using s1(1) by simp
    moreover have "take (length a) s @ trim s = take (length a + (Suc (length e) - length a)) s"
      unfolding t by (simp only: take_add)
    moreover have "length a + (Suc (length e) - length a) = Suc (length e)" using le by simp
    ultimately have "a @ trim s = take (Suc (length e)) s" by simp
    then have at: "a @ trim s = e @ [y]" using s3(1) by simp
    have "s = (e @ [y]) @ f" using s2(1) by simp
    then have "s = a @ trim s @ f" unfolding at[symmetric] by simp
    moreover have ne: "trim s \<noteq> []"
    proof
      assume "trim s = []"
      then have "length a = Suc (length e)" using at by (metis append_Nil2 length_append_singleton)
      then show False using le by simp
    qed
    moreover have "hd (trim s) = x"
    proof -
      have "trim s @ f = x # b" using calculation(1) s1(1) by (metis same_append_eq)
      then show ?thesis using ne by (cases "trim s") auto
    qed
    moreover have "last (trim s) = y" using arg_cong[OF at, of last] ne by simp
    ultimately show ?thesis using s1 s2 by (intro exI[of _ a] exI[of _ f]) auto
  qed
qed

section \<open>Colors\<close>

text \<open>
  A \<open>Color\<close> is a \<open>u32\<close> whose bytes, from the lowest, are \<open>array[0..3]\<close> and the fields \<open>r\<close>, \<open>g\<close>, \<open>b\<close>, \<open>a\<close> of
  \<open>parts\<close>. The sum of the constructor is taken modulo \<open>2 ^ 32\<close>.
\<close>

type_synonym color = "32 word"

definition color_of :: "8 word \<Rightarrow> 8 word \<Rightarrow> 8 word \<Rightarrow> 8 word \<Rightarrow> color" where
  "color_of r g b a = ucast b + push_bit 8 (ucast g) + push_bit 16 (ucast r) + push_bit 24 (ucast a)"

definition color_byte :: "color \<Rightarrow> nat \<Rightarrow> 8 word" where
  "color_byte c i = ucast (drop_bit (8 * i) c)"

definition parts_r :: "color \<Rightarrow> 8 word" where "parts_r c = color_byte c 0"
definition parts_g :: "color \<Rightarrow> 8 word" where "parts_g c = color_byte c 1"
definition parts_b :: "color \<Rightarrow> 8 word" where "parts_b c = color_byte c 2"
definition parts_a :: "color \<Rightarrow> 8 word" where "parts_a c = color_byte c 3"

text \<open>\<open>rgb(v)\<close> sets the fourth byte to 255.\<close>

definition color_rgb :: "color \<Rightarrow> color" where
  "color_rgb v = or (and v 16777215) (push_bit 24 255)"

definition color_rgb3 :: "8 word \<Rightarrow> 8 word \<Rightarrow> 8 word \<Rightarrow> color" where
  "color_rgb3 r g b = color_of r g b 255"

lemma byte_bound: "0 \<le> uint (x :: 8 word) \<and> uint x < 256"
  using uint_bounded[of x] by simp

lemma color_value: "uint (color_of r g b a) = uint b + 256 * (uint g + 256 * (uint r + 256 * uint a))"
proof -
  have "uint (push_bit 8 (ucast g) :: color) = 256 * uint g" "uint (push_bit 16 (ucast r) :: color) = 65536 * uint r"
    "uint (push_bit 24 (ucast a) :: color) = 16777216 * uint a" "uint (ucast b :: color) = uint b"
    using byte_bound[of r] byte_bound[of g] byte_bound[of b] byte_bound[of a]
    by (simp_all add: push_bit_eq_mult uint_word_ariths uint_up_ucast is_up)
  then show ?thesis
    using byte_bound[of r] byte_bound[of g] byte_bound[of b] byte_bound[of a]
    by (simp add: color_of_def uint_word_ariths)
qed

lemma byte_value: "uint (color_byte c i) = uint c div 2 ^ (8 * i) mod 256"
proof -
  have "uint c mod 4294967296 = uint c" using uint_bounded[of c] by simp
  then show ?thesis
    by (simp add: color_byte_def unsigned_ucast_eq unsigned_drop_bit_eq drop_bit_eq_div[of _ "_ :: int"] take_bit_eq_mod[of _ "_ :: int"])
qed

lemma digits_256: "0 \<le> (b :: int) \<and> b < 256 \<Longrightarrow> (b + 256 * x) mod 256 = b \<and> (b + 256 * x) div 256 = x"
  by simp

section \<open>Names\<close>

text \<open>\<open>Named\<close> objects are ordered by their names, byte by byte.\<close>

fun name_less :: "string \<Rightarrow> string \<Rightarrow> bool" where
  "name_less [] t = (t \<noteq> [])"
| "name_less (c # s) [] = False"
| "name_less (c # s) (d # t) = ((of_char c :: nat) < of_char d \<or> c = d \<and> name_less s t)"

lemma name_less_trans: "name_less s t \<Longrightarrow> name_less t u \<Longrightarrow> name_less s u"
proof (induction s t arbitrary: u rule: name_less.induct)
  case (1 t)
  then show ?case by (cases t; cases u) auto
next
  case (3 c s d t)
  then show ?case by (cases u) auto
qed simp

lemma name_less_irrefl: "\<not> name_less s s"
  by (induction s) auto

lemma name_less_linear: "name_less s t \<or> s = t \<or> name_less t s"
  by (induction s t rule: name_less.induct) (auto simp: less_linear neq_iff)


section \<open>Properties\<close>

text \<open>C38: \<open>split\<close> and \<open>join\<close> with one delimiter undo each other: splitting what was joined gives the parts
  back if none contains the delimiter and the last is not empty; joining what was split gives the text
  back, but for one delimiter at its end, and no part contains the delimiter.\<close>

theorem split_join_roundtrip:
  "((\<forall>x \<in> set v. d \<notin> set x) \<and> (v = [] \<or> last v \<noteq> []) \<longrightarrow> split_text (join v [d]) d = v)
    \<and> join (split_text s d) [d] = (if s \<noteq> [] \<and> last s = d then butlast s else s)
    \<and> (\<forall>x \<in> set (split_text s d). d \<notin> set x)"
  using split_join[of v d] join_split[of s d] by blast

lemma split_join_roundtrip_witness:
  "split_text (join [''root'', ''b'', ''c''] ''/'') (CHR ''/'') = [''root'', ''b'', ''c'']
    \<and> join (split_text ''a/b/'' (CHR ''/'')) ''/'' = ''a/b''"
  using split_join_roundtrip[of "[''root'', ''b'', ''c'']" "CHR ''/''" "''a/b/''"] by (simp del: join.simps)

text \<open>The constructor of \<open>Color\<close> puts red and blue in each other's place: of the fields, \<open>r\<close> is the blue and
  \<open>b\<close> the red it was given.\<close>

theorem color_swaps_red_blue:
  "parts_r (color_of r g b a) = b \<and> parts_g (color_of r g b a) = g
    \<and> parts_b (color_of r g b a) = r \<and> parts_a (color_of r g b a) = a"
proof -
  note n = color_value[of r g b a]
  have "uint (parts_r (color_of r g b a)) = uint b" "uint (parts_g (color_of r g b a)) = uint g"
    "uint (parts_b (color_of r g b a)) = uint r" "uint (parts_a (color_of r g b a)) = uint a"
  proof -
    have d: "v div 65536 = v div 256 div 256" "v div 16777216 = v div 256 div 256 div 256" for v :: int
      by (simp_all add: zdiv_zmult2_eq[symmetric])
    show "uint (parts_r (color_of r g b a)) = uint b" "uint (parts_g (color_of r g b a)) = uint g"
      "uint (parts_b (color_of r g b a)) = uint r" "uint (parts_a (color_of r g b a)) = uint a"
      using byte_bound[of a] digits_256[OF byte_bound[of b]] digits_256[OF byte_bound[of g]] digits_256[OF byte_bound[of r]]
      by (simp_all add: parts_r_def parts_g_def parts_b_def parts_a_def byte_value n d del: distrib_left_numeral)
  qed
  then show ?thesis by (simp add: word_uint_eq_iff)
qed

end
