(* ===== verification/BigDigits.thy ===== *)
theory BigDigits
  imports Prelude
begin

unbundle bit_operations_syntax

text \<open>
  \<open>cpp/lib/bign/BigDigit.h\<close> (\<open>cpp/lib/BigDigit.h\<close> is the same text in another namespace) and the
  two \<open>rehash\<close> functions of \<open>numtypes.h\<close>. A \<open>BigDigit\<close> is a struct with the single field
  \<open>value\<close>, so it is modelled by that 64-bit word; a method that also writes an overflow through
  a reference parameter returns the pair of its result and that overflow.
\<close>

section \<open>Errors\<close>

datatype digit_op = ADD | SUB | MUL | DIV | MOD | SHR | SHL

datatype error =
    FlowException digit digit_op   \<comment> \<open>the library's own exception\<close>
  | AssertFailed                   \<comment> \<open>a failed \<open>assert\<close>\<close>
  | RuntimeError                   \<comment> \<open>\<open>std::runtime_error\<close>\<close>
  | BadVariantAccess               \<comment> \<open>\<open>std::get\<close> on the wrong alternative\<close>
  | Undefined                      \<comment> \<open>behaviour the C++ standard leaves undefined\<close>

definition op_name :: "digit_op \<Rightarrow> string" where
  "op_name op = (case op of ADD \<Rightarrow> ''add'' | SUB \<Rightarrow> ''sub'' | MUL \<Rightarrow> ''mul'' | DIV \<Rightarrow> ''div''
     | MOD \<Rightarrow> ''mod'' | SHR \<Rightarrow> ''shr'' | SHL \<Rightarrow> ''shl'')"

definition flow :: "digit \<Rightarrow> digit_op \<Rightarrow> error + digit" where
  "flow ov op = (if ov \<noteq> 0 then Inl (FlowException ov op) else Inr ov)"

section \<open>Arithmetic with an overflow result\<close>

definition bd_add :: "digit \<Rightarrow> digit \<Rightarrow> digit \<times> digit" where
  "bd_add v d = (let r = (ucast v :: uoverflow) + ucast d in (ucast r, ucast (drop_bit 64 r)))"

definition bd_mul :: "digit \<Rightarrow> digit \<Rightarrow> digit \<times> digit" where
  "bd_mul v d = (let r = (ucast v :: uoverflow) * ucast d in (ucast r, ucast (drop_bit 64 r)))"

definition bd_div :: "digit \<Rightarrow> digit \<Rightarrow> error + digit \<times> digit" where
  "bd_div v d = (if d = 0 then Inl Undefined else Inr (v div d, v mod d))"

definition bd_mod :: "digit \<Rightarrow> digit \<Rightarrow> error + digit \<times> digit" where
  "bd_mod v d = (if d = 0 then Inl Undefined else Inr (v mod d, v div d))"

definition bd_sub :: "digit \<Rightarrow> digit \<Rightarrow> digit \<times> digit" where
  "bd_sub v d = (v - d, if d > v then d - v else 0)"

text \<open>A shift of the 128-bit value by 128 or more is undefined.\<close>

definition bd_shl :: "digit \<Rightarrow> digit \<Rightarrow> error + digit \<times> digit" where
  "bd_shl v d = (if d \<ge> 128 then Inl Undefined
     else let r = push_bit (unat d) (ucast v :: uoverflow) in Inr (ucast r, ucast (drop_bit 64 r)))"

text \<open>
  The mask of \<open>shr\<close> is \<open>(1 << d) - 1\<close> in type \<open>int\<close>, as the literal has no suffix: from
  \<open>d = 31\<close> on it overflows or shifts by the width of \<open>int\<close> and more, which is undefined.
\<close>

definition bd_shr :: "digit \<Rightarrow> digit \<Rightarrow> error + digit \<times> digit" where
  "bd_shr v d = (if d \<ge> 31 then Inl Undefined
     else let mask = word_of_int (2 ^ unat d - 1) in Inr (drop_bit (unat d) v, v AND mask))"

section \<open>Checked operators, bits, size\<close>

definition bd_checked :: "digit_op \<Rightarrow> digit \<times> digit \<Rightarrow> error + digit" where
  "bd_checked op = (\<lambda>(v, ov). rbind (flow ov op) (\<lambda>_. Inr v))"

definition bd_plus :: "digit \<Rightarrow> digit \<Rightarrow> error + digit" where
  "bd_plus v d = bd_checked ADD (bd_add v d)"

definition bd_minus :: "digit \<Rightarrow> digit \<Rightarrow> error + digit" where
  "bd_minus v d = bd_checked SUB (bd_sub v d)"

definition bd_times :: "digit \<Rightarrow> digit \<Rightarrow> error + digit" where
  "bd_times v d = bd_checked MUL (bd_mul v d)"

definition bd_divide :: "digit \<Rightarrow> digit \<Rightarrow> error + digit" where
  "bd_divide v d = rbind (bd_div v d) (bd_checked DIV)"

definition bd_modulo :: "digit \<Rightarrow> digit \<Rightarrow> error + digit" where
  "bd_modulo v d = rbind (bd_mod v d) (\<lambda>(r, ov). Inr r)"

definition bd_shift_right :: "digit \<Rightarrow> digit \<Rightarrow> error + digit" where
  "bd_shift_right v d = rbind (bd_shr v d) (bd_checked SHR)"

definition bd_shift_left :: "digit \<Rightarrow> digit \<Rightarrow> error + digit" where
  "bd_shift_left v d = rbind (bd_shl v d) (bd_checked SHL)"

text \<open>\<open>size\<close>: the position of the highest set bit, by binary search on \<open>k = 32, 16, \<dots>, 1\<close>.\<close>

definition bd_size_step :: "nat \<Rightarrow> digit \<times> digit \<Rightarrow> digit \<times> digit" where
  "bd_size_step k = (\<lambda>(i, n).
     if n \<ge> push_bit k 1 then (i + word_of_nat k, drop_bit k n) else (i, n))"

definition bd_size :: "digit \<Rightarrow> digit" where
  "bd_size v = (if v = 0 then 0 else fst (fold bd_size_step [32, 16, 8, 4, 2, 1] (0, v)) + 1)"

definition bd_log2 :: "digit \<Rightarrow> digit" where
  "bd_log2 v = (let s = bd_size v in if s > 0 then s - 1 else 0)"

definition bd_getbit :: "digit \<Rightarrow> digit \<Rightarrow> error + bool" where
  "bd_getbit v k = (if k \<ge> 64 then Inl Undefined else Inr (v AND push_bit (unat k) 1 \<noteq> 0))"

definition bd_setbit :: "digit \<Rightarrow> digit \<Rightarrow> bool \<Rightarrow> error + digit" where
  "bd_setbit v k b = (if k \<ge> 64 then Inl Undefined
     else Inr (if b then v OR push_bit (unat k) 1 else v AND NOT (push_bit (unat k) 1)))"

text \<open>Rotations shift by \<open>n\<close> and by \<open>64 - n\<close>; both amounts must be below the width.\<close>

definition bd_rotl :: "digit \<Rightarrow> int \<Rightarrow> error + digit" where
  "bd_rotl v n = (if n \<le> 0 \<or> n \<ge> 64 then Inl Undefined
     else Inr (push_bit (nat n) v OR drop_bit (64 - nat n) v))"

definition bd_rotr :: "digit \<Rightarrow> int \<Rightarrow> error + digit" where
  "bd_rotr v n = (if n \<le> 0 \<or> n \<ge> 64 then Inl Undefined
     else Inr (drop_bit (nat n) v OR push_bit (64 - nat n) v))"

text \<open>\<open>distance\<close> narrows the difference to \<open>int\<close> and counts bits while it is positive.\<close>

fun bd_distance_loop :: "nat \<Rightarrow> int \<Rightarrow> int \<Rightarrow> int" where
  "bd_distance_loop 0 r x = r"
| "bd_distance_loop (Suc k) r x =
     (if x > 0 then bd_distance_loop k (r + x AND 1) (x div 2) else r)"

definition bd_distance :: "digit \<Rightarrow> digit \<Rightarrow> int" where
  "bd_distance v n = bd_distance_loop 31 0 (sint (ucast (v XOR n) :: 32 word))"

text \<open>\<open>factorial\<close> multiplies two \<open>digit\<close>s, which wraps: the checked operator is a member of
  \<open>BigDigit\<close> and does not apply to a \<open>digit\<close> on the left.\<close>

function bd_factorial :: "digit \<Rightarrow> digit" where
  "bd_factorial n = (if n \<le> 1 then 1 else bd_factorial (n - 1) * n)"
  by pat_completeness auto
termination
  by (relation "measure unat") (auto simp: unat_sub_if' word_le_nat_alt word_less_nat_alt)

declare bd_factorial.simps [simp del]

text \<open>The increments and decrements, which wrap, and the comparisons.\<close>

definition bd_inc :: "digit \<Rightarrow> digit" where
  "bd_inc v = v + 1"

definition bd_dec :: "digit \<Rightarrow> digit" where
  "bd_dec v = v - 1"

section \<open>Text\<close>

definition DIGITS :: string where
  "DIGITS = ''0123456789abcdefghijklmnopqrstuvwxyzABCDEFGHIJKLMNOPQRSTUVWXYZ><''"

text \<open>\<open>string::find\<close> of one character.\<close>

fun find_char :: "char \<Rightarrow> string \<Rightarrow> nat option" where
  "find_char c [] = None"
| "find_char c (x # xs) = (if x = c then Some 0 else map_option Suc (find_char c xs))"

text \<open>
  The string constructor. The callback is any function that may change a state of its own and may
  throw; its result is not used. When the multiplication or the addition throws a
  \<open>FlowException\<close>, the callback gets the value read so far, which restarts from the digit.
\<close>

type_synonym 's digit_callback = "digit \<Rightarrow> digit_op \<Rightarrow> 's \<Rightarrow> error + 's"

definition bd_parse_char ::
  "int \<Rightarrow> 's digit_callback \<Rightarrow> string \<Rightarrow> char \<Rightarrow> digit \<times> 's \<Rightarrow> error + digit \<times> 's" where
  "bd_parse_char base cb cs c = (\<lambda>(v, st).
     if c = CHR '' '' then Inr (v, st)
     else case find_char c cs of
       None \<Rightarrow> Inl AssertFailed
     | Some k \<Rightarrow>
         if \<not> (of_nat k :: digit) < word_of_int base then Inl AssertFailed
         else case rbind (bd_times v (word_of_int base)) (\<lambda>p. bd_plus p (of_nat k)) of
           Inr w \<Rightarrow> Inr (w, st)
         | Inl (FlowException ov op) \<Rightarrow> rbind (cb v op st) (\<lambda>st'. Inr (of_nat k, st'))
         | Inl e \<Rightarrow> Inl e)"

definition bd_parse ::
  "int \<Rightarrow> 's digit_callback \<Rightarrow> string \<Rightarrow> string \<Rightarrow> 's \<Rightarrow> error + digit \<times> 's" where
  "bd_parse base cb cs s st = (if base > 1 \<and> base \<le> int (length cs)
     then mfold (bd_parse_char base cb cs) s (0, st) else Inl AssertFailed)"

definition flow_callback :: "unit digit_callback" where
  "flow_callback v op st = rbind (flow v op) (\<lambda>_. Inr ())"

text \<open>\<open>format\<close> appends the digits from the last one and reverses the text at the end.\<close>

function bd_format_loop :: "digit \<Rightarrow> string \<Rightarrow> digit \<Rightarrow> string \<Rightarrow> string" where
  "bd_format_loop base cs v s = (if v = 0 \<or> base \<le> 1 then s
     else bd_format_loop base cs (v div base) (s @ [cs ! unat (v mod base)]))"
  by pat_completeness auto
termination
proof (relation "measure (\<lambda>(base, cs, v, s). unat v)"; clarsimp)
  fix base v :: digit
  assume "v \<noteq> 0" "\<not> base \<le> 1"
  then have "0 < unat v" "1 < unat base"
    by (simp_all add: unat_gt_0 word_le_nat_alt)
  then show "unat (v div base) < unat v"
    by (simp add: unat_div_distrib)
qed

declare bd_format_loop.simps [simp del]

definition bd_format :: "int \<Rightarrow> string \<Rightarrow> digit \<Rightarrow> error + string" where
  "bd_format base cs v = (if base > 1 \<and> base \<le> int (length cs)
     then Inr (if v = 0 then [cs ! 0] else rev (bd_format_loop (word_of_int base) cs v []))
     else Inl AssertFailed)"

section \<open>Rehashing\<close>

text \<open>Part \<open>k\<close> of a word: the fields \<open>a\<close>, \<open>b\<close>, \<open>c\<close>, \<open>d\<close> of the unions \<open>U32\<close> and \<open>U64\<close> on a
  little-endian machine.\<close>

definition u32_parts :: "32 word \<Rightarrow> 8 word list" where
  "u32_parts n = map (\<lambda>k. ucast (drop_bit (8 * k) n)) [0, 1, 2, 3]"

definition u32_join :: "8 word list \<Rightarrow> 32 word" where
  "u32_join ps = foldr (\<lambda>p n. ucast p OR push_bit 8 n) ps 0"

definition u64_parts :: "64 word \<Rightarrow> 16 word list" where
  "u64_parts n = map (\<lambda>k. ucast (drop_bit (16 * k) n)) [0, 1, 2, 3]"

definition u64_join :: "16 word list \<Rightarrow> 64 word" where
  "u64_join ps = foldr (\<lambda>p n. ucast p OR push_bit 16 n) ps 0"

definition mix4 :: "'w::len word list \<Rightarrow> 'w word list" where
  "mix4 s = [s!1 XOR s!2 XOR s!3, s!2 XOR s!3 XOR s!0, s!3 XOR s!0 XOR s!1, s!0 XOR s!1 XOR s!2]"

definition rehash32 :: "32 word \<Rightarrow> 32 word" where
  "rehash32 n = u32_join (mix4 (u32_parts (NOT n)))"

definition rehash64 :: "64 word \<Rightarrow> 64 word" where
  "rehash64 n = u64_join (mix4 (u64_parts (NOT n)))"

section \<open>Exact meaning of the primitives\<close>

lemma uover_split:
  fixes r :: uoverflow
  shows "unat (ucast r :: digit) + radix * unat (ucast (drop_bit 64 r) :: digit) = unat r"
proof -
  have "unat r < 2 ^ 128" using unsigned_less[of r, where 'a = nat] by simp
  then have "unat r div 2 ^ 64 < 2 ^ 64" by (auto simp: div_less_iff_less_mult)
  then show ?thesis
    by (simp add: radix_def unsigned_ucast_eq unat_drop_bit_eq take_bit_eq_mod drop_bit_nat_def)
qed

lemma unat_widen: "unat (ucast (v :: digit) :: uoverflow) = unat v"
  using unat_digit_less[of v] by (simp add: unsigned_ucast_eq take_bit_nat_eq_self radix_def)

lemma bd_add_exact [digit_specs]:
  "unat (fst (bd_add v d)) + radix * unat (snd (bd_add v d)) = unat v + unat d"
proof -
  have "unat v + unat d < 2 ^ 128"
    using unat_digit_less[of v] unat_digit_less[of d] by (simp add: radix_def)
  then have "unat (ucast v + ucast d :: uoverflow) = unat v + unat d"
    by (simp add: unat_word_ariths unsigned_ucast_eq take_bit_eq_mod radix_def)
  then show ?thesis by (simp add: bd_add_def Let_def uover_split)
qed

lemma bd_mul_exact [digit_specs]:
  "unat (fst (bd_mul v d)) + radix * unat (snd (bd_mul v d)) = unat v * unat d"
proof -
  have "unat v * unat d < 2 ^ 64 * 2 ^ 64"
    using unat_digit_less[of v] unat_digit_less[of d]
    by (intro mult_strict_mono) (auto simp: radix_def)
  moreover have "unat (ucast v :: uoverflow) = unat v" "unat (ucast d :: uoverflow) = unat d"
    by (simp_all add: unat_widen)
  ultimately have "unat (ucast v * ucast d :: uoverflow) = unat v * unat d"
    by (simp add: unat_word_ariths)
  then show ?thesis by (simp add: bd_mul_def Let_def uover_split)
qed

lemma exact_overflow_iff:
  fixes p :: "digit \<times> digit"
  assumes "unat (fst p) + radix * unat (snd p) = n"
  shows "(snd p = 0 \<longleftrightarrow> n < radix) \<and> (n < radix \<longrightarrow> unat (fst p) = n)"
proof (cases "snd p = 0")
  case True
  then show ?thesis using assms unat_digit_less[of "fst p"] by auto
next
  case False
  then have "1 \<le> unat (snd p)" by (simp add: unat_gt_0 Suc_leI)
  then have "radix * 1 \<le> radix * unat (snd p)" by (intro mult_le_mono) auto
  then have "\<not> n < radix" using assms by linarith
  then show ?thesis using False by simp
qed

lemma bd_add_overflow_le_1: "snd (bd_add v d) \<le> 1"
proof -
  have "radix * unat (snd (bd_add v d)) < radix * 2"
    using bd_add_exact[of v d] unat_digit_less[of v] unat_digit_less[of d] by linarith
  then show ?thesis by (simp add: word_le_nat_alt)
qed

lemma bd_sub_exact [digit_specs]:
  "unat (fst (bd_sub v d)) + unat d = unat v + (if v < d then radix else 0)"
  "unat (snd (bd_sub v d)) = unat d - unat v"
proof -
  show "unat (fst (bd_sub v d)) + unat d = unat v + (if v < d then radix else 0)"
    using unat_digit_less[of d]
    by (auto simp: bd_sub_def unat_sub_if' word_less_nat_alt word_le_nat_alt radix_def)
  show "unat (snd (bd_sub v d)) = unat d - unat v"
    by (auto simp: bd_sub_def unat_sub_if' word_less_nat_alt word_le_nat_alt)
qed

lemma bd_shr_exact [digit_specs]:
  assumes "d < 31"
  shows "\<exists>q r. bd_shr v d = Inr (q, r) \<and> unat q = unat v div 2 ^ unat d \<and> unat r = unat v mod 2 ^ unat d"
proof -
  have m: "(word_of_int (2 ^ unat d - 1) :: digit) = mask (unat d)"
    by (simp add: mask_eq_exp_minus_1)
  have "unat (v AND mask (unat d)) = take_bit (unat d) (unat v)"
    by (simp only: take_bit_eq_mask[symmetric] unsigned_take_bit_eq)
  then show ?thesis using assms m
    by (simp add: bd_shr_def unat_drop_bit_eq drop_bit_nat_def take_bit_nat_def not_le)
qed

lemma bd_shl_exact [digit_specs]:
  assumes "d \<le> 64"
  shows "\<exists>q r. bd_shl v d = Inr (q, r) \<and> unat q + radix * unat r = unat v * 2 ^ unat d"
proof -
  have d: "unat d \<le> 64" using assms by (simp add: word_le_nat_alt)
  have "unat v * 2 ^ unat d < 2 ^ 64 * 2 ^ 64"
  proof (rule mult_less_le_imp_less)
    show "unat v < 2 ^ 64" using unat_digit_less[of v] by (simp add: radix_def)
    show "(2::nat) ^ unat d \<le> 2 ^ 64" using d by (rule power_increasing) simp
  qed auto
  then have "unat (push_bit (unat d) (ucast v :: uoverflow)) = unat v * 2 ^ unat d"
    by (simp add: unsigned_push_bit_eq push_bit_nat_def take_bit_nat_def unat_widen)
  moreover have "\<not> 128 \<le> d" using d by (simp add: word_le_nat_alt)
  ultimately show ?thesis by (simp add: bd_shl_def Let_def uover_split)
qed

lemma bd_checked_Inr: "bd_checked op p = Inr r \<longleftrightarrow> snd p = 0 \<and> r = fst p"
  by (cases p) (auto simp: bd_checked_def flow_def)

lemma bd_plus_Inr: "bd_plus v d = Inr r \<longleftrightarrow> unat v + unat d < radix \<and> unat r = unat v + unat d"
proof -
  have "bd_plus v d = Inr r \<longleftrightarrow> snd (bd_add v d) = 0 \<and> r = fst (bd_add v d)"
    by (simp add: bd_plus_def bd_checked_Inr)
  also have "\<dots> \<longleftrightarrow> unat v + unat d < radix \<and> unat r = unat v + unat d"
    using exact_overflow_iff[OF bd_add_exact[of v d]] by (auto simp: word_unat_eq_iff)
  finally show ?thesis .
qed

lemma bd_times_Inr: "bd_times v d = Inr r \<longleftrightarrow> unat v * unat d < radix \<and> unat r = unat v * unat d"
proof -
  have "bd_times v d = Inr r \<longleftrightarrow> snd (bd_mul v d) = 0 \<and> r = fst (bd_mul v d)"
    by (simp add: bd_times_def bd_checked_Inr)
  also have "\<dots> \<longleftrightarrow> unat v * unat d < radix \<and> unat r = unat v * unat d"
    using exact_overflow_iff[OF bd_mul_exact[of v d]] by (auto simp: word_unat_eq_iff)
  finally show ?thesis .
qed

lemma bd_minus_Inr: "bd_minus v d = Inr r \<longleftrightarrow> d \<le> v \<and> r = v - d"
  by (auto simp: bd_minus_def bd_checked_Inr bd_sub_def)

lemma bd_divide_Inr: "bd_divide v d = Inr q \<longleftrightarrow> d \<noteq> 0 \<and> unat v = unat q * unat d"
proof (cases "d = 0")
  case False
  then have "0 < unat d" by (simp add: unat_gt_0)
  then show ?thesis using False
    by (auto simp: bd_divide_def bd_div_def bd_checked_Inr word_unat_eq_iff unat_div_distrib
      unat_mod_distrib dvd_eq_mod_eq_0[symmetric])
qed (simp add: bd_divide_def bd_div_def)

section \<open>Sizes, single bits, rotations, factorial\<close>

definition size_inv :: "digit \<Rightarrow> nat \<Rightarrow> digit \<times> digit \<Rightarrow> bool" where
  "size_inv v k = (\<lambda>(i, n). unat n = unat v div 2 ^ unat i \<and> 0 < unat n \<and> unat n < 2 ^ k
     \<and> unat i + k \<le> 64)"

lemma size_inv_step:
  assumes inv: "size_inv v (2 * k) p" and k: "k \<le> 32"
  shows "size_inv v k (bd_size_step k p)"
proof (cases p)
  case (Pair i n)
  have c: "unat (2 ^ k :: digit) = 2 ^ k"
  proof -
    have "(2::nat) ^ k \<le> 2 ^ 32" using k by (intro power_increasing) auto
    then have "(2::nat) ^ k < 2 ^ 64" by simp
    then have "take_bit 64 (2 ^ k) = (2::nat) ^ k" by (rule take_bit_nat_eq_self)
    then have "unat (push_bit k 1 :: digit) = 2 ^ k"
      by (simp only: unsigned_push_bit_eq push_bit_nat_def) simp
    then show ?thesis by simp
  qed
  have w: "unat (i + word_of_nat k) = unat i + k"
    using inv k by (simp add: size_inv_def Pair unat_word_ariths unat_of_nat)
  have d: "unat (drop_bit k n) = unat n div 2 ^ k"
    by (simp add: unat_drop_bit_eq drop_bit_nat_def)
  show ?thesis
  proof (cases "push_bit k 1 \<le> n")
    case True
    then have "2 ^ k \<le> unat n" by (simp add: word_le_nat_alt c)
    then have "0 < unat n div 2 ^ k" by (simp add: div_greater_zero_iff)
    moreover have "unat n div 2 ^ k < 2 ^ k"
      using inv by (simp add: size_inv_def Pair less_mult_imp_div_less power_mult_distrib[symmetric] mult_2 power_add)
    ultimately show ?thesis using True inv
      by (simp add: bd_size_step_def Pair size_inv_def w d power_add div_mult2_eq)
  next
    case False
    then have "unat n < 2 ^ k" by (simp add: word_le_nat_alt c not_le)
    then show ?thesis using False inv by (simp add: bd_size_step_def Pair size_inv_def)
  qed
qed

lemma bd_size_bounds:
  assumes "v \<noteq> 0"
  shows "1 \<le> unat (bd_size v) \<and> unat (bd_size v) \<le> 64
     \<and> 2 ^ (unat (bd_size v) - 1) \<le> unat v \<and> unat v < 2 ^ unat (bd_size v)"
proof -
  have start: "size_inv v (2 * 32) (0, v)"
    using assms unat_digit_less[of v] by (simp add: size_inv_def unat_gt_0 radix_def)
  define p where "p = fold bd_size_step [32, 16, 8, 4, 2, 1] (0, v)"
  have "size_inv v 1 p"
    unfolding p_def using start by (simp add: size_inv_step)
  moreover obtain i n where p: "p = (i, n)" by (cases p)
  ultimately have h: "unat n = unat v div 2 ^ unat i" "unat n = 1" "unat i + 1 \<le> 64"
    by (auto simp: size_inv_def)
  have "bd_size v = i + 1"
    using assms p unfolding bd_size_def p_def by simp
  then have s: "unat (bd_size v) = unat i + 1"
    using h(3) by (simp add: unat_word_ariths)
  have one: "unat v div 2 ^ unat i = 1" using h by simp
  have "2 ^ unat i \<le> unat v"
    using one by (metis div_less not_le zero_neq_one)
  moreover have "unat v < 2 ^ (unat i + 1)"
    using one div_less_iff_less_mult[of "2 ^ unat i" "unat v" 2] by (simp add: mult.commute)
  ultimately show ?thesis using s h(3) by simp
qed

lemma bd_log2_bounds:
  assumes "v \<noteq> 0"
  shows "2 ^ unat (bd_log2 v) \<le> unat v \<and> unat v < 2 ^ Suc (unat (bd_log2 v))"
proof -
  have "bd_size v \<noteq> 0" using bd_size_bounds[OF assms] by auto
  then have "0 < bd_size v" "unat (bd_size v - 1) = unat (bd_size v) - 1"
    by (auto simp: word_gt_0 unat_minus_one)
  then show ?thesis using bd_size_bounds[OF assms] by (simp add: bd_log2_def Let_def)
qed

lemma bd_getbit_eq: "k < 64 \<Longrightarrow> bd_getbit v k = Inr (bit v (unat k))"
  by (auto simp: bd_getbit_def and_exp_eq_0_iff_not_bit push_bit_of_1 not_le)

lemma bd_setbit_bits:
  assumes "k < 64"
  shows "\<exists>w. bd_setbit v k b = Inr w \<and> (\<forall>j. bit w j = (if j = unat k then b else bit v j))"
proof -
  have k: "unat k < 64" "\<not> 64 \<le> k" using assms by (simp_all add: word_less_nat_alt not_le)
  have "bit (if b then v OR push_bit (unat k) 1 else v AND NOT (push_bit (unat k) 1)) j
      = (if j = unat k then b else bit v j)" for j
    using k by (auto simp: bit_simps dest: bit_imp_le_length)
  then show ?thesis using k by (simp add: bd_setbit_def)
qed

lemma bd_rotl_rotr:
  assumes "bd_rotl v n = Inr w" shows "bd_rotr w n = Inr v"
proof -
  have n: "0 < n" "n < 64" using assms by (auto simp: bd_rotl_def split: if_splits)
  have w: "w = push_bit (nat n) v OR drop_bit (64 - nat n) v"
    using assms n by (auto simp: bd_rotl_def)
  define m where "m = nat n"
  have m: "0 < m" "m < 64" using n by (auto simp: m_def)
  have "drop_bit m w OR push_bit (64 - m) w = v"
  proof (rule bit_word_eqI)
    fix j assume "j < LENGTH(64)"
    then show "bit (drop_bit m w OR push_bit (64 - m) w) j = bit v j"
      using m by (cases "m + j < 64") (auto simp: w m_def[symmetric] bit_simps not_less dest: bit_imp_le_length)
  qed
  then show ?thesis using n by (simp add: bd_rotr_def m_def)
qed

lemma bd_factorial_fact: "unat (bd_factorial n) = fact (unat n) mod radix"
proof (induction n rule: bd_factorial.induct)
  case (1 n)
  show ?case
  proof (cases "n \<le> 1")
    case True
    then have "unat n = 0 \<or> unat n = 1" by (auto simp: word_le_nat_alt)
    then show ?thesis using True radix_gt_1
      by (auto simp: bd_factorial.simps[of n] mod_less simp del: radix_gt_1)
  next
    case False
    then have "1 < unat n" by (simp add: word_le_nat_alt)
    then have m: "unat (n - 1) = unat n - 1" by (intro unat_minus_one) auto
    have f: "fact (unat n) = unat n * (fact (unat n - 1) :: nat)"
      using \<open>1 < unat n\<close> by (subst fact_reduce) auto
    have "unat (bd_factorial n) = unat n * (fact (unat n - 1) mod radix) mod radix"
      using False 1 m by (simp add: bd_factorial.simps[of n] unat_word_ariths radix_def mult.commute)
    then show ?thesis by (simp add: f mod_mult_right_eq)
  qed
qed

section \<open>Parsing and formatting\<close>

text \<open>The digits of a text, spaces skipped, and the number they spell.\<close>

fun horner :: "nat \<Rightarrow> string \<Rightarrow> string \<Rightarrow> nat \<Rightarrow> nat" where
  "horner b cs [] n = n"
| "horner b cs (c # s) n = (if c = CHR '' '' then horner b cs s n
     else horner b cs s (n * b + the (find_char c cs)))"

lemma find_char_Some: "find_char c cs = Some k \<Longrightarrow> k < length cs \<and> cs ! k = c"
  by (induction cs arbitrary: k) (auto split: if_splits)

lemma find_char_nth:
  "k < n \<Longrightarrow> n \<le> length cs \<Longrightarrow> distinct (take n cs) \<Longrightarrow> find_char (cs ! k) cs = Some k"
proof (induction cs arbitrary: k n)
  case (Cons x xs)
  show ?case
  proof (cases k)
    case (Suc j)
    with Cons.prems obtain m where n: "n = Suc m" by (cases n) auto
    have "xs ! j \<in> set (take m xs)"
      using Cons.prems Suc n by (auto simp: in_set_conv_nth)
    then have "x \<noteq> xs ! j" using Cons.prems n by auto
    then show ?thesis using Cons.IH[of j m] Cons.prems Suc n by auto
  qed simp
qed simp

lemma word_base: "0 < base \<Longrightarrow> base < 2 ^ 31 \<Longrightarrow> unat (word_of_int base :: digit) = nat base"
  by (simp add: unat_eq_nat_uint uint_word_of_int)

lemma bd_parse_char_digit:
  assumes "c \<noteq> CHR '' ''" "find_char c cs = Some k" "int k < base" "base < 2 ^ 31"
    and "unat v * nat base + k < radix"
  shows "\<exists>w. bd_parse_char base cb cs c (v, st) = Inr (w, st) \<and> unat w = unat v * nat base + k"
proof -
  have kn: "k < 2 ^ 31" using assms by simp
  then have k: "unat (of_nat k :: digit) = k" by (simp add: unat_of_nat)
  have b: "unat (word_of_int base :: digit) = nat base" using assms by (intro word_base) auto
  define p where "p = (of_nat (unat v * nat base) :: digit)"
  have p: "unat p = unat v * nat base"
    using assms(5) by (simp only: p_def unat_of_nat) (simp add: radix_def)
  have t: "bd_times v (word_of_int base) = Inr p"
    using assms(5) by (simp add: bd_times_Inr p b)
  define w where "w = (of_nat (unat v * nat base + k) :: digit)"
  have w: "unat w = unat v * nat base + k"
    using assms(5) by (simp only: w_def unat_of_nat) (simp add: radix_def)
  have a: "bd_plus p (of_nat k) = Inr w"
    using assms(5) by (simp add: bd_plus_Inr p w k)
  have "(of_nat k :: digit) < word_of_int base"
    using assms(3) by (simp add: word_less_nat_alt k b)
  then show ?thesis using assms(1,2) t a w by (simp add: bd_parse_char_def)
qed

lemma bd_parse_char_flow:
  assumes "bd_parse_char base flow_callback cs c (v, ()) = Inr (w, u)" "c \<noteq> CHR '' ''" "0 < base" "base < 2 ^ 31"
    and "length cs < 2 ^ 31"
  shows "unat w = unat v * nat base + the (find_char c cs)"
proof -
  obtain k where f: "find_char c cs = Some k" and lt: "(of_nat k :: digit) < word_of_int base"
    using assms(1,2) by (auto simp: bd_parse_char_def split: option.splits if_splits)
  have "k < 2 ^ 31" using find_char_Some[OF f] assms(5) by simp
  then have k: "unat (of_nat k :: digit) = k" by (simp add: unat_of_nat)
  have b: "unat (word_of_int base :: digit) = nat base" using assms by (intro word_base) auto
  show ?thesis
  proof (cases "v = 0")
    case True
    have "unat v * nat base + k < radix" using True \<open>k < 2 ^ 31\<close> by (simp add: radix_def)
    moreover have "int k < base" using lt k b assms(3) by (simp add: word_less_nat_alt)
    ultimately show ?thesis
      using bd_parse_char_digit[OF assms(2) f _ assms(4), of v flow_callback "()"] assms(1) f by auto
  next
    case False
    then have "flow_callback v op () = Inl (FlowException v op)" for op
      by (simp add: flow_callback_def flow_def)
    then obtain p where "bd_times v (word_of_int base) = Inr p" "bd_plus p (of_nat k) = Inr w"
      using assms(1,2) f lt
      by (auto simp: bd_parse_char_def split: sum.splits error.splits)
    then show ?thesis by (simp add: bd_times_Inr bd_plus_Inr k b f)
  qed
qed

lemma mfold_parse_flow:
  assumes "0 < base" "base < 2 ^ 31" "length cs < 2 ^ 31"
  shows "mfold (bd_parse_char base flow_callback cs) s (v, ()) = Inr (w, u)
    \<Longrightarrow> unat w = horner (nat base) cs s (unat v)"
proof (induction s arbitrary: v)
  case (Cons c s)
  from Cons.prems obtain v' where
    step: "bd_parse_char base flow_callback cs c (v, ()) = Inr (v', ())"
    and rest: "mfold (bd_parse_char base flow_callback cs) s (v', ()) = Inr (w, u)" by auto
  show ?case
  proof (cases "c = CHR '' ''")
    case True
    then have "v' = v" using step by (simp add: bd_parse_char_def)
    then show ?thesis using Cons.IH[OF rest] True by simp
  next
    case False
    then show ?thesis using Cons.IH[OF rest] bd_parse_char_flow[OF step False assms] by simp
  qed
qed simp

lemma bd_format_loop_acc:
  "bd_format_loop base cs v t = t @ bd_format_loop base cs v []"
proof (induction "unat v" arbitrary: v t rule: less_induct)
  case less
  show ?case
  proof (cases "v = 0 \<or> base \<le> 1")
    case False
    then have "0 < unat v" "1 < unat base" by (simp_all add: unat_gt_0 word_le_nat_alt)
    then have "unat (v div base) < unat v" by (simp add: unat_div_distrib)
    note IH = less[OF this]
    have "bd_format_loop base cs v t = bd_format_loop base cs (v div base) (t @ [cs ! unat (v mod base)])"
      using False by (subst bd_format_loop.simps) simp
    also have "\<dots> = (t @ [cs ! unat (v mod base)]) @ bd_format_loop base cs (v div base) []"
      by (rule IH)
    also have "\<dots> = t @ bd_format_loop base cs (v div base) [cs ! unat (v mod base)]"
      by (simp add: IH[of "[cs ! unat (v mod base)]"])
    also have "bd_format_loop base cs (v div base) [cs ! unat (v mod base)] = bd_format_loop base cs v []"
      using False by (subst (2) bd_format_loop.simps) simp
    finally show ?thesis .
  qed (simp add: bd_format_loop.simps[of base cs v])
qed

lemma bd_parse_format_loop:
  assumes base: "1 < base" "base \<le> int (length cs)" "base < 2 ^ 31"
    and cs: "distinct (take (nat base) cs)" "CHR '' '' \<notin> set (take (nat base) cs)"
  shows "mfold (bd_parse_char base cb cs) (rev (bd_format_loop (word_of_int base) cs v [])) (0, st) = Inr (v, st)"
proof (induction "unat v" arbitrary: v rule: less_induct)
  case less
  let ?b = "word_of_int base :: digit"
  have b: "unat ?b = nat base" using base by (intro word_base) auto
  show ?case
  proof (cases "v = 0")
    case True
    then show ?thesis by (simp add: bd_format_loop.simps)
  next
    case False
    then have v: "0 < unat v" by (simp add: unat_gt_0)
    define k where "k = unat v mod nat base"
    define c where "c = cs ! k"
    have kb: "k < nat base" using base by (simp add: k_def)
    have q: "unat (v div ?b) = unat v div nat base" by (simp add: unat_div_distrib b)
    have lt: "unat (v div ?b) < unat v" using v base by (simp add: q)
    have nb: "\<not> ?b \<le> 1" using base by (simp add: word_le_nat_alt b)
    have "bd_format_loop ?b cs v [] = c # bd_format_loop ?b cs (v div ?b) []"
      using False nb bd_format_loop_acc[of ?b cs "v div ?b" "[c]"]
      by (subst bd_format_loop.simps) (simp add: c_def k_def unat_mod_distrib b)
    then have "mfold (bd_parse_char base cb cs) (rev (bd_format_loop ?b cs v [])) (0, st)
        = rbind (Inr (v div ?b, st)) (mfold (bd_parse_char base cb cs) [c])"
      by (simp add: mfold_append less[OF lt])
    also have "\<dots> = bd_parse_char base cb cs c (v div ?b, st)"
      by (cases "bd_parse_char base cb cs c (v div ?b, st)") auto
    finally have step: "mfold (bd_parse_char base cb cs) (rev (bd_format_loop ?b cs v [])) (0, st)
        = bd_parse_char base cb cs c (v div ?b, st)" .
    have "c \<in> set (take (nat base) cs)"
      using kb base by (auto simp: c_def in_set_conv_nth intro!: exI[of _ k])
    then have "c \<noteq> CHR '' ''" using cs by auto
    moreover have "find_char c cs = Some k"
      unfolding c_def using kb base cs by (intro find_char_nth[of k "nat base"]) auto
    moreover have sum: "unat (v div ?b) * nat base + k = unat v" by (simp add: q k_def)
    ultimately obtain w where "bd_parse_char base cb cs c (v div ?b, st) = Inr (w, st)" "unat w = unat v"
      using bd_parse_char_digit[of c cs k base "v div ?b" cb st] base kb
      by (auto simp: zless_nat_eq_int_zless)
    then show ?thesis using step by (simp add: word_unat_eq_iff)
  qed
qed

lemma bd_format_parse:
  assumes "bd_format base cs v = Inr s" "base < 2 ^ 31"
    and cs: "distinct (take (nat base) cs)" "CHR '' '' \<notin> set (take (nat base) cs)"
  shows "bd_parse base cb cs s st = Inr (v, st)"
proof -
  have base: "1 < base" "base \<le> int (length cs)" using assms(1) by (auto simp: bd_format_def split: if_splits)
  show ?thesis
  proof (cases "v = 0")
    case False
    then show ?thesis
      using assms base bd_parse_format_loop[OF base assms(2) cs] by (auto simp: bd_format_def bd_parse_def)
  next
    case True
    then have s: "s = [cs ! 0]" using assms(1) base by (simp add: bd_format_def)
    have "find_char (cs ! 0) cs = Some 0" using base cs by (intro find_char_nth[of 0 "nat base"]) auto
    moreover have "cs ! 0 \<in> set (take (nat base) cs)"
      using base by (auto simp: in_set_conv_nth intro!: exI[of _ 0])
    then have "cs ! 0 \<noteq> CHR '' ''" using cs by auto
    ultimately obtain w where "bd_parse_char base cb cs (cs ! 0) (0, st) = Inr (w, st)" "unat w = 0"
      using bd_parse_char_digit[of "cs ! 0" cs 0 base 0 cb st] base assms(2) by auto
    then show ?thesis using True base by (simp add: bd_parse_def s word_unat_eq_iff)
  qed
qed

section \<open>Rehashing is an involution\<close>

lemma u32_parts_join: "length ps = 4 \<Longrightarrow> u32_parts (u32_join ps) = ps"
proof -
  assume "length ps = 4"
  then obtain a b c d where ps: "ps = [a, b, c, d]"
    by (auto simp: numeral_eq_Suc length_Suc_conv)
  show ?thesis
    by (auto simp: ps u32_parts_def u32_join_def intro!: bit_word_eqI) (auto simp: bit_simps dest: bit_imp_le_length)
qed

lemma u32_join_parts: "u32_join (u32_parts n) = n"
proof (rule bit_word_eqI)
  fix j assume "j < LENGTH(32)"
  then show "bit (u32_join (u32_parts n)) j = bit n j"
    by (cases "24 \<le> j"; cases "16 \<le> j") (auto simp: u32_parts_def u32_join_def bit_simps not_le)
qed

lemma u64_parts_join: "length ps = 4 \<Longrightarrow> u64_parts (u64_join ps) = ps"
proof -
  assume "length ps = 4"
  then obtain a b c d where ps: "ps = [a, b, c, d]"
    by (auto simp: numeral_eq_Suc length_Suc_conv)
  show ?thesis
    by (auto simp: ps u64_parts_def u64_join_def intro!: bit_word_eqI) (auto simp: bit_simps dest: bit_imp_le_length)
qed

lemma u64_join_parts: "u64_join (u64_parts n) = n"
proof (rule bit_word_eqI)
  fix j assume "j < LENGTH(64)"
  then show "bit (u64_join (u64_parts n)) j = bit n j"
    by (cases "48 \<le> j"; cases "32 \<le> j") (auto simp: u64_parts_def u64_join_def bit_simps not_le)
qed

lemma u32_parts_not: "u32_parts (NOT n) = map NOT (u32_parts n)"
  by (auto simp: u32_parts_def intro!: bit_word_eqI) (auto simp: bit_simps)

lemma u64_parts_not: "u64_parts (NOT n) = map NOT (u64_parts n)"
  by (auto simp: u64_parts_def intro!: bit_word_eqI) (auto simp: bit_simps)

lemma mix4_not_involution:
  "length s = 4 \<Longrightarrow> mix4 (map NOT (mix4 (map NOT s))) = s"
proof -
  assume "length s = 4"
  then obtain a b c d where s: "s = [a, b, c, d]"
    by (auto simp: numeral_eq_Suc length_Suc_conv)
  show ?thesis
    by (auto simp: s mix4_def intro!: bit_word_eqI) (auto simp: bit_simps)
qed

lemma rehash32_twice: "rehash32 (rehash32 n) = n"
proof -
  have "length (u32_parts n) = 4" "length (mix4 (map NOT (u32_parts n))) = 4"
    by (simp_all add: u32_parts_def mix4_def)
  then show ?thesis
    by (simp add: rehash32_def u32_parts_not u32_parts_join mix4_not_involution u32_join_parts)
qed

lemma rehash64_twice: "rehash64 (rehash64 n) = n"
proof -
  have "length (u64_parts n) = 4" "length (mix4 (map NOT (u64_parts n))) = 4"
    by (simp_all add: u64_parts_def mix4_def)
  then show ?thesis
    by (simp add: rehash64_def u64_parts_not u64_parts_join mix4_not_involution u64_join_parts)
qed

section \<open>Comparison, bitwise operators and \<open>flowR\<close>\<close>

datatype comparison = Equal | NotEqual | Less | Greater | LessEq | GreaterEq

fun bd_compare :: "comparison \<Rightarrow> digit \<Rightarrow> digit \<Rightarrow> bool" where
  "bd_compare Equal v n = (v = n)"
| "bd_compare NotEqual v n = (v \<noteq> n)"
| "bd_compare Less v n = (v < n)"
| "bd_compare Greater v n = (v > n)"
| "bd_compare LessEq v n = (v \<le> n)"
| "bd_compare GreaterEq v n = (v \<ge> n)"

text \<open>The overloads for \<open>int\<close> convert it to a \<open>digit\<close>, a negative one by wrapping.\<close>

definition bd_compare_int :: "comparison \<Rightarrow> digit \<Rightarrow> int \<Rightarrow> bool" where
  "bd_compare_int c v n = bd_compare c v (word_of_int n)"

definition bd_plus_int :: "digit \<Rightarrow> int \<Rightarrow> error + digit" where
  "bd_plus_int v n = bd_plus v (word_of_int n)"

definition bd_minus_int :: "digit \<Rightarrow> int \<Rightarrow> error + digit" where
  "bd_minus_int v n = bd_minus v (word_of_int n)"

definition bd_times_int :: "digit \<Rightarrow> int \<Rightarrow> error + digit" where
  "bd_times_int v n = bd_times v (word_of_int n)"

definition bd_divide_int :: "digit \<Rightarrow> int \<Rightarrow> error + digit" where
  "bd_divide_int v n = bd_divide v (word_of_int n)"

definition bd_modulo_int :: "digit \<Rightarrow> int \<Rightarrow> error + digit" where
  "bd_modulo_int v n = bd_modulo v (word_of_int n)"

definition bd_and :: "digit \<Rightarrow> digit \<Rightarrow> digit" where "bd_and v n = v AND n"
definition bd_or :: "digit \<Rightarrow> digit \<Rightarrow> digit" where "bd_or v n = v OR n"
definition bd_xor :: "digit \<Rightarrow> digit \<Rightarrow> digit" where "bd_xor v n = v XOR n"
definition bd_not :: "digit \<Rightarrow> digit" where "bd_not v = NOT v"

text \<open>\<open>operator<<\<close> of a stream.\<close>

definition bd_print :: "digit \<Rightarrow> error + string" where
  "bd_print v = bd_format 10 DIGITS v"

text \<open>
  \<open>flowR(bits, cb)\<close> as the list of the values it calls \<open>cb\<close> with, for a callback that returns. The mask is
  the \<open>int\<close> 1 shifted, which is undefined by 32 or more and by less than 0, and then widened with its sign.
\<close>

partial_function (option) bd_flowR_loop :: "nat \<Rightarrow> digit \<Rightarrow> digit \<Rightarrow> digit list \<Rightarrow> digit list option" where
  "bd_flowR_loop bits mk v out =
     (if v = 0 then Some out else bd_flowR_loop bits mk (drop_bit bits v) (out @ [v AND mk]))"

definition bd_flowR :: "int \<Rightarrow> digit \<Rightarrow> (error + digit list) option" where
  "bd_flowR bits v = (if bits < 0 \<or> 31 < bits then Some (Inl Undefined)
     else map_option Inr (bd_flowR_loop (nat bits) (scast (push_bit (nat bits) (1 :: 32 word))) v []))"

lemma drop_bit_less:
  assumes "0 < bits" "v \<noteq> (0 :: digit)"
  shows "unat (drop_bit bits v) < unat v"
proof -
  have u: "unat (drop_bit bits v) = unat v div 2 ^ bits"
    unfolding unat_drop_bit_eq by (rule drop_bit_eq_div)
  have p: "0 < unat v" using assms(2) by (simp add: unat_gt_0)
  have "(1 :: nat) < 2 ^ bits" using assms(1) by (intro one_less_power) simp_all
  then show ?thesis unfolding u using p by (rule div_less_dividend)
qed

lemma flowR_loop_returns:
  assumes "0 < bits"
  shows "\<exists>ds. bd_flowR_loop bits mk v out = Some (out @ ds) \<and> (\<forall>d \<in> set ds. \<exists>k. d = drop_bit k v AND mk)"
proof (induction "unat v" arbitrary: v out rule: less_induct)
  case less
  show ?case
  proof (cases "v = 0")
    case True
    then show ?thesis by (subst bd_flowR_loop.simps) simp
  next
    case False
    obtain ds where ds: "bd_flowR_loop bits mk (drop_bit bits v) (out @ [v AND mk]) = Some ((out @ [v AND mk]) @ ds)"
      "\<forall>d \<in> set ds. \<exists>k. d = drop_bit k (drop_bit bits v) AND mk"
      using less[OF drop_bit_less[OF assms False]] by blast
    have "\<forall>d \<in> set ((v AND mk) # ds). \<exists>k. d = drop_bit k v AND mk"
      using ds(2) by (auto simp: drop_bit_drop_bit intro: exI[of _ 0])
    then show ?thesis using ds(1) False by (subst bd_flowR_loop.simps) auto
  qed
qed

text \<open>
  With one bit or more it ends, and each value is a single bit, 0 or \<open>2 ^ bits\<close>: the mask is the next bit, not the
  bits that are shifted out.
\<close>

lemma mask_bit:
  assumes "n \<le> 30"
  shows "scast (push_bit n (1 :: 32 word)) = (push_bit n 1 :: digit)"
proof -
  have "n \<in> set [0..<31]" using assms by simp
  moreover have "\<forall>n \<in> set [0..<31]. scast (push_bit n (1 :: 32 word)) = (push_bit n 1 :: digit)" by code_simp
  ultimately show ?thesis by blast
qed

lemma and_bit: "w AND push_bit n 1 \<in> {0, push_bit n (1 :: digit)}"
proof (cases "bit w n")
  case True
  then have "w AND push_bit n 1 = push_bit n 1"
    by (intro bit_eqI) (auto simp: bit_simps)
  then show ?thesis by simp
next
  case False
  then have "w AND push_bit n 1 = 0"
    by (intro bit_eqI) (auto simp: bit_simps)
  then show ?thesis by simp
qed

lemma flowR_returns:
  assumes "1 \<le> bits" "bits \<le> 30"
  shows "\<exists>ds. bd_flowR bits v = Some (Inr ds) \<and> set ds \<subseteq> {0, push_bit (nat bits) 1}"
proof -
  let ?mk = "push_bit (nat bits) 1 :: digit"
  obtain ds where ds: "bd_flowR_loop (nat bits) ?mk v [] = Some ds" "\<forall>d \<in> set ds. \<exists>k. d = drop_bit k v AND ?mk"
    using flowR_loop_returns[of "nat bits" ?mk v "[]"] assms(1) by auto
  have "set ds \<subseteq> {0, ?mk}" using ds(2) and_bit[of _ "nat bits"] by (metis subsetI)
  moreover have "bd_flowR bits v = Some (Inr ds)"
  proof -
    have "nat bits \<le> 30" using assms by simp
    then show ?thesis using ds(1) assms unfolding bd_flowR_def mask_bit[OF \<open>nat bits \<le> 30\<close>] by simp
  qed
  ultimately show ?thesis by blast
qed

lemma flowR_loop_zero: "bd_flowR_loop 0 mk v out = Some r \<Longrightarrow> v = 0"
proof -
  assume r: "bd_flowR_loop 0 mk v out = Some r"
  have "bits = 0 \<longrightarrow> v = 0" if "bd_flowR_loop bits mk v out = Some r" for bits mk v out r
  proof (rule bd_flowR_loop.raw_induct[of "\<lambda>bits mk v out r. bits = 0 \<longrightarrow> v = 0", OF _ that], intro impI, rule ccontr)
    fix f bits mk v out r
    assume ih: "\<And>bits mk v out r. f bits mk v out = Some r \<Longrightarrow> bits = 0 \<longrightarrow> v = 0"
      and run: "(if v = 0 then Some out else f bits mk (drop_bit bits v) (out @ [v AND mk])) = Some r"
      and b: "bits = 0" "v \<noteq> 0"
    then have "f bits mk v (out @ [v AND mk]) = Some r" by simp
    from ih[OF this] show False using b by simp
  qed
  then show "v = 0" using r by blast
qed

text \<open>With no bits it never ends.\<close>

lemma flowR_zero_diverges: "v \<noteq> 0 \<Longrightarrow> bd_flowR 0 v = None"
  using flowR_loop_zero by (cases "bd_flowR_loop 0 1 v []") (auto simp: bd_flowR_def)

section \<open>Properties\<close>

text \<open>The carry-producing primitives are exact: low word plus radix times overflow is the sum,
  the product, and for shifts by at most 64 the shifted value.\<close>

theorem digit_ops_exact:
  "unat (fst (bd_add v d)) + radix * unat (snd (bd_add v d)) = unat v + unat d
   \<and> unat (fst (bd_mul v d)) + radix * unat (snd (bd_mul v d)) = unat v * unat d
   \<and> unat (fst (bd_sub v d)) + unat d = unat v + (if v < d then radix else 0)"
  by (simp add: digit_specs)

text \<open>C39: the operators of \<open>BigDigit\<close> return a result exactly when no overflow flag is raised, and
  then the exact one; \<open>/\<close> counts a remainder as overflow and throws on an inexact division.\<close>

theorem digit_operators_checked:
  "(bd_plus v d = Inr r \<longleftrightarrow> unat v + unat d < radix \<and> unat r = unat v + unat d)
   \<and> (bd_times v d = Inr r \<longleftrightarrow> unat v * unat d < radix \<and> unat r = unat v * unat d)
   \<and> (bd_minus v d = Inr r \<longleftrightarrow> d \<le> v \<and> r = v - d)
   \<and> (bd_divide v d = Inr r \<longleftrightarrow> d \<noteq> 0 \<and> unat v = unat r * unat d)"
  by (simp add: bd_plus_Inr bd_times_Inr bd_minus_Inr bd_divide_Inr)

text \<open>The binary search of \<open>size\<close> finds the number of significant bits, and \<open>log2\<close> the floor
  of the logarithm.\<close>

theorem digit_size_msb:
  assumes "v \<noteq> 0"
  shows "2 ^ (unat (bd_size v) - 1) \<le> unat v \<and> unat v < 2 ^ unat (bd_size v)
    \<and> 2 ^ unat (bd_log2 v) \<le> unat v \<and> unat v < 2 ^ Suc (unat (bd_log2 v))"
  using bd_size_bounds[OF assms] bd_log2_bounds[OF assms] by blast

lemma digit_size_msb_witness: "2 ^ (unat (bd_size 1000) - 1) \<le> (1000::nat)"
  using digit_size_msb[of 1000] by simp

text \<open>C40: the text \<open>format\<close> prints in a base is read back as the same digit by the string
  constructor with that base, whatever callback it is given.\<close>

theorem digit_format_parse:
  assumes "bd_format base cs v = Inr s" "base < 2 ^ 31"
    and "distinct (take (nat base) cs)" "CHR '' '' \<notin> set (take (nat base) cs)"
  shows "bd_parse base cb cs s st = Inr (v, st)"
  by (rule bd_format_parse[OF assms])

lemma digit_format_parse_witness:
  "bd_format 16 DIGITS 48879 = Inr ''beef'' \<and> bd_parse 16 flow_callback DIGITS ''beef'' () = Inr (48879, ())"
proof -
  have f: "bd_format 16 DIGITS 48879 = Inr ''beef''" by code_simp
  moreover have "bd_parse 16 flow_callback DIGITS ''beef'' () = Inr (48879, ())"
    by (rule digit_format_parse[OF f]) (simp_all add: DIGITS_def)
  ultimately show ?thesis by blast
qed

text \<open>Whenever the string constructor with the throwing callback returns, the digit is the
  number the text spells, with no wrap-around.\<close>

theorem digit_parse_value:
  assumes "bd_parse base flow_callback cs s () = Inr (v, u)" "base < 2 ^ 31" "length cs < 2 ^ 31"
  shows "unat v = horner (nat base) cs s 0"
proof -
  have b: "1 < base" using assms(1) by (auto simp: bd_parse_def split: if_splits)
  then have "mfold (bd_parse_char base flow_callback cs) s (0, ()) = Inr (v, u)"
    using assms(1) by (auto simp: bd_parse_def split: if_splits)
  from mfold_parse_flow[OF _ assms(2,3) this] b show ?thesis by simp
qed

lemma digit_parse_value_witness: "unat (12345 :: digit) = horner 10 DIGITS ''12 345'' 0"
proof -
  have "bd_parse 10 flow_callback DIGITS ''12 345'' () = Inr (12345, ())" by code_simp
  from digit_parse_value[OF this] show ?thesis by (simp add: DIGITS_def)
qed

text \<open>Both \<open>rehash\<close> functions are their own inverse, so no two words collide.\<close>

theorem rehash_involution: "rehash32 (rehash32 m) = m \<and> rehash64 (rehash64 n) = n"
  by (simp add: rehash32_twice rehash64_twice)

text \<open>\<open>factorial\<close> never reports an overflow: it is the factorial modulo the radix.\<close>

theorem digit_factorial_wraps: "unat (bd_factorial n) = fact (unat n) mod radix"
  by (rule bd_factorial_fact)

end
