(* ===== verification/Naive.thy ===== *)
theory Naive
  imports BigDigits
begin

unbundle bit_operations_syntax

text \<open>
  \<open>cpp/lib/bign/BigNumberNaive.cpp\<close>: the default arithmetic on little-endian digit vectors. Every
  method that changes its argument \<open>a\<close> in place returns the new vector; a loop over indices is a
  \<open>fold\<close> (or \<open>mfold\<close> when its body may throw) over the list of the indices, in the order of the code. Indices
  and sizes are \<open>int\<close> in the code; vectors are taken to be shorter than \<open>2 ^ 31\<close> digits. The two
  arguments of a call are different vectors. When a call throws, the partly changed vector
  is not modelled.
\<close>

section \<open>Definitions\<close>

fun drop_zeros :: "digit list \<Rightarrow> digit list" where
  "drop_zeros (x # y # xs) = (if x = 0 then drop_zeros (y # xs) else x # y # xs)"
| "drop_zeros xs = xs"

text \<open>\<open>normalize\<close> pops zero digits off the back while more than one digit is left.\<close>

definition normalize :: "digit list \<Rightarrow> digit list" where
  "normalize a = rev (drop_zeros (rev a))"

function addDigit :: "digit list \<Rightarrow> digit \<Rightarrow> nat \<Rightarrow> digit list" where
  "addDigit a d i = (if i \<ge> length a then a @ [d]
     else let (s, ov) = bd_add (a ! i) d; a' = a[i := s]
          in if ov \<noteq> 0 then addDigit a' ov (i + 1) else a')"
  by pat_completeness auto
termination by (relation "measure (\<lambda>(a, d, i). length a - i)") auto

declare addDigit.simps [simp del]

definition naive_add :: "digit list \<Rightarrow> digit list \<Rightarrow> digit list" where
  "naive_add a b = normalize (fold (\<lambda>i a. addDigit a (b ! i) i) [0..<length b] a)"

function subtractDigit :: "digit list \<Rightarrow> digit \<Rightarrow> nat \<Rightarrow> error + digit list" where
  "subtractDigit a d i = (if i \<ge> length a then Inl (FlowException 1 SUB)
     else let (s, borrow) = bd_sub (a ! i) d; a' = a[i := s]
          in if borrow \<noteq> 0
             then if i + 1 \<ge> length a then Inl (FlowException borrow SUB)
                  else subtractDigit a' borrow (i + 1)
             else Inr a')"
  by pat_completeness auto
termination by (relation "measure (\<lambda>(a, d, i). length a - i)") auto

declare subtractDigit.simps [simp del]

definition sub_step :: "digit list \<Rightarrow> nat \<Rightarrow> digit list \<Rightarrow> error + digit list" where
  "sub_step b i a = (if i \<ge> length a then Inl (FlowException 1 SUB)
     else let (s, borrow) = bd_sub (a ! i) (b ! i); a' = a[i := s]
          in if borrow \<noteq> 0
             then if i + 1 \<ge> length a then Inl (FlowException borrow SUB)
                  else subtractDigit a' borrow (i + 1)
             else Inr a')"

definition naive_subtract :: "digit list \<Rightarrow> digit list \<Rightarrow> error + digit list" where
  "naive_subtract a b = rbind (mfold (sub_step b) [0..<length b] a) (\<lambda>r. Inr (normalize r))"

text \<open>The inner loop of \<open>multiply\<close> at \<open>(bi, ai)\<close>, then the outer loop at \<open>bi\<close>.\<close>

definition mul_inner :: "digit list \<Rightarrow> digit list \<Rightarrow> nat \<Rightarrow> nat \<Rightarrow> digit list \<times> digit \<Rightarrow> digit list \<times> digit" where
  "mul_inner a b bi ai = (\<lambda>(product, carry).
     let (prod, prod_ov) = bd_mul (a ! ai) (b ! bi);
         total = (ucast prod :: uoverflow) + ucast carry;
         total_digit = (ucast total :: digit);
         total_ov = (ucast (drop_bit 64 total) :: digit);
         (sum, sum_ov) = bd_add (product ! (ai + bi)) total_digit
     in (product[ai + bi := sum], prod_ov + total_ov + sum_ov))"

definition mul_outer :: "digit list \<Rightarrow> digit list \<Rightarrow> nat \<Rightarrow> digit list \<Rightarrow> digit list" where
  "mul_outer a b bi product =
     (let (product, carry) = fold (mul_inner a b bi) [0..<length a] (product, 0)
      in if carry \<noteq> 0
         then let final_idx = bi + length a
              in if final_idx \<ge> length product then product @ [carry]
                 else addDigit product carry final_idx
         else product)"

definition naive_multiply :: "digit list \<Rightarrow> digit list \<Rightarrow> digit list" where
  "naive_multiply a b = (if a = [] \<or> b = [] then [0]
     else normalize (fold (mul_outer a b) [0..<length b] (replicate (length a + length b) 0)))"

fun compare_from :: "digit list \<Rightarrow> digit list \<Rightarrow> nat \<Rightarrow> int" where
  "compare_from a b 0 = 0"
| "compare_from a b (Suc i) =
     (if a ! i \<noteq> b ! i then if a ! i < b ! i then -1 else 1 else compare_from a b i)"

definition naive_compare :: "digit list \<Rightarrow> digit list \<Rightarrow> int" where
  "naive_compare a b = (if length a \<noteq> length b then if length a < length b then -1 else 1
     else compare_from a b (length a))"

section \<open>Normal forms\<close>

definition normal :: "digit list \<Rightarrow> bool" where
  "normal a \<longleftrightarrow> a \<noteq> [] \<and> (last a = 0 \<longrightarrow> length a = 1)"

lemma drop_zeros_split: "\<exists>n. xs = replicate n 0 @ drop_zeros xs"
proof (induction xs rule: drop_zeros.induct)
  case (1 x y xs)
  show ?case
  proof (cases "x = 0")
    case True
    then obtain n where n: "y # xs = replicate n 0 @ drop_zeros (y # xs)" using 1 by blast
    have "x # y # xs = replicate (Suc n) 0 @ drop_zeros (x # y # xs)"
      using True by (simp flip: n)
    then show ?thesis by blast
  qed (simp add: exI[of _ 0])
qed (auto intro: exI[of _ 0])

lemma normalize_split: "\<exists>n. a = normalize a @ replicate n 0"
proof -
  obtain n where "rev a = replicate n 0 @ drop_zeros (rev a)" using drop_zeros_split by blast
  then have "a = rev (replicate n 0 @ drop_zeros (rev a))" by (metis rev_rev_ident)
  then show ?thesis by (auto simp: normalize_def intro: exI[of _ n])
qed

lemma lval_normalize [simp, value_simps]: "lval (normalize a) = lval a"
  using normalize_split[of a] by (metis lval_append_zeros)

lemma drop_zeros_eq_Nil [simp]: "drop_zeros xs = [] \<longleftrightarrow> xs = []"
  by (induction xs rule: drop_zeros.induct) auto

lemma hd_drop_zeros: "hd (drop_zeros xs) = 0 \<Longrightarrow> xs \<noteq> [] \<Longrightarrow> length (drop_zeros xs) = 1"
  by (induction xs rule: drop_zeros.induct) (auto split: if_splits)

lemma normal_normalize [simp]: "a \<noteq> [] \<Longrightarrow> normal (normalize a)"
  using hd_drop_zeros[of "rev a"] by (auto simp: normal_def normalize_def last_rev)

lemma normalize_Nil [simp]: "normalize [] = []" and normalize_single [simp]: "normalize [x] = [x]"
  by (simp_all add: normalize_def)

lemma normalize_eq_Nil [simp]: "normalize a = [] \<longleftrightarrow> a = []"
  by (simp add: normalize_def)

lemma length_normalize [length_simps]: "length (normalize a) \<le> length a"
  using normalize_split[of a] by (metis le_add1 length_append)

lemma normalize_normal [simp]: "normal a \<Longrightarrow> normalize a = a"
proof -
  assume n: "normal a"
  obtain m where m: "a = normalize a @ replicate m 0" using normalize_split by blast
  show ?thesis
  proof (cases m)
    case (Suc j)
    then have "last a = 0" using m by (metis last_appendR last_replicate replicate_empty nat.distinct(1))
    then have "length a = 1" using n by (simp add: normal_def)
    then show ?thesis by (auto simp: length_Suc_conv)
  qed (use m in simp)
qed

lemma normal_lower: "normal a \<Longrightarrow> a \<noteq> [0] \<Longrightarrow> radix ^ (length a - 1) \<le> lval a"
proof -
  assume n: "normal a" "a \<noteq> [0]"
  have l: "last a \<noteq> 0"
  proof
    assume "last a = 0"
    then have "length a = 1" using n by (simp add: normal_def)
    then obtain x where "a = [x]" by (auto simp: length_Suc_conv)
    then show False using n \<open>last a = 0\<close> by simp
  qed
  have "lval a = lval (butlast a @ [last a])" using n by (simp add: normal_def)
  then have "lval a = lval (butlast a) + radix ^ (length a - 1) * unat (last a)"
    by (simp only: lval_snoc length_butlast)
  moreover have "1 \<le> unat (last a)" using l by (simp add: unat_gt_0 Suc_leI)
  moreover have "radix ^ (length a - 1) * 1 \<le> radix ^ (length a - 1) * unat (last a)"
    using calculation(2) by (rule mult_le_mono2)
  ultimately show ?thesis by linarith
qed

lemma normal_length_less: "normal a \<Longrightarrow> normal b \<Longrightarrow> length a < length b \<Longrightarrow> lval a < lval b"
proof -
  assume n: "normal a" "normal b" "length a < length b"
  then have "b \<noteq> [0]" by (auto simp: normal_def)
  then have "radix ^ (length b - 1) \<le> lval b" using n normal_lower by blast
  moreover have "radix ^ length a \<le> radix ^ (length b - 1)" using n(3) radix_pos by (intro power_increasing) (auto simp: Suc_le_eq simp del: radix_pos)
  ultimately show ?thesis using lval_less[of a] by linarith
qed

lemma lval_inj: "length a = length b \<Longrightarrow> lval a = lval b \<Longrightarrow> a = b"
proof (induction a b rule: list_induct2)
  case (Cons x xs y ys)
  have "unat x = unat y"
    using Cons.prems by (metis lval.simps(2) mod_less mod_mult_self2 unat_digit_less)
  then show ?case using Cons by (simp add: word_unat_eq_iff)
qed simp

lemma normal_lval_inj: "normal a \<Longrightarrow> normal b \<Longrightarrow> lval a = lval b \<Longrightarrow> a = b"
  by (metis lval_inj less_irrefl normal_length_less linorder_neqE_nat)

lemma normal_zero: "normal a \<Longrightarrow> lval a = 0 \<longleftrightarrow> a = [0]"
  using normal_lval_inj[of a "[0]"] by (auto simp: normal_def)

section \<open>Addition\<close>

lemma lval_addDigit [value_simps]:
  "i \<le> length a \<Longrightarrow> lval (addDigit a d i) = lval a + unat d * radix ^ i"
proof (induction a d i rule: addDigit.induct)
  case (1 a d i)
  show ?case
  proof (cases "i \<ge> length a")
    case True
    then show ?thesis using 1 by (simp add: addDigit.simps[of a d i] lval_snoc)
  next
    case False
    obtain s ov where so: "bd_add (a ! i) d = (s, ov)" by fastforce
    then have ex: "unat s + radix * unat ov = unat (a ! i) + unat d" using bd_add_exact[of "a ! i" d] by simp
    have up: "lval (a[i := s]) + unat (a ! i) * radix ^ i = lval a + unat s * radix ^ i"
      using False by (simp add: lval_update)
    have key: "(unat s + radix * unat ov) * radix ^ i = (unat (a ! i) + unat d) * radix ^ i"
      using ex by simp
    show ?thesis
    proof (cases "ov = 0")
      case True
      then show ?thesis using False so up key by (simp add: addDigit.simps[of a d i] algebra_simps)
    next
      case nz: False
      have "lval (addDigit (a[i := s]) ov (i + 1)) = lval (a[i := s]) + unat ov * radix ^ (i + 1)"
        using 1 False so nz by simp
      then show ?thesis using False so nz up key by (simp add: addDigit.simps[of a d i] algebra_simps)
    qed
  qed
qed

lemma length_addDigit [length_simps]:
  "i \<le> length a \<Longrightarrow> i < length (addDigit a d i) \<and> length a \<le> length (addDigit a d i)
    \<and> length (addDigit a d i) \<le> Suc (length a)"
proof (induction a d i rule: addDigit.induct)
  case (1 a d i)
  then show ?case
    by (subst (1 2 3) addDigit.simps) (fastforce simp: Let_def split: prod.splits)
qed

lemma add_loop:
  assumes "n \<le> length b" "a \<noteq> []"
  shows "lval (fold (\<lambda>i a. addDigit a (b ! i) i) [0..<n] a) = lval a + lval (take n b)
    \<and> n \<le> length (fold (\<lambda>i a. addDigit a (b ! i) i) [0..<n] a)
    \<and> length a \<le> length (fold (\<lambda>i a. addDigit a (b ! i) i) [0..<n] a)"
  using assms(1)
proof (induction n)
  case (Suc n)
  then show ?case
    using length_addDigit[of n "fold (\<lambda>i a. addDigit a (b ! i) i) [0..<n] a" "b ! n"]
    by (auto simp: lval_addDigit lval_take_Suc)
qed simp

lemma lval_naive_add [simp, value_simps]: "lval (naive_add a b) = lval a + lval b"
proof (cases "a = []")
  case False
  then show ?thesis using add_loop[of "length b" b a] by (simp add: naive_add_def)
next
  case True
  have "lval (fold (\<lambda>i a. addDigit a (b ! i) i) [0..<n] []) = lval (take n b)
    \<and> n \<le> length (fold (\<lambda>i a. addDigit a (b ! i) i) [0..<n] [])" if "n \<le> length b" for n
    using that
  proof (induction n)
    case (Suc n)
    then show ?case
      using length_addDigit[of n "fold (\<lambda>i a. addDigit a (b ! i) i) [0..<n] []" "b ! n"]
      by (auto simp: lval_addDigit lval_take_Suc)
  qed simp
  then show ?thesis using True by (simp add: naive_add_def)
qed

lemma normal_naive_add [simp]: "a \<noteq> [] \<Longrightarrow> normal (naive_add a b)"
proof -
  assume "a \<noteq> []"
  then have "fold (\<lambda>i a. addDigit a (b ! i) i) [0..<length b] a \<noteq> []"
    using add_loop[of "length b" b a] by auto
  then show ?thesis by (simp add: naive_add_def)
qed

section \<open>Multiplication\<close>

lemma unat_add3_digit:
  "unat x + unat y + unat z < radix \<Longrightarrow> unat (x + y + z :: digit) = unat x + unat y + unat z"
  by (simp add: unat_word_ariths radix_def)

lemma total_exact:
  fixes p c :: digit
  defines "tot \<equiv> (ucast p :: uoverflow) + ucast c"
  shows "unat (ucast tot :: digit) + radix * unat (ucast (drop_bit 64 tot) :: digit) = unat p + unat c"
  using bd_add_exact[of p c] by (simp add: bd_add_def tot_def Let_def)

lemma mul_digit_bound: "unat (x :: digit) * unat (y :: digit) + 2 * (radix - 1) < radix * radix"
proof -
  have "unat x * unat y \<le> (radix - 1) * (radix - 1)"
    by (intro mult_le_mono unat_digit_le)
  moreover have "(radix - 1) * (radix - 1) + 2 * (radix - 1) < radix * radix"
    by (simp add: radix_def)
  ultimately show ?thesis by linarith
qed

lemma mul_inner_step:
  assumes "mul_inner a b bi ai (P, c) = (P', c')" "ai + bi < length P"
  shows "length P' = length P \<and>
    lval P' + unat c' * radix ^ (bi + Suc ai) = lval P + (unat (a ! ai) * unat (b ! bi) + unat c) * radix ^ (bi + ai)"
proof -
  obtain prod prod_ov where p: "bd_mul (a ! ai) (b ! bi) = (prod, prod_ov)" by fastforce
  define tot where "tot = (ucast prod :: uoverflow) + ucast c"
  define td where "td = (ucast tot :: digit)"
  define tov where "tov = (ucast (drop_bit 64 tot) :: digit)"
  obtain sum sov where sm: "bd_add (P ! (ai + bi)) td = (sum, sov)" by fastforce
  have P': "P' = P[ai + bi := sum]" and c': "c' = prod_ov + tov + sov"
    using assms(1) p sm by (simp_all add: mul_inner_def Let_def tot_def td_def tov_def)
  have e1: "unat prod + radix * unat prod_ov = unat (a ! ai) * unat (b ! bi)"
    using bd_mul_exact[of "a ! ai" "b ! bi"] p by simp
  have e2: "unat td + radix * unat tov = unat prod + unat c"
    using total_exact[of prod c] by (simp add: td_def tov_def tot_def)
  have e3: "unat sum + radix * unat sov = unat (P ! (ai + bi)) + unat td"
    using bd_add_exact[of "P ! (ai + bi)" td] sm by simp
  have all: "unat sum + radix * (unat prod_ov + unat tov + unat sov)
      = unat (a ! ai) * unat (b ! bi) + unat c + unat (P ! (ai + bi))"
    using e1 e2 e3 by (simp add: algebra_simps)
  have "radix * (unat prod_ov + unat tov + unat sov) < radix * radix"
    using all mul_digit_bound[of "a ! ai" "b ! bi"] unat_digit_le[of c] unat_digit_le[of "P ! (ai + bi)"]
    by linarith
  then have cv: "unat c' = unat prod_ov + unat tov + unat sov"
    unfolding c' by (intro unat_add3_digit) simp
  have up: "lval P' + unat (P ! (ai + bi)) * radix ^ (ai + bi) = lval P + unat sum * radix ^ (ai + bi)"
    unfolding P' using assms(2) by (rule lval_update)
  have key: "(unat sum + radix * unat c') * radix ^ (ai + bi)
      = (unat (a ! ai) * unat (b ! bi) + unat c + unat (P ! (ai + bi))) * radix ^ (ai + bi)"
    using all cv by simp
  have "lval P' + unat c' * radix ^ (bi + Suc ai) = lval P + (unat (a ! ai) * unat (b ! bi) + unat c) * radix ^ (bi + ai)"
    using up key by (simp add: algebra_simps)
  then show ?thesis by (simp add: P')
qed

lemma mul_inner_loop:
  assumes "n \<le> length a" "bi + length a \<le> length P"
  shows "length (fst (fold (mul_inner a b bi) [0..<n] (P, 0))) = length P \<and>
    lval (fst (fold (mul_inner a b bi) [0..<n] (P, 0)))
      + unat (snd (fold (mul_inner a b bi) [0..<n] (P, 0))) * radix ^ (bi + n)
    = lval P + lval (take n a) * unat (b ! bi) * radix ^ bi"
  using assms(1)
proof (induction n)
  case (Suc n)
  obtain Q c where Q: "fold (mul_inner a b bi) [0..<n] (P, 0) = (Q, c)" by fastforce
  obtain Q' c' where Q': "mul_inner a b bi n (Q, c) = (Q', c')" by fastforce
  have IH: "length Q = length P" "lval Q + unat c * radix ^ (bi + n)
    = lval P + lval (take n a) * unat (b ! bi) * radix ^ bi"
    using Suc Q by simp_all
  have "n + bi < length Q" using Suc.prems assms(2) IH(1) by simp
  from mul_inner_step[OF Q' this] IH Suc.prems show ?case
    by (simp add: Q Q' lval_take_Suc algebra_simps power_add)
qed simp

lemma mul_outer_step:
  assumes "bi < length b" "length a + length b \<le> length P"
  shows "length P \<le> length (mul_outer a b bi P) \<and>
    lval (mul_outer a b bi P) = lval P + lval a * unat (b ! bi) * radix ^ bi"
proof -
  obtain Q c where Q: "fold (mul_inner a b bi) [0..<length a] (P, 0) = (Q, c)" by fastforce
  have h: "length Q = length P"
    "lval Q + unat c * radix ^ (bi + length a) = lval P + lval a * unat (b ! bi) * radix ^ bi"
    using mul_inner_loop[of "length a" a bi P b] assms Q by simp_all
  have idx: "bi + length a < length Q" using assms h by simp
  show ?thesis
  proof (cases "c = 0")
    case True
    then show ?thesis using Q h by (simp add: mul_outer_def)
  next
    case False
    then have "mul_outer a b bi P = addDigit Q c (bi + length a)"
      using Q idx by (simp add: mul_outer_def Let_def)
    then show ?thesis
      using h lval_addDigit[of "bi + length a" Q c] length_addDigit[of "bi + length a" Q c] idx by simp
  qed
qed

lemma lval_naive_multiply [simp, value_simps]: "lval (naive_multiply a b) = lval a * lval b"
proof (cases "a = [] \<or> b = []")
  case False
  let ?P = "replicate (length a + length b) 0"
  have "length ?P \<le> length (fold (mul_outer a b) [0..<n] ?P)
    \<and> lval (fold (mul_outer a b) [0..<n] ?P) = lval a * lval (take n b)" if "n \<le> length b" for n
    using that
  proof (induction n)
    case (Suc n)
    then show ?case
      using mul_outer_step[of n b a "fold (mul_outer a b) [0..<n] ?P"]
      by (auto simp: lval_take_Suc algebra_simps)
  qed simp
  from this[of "length b"] show ?thesis using False by (simp add: naive_multiply_def)
qed (auto simp: naive_multiply_def)

lemma normal_naive_multiply [simp]: "normal (naive_multiply a b)"
proof (cases "a = [] \<or> b = []")
  case False
  let ?P = "replicate (length a + length b) 0"
  have "length ?P \<le> length (fold (mul_outer a b) [0..<n] ?P)" if "n \<le> length b" for n
    using that
  proof (induction n)
    case (Suc n)
    then show ?case using mul_outer_step[of n b a "fold (mul_outer a b) [0..<n] ?P"] by auto
  qed simp
  from this[of "length b"] have "fold (mul_outer a b) [0..<length b] ?P \<noteq> []" using False by auto
  then show ?thesis using False by (simp add: naive_multiply_def)
qed (simp add: naive_multiply_def normal_def)

section \<open>Comparison\<close>

lemma compare_from_value:
  "i \<le> length a \<Longrightarrow> i \<le> length b \<Longrightarrow>
    compare_from a b i = (if lval (take i a) < lval (take i b) then -1
      else if lval (take i b) < lval (take i a) then 1 else 0)"
proof (induction i)
  case (Suc i)
  have la: "lval (take i a) < radix ^ i" and lb: "lval (take i b) < radix ^ i"
    using lval_less[of "take i a"] lval_less[of "take i b"] Suc.prems by simp_all
  have step: "lval (take (Suc i) x) = lval (take i x) + unat (x ! i) * radix ^ i" if "Suc i \<le> length x" for x
    using that by (simp add: lval_take_Suc)
  show ?case
  proof (cases "a ! i = b ! i")
    case True
    then show ?thesis using Suc step by simp
  next
    case False
    have less: "lval (take (Suc i) x) < lval (take (Suc i) y)"
      if "unat (x ! i) < unat (y ! i)" "lval (take i x) < radix ^ i" "Suc i \<le> length x" "Suc i \<le> length y" for x y
    proof -
      have "Suc (unat (x ! i)) * radix ^ i \<le> unat (y ! i) * radix ^ i" using that(1) by (intro mult_le_mono1) simp
      then have "lval (take i x) + unat (x ! i) * radix ^ i < unat (y ! i) * radix ^ i" using that(2) by simp
      then show ?thesis using step that(3,4) by simp
    qed
    from False consider "unat (a ! i) < unat (b ! i)" | "unat (b ! i) < unat (a ! i)"
      by (metis linorder_neqE_nat word_unat_eq_iff)
    then show ?thesis
    proof cases
      case 1
      then show ?thesis using less[of a b] la Suc.prems False by (simp add: word_less_nat_alt)
    next
      case 2
      then show ?thesis using less[of b a] lb Suc.prems False by (simp add: word_less_nat_alt)
    qed
  qed
qed simp

lemma naive_compare_value:
  assumes "length a = length b \<or> normal a \<and> normal b"
  shows "naive_compare a b = (if lval a < lval b then -1 else if lval b < lval a then 1 else 0)"
proof (cases "length a = length b")
  case True
  then show ?thesis using compare_from_value[of "length a" a b] by (simp add: naive_compare_def)
next
  case False
  then show ?thesis using assms normal_length_less[of a b] normal_length_less[of b a]
    by (auto simp: naive_compare_def)
qed

section \<open>Subtraction\<close>

text \<open>
  \<open>BigDigit::sub\<close> reports the amount by which the digit fell short, not one, and that amount is
  taken from the next digit. A borrow of one is therefore right and a larger one takes too much.
\<close>

lemma borrow_exact:
  assumes "bd_sub x d = (s, br)"
  shows "unat s + unat d = unat x + (if br \<noteq> 0 then radix else 0)" "unat br = unat d - unat x"
proof -
  show b: "unat br = unat d - unat x"
    using bd_sub_exact(2)[of x d] assms by simp
  have "br \<noteq> 0 \<longleftrightarrow> unat x < unat d" using b by (metis unat_eq_zero zero_less_diff not_gr_zero)
  then show "unat s + unat d = unat x + (if br \<noteq> 0 then radix else 0)"
    using bd_sub_exact(1)[of x d] assms by (simp add: word_less_nat_alt)
qed

lemma borrow_update:
  assumes "bd_sub (a ! i) d = (s, br)" "i < length a"
  shows "lval (a[i := s]) + unat d * radix ^ i = lval a + (if br \<noteq> 0 then radix ^ Suc i else 0)"
proof -
  have "lval (a[i := s]) + unat (a ! i) * radix ^ i = lval a + unat s * radix ^ i"
    using assms(2) by (rule lval_update)
  moreover have "(unat s + unat d) * radix ^ i = (unat (a ! i) + (if br \<noteq> 0 then radix else 0)) * radix ^ i"
    using borrow_exact(1)[OF assms(1)] by simp
  ultimately show ?thesis by (simp add: algebra_simps split: if_splits)
qed

lemma borrow_le: "br \<noteq> 0 \<Longrightarrow> radix ^ k \<le> unat (br :: digit) * radix ^ k"
  by (metis Suc_leI mult_1 mult_le_mono1 One_nat_def unat_gt_0)

lemma subtractDigit_le:
  "subtractDigit a d i = Inr r \<Longrightarrow> length r = length a \<and> lval r + unat d * radix ^ i \<le> lval a"
proof (induction "length a - i" arbitrary: a d i rule: less_induct)
  case less
  obtain s br where sb: "bd_sub (a ! i) d = (s, br)" by fastforce
  have i: "i < length a" using less.prems by (auto simp: subtractDigit.simps[of a d i] split: if_splits)
  note up = borrow_update[OF sb i]
  show ?case
  proof (cases "br = 0")
    case True
    then have "r = a[i := s]" using less.prems i sb by (simp add: subtractDigit.simps[of a d i])
    then show ?thesis using up True by simp
  next
    case False
    then have rec: "subtractDigit (a[i := s]) br (i + 1) = Inr r"
      using less.prems i sb by (simp add: subtractDigit.simps[of a d i] split: if_splits)
    have IH: "length r = length (a[i := s]) \<and> lval r + unat br * radix ^ Suc i \<le> lval (a[i := s])"
      using less.hyps[OF _ rec] i by (simp del: power_Suc)
    have "lval (a[i := s]) + unat d * radix ^ i = lval a + radix ^ Suc i"
      using up False by (simp del: power_Suc)
    moreover note borrow_le[OF False, of "Suc i"]
    ultimately have "lval r + unat d * radix ^ i \<le> lval a" using IH by linarith
    then show ?thesis using IH by simp
  qed
qed

lemma sub_step_le:
  assumes "sub_step b i a = Inr r"
  shows "length r = length a \<and> i < length a \<and> lval r + unat (b ! i) * radix ^ i \<le> lval a"
proof -
  obtain s br where sb: "bd_sub (a ! i) (b ! i) = (s, br)" by fastforce
  have i: "i < length a" using assms by (auto simp: sub_step_def split: if_splits)
  note up = borrow_update[OF sb i]
  show ?thesis
  proof (cases "br = 0")
    case True
    then have "r = a[i := s]" using assms i sb by (simp add: sub_step_def)
    then show ?thesis using up True i by simp
  next
    case False
    then have "subtractDigit (a[i := s]) br (i + 1) = Inr r"
      using assms i sb by (simp add: sub_step_def split: if_splits)
    from subtractDigit_le[OF this]
    have R: "length r = length a \<and> lval r + unat br * radix ^ Suc i \<le> lval (a[i := s])"
      by (simp del: power_Suc)
    have "lval (a[i := s]) + unat (b ! i) * radix ^ i = lval a + radix ^ Suc i"
      using up False by (simp del: power_Suc)
    moreover note borrow_le[OF False, of "Suc i"]
    ultimately have "lval r + unat (b ! i) * radix ^ i \<le> lval a" using R by linarith
    then show ?thesis using R i by simp
  qed
qed

lemma sub_loop_le:
  "n \<le> length b \<Longrightarrow> mfold (sub_step b) [0..<n] a = Inr r \<Longrightarrow>
    length r = length a \<and> n \<le> length a \<and> lval r + lval (take n b) \<le> lval a"
proof (induction n arbitrary: r)
  case (Suc n)
  then obtain t where t: "mfold (sub_step b) [0..<n] a = Inr t" "sub_step b n t = Inr r"
    by (auto simp: mfold_upt_Suc simp del: upt_Suc)
  then show ?case using Suc.IH[OF _ t(1)] Suc.prems(1) sub_step_le[OF t(2)]
    by (simp add: lval_take_Suc)
qed simp

lemma naive_subtract_le: "naive_subtract a b = Inr r \<Longrightarrow> lval r + lval b \<le> lval a"
proof -
  assume "naive_subtract a b = Inr r"
  then obtain t where t: "mfold (sub_step b) [0..<length b] a = Inr t" "r = normalize t"
    by (auto simp: naive_subtract_def)
  from sub_loop_le[OF order_refl t(1)] show ?thesis by (simp add: t(2))
qed

text \<open>Digit by digit without a borrow.\<close>

definition dominates :: "digit list \<Rightarrow> digit list \<Rightarrow> bool" where
  "dominates a b \<longleftrightarrow> length b \<le> length a \<and> (\<forall>i < length b. b ! i \<le> a ! i)"

lemma sub_loop_dominated:
  assumes "dominates a b"
  shows "n \<le> length b \<Longrightarrow> \<exists>r. mfold (sub_step b) [0..<n] a = Inr r \<and> length r = length a
    \<and> (\<forall>j. n \<le> j \<longrightarrow> j < length a \<longrightarrow> r ! j = a ! j) \<and> lval r + lval (take n b) = lval a"
proof (induction n)
  case (Suc n)
  then obtain t where t: "mfold (sub_step b) [0..<n] a = Inr t" "length t = length a"
    "\<forall>j. n \<le> j \<longrightarrow> j < length a \<longrightarrow> t ! j = a ! j" "lval t + lval (take n b) = lval a" by auto
  have n: "n < length a" "b ! n \<le> t ! n" using assms Suc.prems t(3) by (auto simp: dominates_def)
  then have sb: "bd_sub (t ! n) (b ! n) = (t ! n - b ! n, 0)" by (simp add: bd_sub_def leD)
  then have "sub_step b n t = Inr (t[n := t ! n - b ! n])" using n t(2) by (simp add: sub_step_def)
  moreover have "lval (t[n := t ! n - b ! n]) + unat (b ! n) * radix ^ n = lval t"
    using borrow_update[OF sb] n t(2) by simp
  ultimately show ?case using t Suc.prems
    by (intro exI[of _ "t[n := t ! n - b ! n]"]) (auto simp: mfold_upt_Suc lval_take_Suc simp del: upt_Suc)
qed simp

lemma naive_subtract_dominated:
  assumes "dominates a b" "a \<noteq> []"
  shows "\<exists>r. naive_subtract a b = Inr r \<and> normal r \<and> lval r + lval b = lval a"
proof -
  obtain r where "mfold (sub_step b) [0..<length b] a = Inr r" "length r = length a" "lval r + lval b = lval a"
    using sub_loop_dominated[OF assms(1), of "length b"] by auto
  moreover from this have "r \<noteq> []" using assms(2) by auto
  ultimately show ?thesis by (simp add: naive_subtract_def)
qed

lemma dominates_refl [simp]: "dominates a a"
  by (simp add: dominates_def)

lemma dominates_single: "dominates [x] [y] \<longleftrightarrow> y \<le> x"
  by (simp add: dominates_def)

section \<open>Division\<close>

text \<open>The product of the divisor with a trial digit, without the leading zeros of the position.\<close>

definition trial_inner :: "digit list \<Rightarrow> digit \<Rightarrow> nat \<Rightarrow> digit list \<times> digit \<Rightarrow> digit list \<times> digit" where
  "trial_inner b test_q i = (\<lambda>(product, carry).
     let prod = (ucast (b ! i) :: uoverflow) * ucast test_q;
         prod_digit = (ucast prod :: digit);
         prod_ov = (ucast (drop_bit 64 prod) :: digit);
         tot = (ucast prod_digit :: uoverflow) + ucast carry;
         total_digit = (ucast tot :: digit);
         total_ov = (ucast (drop_bit 64 tot) :: digit)
     in (product[i := total_digit], prod_ov + total_ov))"

definition trial_product :: "digit list \<Rightarrow> digit \<Rightarrow> digit list" where
  "trial_product b test_q =
     (let (product, carry) = fold (trial_inner b test_q) [0..<length b] (replicate (length b + 1) 0, 0);
          product = (if carry \<noteq> 0 then product[length b := carry] else product)
      in normalize product)"

text \<open>The digit tried at an attempt: the estimate, then alternately one more, one less, two more, and so
  on, with the wrap-around of \<open>digit\<close>.\<close>

definition trial_digit :: "digit \<Rightarrow> nat \<Rightarrow> digit" where
  "trial_digit q_digit attempt =
     (if attempt > 0 \<and> attempt mod 2 = 1 \<and> q_digit < -1 then q_digit + of_nat ((attempt + 1) div 2)
      else if attempt > 0 \<and> attempt mod 2 = 0 \<and> q_digit > 0 then q_digit - of_nat (attempt div 2)
      else q_digit)"

text \<open>The attempts from one on, while some are left: the first trial whose product does not exceed the
  remainder, with that product; a trial of zero stops the search.\<close>

fun find_trial :: "digit list \<Rightarrow> digit list \<Rightarrow> nat \<Rightarrow> digit \<Rightarrow> nat list \<Rightarrow> (digit \<times> digit list) option" where
  "find_trial rmd b q_idx q_digit [] = None"
| "find_trial rmd b q_idx q_digit (attempt # as) =
     (let test_q = trial_digit q_digit attempt in
      if test_q = 0 then None
      else let product = replicate q_idx 0 @ trial_product b test_q in
        if naive_compare rmd product \<ge> 0 then Some (test_q, product)
        else find_trial rmd b q_idx q_digit as)"

definition quotient_estimate :: "digit list \<Rightarrow> digit list \<Rightarrow> digit option" where
  "quotient_estimate rem_part b =
     (let div_top = b ! (length b - 1);
          div_top = (if div_top = 0 \<and> length b > 1 then b ! (length b - 2) else div_top);
          n = length rem_part;
          rem_top = (ucast (rem_part ! (n - 1)) :: uoverflow);
          rem_top = (if n > 1 then push_bit 64 rem_top OR ucast (rem_part ! (n - 2)) else rem_top)
      in if div_top = 0 then None
         else let q_est = rem_top div ucast div_top;
                  q_est = (if q_est > ucast (-1 :: digit) then ucast (-1 :: digit) else q_est)
              in Some (ucast q_est))"

definition divide_step ::
  "digit list \<Rightarrow> nat \<Rightarrow> digit list \<times> digit list \<Rightarrow> error + digit list \<times> digit list" where
  "divide_step b q_idx = (\<lambda>(quotient, rmd).
     let rem_end = min (q_idx + length b + 1) (length rmd)
     in if rem_end \<le> q_idx then Inr (quotient, rmd)
        else let rem_part = take (rem_end - q_idx) (drop q_idx rmd)
        in if naive_compare rem_part b < 0 then Inr (quotient, rmd)
        else case quotient_estimate rem_part b of
          None \<Rightarrow> Inr (quotient, rmd)
        | Some q_digit \<Rightarrow>
            if q_digit = 0 then Inr (quotient, rmd)
            else case find_trial rmd b q_idx q_digit [0..<10] of
              None \<Rightarrow> Inr (quotient, rmd)
            | Some (test_q, product) \<Rightarrow>
                rbind (naive_subtract rmd product) (\<lambda>r. Inr (quotient[q_idx := test_q], r)))"

definition naive_divide :: "digit list \<Rightarrow> digit list \<Rightarrow> error + digit list \<times> digit list" where
  "naive_divide a b =
     (if b = [] \<or> b = [0] then Inl (FlowException 1 DIV)
      else if a = [] \<or> a = [0] then Inr ([0], [0])
      else if b = [1] then Inr (a, [0])
      else if naive_compare a b < 0 then Inr ([0], a)
      else let quot_size = max 1 (int (length a) - int (length b) + 1)
           in rbind (mfold (divide_step b) (rev [0..<nat quot_size]) (replicate (nat quot_size) 0, a))
                (\<lambda>(quotient, rmd). Inr (normalize quotient, normalize rmd)))"

section \<open>Bitwise operations and shifts\<close>

definition resize :: "digit list \<Rightarrow> nat \<Rightarrow> digit list" where
  "resize a n = take n a @ replicate (n - length a) 0"

definition digit_at :: "digit list \<Rightarrow> nat \<Rightarrow> digit" where
  "digit_at a i = (if i < length a then a ! i else 0)"

definition bitwise_loop :: "(digit \<Rightarrow> digit \<Rightarrow> digit) \<Rightarrow> digit list \<Rightarrow> digit list \<Rightarrow> digit list" where
  "bitwise_loop f a b = (let max_size = max (length a) (length b)
     in fold (\<lambda>i a. a[i := f (digit_at a i) (digit_at b i)]) [0..<max_size] (resize a max_size))"

definition naive_bitwiseAnd :: "digit list \<Rightarrow> digit list \<Rightarrow> digit list" where
  "naive_bitwiseAnd a b = normalize (bitwise_loop (AND) a b)"

definition naive_bitwiseOr :: "digit list \<Rightarrow> digit list \<Rightarrow> digit list" where
  "naive_bitwiseOr a b = normalize (bitwise_loop (OR) a b)"

definition naive_bitwiseXor :: "digit list \<Rightarrow> digit list \<Rightarrow> digit list" where
  "naive_bitwiseXor a b = normalize (bitwise_loop (XOR) a b)"

definition naive_bitwiseNot :: "digit list \<Rightarrow> digit list" where
  "naive_bitwiseNot a = normalize (map NOT a)"

text \<open>
  \<open>BITS(digit)\<close> is a macro without parentheses: \<open>bits / BITS(digit)\<close> is \<open>bits / 8 * 8\<close> and
  \<open>bits % BITS(digit)\<close> is \<open>bits % 8 * 8\<close>, not the quotient and the remainder by 64.
\<close>

definition bits_div :: "int \<Rightarrow> int" where
  "bits_div bits = bits div 8 * 8"

definition bits_mod :: "int \<Rightarrow> int" where
  "bits_mod bits = bits mod 8 * 8"

definition shl_step :: "digit \<Rightarrow> nat \<Rightarrow> digit list \<times> digit \<Rightarrow> error + digit list \<times> digit" where
  "shl_step s i = (\<lambda>(a, carry). rbind (bd_shl (a ! i) s) (\<lambda>(shifted, ov). Inr (a[i := shifted OR carry], ov)))"

definition shl_from :: "digit \<Rightarrow> nat \<Rightarrow> digit list \<Rightarrow> error + digit list" where
  "shl_from s k a = rbind (mfold (shl_step s) [k..<length a] (a, 0))
     (\<lambda>(a, carry). Inr (if carry \<noteq> 0 then a @ [carry] else a))"

definition naive_shiftLeft :: "digit list \<Rightarrow> int \<Rightarrow> error + digit list" where
  "naive_shiftLeft a bits = (if a = [] \<or> bits = 0 then Inr a
     else rbind
       (if bits \<ge> 64
        then let digit_shift = nat (bits_div bits); bit_shift = bits_mod bits; a = replicate digit_shift 0 @ a
             in if bit_shift > 0 then shl_from (word_of_int bit_shift) digit_shift a else Inr a
        else shl_from (word_of_int bits) 0 a)
       (\<lambda>a. Inr (normalize a)))"

definition shr_step :: "digit \<Rightarrow> nat \<Rightarrow> digit list \<Rightarrow> error + digit list" where
  "shr_step s i a = rbind (bd_shr (a ! i) s) (\<lambda>(r, ov). let a = a[i := r]
     in if i > 0 then Inr (a[i - 1 := a ! (i - 1) OR push_bit (64 - unat s) ov]) else Inr a)"

definition naive_shiftRight :: "digit list \<Rightarrow> int \<Rightarrow> error + digit list" where
  "naive_shiftRight a bits = (if a = [] \<or> bits = 0 then Inr a
     else if bits \<ge> 64
     then let digit_shift = nat (bits_div bits)
          in if digit_shift \<ge> length a then Inr [0]
             else let a = drop digit_shift a; bit_shift = bits_mod bits
                  in if bit_shift > 0
                     then rbind (mfold (shr_step (word_of_int bit_shift)) (rev [0..<length a]) a)
                       (\<lambda>a. Inr (normalize a))
                     else Inr (normalize a)
     else rbind (mfold (shr_step (word_of_int bits)) (rev [0..<length a]) a) (\<lambda>a. Inr (normalize a)))"

section \<open>What division guarantees\<close>

lemma trial_inner_step:
  assumes "trial_inner b q i (P, c) = (P', c')" "i < length P" "P ! i = 0"
  shows "length P' = length P \<and> (\<forall>j. j \<noteq> i \<longrightarrow> P' ! j = P ! j) \<and>
    lval P' + unat c' * radix ^ Suc i = lval P + (unat (b ! i) * unat q + unat c) * radix ^ i"
proof -
  define prod where "prod = (ucast (b ! i) :: uoverflow) * ucast q"
  define pd where "pd = (ucast prod :: digit)"
  define pov where "pov = (ucast (drop_bit 64 prod) :: digit)"
  define tot where "tot = (ucast pd :: uoverflow) + ucast c"
  define td where "td = (ucast tot :: digit)"
  define tov where "tov = (ucast (drop_bit 64 tot) :: digit)"
  have P': "P' = P[i := td]" and c': "c' = pov + tov"
    using assms(1) by (simp_all add: trial_inner_def Let_def prod_def pd_def pov_def tot_def td_def tov_def)
  have e1: "unat pd + radix * unat pov = unat (b ! i) * unat q"
    using bd_mul_exact[of "b ! i" q] by (simp add: bd_mul_def Let_def prod_def pd_def pov_def)
  have e2: "unat td + radix * unat tov = unat pd + unat c"
    using total_exact[of pd c] by (simp add: td_def tov_def tot_def)
  have all: "unat td + radix * (unat pov + unat tov) = unat (b ! i) * unat q + unat c"
    using e1 e2 by (simp add: algebra_simps)
  have "radix * (unat pov + unat tov) < radix * radix"
    using all mul_digit_bound[of "b ! i" q] unat_digit_le[of c] by linarith
  then have cv: "unat c' = unat pov + unat tov"
    unfolding c' using unat_add3_digit[of pov tov 0] by simp
  have "lval P' + 0 * radix ^ i = lval P + unat td * radix ^ i"
    unfolding P' using lval_update[OF assms(2), of td] assms(3) by simp
  moreover have "(unat td + radix * unat c') * radix ^ i = (unat (b ! i) * unat q + unat c) * radix ^ i"
    using all cv by simp
  ultimately show ?thesis by (simp add: P' algebra_simps)
qed

lemma trial_inner_loop:
  "n \<le> length b \<Longrightarrow>
    length (fst (fold (trial_inner b q) [0..<n] (replicate (length b + 1) 0, 0))) = length b + 1
    \<and> (\<forall>j. n \<le> j \<longrightarrow> j \<le> length b \<longrightarrow> fst (fold (trial_inner b q) [0..<n] (replicate (length b + 1) 0, 0)) ! j = 0)
    \<and> lval (fst (fold (trial_inner b q) [0..<n] (replicate (length b + 1) 0, 0)))
      + unat (snd (fold (trial_inner b q) [0..<n] (replicate (length b + 1) 0, 0))) * radix ^ n
    = lval (take n b) * unat q"
proof (induction n)
  case 0
  have "(replicate (length b + 1) (0 :: digit)) ! j = 0" if "j \<le> length b" for j
    using that by (subst nth_replicate) auto
  then show ?case by (simp del: replicate_Suc)
next
  case (Suc n)
  obtain P c where P: "fold (trial_inner b q) [0..<n] (replicate (length b + 1) 0, 0) = (P, c)" by fastforce
  obtain P' c' where P': "trial_inner b q n (P, c) = (P', c')" by fastforce
  have IH: "length P = length b + 1" "\<forall>j. n \<le> j \<longrightarrow> j \<le> length b \<longrightarrow> P ! j = 0"
    "lval P + unat c * radix ^ n = lval (take n b) * unat q"
    using Suc P by simp_all
  have "n < length P" "P ! n = 0" using IH Suc.prems by auto
  from trial_inner_step[OF P' this]
  have S: "length P' = length P" "\<forall>j. j \<noteq> n \<longrightarrow> P' ! j = P ! j"
    "lval P' + unat c' * radix ^ Suc n = lval P + (unat (b ! n) * unat q + unat c) * radix ^ n" by blast+
  have F: "fold (trial_inner b q) [0..<Suc n] (replicate (length b + 1) 0, 0) = (P', c')"
    using P P' by simp
  show ?case
    unfolding F using S IH Suc.prems by (auto simp: lval_take_Suc algebra_simps)
qed

lemma trial_product_value:
  "lval (trial_product b q) = lval b * unat q" "normal (trial_product b q)"
proof -
  obtain P c where P: "fold (trial_inner b q) [0..<length b] (replicate (length b + 1) 0, 0) = (P, c)" by fastforce
  have h: "length P = length b + 1" "P ! length b = 0" "lval P + unat c * radix ^ length b = lval b * unat q"
    using trial_inner_loop[of "length b" b q] P by simp_all
  have "lval (P[length b := c]) = lval b * unat q"
    using lval_update[of "length b" P c] h by simp
  then show "lval (trial_product b q) = lval b * unat q"
    using P h by (auto simp: trial_product_def simp del: replicate_Suc fold_upt_Suc)
  have "P \<noteq> []" using h by auto
  then show "normal (trial_product b q)"
    using P by (auto simp: trial_product_def simp del: replicate_Suc)
qed

lemma find_trial_Some:
  "find_trial rmd b q_idx q_digit as = Some (t, p) \<Longrightarrow>
    p = replicate q_idx 0 @ trial_product b t \<and> t \<noteq> 0 \<and> naive_compare rmd p \<ge> 0"
  by (induction as) (auto simp: Let_def split: if_splits)

lemma divide_step_le:
  assumes "divide_step b i (Q, R) = Inr (Q', R')" "i < length Q" "Q ! i = 0"
  shows "length Q' = length Q \<and> (\<forall>j. j \<noteq> i \<longrightarrow> Q' ! j = Q ! j)
    \<and> lval Q' * lval b + lval R' \<le> lval Q * lval b + lval R"
proof -
  have "(Q', R') = (Q, R) \<or> (\<exists>t p. find_trial R b i (the (quotient_estimate
      (take (min (i + length b + 1) (length R) - i) (drop i R)) b)) [0..<10] = Some (t, p)
      \<and> naive_subtract R p = Inr R' \<and> Q' = Q[i := t])"
    using assms(1) by (auto simp: divide_step_def Let_def split: if_splits option.splits)
  then show ?thesis
  proof
    assume "\<exists>t p. find_trial R b i (the (quotient_estimate
      (take (min (i + length b + 1) (length R) - i) (drop i R)) b)) [0..<10] = Some (t, p)
      \<and> naive_subtract R p = Inr R' \<and> Q' = Q[i := t]"
    then obtain t p where tp: "find_trial R b i (the (quotient_estimate
      (take (min (i + length b + 1) (length R) - i) (drop i R)) b)) [0..<10] = Some (t, p)"
      "naive_subtract R p = Inr R'" "Q' = Q[i := t]" by blast
    have "lval p = lval b * unat t * radix ^ i"
      using find_trial_Some[OF tp(1)] by (simp add: lval_shift trial_product_value)
    moreover have "lval Q' = lval Q + unat t * radix ^ i"
      using lval_update[OF assms(2), of t] assms(3) tp(3) by simp
    ultimately have "lval Q' * lval b + lval R' \<le> lval Q * lval b + lval R"
      using naive_subtract_le[OF tp(2)] by (simp add: algebra_simps)
    then show ?thesis using tp(3) by simp
  qed simp
qed

lemma divide_loop_le:
  "mfold (divide_step b) (rev [0..<n]) (Q, R) = Inr (Q', R') \<Longrightarrow> n \<le> length Q \<Longrightarrow> \<forall>j < n. Q ! j = 0 \<Longrightarrow>
    length Q' = length Q \<and> lval Q' * lval b + lval R' \<le> lval Q * lval b + lval R"
proof (induction n arbitrary: Q R)
  case (Suc n)
  then obtain Q1 R1 where s: "divide_step b n (Q, R) = Inr (Q1, R1)"
    "mfold (divide_step b) (rev [0..<n]) (Q1, R1) = Inr (Q', R')" by auto
  have 1: "length Q1 = length Q \<and> (\<forall>j. j \<noteq> n \<longrightarrow> Q1 ! j = Q ! j)
    \<and> lval Q1 * lval b + lval R1 \<le> lval Q * lval b + lval R"
    using divide_step_le[OF s(1)] Suc.prems by simp
  have "length Q' = length Q1 \<and> lval Q' * lval b + lval R' \<le> lval Q1 * lval b + lval R1"
    using Suc.IH[OF s(2)] 1 Suc.prems by simp
  then show ?case using 1 by linarith
qed simp

lemma naive_divide_le:
  assumes "naive_divide a b = Inr (q, r)"
  shows "lval q * lval b + lval r \<le> lval a"
proof -
  have b: "\<not> (b = [] \<or> b = [0])" using assms by (auto simp: naive_divide_def)
  show ?thesis
  proof (cases "a = [] \<or> a = [0]")
    case True
    then have "q = [0]" "r = [0]" using assms b by (auto simp: naive_divide_def)
    then show ?thesis by simp
  next
    case a: False
    show ?thesis
    proof (cases "b = [1]")
      case True
      then have "q = a" "r = [0]" using assms a by (auto simp: naive_divide_def)
      then show ?thesis by (simp add: True)
    next
      case b1: False
      show ?thesis
      proof (cases "naive_compare a b < 0")
        case True
        then have "q = [0]" "r = a" using assms a b b1 by (auto simp: naive_divide_def)
        then show ?thesis by simp
      next
        case False
        define n where "n = nat (max 1 (int (length a) - int (length b) + 1))"
        obtain Q R where QR: "mfold (divide_step b) (rev [0..<n]) (replicate n 0, a) = Inr (Q, R)"
          "q = normalize Q" "r = normalize R"
          using assms a b b1 False by (auto simp: naive_divide_def n_def Let_def)
        from divide_loop_le[OF QR(1)] show ?thesis by (simp add: QR(2,3))
      qed
    qed
  qed
qed

section \<open>Meaning of the bitwise operations and shifts\<close>

text \<open>The bits of a vector, read as one number.\<close>

lemma bit_lval: "bit (lval a) k \<longleftrightarrow> k div 64 < length a \<and> bit (a ! (k div 64)) (k mod 64)"
proof (induction a arbitrary: k)
  case (Cons d ds)
  have v: "lval (d # ds) = unat d + push_bit 64 (lval ds)"
    by (simp add: radix_def push_bit_nat_def)
  have tb: "take_bit 64 (unat d) = unat d"
    using unat_digit_less[of d] by (simp add: take_bit_nat_eq_self radix_def)
  have "bit (lval (d # ds)) k \<longleftrightarrow> (if k < 64 then bit (unat d) k else bit (lval ds) (k - 64))"
  proof -
    have small: "bit (unat d) n \<Longrightarrow> n < 64" for n
      using tb by (metis bit_take_bit_iff)
    have "unat d + push_bit 64 (lval ds) = unat d OR push_bit 64 (lval ds)"
      by (rule disjunctive_add) (auto simp: bit_push_bit_iff dest: small)
    then show ?thesis
      unfolding v by (auto simp: bit_or_iff bit_push_bit_iff dest: small)
  qed
  then show ?case
  proof (cases "k < 64")
    case True
    then show ?thesis using \<open>bit (lval (d # ds)) k \<longleftrightarrow> _\<close> by (simp add: bit_unsigned_iff)
  next
    case False
    then have "k div 64 = Suc ((k - 64) div 64)" "(k - 64) mod 64 = k mod 64"
      by (simp_all add: le_div_geq le_mod_geq)
    then show ?thesis using \<open>bit (lval (d # ds)) k \<longleftrightarrow> _\<close> Cons.IH[of "k - 64"] False by simp
  qed
qed simp

lemma bitwise_loop_nth:
  assumes "n \<le> max (length a) (length b)"
  shows "length (fold (\<lambda>i a. a[i := f (digit_at a i) (digit_at b i)]) [0..<n] (resize a (max (length a) (length b))))
      = max (length a) (length b)
    \<and> (\<forall>j < max (length a) (length b).
      fold (\<lambda>i a. a[i := f (digit_at a i) (digit_at b i)]) [0..<n] (resize a (max (length a) (length b))) ! j
      = (if j < n then f (digit_at a j) (digit_at b j) else digit_at a j))"
  using assms
proof (induction n)
  case 0
  then show ?case by (auto simp: resize_def digit_at_def nth_append)
next
  case (Suc n)
  then show ?case by (auto simp: nth_list_update digit_at_def)
qed

lemma bitwise_loop_eq:
  "bitwise_loop f a b = map (\<lambda>j. f (digit_at a j) (digit_at b j)) [0..<max (length a) (length b)]"
  using bitwise_loop_nth[of "max (length a) (length b)" a b f]
  by (intro nth_equalityI) (simp_all add: bitwise_loop_def Let_def)

lemma bit_lval_digit_at: "bit (lval a) k \<longleftrightarrow> bit (digit_at a (k div 64)) (k mod 64)"
  by (simp add: bit_lval digit_at_def)

lemma lval_bitwise:
  assumes "\<And>x y k. k < 64 \<Longrightarrow> bit (f x y) k \<longleftrightarrow> F (bit x k) (bit y k)" "\<not> F False False"
  shows "bit (lval (bitwise_loop f a b)) k \<longleftrightarrow> F (bit (lval a) k) (bit (lval b) k)"
proof (cases "k div 64 < max (length a) (length b)")
  case True
  then show ?thesis by (simp add: bitwise_loop_eq bit_lval[of "map _ _"] bit_lval_digit_at[of a] bit_lval_digit_at[of b] assms(1))
next
  case False
  then have "\<not> k div 64 < length a" "\<not> k div 64 < length b" by auto
  then show ?thesis using assms(2) False by (simp add: bitwise_loop_eq bit_lval del: max_less_iff_conj less_max_iff_disj)
qed

lemma lval_naive_bitwise [value_simps]:
  "lval (naive_bitwiseAnd a b) = lval a AND lval b"
  "lval (naive_bitwiseOr a b) = lval a OR lval b"
  "lval (naive_bitwiseXor a b) = lval a XOR lval b"
proof -
  show "lval (naive_bitwiseAnd a b) = lval a AND lval b"
    unfolding naive_bitwiseAnd_def lval_normalize
    by (rule bit_eqI) (simp add: lval_bitwise[where F = "(\<and>)"] bit_and_iff)
  show "lval (naive_bitwiseOr a b) = lval a OR lval b"
    unfolding naive_bitwiseOr_def lval_normalize
    by (rule bit_eqI) (simp add: lval_bitwise[where F = "(\<or>)"] bit_or_iff)
  show "lval (naive_bitwiseXor a b) = lval a XOR lval b"
    unfolding naive_bitwiseXor_def lval_normalize
    by (rule bit_eqI) (simp add: lval_bitwise[where F = "(\<noteq>)"] bit_xor_iff)
qed

lemma lval_naive_bitwiseNot [value_simps]: "lval (naive_bitwiseNot a) = radix ^ length a - 1 - lval a"
proof -
  have "lval (map NOT a) + lval a + 1 = radix ^ length a"
  proof (induction a)
    case (Cons d ds)
    have "NOT d = -1 - d" by (simp add: not_eq_complement)
    then have "unat (NOT d) = unat (-1 :: digit) - unat d" by (simp add: unat_sub)
    moreover have "unat (-1 :: digit) = radix - 1" by (simp add: unat_eq_nat_uint uint_word_ariths radix_def)
    ultimately have "unat (NOT d) = radix - 1 - unat d" by simp
    then have "unat (NOT d) + unat d + 1 = radix" using unat_digit_less[of d] by linarith
    moreover have "radix * (lval (map NOT ds) + lval ds + 1) = radix * radix ^ length ds" using Cons by simp
    ultimately show ?case by (simp add: algebra_simps)
  qed simp
  then show ?thesis by (simp add: naive_bitwiseNot_def)
qed

lemma or_disjoint_add:
  fixes q c :: digit
  assumes "unat c < 2 ^ k" "2 ^ k dvd unat q"
  shows "unat (q OR c) = unat q + unat c"
proof -
  have c: "take_bit k (unat c) = unat c" using assms(1) by (simp add: take_bit_nat_eq_self)
  have q: "take_bit k (unat q) = 0" using assms(2) by (simp add: take_bit_eq_0_iff)
  have "unat (q OR c) = unat q OR unat c" by (rule unsigned_or_eq)
  also have "\<dots> = unat q + unat c"
  proof (rule disjunctive_add[symmetric])
    fix n
    show "\<not> bit (unat q) n \<or> \<not> bit (unat c) n"
    proof (cases "n < k")
      case True
      have "\<not> bit (take_bit k (unat q)) n" by (simp add: q)
      then show ?thesis using True by (simp add: bit_take_bit_iff)
    next
      case False
      then have "\<not> bit (take_bit k (unat c)) n" by (simp add: bit_take_bit_iff)
      then show ?thesis by (simp add: c)
    qed
  qed
  finally show ?thesis .
qed

lemma shl_digit:
  assumes "s < 64" "unat c < 2 ^ unat s"
  shows "\<exists>q ov. bd_shl x s = Inr (q, ov) \<and> unat ov < 2 ^ unat s
    \<and> unat (q OR c) + radix * unat ov = unat x * 2 ^ unat s + unat c"
proof -
  have s: "unat s < 64" "s \<le> 64" using assms(1) by (auto simp: word_less_nat_alt word_le_nat_alt)
  obtain q ov where qo: "bd_shl x s = Inr (q, ov)" "unat q + radix * unat ov = unat x * 2 ^ unat s"
    using bd_shl_exact[OF s(2)] by blast
  have r: "radix = 2 ^ unat s * 2 ^ (64 - unat s)" using s(1) by (simp add: radix_def flip: power_add)
  have "2 ^ unat s dvd unat q + radix * unat ov" "2 ^ unat s dvd radix * unat ov"
    unfolding qo(2) by (simp, simp add: r mult.assoc)
  then have "2 ^ unat s dvd unat q" using dvd_add_left_iff by blast
  then have "unat (q OR c) = unat q + unat c" using assms(2) by (rule or_disjoint_add[rotated])
  moreover have "radix * unat ov < radix * 2 ^ unat s"
  proof -
    have "radix * unat ov \<le> unat x * 2 ^ unat s" using qo(2) by linarith
    also have "\<dots> < radix * 2 ^ unat s" by simp
    finally show ?thesis .
  qed
  ultimately show ?thesis using qo by simp
qed

lemma shl_loop:
  assumes s: "s < 64" and k: "k \<le> n" "n \<le> length a"
  shows "\<exists>r c. mfold (shl_step s) [k..<n] (a, 0) = Inr (r, c) \<and> length r = length a \<and> unat c < 2 ^ unat s
    \<and> take k r = take k a \<and> drop n r = drop n a
    \<and> lval (take (n - k) (drop k r)) + unat c * radix ^ (n - k) = lval (take (n - k) (drop k a)) * 2 ^ unat s"
  using k
proof (induction n rule: dec_induct)
  case base
  then show ?case by simp
next
  case (step n)
  then obtain r c where r: "mfold (shl_step s) [k..<n] (a, 0) = Inr (r, c)" "length r = length a" "unat c < 2 ^ unat s"
    "take k r = take k a" "drop n r = drop n a"
    "lval (take (n - k) (drop k r)) + unat c * radix ^ (n - k) = lval (take (n - k) (drop k a)) * 2 ^ unat s"
    by auto
  have n: "n < length a" "k \<le> n" using step by auto
  have same: "r ! n = a ! n" using r(2,5) n by (metis Cons_nth_drop_Suc list.sel(1))
  obtain q ov where q: "bd_shl (a ! n) s = Inr (q, ov)" "unat ov < 2 ^ unat s"
    "unat (q OR c) + radix * unat ov = unat (a ! n) * 2 ^ unat s + unat c"
    using shl_digit[OF s r(3)] by blast
  let ?r = "r[n := q OR c]"
  have upt: "[k..<Suc n] = [k..<n] @ [n]" using n by simp
  have m: "mfold (shl_step s) [k..<Suc n] (a, 0) = Inr (?r, ov)"
    unfolding upt mfold_append r(1) using q(1) same by (simp add: shl_step_def)
  have sn: "Suc n - k = Suc (n - k)" using n by simp
  have t1: "take (Suc (n - k)) (drop k ?r) = take (n - k) (drop k r) @ [q OR c]"
    using n r(2) by (simp add: take_Suc_conv_app_nth drop_update_swap)
  have t2: "take (Suc (n - k)) (drop k a) = take (n - k) (drop k a) @ [a ! n]"
    using n by (simp add: take_Suc_conv_app_nth)
  have len: "length (take (n - k) (drop k r)) = n - k" "length (take (n - k) (drop k a)) = n - k"
    using n r(2) by auto
  have "(unat (q OR c) + radix * unat ov) * radix ^ (n - k) = (unat (a ! n) * 2 ^ unat s + unat c) * radix ^ (n - k)"
    using q(3) by simp
  then have "lval (take (Suc n - k) (drop k ?r)) + unat ov * radix ^ (Suc n - k)
      = lval (take (Suc n - k) (drop k a)) * 2 ^ unat s"
    using r(6) unfolding sn t1 t2 lval_snoc len by (simp add: algebra_simps)
  moreover have "take k ?r = take k a" "drop (Suc n) ?r = drop (Suc n) a"
    using r(4,5) n by (simp_all, metis drop_Suc tl_drop)
  ultimately show ?case using m r(2) q(2) by auto
qed

lemma shl_from_value:
  assumes "s < 64" "k \<le> length a"
  shows "\<exists>r. shl_from s k a = Inr r \<and> length a \<le> length r \<and>
    lval r = lval (take k a) + radix ^ k * (lval (drop k a) * 2 ^ unat s)"
proof -
  obtain r c where r: "mfold (shl_step s) [k..<length a] (a, 0) = Inr (r, c)" "length r = length a"
    "take k r = take k a"
    "lval (drop k r) + unat c * radix ^ (length a - k) = lval (drop k a) * 2 ^ unat s"
    using shl_loop[OF assms(1) assms(2) order_refl] by (auto simp: min_def)
  have v: "lval r = lval (take k a) + radix ^ k * lval (drop k r)"
    using lval_take_drop[of r k] r(2,3) assms(2) by (simp add: min_def)
  have "radix ^ length a = radix ^ k * radix ^ (length a - k)" using assms(2) by (simp flip: power_add)
  then have "lval r + unat c * radix ^ length a = lval (take k a) + radix ^ k * (lval (drop k a) * 2 ^ unat s)"
    unfolding v r(4)[symmetric] by (simp add: algebra_simps)
  then show ?thesis using r(1,2) by (auto simp: shl_from_def lval_snoc mult.commute)
qed

lemma naive_shiftLeft_small:
  assumes "0 \<le> bits" "bits < 64"
  shows "\<exists>r. naive_shiftLeft a bits = Inr r \<and> lval r = lval a * 2 ^ nat bits"
proof -
  consider "a = []" | "bits = 0" | "a \<noteq> []" "0 < bits" using assms(1) by fastforce
  then show ?thesis
  proof cases
    case 3
    have u: "unat (word_of_int bits :: digit) = nat bits"
      using assms by (simp add: unat_eq_nat_uint uint_word_of_int)
    then have "(word_of_int bits :: digit) < 64" using assms by (simp add: word_less_nat_alt)
    from shl_from_value[OF this, of 0 a] show ?thesis using 3 assms u by (auto simp: naive_shiftLeft_def)
  qed (auto simp: naive_shiftLeft_def)
qed

lemma naive_shiftLeft_large:
  assumes "64 \<le> bits"
  shows "\<exists>r. naive_shiftLeft a bits = Inr r \<and> lval r = lval a * 2 ^ (64 * nat (bits_div bits) + nat (bits_mod bits))"
proof -
  define k where "k = nat (bits_div bits)"
  define s where "s = bits_mod bits"
  have s: "0 \<le> s" "s < 64" by (simp_all add: s_def bits_mod_def)
  have rk: "radix ^ k = 2 ^ (64 * k)" by (simp add: radix_def power_mult)
  have b: "\<not> bits = 0" "bits \<ge> 64" using assms by auto
  show ?thesis
  proof (cases "a = []")
    case True
    then show ?thesis by (simp add: naive_shiftLeft_def)
  next
    case False
    show ?thesis
    proof (cases "s > 0")
      case True
      have u: "unat (word_of_int s :: digit) = nat s" using s by (simp add: unat_eq_nat_uint uint_word_of_int)
      then have "(word_of_int s :: digit) < 64" using s by (simp add: word_less_nat_alt)
      from shl_from_value[OF this, of k "replicate k 0 @ a"] obtain r where
        r: "shl_from (word_of_int s) k (replicate k 0 @ a) = Inr r"
        "lval r = radix ^ k * (lval a * 2 ^ nat s)" using u by auto
      then show ?thesis using True b False rk
        by (simp add: naive_shiftLeft_def Let_def k_def[symmetric] s_def[symmetric] power_add)
    next
      case z: False
      then show ?thesis using s b False rk
        by (simp add: naive_shiftLeft_def Let_def k_def[symmetric] s_def[symmetric] lval_shift)
    qed
  qed
qed

text \<open>
  \<open>shiftRight\<close> moves the low bits of a digit into the top of the next lower digit before that one is
  shifted itself, so they end up \<open>bits\<close> places too low. The result is right when those bits are zero.
\<close>

definition low_bits_clear :: "nat \<Rightarrow> digit list \<Rightarrow> bool" where
  "low_bits_clear s a \<longleftrightarrow> (\<forall>d \<in> set (tl a). 2 ^ s dvd unat d)"

lemma shr_digit:
  "s < 31 \<Longrightarrow> \<exists>ov. bd_shr x s = Inr (drop_bit (unat s) x, ov) \<and> (2 ^ unat s dvd unat x \<longrightarrow> ov = 0)"
proof -
  assume s: "s < 31"
  obtain q r where qr: "bd_shr x s = Inr (q, r)" "unat r = unat x mod 2 ^ unat s"
    using bd_shr_exact[OF s] by blast
  then have "2 ^ unat s dvd unat x \<longrightarrow> r = 0" by (auto simp: dvd_eq_mod_eq_0 word_unat_eq_iff)
  moreover have "q = drop_bit (unat s) x" using qr(1) s leD[of 31 s] by (auto simp: bd_shr_def Let_def split: if_splits)
  ultimately show ?thesis using qr(1) by blast
qed

lemma shr_loop:
  assumes "s < 31" "low_bits_clear (unat s) a"
  shows "n \<le> length a \<Longrightarrow> mfold (shr_step s) (rev [0..<n]) (take n a @ map (drop_bit (unat s)) (drop n a))
    = Inr (map (drop_bit (unat s)) a)"
proof (induction n)
  case (Suc n)
  let ?f = "drop_bit (unat s) :: digit \<Rightarrow> digit"
  let ?a = "take (Suc n) a @ map ?f (drop (Suc n) a)"
  have n: "n < length a" using Suc.prems by simp
  have nth: "?a ! n = a ! n" using n by (simp add: nth_append)
  obtain ov where ov: "bd_shr (a ! n) s = Inr (?f (a ! n), ov)" "2 ^ unat s dvd unat (a ! n) \<longrightarrow> ov = 0"
    using shr_digit[OF assms(1)] by blast
  have up: "?a[n := ?f (a ! n)] = take n a @ map ?f (drop n a)"
    using n by (simp add: take_Suc_conv_app_nth list_update_append Cons_nth_drop_Suc[symmetric])
  have "shr_step s n ?a = Inr (take n a @ map ?f (drop n a))"
  proof (cases "n > 0")
    case True
    then have "a ! n \<in> set (tl a)" using n by (metis Suc_pred diff_Suc_1 in_set_conv_nth length_tl less_diff_conv nth_tl Suc_eq_plus1)
    then have "ov = 0" using assms(2) ov(2) by (simp add: low_bits_clear_def)
    have "?a ! (n - 1) = (take n a @ map ?f (drop n a)) ! (n - 1)"
    proof -
      have "n - 1 < n" "n - 1 < Suc n" using True by auto
      then show ?thesis using n by (simp add: nth_append)
    qed
    then have "(take n a @ map ?f (drop n a))[n - 1 := ?a ! (n - 1)] = take n a @ map ?f (drop n a)"
      by (simp only: list_update_id)
    then show ?thesis using True ov(1) \<open>ov = 0\<close> by (simp add: shr_step_def nth up Let_def)
  next
    case False
    then show ?thesis using nth ov(1) up by (auto simp: shr_step_def Let_def)
  qed
  then show ?case using Suc by simp
qed simp

lemma lval_map_drop_bit:
  "s \<le> 64 \<Longrightarrow> low_bits_clear s a \<Longrightarrow> lval (map (drop_bit s) a) = lval a div 2 ^ s"
proof (cases a)
  case (Cons d ds)
  assume s: "s \<le> 64" and clear: "low_bits_clear s a"
  have "2 ^ s * lval (map (drop_bit s) ds) = lval ds"
    if "\<forall>d \<in> set ds. 2 ^ s dvd unat d" for ds
    using that
  proof (induction ds)
    case (Cons x xs)
    have "2 ^ s * (unat x div 2 ^ s) = unat x" using Cons.prems by simp
    then show ?case using Cons by (simp add: unat_drop_bit_eq drop_bit_nat_def algebra_simps)
  qed simp
  then have ds: "2 ^ s * lval (map (drop_bit s) ds) = lval ds"
    using clear Cons by (simp add: low_bits_clear_def)
  have "lval a = unat d + 2 ^ s * (radix * lval (map (drop_bit s) ds))"
    using Cons by (simp flip: ds add: algebra_simps)
  then have "lval a div 2 ^ s = unat d div 2 ^ s + radix * lval (map (drop_bit s) ds)" by simp
  then show ?thesis using Cons by (simp add: unat_drop_bit_eq drop_bit_nat_def)
qed simp

lemma naive_shiftRight_clear:
  assumes "0 \<le> bits" "bits < 31" "low_bits_clear (nat bits) a"
  shows "\<exists>r. naive_shiftRight a bits = Inr r \<and> lval r = lval a div 2 ^ nat bits"
proof (cases "a = [] \<or> bits = 0")
  case False
  have u: "unat (word_of_int bits :: digit) = nat bits"
    using assms by (simp add: unat_eq_nat_uint uint_word_of_int)
  then have s: "(word_of_int bits :: digit) < 31" using assms by (simp add: word_less_nat_alt)
  have "mfold (shr_step (word_of_int bits)) (rev [0..<length a]) a = Inr (map (drop_bit (nat bits)) a)"
    using shr_loop[OF s, of a "length a"] assms(3) u by simp
  then show ?thesis using False assms by (auto simp: naive_shiftRight_def lval_map_drop_bit)
qed (auto simp: naive_shiftRight_def)

lemma naive_shiftRight_undefined:
  assumes "a \<noteq> []" "31 \<le> bits" "bits < 64"
  shows "naive_shiftRight a bits = Inl Undefined"
proof -
  have u: "unat (word_of_int bits :: digit) = nat bits"
    using assms by (simp add: unat_eq_nat_uint uint_word_of_int)
  then have "31 \<le> (word_of_int bits :: digit)" using assms by (simp add: word_le_nat_alt)
  moreover obtain n where "length a = Suc n" using assms(1) by (cases a) auto
  ultimately show ?thesis using assms by (simp add: naive_shiftRight_def shr_step_def bd_shr_def)
qed

lemma ucast_widen: "ucast (ucast (q :: digit) :: uoverflow) = q"
  by (rule bit_word_eqI) (auto simp: bit_simps)

section \<open>Division of single digits\<close>

lemma naive_divide_single:
  assumes "y \<noteq> 0"
  shows "naive_divide [x] [y] = Inr ([x div y], [x mod y])"
proof -
  consider "x = 0" | "x \<noteq> 0" "y = 1" | "x \<noteq> 0" "y \<noteq> 1" "x < y" | "x \<noteq> 0" "y \<noteq> 1" "y \<le> x" by fastforce
  then show ?thesis
  proof cases
    case 3
    then have "unat x < unat y" by (simp add: word_less_nat_alt)
    then have "x div y = 0" "x mod y = x"
      by (simp_all add: word_unat_eq_iff unat_div_distrib unat_mod_distrib)
    then show ?thesis using 3 assms by (auto simp add: naive_divide_def naive_compare_def)
  next
    case 4
    let ?q = "x div y"
    have y: "0 < unat y" using assms by (simp add: unat_gt_0)
    have uq: "unat ?q = unat x div unat y" by (simp add: unat_div_distrib)
    have le: "unat ?q * unat y \<le> unat x" by (simp add: uq div_times_less_eq_dividend)
    have q0: "?q \<noteq> 0"
    proof
      assume "?q = 0"
      then have "unat x div unat y = 0" by (simp flip: uq)
      then show False using 4(3) y by (simp add: word_le_nat_alt div_eq_0_iff)
    qed
    have max: "unat (-1 :: digit) = radix - 1" by (simp add: unat_eq_nat_uint uint_word_ariths radix_def)
    have est: "quotient_estimate [x] [y] = Some ?q"
    proof -
      have d: "(ucast x :: uoverflow) div ucast y = ucast ?q"
        by (simp add: word_unat_eq_iff unat_div_distrib unat_widen)
      have "\<not> (ucast ?q :: uoverflow) > ucast (-1 :: digit)"
        using unat_digit_le[of ?q] by (simp add: word_less_nat_alt unat_widen max)
      moreover note ucast_widen[of ?q]
      ultimately show ?thesis using assms by (simp add: quotient_estimate_def Let_def d)
    qed
    have tp: "trial_product [y] ?q = [y * ?q]"
    proof (rule normal_lval_inj)
      show "normal (trial_product [y] ?q)" by (rule trial_product_value)
      show "normal [y * ?q]" by (simp add: normal_def)
      have "unat (y * ?q) = unat y * unat ?q"
        using le unat_digit_less[of x] by (simp add: unat_word_ariths radix_def mult.commute)
      then show "lval (trial_product [y] ?q) = lval [y * ?q]" by (simp add: trial_product_value)
    qed
    have uyq: "unat (y * ?q) = unat y * unat ?q"
      using le unat_digit_less[of x] by (simp add: unat_word_ariths radix_def mult.commute)
    have cmp: "naive_compare [x] [y * ?q] \<ge> 0"
      using le by (simp add: naive_compare_def word_less_nat_alt uyq mult.commute)
    have ft: "find_trial [x] [y] 0 ?q [0..<10] = Some (?q, [y * ?q])"
      using q0 cmp by (simp add: upt_conv_Cons trial_digit_def tp Let_def)
    have md: "x - y * ?q = x mod y" by (simp add: minus_mult_div_eq_mod)
    have sb: "naive_subtract [x] [y * ?q] = Inr [x mod y]"
      using le by (simp add: naive_subtract_def sub_step_def bd_sub_def word_less_nat_alt uyq mult.commute md)
    have "naive_compare [x] [y] \<ge> 0" using 4 by (simp add: naive_compare_def leD)
    then show ?thesis using 4 assms q0
      by (simp add: naive_divide_def divide_step_def est ft sb)
  qed (use assms in \<open>simp_all add: naive_divide_def\<close>)
qed

section \<open>Every operation returns a normal form\<close>

lemma normal_naive_subtract: "naive_subtract a b = Inr r \<Longrightarrow> a \<noteq> [] \<Longrightarrow> normal r"
proof -
  assume h: "naive_subtract a b = Inr r" "a \<noteq> []"
  then obtain t where t: "mfold (sub_step b) [0..<length b] a = Inr t" "r = normalize t"
    by (auto simp: naive_subtract_def)
  have "length t = length a" using sub_loop_le[OF order_refl t(1)] by simp
  then have "t \<noteq> []" using h(2) by auto
  then show ?thesis using t(2) by simp
qed

lemma normal_naive_bitwise:
  "a \<noteq> [] \<Longrightarrow> normal (naive_bitwiseAnd a b)" "a \<noteq> [] \<Longrightarrow> normal (naive_bitwiseOr a b)"
  "a \<noteq> [] \<Longrightarrow> normal (naive_bitwiseXor a b)" "a \<noteq> [] \<Longrightarrow> normal (naive_bitwiseNot a)"
  unfolding naive_bitwiseAnd_def naive_bitwiseOr_def naive_bitwiseXor_def naive_bitwiseNot_def
  by (intro normal_normalize; simp add: bitwise_loop_eq)+

lemma mfold_invariant:
  "mfold f is s = Inr t \<Longrightarrow> P s \<Longrightarrow> (\<And>i s t. f i s = Inr t \<Longrightarrow> P s \<Longrightarrow> P t) \<Longrightarrow> P t"
  by (induction "is" arbitrary: s) auto

lemma shl_from_nonempty: "shl_from s k a = Inr r \<Longrightarrow> a \<noteq> [] \<Longrightarrow> r \<noteq> []"
proof -
  assume h: "shl_from s k a = Inr r" "a \<noteq> []"
  then obtain t c where t: "mfold (shl_step s) [k..<length a] (a, 0) = Inr (t, c)"
    "r = (if c \<noteq> 0 then t @ [c] else t)" by (auto simp: shl_from_def)
  have "fst (t, c) \<noteq> []"
    by (rule mfold_invariant[OF t(1), where P = "\<lambda>p. fst p \<noteq> []"]) (auto simp: h(2) shl_step_def)
  then show ?thesis using t(2) by auto
qed

lemma normal_naive_shiftLeft: "naive_shiftLeft a bits = Inr r \<Longrightarrow> normal a \<Longrightarrow> normal r"
proof -
  assume h: "naive_shiftLeft a bits = Inr r" "normal a"
  then have a: "a \<noteq> []" by (simp add: normal_def)
  show ?thesis
  proof (cases "bits = 0")
    case False
    then obtain t where t: "r = normalize t" "t = replicate (nat (bits_div bits)) 0 @ a
      \<or> (\<exists>s k l. shl_from s k l = Inr t \<and> l \<noteq> [])"
      using h a by (auto simp: naive_shiftLeft_def Let_def split: if_splits)
    then have "t \<noteq> []" using shl_from_nonempty a by blast
    then show ?thesis using t(1) by simp
  qed (use h a in \<open>simp add: naive_shiftLeft_def\<close>)
qed

lemma shr_fold_nonempty: "mfold (shr_step s) is a = Inr r \<Longrightarrow> a \<noteq> [] \<Longrightarrow> r \<noteq> []"
  by (rule mfold_invariant[where P = "\<lambda>a. a \<noteq> []"]) (auto simp: shr_step_def Let_def split: if_splits)

lemma normal_naive_shiftRight: "naive_shiftRight a bits = Inr r \<Longrightarrow> normal a \<Longrightarrow> normal r"
proof -
  assume h: "naive_shiftRight a bits = Inr r" "normal a"
  then have a: "a \<noteq> []" by (simp add: normal_def)
  show ?thesis
  proof (cases "bits = 0 \<or> bits \<ge> 64 \<and> nat (bits_div bits) \<ge> length a")
    case False
    let ?d = "drop (nat (bits_div bits)) a"
    consider "\<not> length a \<le> nat (bits_div bits)" "r = normalize ?d"
      | t s where "\<not> length a \<le> nat (bits_div bits)" "mfold (shr_step s) (rev [0..<length ?d]) ?d = Inr t" "r = normalize t"
      | t s where "mfold (shr_step s) (rev [0..<length a]) a = Inr t" "r = normalize t"
      using False h(1) a by (auto simp: naive_shiftRight_def Let_def split: if_splits)
    then show ?thesis
    proof cases
      case (2 t s)
      then have "t \<noteq> []" using shr_fold_nonempty[OF 2(2)] by simp
      then show ?thesis using 2(3) by simp
    next
      case (3 t s)
      then have "t \<noteq> []" using shr_fold_nonempty[OF 3(1)] a by simp
      then show ?thesis using 3(2) by simp
    qed simp
  qed (use h a in \<open>auto simp: naive_shiftRight_def normal_def\<close>)
qed

lemma normal_naive_divide:
  assumes "naive_divide a b = Inr (q, r)" "normal a" "normal b"
  shows "normal q \<and> normal r"
proof -
  have b: "\<not> (b = [] \<or> b = [0])" using assms by (auto simp: naive_divide_def)
  have z: "normal [0]" by (simp add: normal_def)
  show ?thesis
  proof (cases "a = [] \<or> a = [0] \<or> b = [1] \<or> naive_compare a b < 0")
    case True
    then have "q \<in> {[0], a} \<and> r \<in> {[0], a}" using assms b by (auto simp: naive_divide_def split: if_splits)
    then show ?thesis using assms(2) z by auto
  next
    case False
    define n where "n = nat (max 1 (int (length a) - int (length b) + 1))"
    obtain Q R where QR: "mfold (divide_step b) (rev [0..<n]) (replicate n 0, a) = Inr (Q, R)"
      "q = normalize Q" "r = normalize R"
      using assms(1) False b by (auto simp: naive_divide_def n_def Let_def)
    have n: "n \<noteq> 0" by (simp add: n_def)
    have "fst (Q, R) \<noteq> [] \<and> snd (Q, R) \<noteq> []"
    proof (rule mfold_invariant[OF QR(1), where P = "\<lambda>p. fst p \<noteq> [] \<and> snd p \<noteq> []"])
      show "fst (replicate n 0, a) \<noteq> [] \<and> snd (replicate n 0, a) \<noteq> []"
        using n assms(2) by (simp add: normal_def)
      show "fst t \<noteq> [] \<and> snd t \<noteq> []" if "divide_step b i s = Inr t" "fst s \<noteq> [] \<and> snd s \<noteq> []" for i s t
        using that normal_naive_subtract[of "snd s"]
        by (cases s) (auto simp: divide_step_def Let_def normal_def split: if_splits option.splits)
    qed
    then show ?thesis using QR(2,3) by simp
  qed
qed

section \<open>Properties\<close>

text \<open>C12: addition and multiplication are exact for vectors of every length, no carry is ever lost,
  and the result is in normal form.\<close>

theorem naive_add_multiply_exact:
  "lval (naive_add a b) = lval a + lval b \<and> (a \<noteq> [] \<longrightarrow> normal (naive_add a b))
   \<and> lval (naive_multiply a b) = lval a * lval b \<and> normal (naive_multiply a b)"
  by simp

lemma naive_add_multiply_exact_witness:
  "normal (naive_add [-1, -1] [1]) \<and> lval (naive_add [-1, -1] [1]) = radix * radix"
proof -
  have "lval [-1, -1 :: digit] + lval [1] = radix * radix"
    by (simp add: unat_eq_nat_uint uint_word_ariths radix_def)
  then show ?thesis using naive_add_multiply_exact[of "[-1, -1]" "[1]"] by simp
qed

text \<open>A subtraction that returns never returns more than the difference, so an underflow is always
  reported; it is exact when no digit of the subtrahend exceeds the digit above it.\<close>

theorem naive_subtract_sound:
  "(naive_subtract a b = Inr r \<longrightarrow> lval r + lval b \<le> lval a)
   \<and> (dominates a b \<and> a \<noteq> [] \<longrightarrow> (\<exists>r. naive_subtract a b = Inr r \<and> normal r \<and> lval r + lval b = lval a))"
  using naive_subtract_le naive_subtract_dominated by blast

lemma naive_subtract_sound_witness:
  "\<exists>r. naive_subtract [7, 3] [2, 3] = Inr r \<and> normal r \<and> lval r + lval [2, 3] = lval [7, 3]"
proof -
  have "dominates [7, 3] [2, 3]" by (auto simp: dominates_def less_Suc_eq)
  then show ?thesis using naive_subtract_sound[of "[7, 3]" "[2, 3]"] by blast
qed

text \<open>A borrow of more than one is taken in full from the next digit: with ten radixes on the
  left and 5 on the right the result is four radixes short.\<close>

theorem naive_subtract_borrow_too_large:
  "naive_subtract [0, 10] [5] = Inr [-5, 5] \<and> lval [-5, 5] + lval [5] + 4 * radix = lval [0, 10]"
proof
  show "naive_subtract [0, 10] [5] = Inr [-5, 5]" by code_simp
  show "lval [-5, 5] + lval [5] + 4 * radix = lval [0, 10]"
    by (simp add: unat_eq_nat_uint uint_word_ariths radix_def)
qed

text \<open>A division that returns never overshoots: quotient times divisor plus remainder is at most
  the dividend. A zero divisor always throws.\<close>

theorem naive_divide_sound:
  "(naive_divide a b = Inr (q, r) \<longrightarrow> lval q * lval b + lval r \<le> lval a)
   \<and> naive_divide a [0] = Inl (FlowException 1 DIV)"
  using naive_divide_le by (auto simp: naive_divide_def)

lemma naive_divide_sound_witness: "lval [5, 2] * lval [2] + lval [1] \<le> lval [11, 4]"
proof -
  have "naive_divide [11, 4] [2] = Inr ([5, 2], [1])" by code_simp
  then show ?thesis using naive_divide_sound[of "[11, 4]" "[2]" "[5, 2]" "[1]"] by blast
qed

text \<open>On single digits division is the machine division, with remainder.\<close>

theorem naive_divide_digits:
  assumes "y \<noteq> 0"
  shows "naive_divide [x] [y] = Inr ([x div y], [x mod y])"
  by (rule naive_divide_single[OF assms])

lemma naive_divide_digits_witness: "naive_divide [1000] [7] = Inr ([1000 div 7], [1000 mod 7])"
  by (rule naive_divide_digits) simp

text \<open>Division of two digits by one throws where the subtraction of the trial product needs a
  borrow: \<open>2 ^ 64 / 3\<close> does not return.\<close>

theorem naive_divide_throws: "naive_divide [0, 1] [3] = Inl (FlowException (-2) SUB)"
  by code_simp

text \<open>The comparison of two vectors in normal form is that of their values.\<close>

theorem naive_compare_exact:
  assumes "normal a" "normal b"
  shows "naive_compare a b = (if lval a < lval b then -1 else if lval b < lval a then 1 else 0)"
  using naive_compare_value assms by blast

lemma naive_compare_exact_witness: "naive_compare [3, 1] [5] = 1 \<and> lval [5] < lval [3, 1]"
  using naive_compare_exact[of "[3, 1]" "[5]"] by (simp add: normal_def radix_def)

text \<open>C13: The bitwise operations act on the binary representation of the values; the complement is
  relative to the length of the vector.\<close>

theorem naive_bitwise_exact:
  "lval (naive_bitwiseAnd a b) = lval a AND lval b \<and> lval (naive_bitwiseOr a b) = lval a OR lval b
   \<and> lval (naive_bitwiseXor a b) = lval a XOR lval b
   \<and> lval (naive_bitwiseNot a) = radix ^ length a - 1 - lval a"
  by (simp add: value_simps)

text \<open>A left shift by less than 64 bits multiplies by the power of two. From 64 on the macro
  \<open>BITS\<close> makes it shift by 64 times \<open>bits / 8 * 8\<close> plus \<open>bits % 8 * 8\<close> bits.\<close>

theorem naive_shiftLeft_value:
  "(0 \<le> bits \<and> bits < 64 \<longrightarrow> (\<exists>r. naive_shiftLeft a bits = Inr r \<and> lval r = lval a * 2 ^ nat bits))
   \<and> (64 \<le> bits \<longrightarrow> (\<exists>r. naive_shiftLeft a bits = Inr r
      \<and> lval r = lval a * 2 ^ (64 * nat (bits_div bits) + nat (bits_mod bits))))"
  using naive_shiftLeft_small naive_shiftLeft_large by blast

lemma naive_shiftLeft_value_witness:
  "\<exists>r. naive_shiftLeft [3] 64 = Inr r \<and> lval r = lval [3] * 2 ^ 4096"
  using naive_shiftLeft_value[of 64 "[3]"] by (simp add: bits_div_def bits_mod_def)

text \<open>A right shift by less than 31 bits is the division by the power of two when the bits that
  leave a digit for the one below it are zero (in particular for a single digit).\<close>

theorem naive_shiftRight_value:
  assumes "0 \<le> bits" "bits < 31" "low_bits_clear (nat bits) a"
  shows "\<exists>r. naive_shiftRight a bits = Inr r \<and> lval r = lval a div 2 ^ nat bits"
  by (rule naive_shiftRight_clear[OF assms])

lemma naive_shiftRight_value_witness:
  "\<exists>r. naive_shiftRight [1000] 3 = Inr r \<and> lval r = lval [1000] div 2 ^ nat 3"
  by (rule naive_shiftRight_value) (simp_all add: low_bits_clear_def)

text \<open>Elsewhere it is wrong or undefined: \<open>2 ^ 64\<close> shifted right by one gives \<open>2 ^ 62\<close>, and a
  shift by 31 to 63 bits evaluates an undefined shift in \<open>BigDigit::shr\<close>.\<close>

theorem naive_shiftRight_faults:
  "naive_shiftRight [0, 1] 1 = Inr [2 ^ 62] \<and> lval [0, 1] div 2 = 2 * lval [2 ^ 62]
   \<and> naive_shiftRight [0, 1] 31 = Inl Undefined"
proof (intro conjI)
  show "naive_shiftRight [0, 1] 1 = Inr [2 ^ 62]" by code_simp
  show "lval [0, 1] div 2 = 2 * lval [2 ^ 62]" by (simp add: radix_def)
  show "naive_shiftRight [0, 1] 31 = Inl Undefined" by code_simp
qed

end
