(* ===== verification/Karatsuba.thy ===== *)
theory Karatsuba
  imports Naive
begin

unbundle bit_operations_syntax

text \<open>
  \<open>cpp/lib/bign/BigNumberKaratsuba.cpp\<close>: multiplication by Karatsuba's three half-size products from 50
  digits on; everything else is delegated to the naive implementation. The subtractions of the middle term are
  \<open>naive_subtract\<close>, whose borrow is wrong: the result is exact where they do not borrow.
\<close>

section \<open>Definitions\<close>

definition KARATSUBA_THRESHOLD :: nat where
  "KARATSUBA_THRESHOLD = 50"

definition splitAt :: "digit list \<Rightarrow> nat \<Rightarrow> digit list \<times> digit list" where
  "splitAt src pos = (if pos \<ge> length src then (src, [0])
     else if pos = 0 then ([0], src)
     else (normalize (take pos src), normalize (drop pos src)))"

text \<open>Lengths, for termination.\<close>

lemma normal_length_le: "normal a \<Longrightarrow> lval a < radix ^ k \<Longrightarrow> 0 < k \<Longrightarrow> length a \<le> k"
proof (rule ccontr)
  assume n: "normal a" "lval a < radix ^ k" "0 < k" "\<not> length a \<le> k"
  then have "a \<noteq> [0]" by auto
  then have "radix ^ (length a - 1) \<le> lval a" using n normal_lower by blast
  moreover have "radix ^ k \<le> radix ^ (length a - 1)"
    using n(4) radix_pos by (intro power_increasing) (auto simp: Suc_le_eq simp del: radix_pos)
  ultimately show False using n(2) by linarith
qed

lemma two_powers: "2 * radix ^ k \<le> radix ^ Suc k"
  by (simp add: radix_def)

lemma length_naive_add [length_simps]: "length (naive_add a b) \<le> Suc (max (length a) (length b))"
proof (cases "naive_add a b = []")
  case False
  then have n: "normal (naive_add a b)"
    by (auto simp: naive_add_def)
  have "radix ^ k \<le> radix ^ max (length a) (length b)" if "k \<le> max (length a) (length b)" for k
    using radix_pos by (intro power_increasing[OF that]) (simp only: Suc_le_eq One_nat_def)
  then have "radix ^ length a \<le> radix ^ max (length a) (length b)"
    "radix ^ length b \<le> radix ^ max (length a) (length b)" by simp_all
  then have "lval a + lval b < 2 * radix ^ max (length a) (length b)"
    using lval_less[of a] lval_less[of b] by linarith
  then have "lval (naive_add a b) < radix ^ Suc (max (length a) (length b))"
    using two_powers[of "max (length a) (length b)"] by (simp only: lval_naive_add)
  then show ?thesis using n by (intro normal_length_le) auto
qed simp

lemma length_splitAt [length_simps]:
  assumes "0 < pos" "pos < length src"
  shows "length (fst (splitAt src pos)) \<le> pos" "length (snd (splitAt src pos)) \<le> length src - pos"
  using assms length_normalize[of "take pos src"] length_normalize[of "drop pos src"]
  by (simp_all add: splitAt_def)

text \<open>The halves of both operands around \<open>m\<close>, as the recursion uses them.\<close>

definition split_b :: "digit list \<Rightarrow> nat \<Rightarrow> digit list \<times> digit list" where
  "split_b b m = (if length b \<le> m then (b, [0]) else splitAt b m)"

function multiplyKaratsubaRecursive ::
  "digit list \<Rightarrow> digit list \<Rightarrow> error + digit list" where
  "multiplyKaratsubaRecursive a b =
     (if length a < KARATSUBA_THRESHOLD \<or> length b < KARATSUBA_THRESHOLD then Inr (naive_multiply a b)
      else if length a < length b then multiplyKaratsubaRecursive b a
      else let m = (length a + 1) div 2;
               a0 = fst (splitAt a m); a1 = snd (splitAt a m);
               b0 = fst (split_b b m); b1 = snd (split_b b m)
           in rbind (multiplyKaratsubaRecursive a0 b0) (\<lambda>z0.
              rbind (multiplyKaratsubaRecursive a1 b1) (\<lambda>z2.
              rbind (multiplyKaratsubaRecursive (naive_add a0 a1) (naive_add b0 b1)) (\<lambda>z1.
              rbind (naive_subtract z1 z0) (\<lambda>z1.
              rbind (naive_subtract z1 z2) (\<lambda>z1.
                let result = replicate (2 * m) 0 @ z2;
                    z1_shifted = replicate m 0 @ z1;
                    result = naive_add result z1_shifted;
                    result = naive_add result z0
                in Inr (normalize result)))))))"
  by pat_completeness auto

text \<open>Each of the three products is smaller in total length; the swap keeps the total.\<close>

lemma kara_smaller:
  assumes "50 \<le> length b" "length b \<le> length a"
    and m: "m = (length a + 1) div 2"
  shows "length (fst (splitAt a m)) + length (fst (split_b b m)) < length a + length b"
    "length (snd (splitAt a m)) + length (snd (split_b b m)) < length a + length b"
    "length (naive_add (fst (splitAt a m)) (snd (splitAt a m)))
      + length (naive_add (fst (split_b b m)) (snd (split_b b m))) < length a + length b"
proof -
  have mm: "0 < m" "m < length a" "2 * m \<le> length a + 1" "length a \<le> 2 * m" using assms by auto
  have a: "length (fst (splitAt a m)) \<le> m" "length (snd (splitAt a m)) \<le> m"
    using length_splitAt[OF mm(1,2)] mm by auto
  have b: "length (fst (split_b b m)) \<le> length b \<and> length (snd (split_b b m)) \<le> length b"
    using length_splitAt[OF mm(1), of b] assms(1) mm by (cases "length b \<le> m") (auto simp: split_b_def)
  show "length (fst (splitAt a m)) + length (fst (split_b b m)) < length a + length b"
    "length (snd (splitAt a m)) + length (snd (split_b b m)) < length a + length b"
    using a b mm by linarith+
  have "length (naive_add (fst (splitAt a m)) (snd (splitAt a m))) \<le> Suc m"
    using length_naive_add[of "fst (splitAt a m)" "snd (splitAt a m)"] a by linarith
  moreover have "length (naive_add (fst (split_b b m)) (snd (split_b b m))) \<le> Suc (length b)"
    using length_naive_add[of "fst (split_b b m)" "snd (split_b b m)"] b by linarith
  ultimately show "length (naive_add (fst (splitAt a m)) (snd (splitAt a m)))
      + length (naive_add (fst (split_b b m)) (snd (split_b b m))) < length a + length b"
    using assms mm by linarith
qed

termination multiplyKaratsubaRecursive
proof (relation "measures [\<lambda>(a, b). length a + length b, \<lambda>(a, b). if length a < length b then 1 else 0]",
    goal_cases)
  case 1
  show ?case by simp
next
  case (2 a b)
  then show ?case by simp
qed (use kara_smaller in \<open>auto simp: KARATSUBA_THRESHOLD_def not_less\<close>)

declare multiplyKaratsubaRecursive.simps [simp del]

definition kara_multiply :: "digit list \<Rightarrow> digit list \<Rightarrow> error + digit list" where
  "kara_multiply a b = (if a = [] \<or> b = [] then Inr [0] else multiplyKaratsubaRecursive a b)"

section \<open>What the recursion computes\<close>

lemma splitAt_value:
  assumes "0 < m"
  shows "lval (fst (splitAt a m)) + radix ^ m * lval (snd (splitAt a m)) = lval a"
proof (cases "length a \<le> m")
  case False
  then show ?thesis using assms lval_take_drop[of a m] by (simp add: splitAt_def min_def)
qed (simp add: splitAt_def)

lemma split_b_value:
  "0 < m \<Longrightarrow> lval (fst (split_b b m)) + radix ^ m * lval (snd (split_b b m)) = lval b"
  by (simp add: split_b_def splitAt_value)

lemma splitAt_nonempty: "a \<noteq> [] \<Longrightarrow> fst (splitAt a m) \<noteq> []"
  by (simp add: splitAt_def)

lemma split_b_nonempty: "b \<noteq> [] \<Longrightarrow> fst (split_b b m) \<noteq> []"
  by (simp add: split_b_def splitAt_nonempty)

section \<open>Digits without carries\<close>

text \<open>The digits as natural numbers, the number with given digits, and the digits of a product before carrying.\<close>

definition dg :: "digit list \<Rightarrow> nat \<Rightarrow> nat" where
  "dg a k = (if k < length a then unat (a ! k) else 0)"

definition digit_value :: "nat \<Rightarrow> (nat \<Rightarrow> nat) \<Rightarrow> nat" where
  "digit_value n f = (\<Sum>k<n. f k * radix ^ k)"

definition convolution :: "(nat \<Rightarrow> nat) \<Rightarrow> (nat \<Rightarrow> nat) \<Rightarrow> nat \<Rightarrow> nat" where
  "convolution f g k = (\<Sum>i\<le>k. f i * g (k - i))"

definition digit_sum :: "digit list \<Rightarrow> nat" where
  "digit_sum a = sum_list (map unat a)"

lemma dg_simps [simp]: "dg [] k = 0" "dg (x # a) 0 = unat x" "dg (x # a) (Suc k) = dg a k"
  by (simp_all add: dg_def)

lemma lval_dg: "length a \<le> n \<Longrightarrow> lval a = digit_value n (dg a)"
proof (induction n arbitrary: a)
  case (Suc n)
  show ?case
  proof (cases a)
    case (Cons x b)
    then have "lval b = digit_value n (dg b)" using Suc by simp
    then show ?thesis
      by (simp add: Cons digit_value_def sum.lessThan_Suc_shift sum_distrib_left mult_ac del: sum.lessThan_Suc)
  qed (simp add: digit_value_def)
qed (simp add: digit_value_def)

lemma dg_lval: "dg a k = lval a div radix ^ k mod radix"
proof (induction a arbitrary: k)
  case (Cons x a)
  have x: "unat x < radix" using unsigned_less[of x] by (simp add: radix_def)
  show ?case
  proof (cases k)
    case (Suc j)
    have "lval (x # a) div radix ^ k = (unat x + radix * lval a) div radix div radix ^ j"
      by (simp add: Suc div_mult2_eq)
    also have "(unat x + radix * lval a) div radix = lval a" using x by simp
    finally show ?thesis using Cons Suc by simp
  qed (use x in simp)
qed simp

text \<open>A number has the digits it is the value of, when they are digits.\<close>

lemma dg_unique:
  assumes "lval z = digit_value n f" "\<And>k. f k < radix" "\<And>k. n \<le> k \<Longrightarrow> f k = 0"
  shows "dg z = f"
proof -
  define c where "c = (map (\<lambda>k. of_nat (f k)) [0..<n] :: digit list)"
  have "unat (of_nat (f k) :: digit) = f k" for k using assms(2)[of k] by (simp add: unat_of_nat radix_def)
  then have c: "dg c = f" using assms(3) by (auto simp: dg_def c_def not_less)
  have "lval c = lval z" using lval_dg[of c n] c assms(1) by (simp add: c_def)
  then show ?thesis using c by (simp add: fun_eq_iff dg_lval)
qed

lemma digit_value_add: "digit_value n (\<lambda>k. f k + g k) = digit_value n f + digit_value n g"
  by (simp add: digit_value_def distrib_right sum.distrib)

lemma lval_convolution: "length a + length b \<le> n \<Longrightarrow> digit_value n (convolution (dg a) (dg b)) = lval a * lval b"
proof (induction a arbitrary: n)
  case Nil
  then show ?case by (simp add: digit_value_def convolution_def)
next
  case (Cons x a)
  then obtain m where m: "n = Suc m" "length a + length b \<le> m" by (cases n) auto
  have c: "convolution (dg (x # a)) g 0 = unat x * g 0"
    "convolution (dg (x # a)) g (Suc k) = unat x * g (Suc k) + convolution (dg a) g k" for g k
    by (simp_all add: convolution_def sum.atMost_Suc_shift del: sum.atMost_Suc)
  have "digit_value n (convolution (dg (x # a)) (dg b))
    = unat x * digit_value n (dg b) + radix * digit_value m (convolution (dg a) (dg b))"
    unfolding digit_value_def m(1)
    by (simp add: c sum.lessThan_Suc_shift distrib_left distrib_right sum.distrib sum_distrib_left mult_ac del: sum.lessThan_Suc)
  then show ?case using Cons.IH[OF m(2)] lval_dg[of b n] Cons.prems by (simp add: algebra_simps)
qed

lemma digit_sum_dg: "length a \<le> n \<Longrightarrow> digit_sum a = (\<Sum>k<n. dg a k)"
proof (induction n arbitrary: a)
  case (Suc n)
  then show ?case by (cases a) (simp_all add: digit_sum_def sum.lessThan_Suc_shift del: sum.lessThan_Suc)
qed (simp add: digit_sum_def)

lemma dg_le_sum: "dg a k \<le> digit_sum a"
proof (cases "k < length a")
  case True
  then show ?thesis using digit_sum_dg[of a "length a"] member_le_sum[of k "{..<length a}" "dg a"] by simp
qed (simp add: dg_def)

lemma convolution_le: "convolution (dg a) (dg b) k \<le> digit_sum a * digit_sum b"
proof -
  have "convolution (dg a) (dg b) k \<le> (\<Sum>i\<le>k. dg a i * digit_sum b)"
    unfolding convolution_def by (intro sum_mono mult_left_mono dg_le_sum) simp
  also have "\<dots> = (\<Sum>i\<le>k. dg a i) * digit_sum b" by (simp add: sum_distrib_right)
  also have "(\<Sum>i\<le>k. dg a i) \<le> (\<Sum>i<length a + Suc k. dg a i)" by (intro sum_mono2) auto
  finally show ?thesis using digit_sum_dg[of a "length a + Suc k"] by (simp add: mult_right_mono)
qed

lemma convolution_zero: "length a + length b \<le> k \<Longrightarrow> convolution (dg a) (dg b) k = 0"
  by (auto simp: convolution_def dg_def)

lemma dg_product:
  assumes "lval z = lval a * lval b" "digit_sum a * digit_sum b < radix"
  shows "dg z = convolution (dg a) (dg b)"
  using assms le_less_trans[OF convolution_le] convolution_zero
  by (intro dg_unique[of _ "length a + length b"]) (auto simp: lval_convolution)

lemma dg_sum:
  assumes "lval z = lval a + lval b" "digit_sum a + digit_sum b < radix"
  shows "dg z = (\<lambda>k. dg a k + dg b k)"
proof (rule dg_unique)
  show "lval z = digit_value (max (length a) (length b)) (\<lambda>k. dg a k + dg b k)"
    by (simp add: assms(1) digit_value_add lval_dg[symmetric])
  show "dg a k + dg b k < radix" for k using dg_le_sum[of a k] dg_le_sum[of b k] assms(2) by linarith
qed (simp add: dg_def)

lemma digit_sum_add:
  assumes "lval z = lval a + lval b" "digit_sum a + digit_sum b < radix"
  shows "digit_sum z = digit_sum a + digit_sum b"
  using digit_sum_dg[of z "length z + length a + length b"] digit_sum_dg[of a "length z + length a + length b"]
    digit_sum_dg[of b "length z + length a + length b"]
  by (simp add: dg_sum[OF assms] sum.distrib)

text \<open>Where the digits of a vector in normal form are at most those of another, its subtraction does not borrow.\<close>

lemma dominates_dg:
  assumes "normal b" "a \<noteq> []" "\<And>k. dg b k \<le> dg a k"
  shows "dominates a b"
  unfolding dominates_def
proof
  show "length b \<le> length a"
  proof (cases "b = [0]")
    case False
    obtain c y where c: "b = c @ [y]" using assms(1) by (cases b rule: rev_cases) (auto simp: normal_def)
    then have "y \<noteq> 0" using assms(1) False by (auto simp: normal_def)
    then have "b ! (length b - 1) \<noteq> 0" "b \<noteq> []" by (simp_all add: c)
    then have "0 < dg b (length b - 1)" by (simp add: dg_def unat_gt_0)
    then have "0 < dg a (length b - 1)" using assms(3) by (rule less_le_trans)
    then show ?thesis by (auto simp: dg_def split: if_splits)
  qed (use assms(2) in \<open>simp add: Suc_le_eq\<close>)
  then have "unat (b ! i) \<le> unat (a ! i)" if "i < length b" for i using assms(3)[of i] that by (simp add: dg_def)
  then show "\<forall>i<length b. b ! i \<le> a ! i" by (simp add: word_le_nat_alt)
qed

lemma karatsuba_identity:
  fixes x0 x1 y0 y1 p :: nat
  shows "p * p * (x1 * y1) + p * ((x0 + x1) * (y0 + y1) - x0 * y0 - x1 * y1) + x0 * y0
    = (x0 + p * x1) * (y0 + p * y1)"
proof -
  have "(x0 + x1) * (y0 + y1) - x0 * y0 - x1 * y1 = x0 * y1 + x1 * y0"
    by (simp add: algebra_simps)
  then show ?thesis by (simp add: algebra_simps)
qed

section \<open>The recursion on operands without carries\<close>

lemma digit_sum_normalize [simp]: "digit_sum (normalize a) = digit_sum a"
proof -
  obtain n where n: "a = normalize a @ replicate n 0" using normalize_split by blast
  have "digit_sum (normalize a @ replicate n 0) = digit_sum (normalize a)" by (simp add: digit_sum_def sum_list_replicate)
  then show ?thesis using n by simp
qed

lemma splitAt_sum: "digit_sum (fst (splitAt a m)) + digit_sum (snd (splitAt a m)) = digit_sum a"
proof -
  have "digit_sum (take m a) + digit_sum (drop m a) = digit_sum a"
    by (simp add: digit_sum_def take_map[symmetric] drop_map[symmetric] sum_list_append[symmetric])
  then show ?thesis by (auto simp: splitAt_def) (auto simp: digit_sum_def)
qed

lemma split_b_sum: "digit_sum (fst (split_b b m)) + digit_sum (snd (split_b b m)) = digit_sum b"
  using splitAt_sum[of b m] by (auto simp: split_b_def digit_sum_def)

lemma convolution_add:
  "convolution (\<lambda>k. f k + f' k) (\<lambda>k. g k + g' k) k
    = convolution f g k + convolution f' g' k + (convolution f g' k + convolution f' g k)"
  by (simp add: convolution_def distrib_left distrib_right sum.distrib)

text \<open>The two subtractions of the middle term do not borrow: the digits of the product of the sums are those of the four products.\<close>

lemma factors_less:
  fixes x y :: nat
  assumes "x * y < n" "0 < x" "0 < y"
  shows "x < n" "y < n"
proof -
  have "x * 1 \<le> x * y" "1 * y \<le> x * y" using assms(2,3) by (intro mult_le_mono; simp)+
  then show "x < n" "y < n" using assms(1) by linarith+
qed

lemma middle_term_nonzero:
  assumes z: "normal z0" "normal z1" "normal z2"
    and v: "lval z0 = lval a0 * lval b0" "lval z2 = lval a1 * lval b1" "lval z1 = lval sa * lval sb"
    and s: "lval sa = lval a0 + lval a1" "lval sb = lval b0 + lval b1"
    and d: "(digit_sum a0 + digit_sum a1) * (digit_sum b0 + digit_sum b1) < radix"
    and pos: "0 < digit_sum a0 + digit_sum a1" "0 < digit_sum b0 + digit_sum b1"
  shows "\<exists>w v. naive_subtract z1 z0 = Inr w \<and> naive_subtract w z2 = Inr v
    \<and> lval v = lval z1 - lval z0 - lval z2"
proof -
  have le: "x * y \<le> (x + x') * (y + y')" "x' * y' \<le> (x + x') * (y + y')" for x y x' y' :: nat
    by (simp_all add: mult_le_mono)
  note sums = factors_less[OF d pos]
  note S = dg_sum[OF s(1) sums(1)] dg_sum[OF s(2) sums(2)] digit_sum_add[OF s(1) sums(1)] digit_sum_add[OF s(2) sums(2)]
  have d0: "dg z0 = convolution (dg a0) (dg b0)" using v(1) le_less_trans[OF le(1) d] by (rule dg_product)
  have d2: "dg z2 = convolution (dg a1) (dg b1)" using v(2) le_less_trans[OF le(2) d] by (rule dg_product)
  have "dg z1 = convolution (dg sa) (dg sb)" using v(3) d by (intro dg_product) (simp_all add: S)
  then have d1: "dg z1 k = dg z0 k + dg z2 k + (convolution (dg a0) (dg b1) k + convolution (dg a1) (dg b0) k)" for k
    by (simp add: S convolution_add d0 d2)
  have "dominates z1 z0" using z by (intro dominates_dg) (auto simp: d1 normal_def)
  then obtain w where w: "naive_subtract z1 z0 = Inr w" "normal w" "lval w + lval z0 = lval z1"
    using naive_subtract_dominated[of z1 z0] z(2) by (auto simp: normal_def)
  define n where "n = length z0 + length z1"
  have "lval z1 = digit_value n (dg z1)" "lval z0 = digit_value n (dg z0)" by (simp_all add: lval_dg n_def)
  moreover have "digit_value n (dg z1) = digit_value n (\<lambda>k. dg z1 k - dg z0 k) + digit_value n (dg z0)"
    unfolding digit_value_add[symmetric] by (rule arg_cong[of _ _ "digit_value n"]) (simp add: d1 fun_eq_iff)
  ultimately have lw: "lval w = digit_value n (\<lambda>k. dg z1 k - dg z0 k)" using w(3) by linarith
  have "dg z1 k < radix" for k using dg_lval[of z1 k] radix_pos by (simp del: radix_pos)
  then have "dg w = (\<lambda>k. dg z1 k - dg z0 k)"
    using lw by (intro dg_unique) (auto simp: n_def dg_def intro: le_less_trans[OF diff_le_self])
  then have "dominates w z2" using z w(2) by (intro dominates_dg) (auto simp: d1 normal_def)
  then obtain v where "naive_subtract w z2 = Inr v" "lval v + lval z2 = lval w"
    using naive_subtract_dominated[of w z2] w(2) by (auto simp: normal_def)
  then show ?thesis using w by (intro exI[of _ w] exI[of _ v]) simp
qed

lemma digit_sum_0: "digit_sum a = 0 \<longleftrightarrow> lval a = 0"
  by (induction a) (simp_all add: digit_sum_def unat_eq_0)

lemma middle_term:
  assumes z: "normal z0" "normal z1" "normal z2"
    and v: "lval z0 = lval a0 * lval b0" "lval z2 = lval a1 * lval b1" "lval z1 = lval sa * lval sb"
    and s: "lval sa = lval a0 + lval a1" "lval sb = lval b0 + lval b1"
    and d: "(digit_sum a0 + digit_sum a1) * (digit_sum b0 + digit_sum b1) < radix"
  shows "\<exists>w v. naive_subtract z1 z0 = Inr w \<and> naive_subtract w z2 = Inr v
    \<and> lval v = lval z1 - lval z0 - lval z2"
proof (cases "digit_sum a0 + digit_sum a1 = 0 \<or> digit_sum b0 + digit_sum b1 = 0")
  case True
  then have "lval z0 = 0" "lval z1 = 0" "lval z2 = 0" using v s by (auto simp: digit_sum_0)
  then have "z0 = [0]" "z1 = [0]" "z2 = [0]" using z normal_zero by blast+
  moreover have "naive_subtract [0] [0] = Inr [0]" by code_simp
  ultimately show ?thesis by simp
next
  case False
  then show ?thesis using middle_term_nonzero[OF assms] by simp
qed

lemma sums_product:
  assumes s: "lval sa = lval a0 + lval a1" "lval sb = lval b0 + lval b1"
    and d: "(digit_sum a0 + digit_sum a1) * (digit_sum b0 + digit_sum b1) < radix"
  shows "digit_sum sa * digit_sum sb < radix"
proof (cases "digit_sum a0 + digit_sum a1 = 0 \<or> digit_sum b0 + digit_sum b1 = 0")
  case True
  then have "lval sa = 0 \<or> lval sb = 0" using s by (auto simp: digit_sum_0)
  then have "digit_sum sa * digit_sum sb = 0" by (auto simp: digit_sum_0)
  then show ?thesis using radix_pos by (simp only:)
next
  case False
  then show ?thesis using d digit_sum_add[OF s(1)] digit_sum_add[OF s(2)] factors_less[OF d] by simp
qed

lemma karatsuba_rec_exact:
  shows "a \<noteq> [] \<Longrightarrow> b \<noteq> [] \<Longrightarrow> digit_sum a * digit_sum b < radix \<Longrightarrow>
    \<exists>r. multiplyKaratsubaRecursive a b = Inr r \<and> normal r \<and> lval r = lval a * lval b"
proof (induction "length a + length b" arbitrary: a b rule: less_induct)
  case less
  have main: "\<exists>r. multiplyKaratsubaRecursive a b = Inr r \<and> normal r \<and> lval r = lval a * lval b"
    if ab: "a \<noteq> []" "b \<noteq> []" "\<not> length a < length b" and d: "digit_sum a * digit_sum b < radix" and hyp: "length a + length b = N"
      and IH: "\<And>x y. length x + length y < N \<Longrightarrow> x \<noteq> [] \<Longrightarrow> y \<noteq> [] \<Longrightarrow>
        digit_sum x * digit_sum y < radix \<Longrightarrow> \<exists>r. multiplyKaratsubaRecursive x y = Inr r \<and> normal r \<and> lval r = lval x * lval y" for a b N
  proof (cases "length a < KARATSUBA_THRESHOLD \<or> length b < KARATSUBA_THRESHOLD")
    case True
    then show ?thesis by (subst multiplyKaratsubaRecursive.simps) simp
  next
    case False
    define m where "m = (length a + 1) div 2"
    have mS: "Suc (length a) div 2 = m" by (simp add: m_def)
    define a0 a1 b0 b1 where defs: "a0 = fst (splitAt a m)" "a1 = snd (splitAt a m)"
      "b0 = fst (split_b b m)" "b1 = snd (split_b b m)"
    have big: "50 \<le> length b" "length b \<le> length a" using False ab by (auto simp: KARATSUBA_THRESHOLD_def)
    have m: "0 < m" "m < length a" using big by (auto simp: m_def)
    note small = kara_smaller[OF big m_def, folded defs]
    have ne: "a0 \<noteq> []" "b0 \<noteq> []" "a1 \<noteq> []" "b1 \<noteq> []"
      using splitAt_nonempty[OF ab(1)] split_b_nonempty[OF ab(2)] m ab
      by (auto simp: defs splitAt_def split_b_def)
    have va: "lval a = lval a0 + radix ^ m * lval a1" and vb: "lval b = lval b0 + radix ^ m * lval b1"
      using splitAt_value[OF m(1)] split_b_value[OF m(1)] by (simp_all add: defs)
    have sums: "naive_add a0 a1 \<noteq> []" "naive_add b0 b1 \<noteq> []"
      using normal_naive_add ne by (auto simp: normal_def)
    have da: "digit_sum a0 + digit_sum a1 = digit_sum a" and db: "digit_sum b0 + digit_sum b1 = digit_sum b"
      by (simp_all add: defs splitAt_sum split_b_sum)
    have le: "digit_sum a0 * digit_sum b0 < radix" "digit_sum a1 * digit_sum b1 < radix"
      using d le_less_trans[OF mult_le_mono] da db by (metis le_add1 le_add2)+
    have ds: "digit_sum (naive_add a0 a1) * digit_sum (naive_add b0 b1) < radix"
      using d da db by (intro sums_product[of _ a0 a1 _ b0 b1]) simp_all
    obtain z0 where z0: "multiplyKaratsubaRecursive a0 b0 = Inr z0" "normal z0" "lval z0 = lval a0 * lval b0"
      using IH[OF _ ne(1,2) le(1)] small(1) hyp by auto
    obtain z2 where z2: "multiplyKaratsubaRecursive a1 b1 = Inr z2" "normal z2" "lval z2 = lval a1 * lval b1"
      using IH[OF _ ne(3,4) le(2)] small(2) hyp by auto
    obtain z1 where z1: "multiplyKaratsubaRecursive (naive_add a0 a1) (naive_add b0 b1) = Inr z1" "normal z1"
      "lval z1 = lval (naive_add a0 a1) * lval (naive_add b0 b1)"
      using IH[OF _ sums ds] small(3) hyp by auto
    obtain w v where w: "naive_subtract z1 z0 = Inr w" "naive_subtract w z2 = Inr v" "lval v = lval z1 - lval z0 - lval z2"
      using middle_term[OF z0(2) z1(2) z2(2) z0(3) z2(3) z1(3)] d da db by auto
    define result where "result = normalize (naive_add (naive_add (replicate (2 * m) 0 @ z2) (replicate m 0 @ v)) z0)"
    have "multiplyKaratsubaRecursive a b = Inr result"
      using False ab(3) z0(1) z1(1) z2(1) w(1,2)
      by (subst multiplyKaratsubaRecursive.simps) (simp add: Let_def mS defs[symmetric] result_def)
    moreover have "normal result"
    proof -
      have "replicate (2 * m) 0 @ z2 \<noteq> []" using z2(2) by (simp add: normal_def)
      from normal_naive_add[OF this] have "naive_add (replicate (2 * m) 0 @ z2) (replicate m 0 @ v) \<noteq> []"
        by (simp add: normal_def)
      from normal_naive_add[OF this] show ?thesis by (simp add: result_def)
    qed
    moreover have "lval result = lval a * lval b"
    proof -
      have "lval result = radix ^ m * radix ^ m * lval z2 + radix ^ m * lval v + lval z0"
        by (simp add: result_def lval_shift mult_2 power_add)
      also have "\<dots> = lval a * lval b"
        unfolding va vb w(3) z1(3) z0(3) z2(3) lval_naive_add by (rule karatsuba_identity)
      finally show ?thesis .
    qed
    ultimately show ?thesis by blast
  qed
  show ?case
  proof (cases "length a < length b")
    case False
    then show ?thesis using main[of a b "length a + length b"] less by blast
  next
    case True
    show ?thesis
    proof (cases "length a < KARATSUBA_THRESHOLD \<or> length b < KARATSUBA_THRESHOLD")
      case small: True
      then show ?thesis by (subst multiplyKaratsubaRecursive.simps) simp
    next
      case False
      then have "multiplyKaratsubaRecursive a b = multiplyKaratsubaRecursive b a" using True by (subst multiplyKaratsubaRecursive.simps) simp
      then show ?thesis using main[of b a "length a + length b"] less True by (simp add: mult.commute)
    qed
  qed
qed

lemma kara_multiply_small:
  assumes "length a < 50 \<or> length b < 50"
  shows "kara_multiply a b = Inr (naive_multiply a b)"
proof (cases "a = [] \<or> b = []")
  case True
  then show ?thesis by (auto simp: kara_multiply_def naive_multiply_def)
next
  case False
  then show ?thesis using assms
    by (simp add: kara_multiply_def multiplyKaratsubaRecursive.simps[of a b] KARATSUBA_THRESHOLD_def)
qed

section \<open>Properties\<close>

text \<open>Below the threshold on either side Karatsuba is the naive multiplication, so it is exact.\<close>

theorem karatsuba_below_threshold:
  assumes "length a < 50 \<or> length b < 50"
  shows "kara_multiply a b = Inr (naive_multiply a b) \<and> lval (naive_multiply a b) = lval a * lval b"
  using kara_multiply_small[OF assms] by simp

lemma karatsuba_below_threshold_witness: "kara_multiply [3, 4] [5] = Inr (naive_multiply [3, 4] [5])"
  using karatsuba_below_threshold[of "[3, 4]" "[5]"] by simp

text \<open>C14: multiplication by Karatsuba's method ends and is exact, above the threshold too, where the sums of the digits of the two
  operands multiply to less than the radix (so that no carry arises and the subtractions of the middle term do not borrow).\<close>

theorem karatsuba_exact:
  assumes "a \<noteq> []" "b \<noteq> []" "digit_sum a * digit_sum b < radix"
  shows "\<exists>r. multiplyKaratsubaRecursive a b = Inr r \<and> normal r \<and> lval r = lval a * lval b"
  by (rule karatsuba_rec_exact[OF assms])

lemma karatsuba_exact_witness:
  "\<exists>r. multiplyKaratsubaRecursive (replicate 60 7) (replicate 55 9) = Inr r
    \<and> lval r = lval (replicate 60 7) * lval (replicate 55 9)"
proof -
  have "replicate 60 (7 :: digit) \<noteq> []" "replicate 55 (9 :: digit) \<noteq> []" by (simp_all del: replicate.simps)
  moreover have "digit_sum (replicate 60 7) * digit_sum (replicate 55 9) < radix"
    by (simp add: digit_sum_def sum_list_replicate radix_def del: replicate.simps)
  ultimately show ?thesis using karatsuba_exact by blast
qed

end
