(* ===== verification/NumberCore.thy ===== *)
theory NumberCore
  imports Karatsuba
begin

unbundle bit_operations_syntax

text \<open>
  The orchestrator of \<open>cpp/lib/bign/BigNumberCore.h\<close> and \<open>.cpp\<close> over the interface \<open>IBigNumber\<close>: a
  number is a digit vector with a pointer to one of the implementations. The locale
  \<open>big_number\<close> states what a client may rely on, and both implementations are shown to provide it.
\<close>

section \<open>The interface\<close>

text \<open>
  The laws are about vectors in normal form. Multiplication is promised for operands of which one has
  less than 50 digits, subtraction where no digit needs a borrow, as those are the ranges in which both
  implementations keep the promise.
\<close>

locale big_number =
  fixes add :: "digit list \<Rightarrow> digit list \<Rightarrow> digit list"
    and subtract :: "digit list \<Rightarrow> digit list \<Rightarrow> error + digit list"
    and multiply :: "digit list \<Rightarrow> digit list \<Rightarrow> error + digit list"
    and divide :: "digit list \<Rightarrow> digit list \<Rightarrow> error + digit list \<times> digit list"
    and compare :: "digit list \<Rightarrow> digit list \<Rightarrow> int"
  assumes add_value: "lval (add a b) = lval a + lval b"
    and add_normal: "normal a \<Longrightarrow> normal (add a b)"
    and subtract_bound: "subtract a b = Inr r \<Longrightarrow> lval r + lval b \<le> lval a"
    and subtract_normal: "subtract a b = Inr r \<Longrightarrow> normal a \<Longrightarrow> normal r"
    and subtract_exact: "normal a \<Longrightarrow> dominates a b \<Longrightarrow> \<exists>r. subtract a b = Inr r \<and> lval r + lval b = lval a"
    and multiply_value: "length a < 50 \<or> length b < 50 \<Longrightarrow>
      \<exists>r. multiply a b = Inr r \<and> normal r \<and> lval r = lval a * lval b"
    and divide_bound: "divide a b = Inr (q, r) \<Longrightarrow> lval q * lval b + lval r \<le> lval a"
    and divide_normal: "divide a b = Inr (q, r) \<Longrightarrow> normal a \<Longrightarrow> normal b \<Longrightarrow> normal q \<and> normal r"
    and compare_value: "normal a \<Longrightarrow> normal b \<Longrightarrow>
      compare a b = (if lval a < lval b then -1 else if lval b < lval a then 1 else 0)"
begin

lemma add_commute: "normal a \<Longrightarrow> normal b \<Longrightarrow> add a b = add b a"
  by (rule normal_lval_inj) (simp_all add: add_normal add_value)

lemma add_assoc: "normal a \<Longrightarrow> normal b \<Longrightarrow> add (add a b) c = add a (add b c)"
  by (rule normal_lval_inj) (simp_all add: add_normal add_value)

lemma multiply_commute:
  assumes "length a < 50 \<or> length b < 50"
  shows "multiply a b = multiply b a"
proof -
  obtain r s where "multiply a b = Inr r" "multiply b a = Inr s" "normal r" "normal s"
    "lval r = lval a * lval b" "lval s = lval b * lval a"
    using multiply_value[OF assms] multiply_value[of b a] assms by blast
  then show ?thesis using normal_lval_inj[of r s] by simp
qed

lemma multiply_add_distrib:
  assumes "normal a" "normal b" "length c < 50"
  shows "rbind (multiply a c) (\<lambda>x. rbind (multiply b c) (\<lambda>y. Inr (add x y))) = multiply (add a b) c"
proof -
  obtain x y z where xyz: "multiply a c = Inr x" "normal x" "lval x = lval a * lval c"
    "multiply b c = Inr y" "lval y = lval b * lval c"
    "multiply (add a b) c = Inr z" "normal z" "lval z = lval (add a b) * lval c"
    using multiply_value[of a c] multiply_value[of b c] multiply_value[of "add a b" c] assms(3) by blast
  have "add x y = z"
    by (rule normal_lval_inj) (simp_all add: xyz add_normal add_value algebra_simps)
  then show ?thesis by (simp add: xyz)
qed

lemma add_then_subtract:
  assumes "normal a" "normal b" "dominates (add a b) b"
  shows "subtract (add a b) b = Inr a"
proof -
  obtain r where r: "subtract (add a b) b = Inr r" "lval r + lval b = lval (add a b)"
    using subtract_exact[of "add a b" b] add_normal[OF assms(1)] assms(3) by blast
  have "normal r" using subtract_normal[OF r(1) add_normal[OF assms(1)]] .
  then show ?thesis using r normal_lval_inj[of r a] assms(1) by (simp add: add_value)
qed

lemma subtract_underflow: "lval a < lval b \<Longrightarrow> \<nexists>r. subtract a b = Inr r"
  using subtract_bound by fastforce

lemma compare_zero: "normal a \<Longrightarrow> normal b \<Longrightarrow> compare a b = 0 \<longleftrightarrow> a = b"
  using normal_lval_inj by (auto simp: compare_value)

lemma compare_antisym: "normal a \<Longrightarrow> normal b \<Longrightarrow> compare b a = - compare a b"
  by (simp add: compare_value)

lemma compare_add: "normal a \<Longrightarrow> normal b \<Longrightarrow> normal c \<Longrightarrow> compare (add a c) (add b c) = compare a b"
  by (simp add: compare_value add_normal add_value)

end

section \<open>The two implementations\<close>

text \<open>Karatsuba delegates everything but multiplication.\<close>

definition kara_add :: "digit list \<Rightarrow> digit list \<Rightarrow> digit list" where
  "kara_add a b = naive_add a b"

definition kara_subtract :: "digit list \<Rightarrow> digit list \<Rightarrow> error + digit list" where
  "kara_subtract a b = naive_subtract a b"

definition kara_divide :: "digit list \<Rightarrow> digit list \<Rightarrow> error + digit list \<times> digit list" where
  "kara_divide a b = naive_divide a b"

definition kara_compare :: "digit list \<Rightarrow> digit list \<Rightarrow> int" where
  "kara_compare a b = naive_compare a b"

definition kara_bitwiseAnd :: "digit list \<Rightarrow> digit list \<Rightarrow> digit list" where
  "kara_bitwiseAnd a b = naive_bitwiseAnd a b"

definition kara_bitwiseOr :: "digit list \<Rightarrow> digit list \<Rightarrow> digit list" where
  "kara_bitwiseOr a b = naive_bitwiseOr a b"

definition kara_bitwiseXor :: "digit list \<Rightarrow> digit list \<Rightarrow> digit list" where
  "kara_bitwiseXor a b = naive_bitwiseXor a b"

definition kara_bitwiseNot :: "digit list \<Rightarrow> digit list" where
  "kara_bitwiseNot a = naive_bitwiseNot a"

definition kara_shiftLeft :: "digit list \<Rightarrow> int \<Rightarrow> error + digit list" where
  "kara_shiftLeft a bits = naive_shiftLeft a bits"

definition kara_shiftRight :: "digit list \<Rightarrow> int \<Rightarrow> error + digit list" where
  "kara_shiftRight a bits = naive_shiftRight a bits"

lemmas kara_delegates = kara_add_def kara_subtract_def kara_divide_def kara_compare_def kara_bitwiseAnd_def
  kara_bitwiseOr_def kara_bitwiseXor_def kara_bitwiseNot_def kara_shiftLeft_def kara_shiftRight_def

definition naive_multiply_call :: "digit list \<Rightarrow> digit list \<Rightarrow> error + digit list" where
  "naive_multiply_call a b = Inr (naive_multiply a b)"

lemma normal_not_Nil: "normal a \<Longrightarrow> a \<noteq> []"
  by (simp add: normal_def)

lemma naive_subtract_normal: "naive_subtract a b = Inr r \<Longrightarrow> normal a \<Longrightarrow> normal r"
  using normal_naive_subtract normal_not_Nil by blast

lemma naive_subtract_exact:
  "normal a \<Longrightarrow> dominates a b \<Longrightarrow> \<exists>r. naive_subtract a b = Inr r \<and> lval r + lval b = lval a"
  using naive_subtract_dominated normal_not_Nil by blast

interpretation naive: big_number naive_add naive_subtract naive_multiply_call naive_divide naive_compare
  by unfold_locales
    (auto simp: naive_multiply_call_def naive_compare_value normal_not_Nil
      intro: naive_subtract_le naive_divide_le naive_subtract_normal naive_subtract_exact
      dest: normal_naive_divide)

interpretation karatsuba: big_number kara_add kara_subtract kara_multiply kara_divide kara_compare
  by unfold_locales
    (auto simp: kara_delegates kara_multiply_small naive_compare_value normal_not_Nil
      intro: naive_subtract_le naive_divide_le naive_subtract_normal naive_subtract_exact
      dest: normal_naive_divide)

section \<open>The orchestrator\<close>

datatype BigImpl = BIG_AUTO | BIG_NAIVE | BIG_KARATSUBA

text \<open>The two alternatives of \<open>BigNumVariant\<close>; \<open>None\<close> in a number is the null pointer that moving
  from it leaves.\<close>

datatype impl = Naive | Karatsuba

record core =
  impl_ptr :: "impl option"
  active_type :: BigImpl
  digits :: "digit list"

definition available :: "impl \<Rightarrow> bool" where
  "available i = True"

definition createBest :: impl where
  "createBest = (if available Karatsuba then Karatsuba else Naive)"

definition create :: "BigImpl \<Rightarrow> impl" where
  "create t = (case t of BIG_AUTO \<Rightarrow> createBest | BIG_NAIVE \<Rightarrow> Naive | BIG_KARATSUBA \<Rightarrow> Karatsuba)"

definition core_new :: core where
  "core_new = \<lparr>impl_ptr = Some createBest, active_type = BIG_AUTO, digits = [0]\<rparr>"

definition core_new_type :: "BigImpl \<Rightarrow> core" where
  "core_new_type t = \<lparr>impl_ptr = Some (create t), active_type = t, digits = [0]\<rparr>"

definition core_copy :: "core \<Rightarrow> core" where
  "core_copy other = \<lparr>impl_ptr = Some (create (active_type other)), active_type = active_type other,
     digits = digits other\<rparr>"

text \<open>Moving returns the new number and what is left of the old one.\<close>

definition core_move :: "core \<Rightarrow> core \<times> core" where
  "core_move other = (other, \<lparr>impl_ptr = None, active_type = BIG_AUTO, digits = [0]\<rparr>)"

definition setImplementation :: "BigImpl \<Rightarrow> core \<Rightarrow> core" where
  "setImplementation t c = c\<lparr>impl_ptr := Some (create t), active_type := t\<rparr>"

definition getImplementationName :: "core \<Rightarrow> string" where
  "getImplementationName c = (case impl_ptr c of None \<Rightarrow> ''Unknown''
     | Some Naive \<Rightarrow> ''BigNumberNaive'' | Some Karatsuba \<Rightarrow> ''BigNumberKaratsuba'')"

text \<open>\<open>visitImpl\<close>: nothing is done through a null pointer.\<close>

definition visitImpl :: "(impl \<Rightarrow> core \<Rightarrow> error + core) \<Rightarrow> core \<Rightarrow> error + core" where
  "visitImpl op c = (case impl_ptr c of None \<Rightarrow> Inr c | Some i \<Rightarrow> op i c)"

definition put_digits :: "core \<Rightarrow> error + digit list \<Rightarrow> error + core" where
  "put_digits c r = rbind r (\<lambda>ds. Inr (c\<lparr>digits := ds\<rparr>))"

definition core_add :: "core \<Rightarrow> core \<Rightarrow> error + core" where
  "core_add c n = visitImpl (\<lambda>i c. put_digits c (case i of
     Naive \<Rightarrow> Inr (naive_add (digits c) (digits n)) | Karatsuba \<Rightarrow> Inr (kara_add (digits c) (digits n)))) c"

definition core_subtract :: "core \<Rightarrow> core \<Rightarrow> error + core" where
  "core_subtract c n = visitImpl (\<lambda>i c. put_digits c (case i of
     Naive \<Rightarrow> naive_subtract (digits c) (digits n) | Karatsuba \<Rightarrow> kara_subtract (digits c) (digits n))) c"

definition core_multiply :: "core \<Rightarrow> core \<Rightarrow> error + core" where
  "core_multiply c n = visitImpl (\<lambda>i c. put_digits c (case i of
     Naive \<Rightarrow> naive_multiply_call (digits c) (digits n) | Karatsuba \<Rightarrow> kara_multiply (digits c) (digits n))) c"

text \<open>\<open>divide\<close> writes into two further numbers, given and returned as they are.\<close>

definition core_divide :: "core \<Rightarrow> core \<Rightarrow> core \<Rightarrow> core \<Rightarrow> error + core \<times> core" where
  "core_divide c n quot rmd = (case impl_ptr c of None \<Rightarrow> Inr (quot, rmd)
     | Some i \<Rightarrow> rbind (case i of Naive \<Rightarrow> naive_divide (digits c) (digits n)
         | Karatsuba \<Rightarrow> kara_divide (digits c) (digits n))
       (\<lambda>(q, r). Inr (quot\<lparr>digits := q\<rparr>, rmd\<lparr>digits := r\<rparr>)))"

definition core_compare :: "core \<Rightarrow> core \<Rightarrow> int" where
  "core_compare c n = (case impl_ptr c of None \<Rightarrow> 0
     | Some Naive \<Rightarrow> naive_compare (digits c) (digits n)
     | Some Karatsuba \<Rightarrow> kara_compare (digits c) (digits n))"

definition core_bitwiseAnd :: "core \<Rightarrow> core \<Rightarrow> error + core" where
  "core_bitwiseAnd c n = visitImpl (\<lambda>i c. put_digits c (case i of
     Naive \<Rightarrow> Inr (naive_bitwiseAnd (digits c) (digits n)) | Karatsuba \<Rightarrow> Inr (kara_bitwiseAnd (digits c) (digits n)))) c"

definition core_bitwiseOr :: "core \<Rightarrow> core \<Rightarrow> error + core" where
  "core_bitwiseOr c n = visitImpl (\<lambda>i c. put_digits c (case i of
     Naive \<Rightarrow> Inr (naive_bitwiseOr (digits c) (digits n)) | Karatsuba \<Rightarrow> Inr (kara_bitwiseOr (digits c) (digits n)))) c"

definition core_bitwiseXor :: "core \<Rightarrow> core \<Rightarrow> error + core" where
  "core_bitwiseXor c n = visitImpl (\<lambda>i c. put_digits c (case i of
     Naive \<Rightarrow> Inr (naive_bitwiseXor (digits c) (digits n)) | Karatsuba \<Rightarrow> Inr (kara_bitwiseXor (digits c) (digits n)))) c"

definition core_bitwiseNot :: "core \<Rightarrow> error + core" where
  "core_bitwiseNot c = visitImpl (\<lambda>i c. put_digits c (case i of
     Naive \<Rightarrow> Inr (naive_bitwiseNot (digits c)) | Karatsuba \<Rightarrow> Inr (kara_bitwiseNot (digits c)))) c"

definition core_shiftLeft :: "core \<Rightarrow> int \<Rightarrow> error + core" where
  "core_shiftLeft c bits = visitImpl (\<lambda>i c. put_digits c (case i of
     Naive \<Rightarrow> naive_shiftLeft (digits c) bits | Karatsuba \<Rightarrow> kara_shiftLeft (digits c) bits)) c"

definition core_shiftRight :: "core \<Rightarrow> int \<Rightarrow> error + core" where
  "core_shiftRight c bits = visitImpl (\<lambda>i c. put_digits c (case i of
     Naive \<Rightarrow> naive_shiftRight (digits c) bits | Karatsuba \<Rightarrow> kara_shiftRight (digits c) bits)) c"

definition core_isZero :: "core \<Rightarrow> bool" where
  "core_isZero c \<longleftrightarrow> digits c = [] \<or> length (digits c) = 1 \<and> digits c ! 0 = 0"

definition core_isOne :: "core \<Rightarrow> bool" where
  "core_isOne c \<longleftrightarrow> length (digits c) = 1 \<and> digits c ! 0 = 1"

definition core_size :: "core \<Rightarrow> nat" where
  "core_size c = length (digits c)"

lemmas core_ops = core_add_def core_subtract_def core_multiply_def core_divide_def core_compare_def
  core_bitwiseAnd_def core_bitwiseOr_def core_bitwiseXor_def core_bitwiseNot_def core_shiftLeft_def
  core_shiftRight_def visitImpl_def put_digits_def kara_delegates

text \<open>A number that can be used: it has an implementation and digits in normal form.\<close>

definition core_ok :: "core \<Rightarrow> bool" where
  "core_ok c \<longleftrightarrow> impl_ptr c \<noteq> None \<and> normal (digits c)"

lemma core_new_ok: "core_ok core_new" "core_ok (core_new_type t)" "core_ok c \<Longrightarrow> core_ok (core_copy c)"
  "core_ok c \<Longrightarrow> core_ok (setImplementation t c)" "core_ok c \<Longrightarrow> core_ok (fst (core_move c))"
  by (simp_all add: core_ok_def core_new_def core_new_type_def core_copy_def setImplementation_def
    core_move_def normal_def)

lemma karatsuba_rec_normal:
  assumes "multiplyKaratsubaRecursive a b = Inr r"
  shows "normal r"
proof -
  have main: "normal r" if nl: "\<not> length x < length y" and st: "multiplyKaratsubaRecursive x y = Inr r" for x y
  proof (cases "length x < KARATSUBA_THRESHOLD \<or> length y < KARATSUBA_THRESHOLD")
    case True
    then show ?thesis using st by (subst (asm) multiplyKaratsubaRecursive.simps) auto
  next
    case False
    define m where "m = (length x + 1) div 2"
    have m: "0 < m" using False by (auto simp: m_def KARATSUBA_THRESHOLD_def)
    obtain z2 z1 z0 where r: "r = normalize (naive_add (naive_add (replicate (2 * m) 0 @ z2) z1) z0)"
      using st by (subst (asm) multiplyKaratsubaRecursive.simps) (use nl False in \<open>auto simp: Let_def m_def\<close>)
    have "replicate (2 * m) 0 @ z2 \<noteq> []" using m by simp
    from normal_naive_add[OF this] have "naive_add (replicate (2 * m) 0 @ z2) z1 \<noteq> []" by (simp add: normal_def)
    from normal_naive_add[OF this] show ?thesis by (simp add: r)
  qed
  show ?thesis
  proof (cases "length a < length b")
    case True
    show ?thesis
    proof (cases "length a < KARATSUBA_THRESHOLD \<or> length b < KARATSUBA_THRESHOLD")
      case True
      then show ?thesis using assms by (subst (asm) multiplyKaratsubaRecursive.simps) auto
    next
      case False
      then have "multiplyKaratsubaRecursive b a = Inr r" using assms True by (subst (asm) multiplyKaratsubaRecursive.simps) simp
      then show ?thesis using main[of b a] True by simp
    qed
  qed (use main[of a b] assms in simp)
qed

lemma normal_kara_multiply: "kara_multiply a b = Inr r \<Longrightarrow> normal r"
  by (auto simp: kara_multiply_def normal_def[of "[0]"]
    split: if_splits dest: karatsuba_rec_normal)

lemma core_multiply_ok: "core_multiply c n = Inr r \<Longrightarrow> core_ok c \<Longrightarrow> core_ok r"
  using normal_kara_multiply[of "digits c" "digits n"]
  by (cases "the (impl_ptr c)") (auto simp: core_ops core_ok_def naive_multiply_call_def)

lemma core_add_ok: "core_add c n = Inr r \<Longrightarrow> core_ok c \<Longrightarrow> core_ok r"
  by (cases "the (impl_ptr c)") (auto simp: core_ops core_ok_def normal_not_Nil)

lemma core_subtract_ok: "core_subtract c n = Inr r \<Longrightarrow> core_ok c \<Longrightarrow> core_ok r"
  using naive_subtract_normal[of "digits c" "digits n"]
  by (cases "the (impl_ptr c)") (auto simp: core_ops core_ok_def)

lemma core_bitwise_ok:
  "core_bitwiseAnd c n = Inr r \<Longrightarrow> core_ok c \<Longrightarrow> core_ok r" "core_bitwiseOr c n = Inr r \<Longrightarrow> core_ok c \<Longrightarrow> core_ok r"
  "core_bitwiseXor c n = Inr r \<Longrightarrow> core_ok c \<Longrightarrow> core_ok r" "core_bitwiseNot c = Inr r \<Longrightarrow> core_ok c \<Longrightarrow> core_ok r"
  by (cases "the (impl_ptr c)"; auto simp: core_ops core_ok_def normal_not_Nil normal_naive_bitwise)+

lemma core_shift_ok:
  "core_shiftLeft c k = Inr r \<Longrightarrow> core_ok c \<Longrightarrow> core_ok r" "core_shiftRight c k = Inr r \<Longrightarrow> core_ok c \<Longrightarrow> core_ok r"
  by (cases "the (impl_ptr c)"; auto simp: core_ops core_ok_def
    intro: normal_naive_shiftLeft normal_naive_shiftRight)+

lemma core_divide_ok:
  "core_divide c n q0 r0 = Inr (q, r) \<Longrightarrow> core_ok c \<Longrightarrow> core_ok n \<Longrightarrow> core_ok q0 \<Longrightarrow> core_ok r0 \<Longrightarrow>
    core_ok q \<and> core_ok r"
  using normal_naive_divide[of "digits c" "digits n"]
  by (cases "the (impl_ptr c)") (auto simp: core_ops core_ok_def)

text \<open>The digits a call leaves behind.\<close>

definition result_digits :: "error + core \<Rightarrow> error + digit list" where
  "result_digits r = rbind r (\<lambda>c. Inr (digits c))"

section \<open>Properties\<close>

text \<open>Numbers stay usable and in normal form under every operation.\<close>

theorem core_ops_preserve_normal:
  assumes "core_ok c" "core_ok n"
  shows "(core_add c n = Inr r \<longrightarrow> core_ok r) \<and> (core_subtract c n = Inr r \<longrightarrow> core_ok r)
    \<and> (core_multiply c n = Inr r \<longrightarrow> core_ok r)
    \<and> (core_bitwiseAnd c n = Inr r \<longrightarrow> core_ok r) \<and> (core_bitwiseOr c n = Inr r \<longrightarrow> core_ok r)
    \<and> (core_bitwiseXor c n = Inr r \<longrightarrow> core_ok r) \<and> (core_bitwiseNot c = Inr r \<longrightarrow> core_ok r)
    \<and> (core_shiftLeft c k = Inr r \<longrightarrow> core_ok r) \<and> (core_shiftRight c k = Inr r \<longrightarrow> core_ok r)
    \<and> (core_divide c n c n = Inr (q, s) \<longrightarrow> core_ok q \<and> core_ok s)"
  using core_divide_ok[of c n c n q s] assms core_add_ok[of c n r] core_subtract_ok[of c n r]
    core_multiply_ok[of c n r] core_bitwise_ok(1-3)[of c n r] core_bitwise_ok(4)[of c r]
    core_shift_ok[of c k r] by (intro conjI impI) simp_all

lemma core_ops_preserve_normal_witness: "core_add core_new core_new = Inr core_new \<and> core_ok core_new"
proof -
  have "core_add core_new core_new = Inr core_new" by code_simp
  then show ?thesis using core_ops_preserve_normal[of core_new core_new core_new] core_new_ok(1) by blast
qed

text \<open>The choice of implementation does not change a result: after \<open>setImplementation\<close> every
  operation leaves the same digits or the same error as with any other implementation, products of
  operands of 50 digits and more excepted.\<close>

theorem core_implementation_irrelevant:
  assumes "length (digits c) < 50 \<or> length (digits n) < 50"
  shows "result_digits (core_add (setImplementation t1 c) n) = result_digits (core_add (setImplementation t2 c) n)
    \<and> result_digits (core_subtract (setImplementation t1 c) n) = result_digits (core_subtract (setImplementation t2 c) n)
    \<and> result_digits (core_multiply (setImplementation t1 c) n) = result_digits (core_multiply (setImplementation t2 c) n)
    \<and> core_divide (setImplementation t1 c) n q r = core_divide (setImplementation t2 c) n q r
    \<and> core_compare (setImplementation t1 c) n = core_compare (setImplementation t2 c) n
    \<and> result_digits (core_bitwiseNot (setImplementation t1 c)) = result_digits (core_bitwiseNot (setImplementation t2 c))
    \<and> result_digits (core_shiftLeft (setImplementation t1 c) k) = result_digits (core_shiftLeft (setImplementation t2 c) k)
    \<and> result_digits (core_shiftRight (setImplementation t1 c) k) = result_digits (core_shiftRight (setImplementation t2 c) k)"
  using kara_multiply_small[OF assms(1)]
  by (cases "create t1"; cases "create t2")
    (simp_all add: core_ops setImplementation_def result_digits_def naive_multiply_call_def rbind_assoc)

lemma core_implementation_irrelevant_witness:
  "result_digits (core_multiply (setImplementation BIG_NAIVE core_new) core_new)
   = result_digits (core_multiply (setImplementation BIG_KARATSUBA core_new) core_new)"
  using core_implementation_irrelevant[of core_new core_new BIG_NAIVE BIG_KARATSUBA] by (simp add: core_new_def)

lemma karatsuba_is_naive:
  assumes "a \<noteq> []" "b \<noteq> []" "length a < 50 \<or> length b < 50 \<or> digit_sum a * digit_sum b < radix"
  shows "kara_multiply a b = Inr (naive_multiply a b)"
proof (cases "length a < 50 \<or> length b < 50")
  case False
  then obtain r where r: "multiplyKaratsubaRecursive a b = Inr r" "normal r" "lval r = lval a * lval b"
    using karatsuba_rec_exact[OF assms(1,2)] assms(3) by blast
  then have "r = naive_multiply a b" by (intro normal_lval_inj) simp_all
  then show ?thesis using r assms by (simp add: kara_multiply_def)
qed (rule kara_multiply_small)



text \<open>A number that was moved from has no implementation, so arithmetic on it silently does
  nothing: adding to it leaves 0 and it compares equal to everything.\<close>

theorem core_moved_from_ignores:
  "snd (core_move c) = m \<longrightarrow> core_add m n = Inr m \<and> core_subtract m n = Inr m \<and> core_multiply m n = Inr m
    \<and> core_compare m n = 0 \<and> lval (digits m) = 0 \<and> getImplementationName m = ''Unknown''"
  by (auto simp: core_move_def core_ops getImplementationName_def)

lemma core_moved_from_ignores_witness:
  "core_add (snd (core_move core_new)) core_new = Inr (snd (core_move core_new))"
  using core_moved_from_ignores by blast

end
