(* ===== verification/Utilities.thy ===== *)
theory Utilities
  imports BigDigits
begin

text \<open>
  \<open>pow\<close>, \<open>gcd\<close>, \<open>lcm\<close>, \<open>sqrt\<close> and \<open>mod_pow\<close> stand with the same text behind each class of unsigned numbers
  (\<open>cpp/lib/bign/BigCardinal.h\<close>, \<open>cpp/lib/BigCardinal.h\<close>, \<open>cpp/lib/Number.h\<close>). They are defined here once, over a
  record \<open>num_ops\<close> of the operators they use; the locale \<open>num_theory\<close> states what these operators have to
  guarantee and proves that the utilities return and what they return. Division may be a loop, so it
  is an option; \<open>o_copy\<close> is the copy constructor.
\<close>

section \<open>Definitions\<close>

record 'a num_ops =
  o_digit :: "digit \<Rightarrow> 'a"
  o_copy :: "'a \<Rightarrow> 'a"
  o_isZero :: "'a \<Rightarrow> bool"
  o_isOne :: "'a \<Rightarrow> bool"
  o_eq :: "'a \<Rightarrow> 'a \<Rightarrow> bool"
  o_less :: "'a \<Rightarrow> 'a \<Rightarrow> bool"
  o_plus :: "'a \<Rightarrow> 'a \<Rightarrow> error + 'a"
  o_inc :: "'a \<Rightarrow> error + 'a"
  o_bits :: "'a \<Rightarrow> int"
  o_minus :: "'a \<Rightarrow> 'a \<Rightarrow> error + 'a"
  o_times :: "'a \<Rightarrow> 'a \<Rightarrow> error + 'a"
  o_div :: "'a \<Rightarrow> 'a \<Rightarrow> (error + 'a) option"
  o_mod :: "'a \<Rightarrow> 'a \<Rightarrow> (error + 'a) option"

text \<open>The loop of the shift operators that doubles \<open>power_of_2\<close> as often as \<open>n\<close> says; \<open>limit\<close> is the bound on its
  bits that the left shift checks.\<close>

partial_function (option) u_power_loop :: "'a num_ops \<Rightarrow> 'a \<Rightarrow> int option \<Rightarrow> 'a \<Rightarrow> 'a \<Rightarrow> (error + 'a) option" where
  "u_power_loop N n limit i p = (if o_less N i n
     then obind (Some (o_times N p (o_digit N 2))) (\<lambda>p.
       if (case limit of Some l \<Rightarrow> o_bits N p > l | None \<Rightarrow> False) then Some (Inl (FlowException 1 SHL))
       else obind (Some (o_inc N i)) (\<lambda>i. u_power_loop N n limit i p))
     else Some (Inr p))"

partial_function (option) u_pow :: "'a num_ops \<Rightarrow> 'a \<Rightarrow> 'a \<Rightarrow> (error + 'a) option" where
  "u_pow N base e = (if o_isZero N e then Some (Inr (o_digit N 1))
     else if o_isOne N e then Some (Inr (o_copy N base))
     else obind (o_mod N e (o_digit N 2)) (\<lambda>m.
       if o_eq N m (o_digit N 0)
       then obind (o_div N e (o_digit N 2)) (\<lambda>h.
            obind (u_pow N base h) (\<lambda>half. Some (o_times N half half)))
       else obind (Some (o_minus N e (o_digit N 1))) (\<lambda>e'.
            obind (u_pow N base e') (\<lambda>p. Some (o_times N base p)))))"

partial_function (option) u_gcd :: "'a num_ops \<Rightarrow> 'a \<Rightarrow> 'a \<Rightarrow> (error + 'a) option" where
  "u_gcd N a b = (if o_isZero N b then Some (Inr (o_copy N a)) else obind (o_mod N a b) (\<lambda>r. u_gcd N b r))"

definition u_lcm :: "'a num_ops \<Rightarrow> 'a \<Rightarrow> 'a \<Rightarrow> (error + 'a) option" where
  "u_lcm N a b = obind (Some (o_times N a b)) (\<lambda>p. obind (u_gcd N a b) (\<lambda>g. o_div N p g))"

partial_function (option) u_sqrt_loop :: "'a num_ops \<Rightarrow> 'a \<Rightarrow> 'a \<Rightarrow> 'a \<Rightarrow> 'a \<Rightarrow> (error + 'a) option" where
  "u_sqrt_loop N n low high result = (if o_less N high low then Some (Inr result)
     else obind (Some (o_plus N low high)) (\<lambda>s.
          obind (o_div N s (o_digit N 2)) (\<lambda>mid.
          obind (Some (o_times N mid mid)) (\<lambda>square.
            if o_eq N square n then Some (Inr mid)
            else if o_less N square n
            then obind (Some (o_plus N mid (o_digit N 1))) (\<lambda>low. u_sqrt_loop N n low high mid)
            else obind (Some (o_minus N mid (o_digit N 1))) (\<lambda>high. u_sqrt_loop N n low high result)))))"

definition u_sqrt :: "'a num_ops \<Rightarrow> 'a \<Rightarrow> (error + 'a) option" where
  "u_sqrt N n = (if o_isZero N n then Some (Inr (o_digit N 0))
     else if o_isOne N n then Some (Inr (o_digit N 1))
     else u_sqrt_loop N n (o_digit N 1) (o_copy N n) (o_digit N 0))"

partial_function (option) u_mod_pow_loop :: "'a num_ops \<Rightarrow> 'a \<Rightarrow> 'a \<Rightarrow> 'a \<Rightarrow> 'a \<Rightarrow> (error + 'a) option" where
  "u_mod_pow_loop N md result b e = (if o_isZero N e then Some (Inr result)
     else obind (o_mod N e (o_digit N 2)) (\<lambda>bit0.
          obind (if o_eq N bit0 (o_digit N 1)
                 then obind (Some (o_times N result b)) (\<lambda>t. o_mod N t md)
                 else Some (Inr result)) (\<lambda>result.
          obind (o_div N e (o_digit N 2)) (\<lambda>e.
          obind (Some (o_times N b b)) (\<lambda>t.
          obind (o_mod N t md) (\<lambda>b. u_mod_pow_loop N md result b e))))))"

definition u_mod_pow :: "'a num_ops \<Rightarrow> 'a \<Rightarrow> 'a \<Rightarrow> 'a \<Rightarrow> (error + 'a) option" where
  "u_mod_pow N base e md = (if o_isZero N md then Some (Inl (FlowException 1 MOD))
     else if o_isOne N md then Some (Inr (o_digit N 0))
     else if o_isZero N e then Some (Inr (o_digit N 1))
     else if o_isOne N e then o_mod N base md
     else obind (o_mod N base md) (\<lambda>b. u_mod_pow_loop N md (o_digit N 1) b (o_copy N e)))"

section \<open>What the operators have to guarantee\<close>

lemma mod_step: "(a mod m) * (b mod m) ^ j mod m = a * b ^ j mod (m :: nat)"
proof -
  have "(a mod m) * (b mod m) ^ j mod m = a * (b mod m) ^ j mod m" by (rule mod_mult_left_eq)
  also have "\<dots> = a * ((b mod m) ^ j mod m) mod m" by (rule mod_mult_right_eq[symmetric])
  also have "\<dots> = a * (b ^ j mod m) mod m" by (simp only: power_mod)
  finally show ?thesis by (simp only: mod_mult_right_eq)
qed

text \<open>The arithmetic of square and multiply.\<close>

lemma square_multiply:
  fixes x y m :: nat
  shows "(if odd k then x * y mod m else x) * (y * y mod m) ^ (k div 2) mod m = x * y ^ k mod m"
proof -
  have "y ^ k = y ^ (k mod 2 + 2 * (k div 2))" by simp
  also have "\<dots> = y ^ (k mod 2) * (y * y) ^ (k div 2)" by (simp only: power_add power_mult power2_eq_square)
  also have "y ^ (k mod 2) = (if odd k then y else 1)"
    by (cases "odd k") (simp_all add: odd_iff_mod_2_eq_one even_iff_mod_2_eq_zero)
  finally have k: "y ^ k = (if odd k then y else 1) * (y * y) ^ (k div 2)" .
  have "x * (y * y mod m) ^ (k div 2) mod m = x * (y * y) ^ (k div 2) mod m"
    by (metis mod_mult_right_eq power_mod)
  then show ?thesis using mod_step[of "x * y" m "y * y" "k div 2"]
    by (cases "odd k") (simp_all add: k mult.assoc)
qed

lemma mult_below_radix: "p < m \<Longrightarrow> q < m \<Longrightarrow> m \<le> 2 ^ 32 \<Longrightarrow> p * q < radix"
proof -
  assume h: "p < m" "q < m" "m \<le> 2 ^ 32"
  then have "p * q < m * m" by (intro mult_strict_mono) auto
  also have "\<dots> \<le> 2 ^ 32 * 2 ^ 32" using h(3) by (intro mult_le_mono)
  finally show ?thesis by (simp add: radix_def)
qed

lemma radix_gt: "2 < radix" "1 < radix ^ 49"
  by (simp_all add: radix_def)

text \<open>\<open>R a v\<close>: the object \<open>a\<close> stands for the number \<open>v\<close>. Subtraction and division are only asked for where every
  generation gets them right, on numbers of one digit; multiplication where \<open>ok\<close> holds for a factor.\<close>

locale num_theory =
  fixes N :: "'a num_ops" and R :: "'a \<Rightarrow> nat \<Rightarrow> bool" and ok :: "nat \<Rightarrow> bool"
  assumes R_digit: "R (o_digit N d) (unat d)"
    and R_copy: "R a v \<Longrightarrow> o_copy N a = a"
    and R_isZero: "R a v \<Longrightarrow> o_isZero N a \<longleftrightarrow> v = 0"
    and R_isOne: "R a v \<Longrightarrow> o_isOne N a \<longleftrightarrow> v = 1"
    and R_eq: "R a v \<Longrightarrow> R b w \<Longrightarrow> o_eq N a b \<longleftrightarrow> v = w"
    and R_less: "R a v \<Longrightarrow> R b w \<Longrightarrow> o_less N a b \<longleftrightarrow> v < w"
    and R_plus: "R a v \<Longrightarrow> R b w \<Longrightarrow> \<exists>r. o_plus N a b = Inr r \<and> R r (v + w)"
    and R_inc: "R a v \<Longrightarrow> \<exists>r. o_inc N a = Inr r \<and> R r (v + 1)"
    and R_bits: "R a v \<Longrightarrow> 0 < v \<Longrightarrow> v < radix ^ 49 \<Longrightarrow> 2 ^ (nat (o_bits N a) - 1) \<le> v"
    and R_minus: "R a v \<Longrightarrow> R b w \<Longrightarrow> w \<le> v \<Longrightarrow> v < radix \<Longrightarrow> \<exists>r. o_minus N a b = Inr r \<and> R r (v - w)"
    and R_times: "R a v \<Longrightarrow> R b w \<Longrightarrow> ok v \<Longrightarrow> \<exists>r. o_times N a b = Inr r \<and> R r (v * w)"
    and R_div: "R a v \<Longrightarrow> R b w \<Longrightarrow> v < radix \<Longrightarrow> 0 < w \<Longrightarrow> w < radix \<Longrightarrow> \<exists>r. o_div N a b = Some (Inr r) \<and> R r (v div w)"
    and R_mod: "R a v \<Longrightarrow> R b w \<Longrightarrow> v < radix \<Longrightarrow> 0 < w \<Longrightarrow> w < radix \<Longrightarrow> \<exists>r. o_mod N a b = Some (Inr r) \<and> R r (v mod w)"
    and ok_49: "v < radix ^ 49 \<Longrightarrow> ok v"
    and ok_mono: "ok v \<Longrightarrow> w \<le> v \<Longrightarrow> ok w"
begin

lemma R_0: "R (o_digit N 0) 0" and R_1: "R (o_digit N 1) 1" and R_2: "R (o_digit N 2) 2"
  using R_digit[of 0] R_digit[of 1] R_digit[of 2] by simp_all

lemma ok_digit: "v < radix \<Longrightarrow> ok v"
proof -
  assume "v < radix"
  moreover have "radix \<le> radix ^ 49" by (simp add: radix_def)
  ultimately show ?thesis by (intro ok_49) linarith
qed

text \<open>The doubling loop computes the power of two, unless the limit on its bits stops it.\<close>

lemma u_power_loop_R:
  assumes "R n w" "R i j" "R p (2 ^ j)" "j \<le> w" "w < 1000"
    and "case limit of Some l \<Rightarrow> int w + 1 \<le> l | None \<Rightarrow> True"
  shows "\<exists>r. u_power_loop N n limit i p = Some (Inr r) \<and> R r (2 ^ w)"
  using assms(2-4)
proof (induction "w - j" arbitrary: i j p)
  case 0
  then show ?case using R_less[OF 0(2) assms(1)] by (subst u_power_loop.simps) simp
next
  case (Suc d)
  have jw: "j + 1 \<le> w" using Suc(2) by linarith
  have "(2 :: nat) ^ (j + 1) < 2 ^ (64 * 49)" using jw assms(5) by (intro power_strict_increasing) auto
  then have small: "2 ^ j * 2 < radix ^ 49" "2 ^ j < radix ^ 49" by (simp_all add: radix_def)
  obtain p' where p': "o_times N p (o_digit N 2) = Inr p'" "R p' (2 ^ j * 2)"
    using R_times[OF Suc(4) R_2 ok_49[OF small(2)]] by blast
  obtain i' where i': "o_inc N i = Inr i'" "R i' (j + 1)" using R_inc[OF Suc(3)] by blast
  have "2 ^ (nat (o_bits N p') - 1) \<le> (2 :: nat) ^ (j + 1)" using R_bits[OF p'(2) _ small(1)] by simp
  then have "nat (o_bits N p') - 1 \<le> j + 1" by (simp only: power_increasing_iff one_less_numeral_iff semiring_norm)
  then have "\<not> (case limit of Some l \<Rightarrow> o_bits N p' > l | None \<Rightarrow> False)"
    using assms(6) jw by (cases limit) auto
  moreover have "o_less N i n" using R_less[OF Suc(3) assms(1)] jw by simp
  ultimately have "u_power_loop N n limit i p = u_power_loop N n limit i' p'"
    using p' i' by (subst u_power_loop.simps) (simp split: option.splits)
  moreover have "d = w - (j + 1)" "j + 1 \<le> w" using Suc(2) by linarith+
  ultimately show ?case using Suc(1)[OF _ i'(2)] p'(2) by (simp add: mult.commute)
qed

lemma u_power_R:
  "R n w \<Longrightarrow> w < 1000 \<Longrightarrow> (case limit of Some l \<Rightarrow> int w + 1 \<le> l | None \<Rightarrow> True) \<Longrightarrow>
    \<exists>r. u_power_loop N n limit (o_digit N 0) (o_digit N 1) = Some (Inr r) \<and> R r (2 ^ w)"
  using u_power_loop_R[of n w "o_digit N 0" 0 "o_digit N 1" limit] R_0 R_1 by simp

lemma ok_power: "ok (v ^ k) \<Longrightarrow> j \<le> k \<Longrightarrow> ok (v ^ j)"
proof (cases "v = 0")
  case True
  then show ?thesis using radix_gt by (intro ok_digit) (cases j; simp)
next
  case False
  assume "ok (v ^ k)" "j \<le> k"
  then show ?thesis using False ok_mono[of "v ^ k" "v ^ j"] power_increasing[of j k v] by linarith
qed

lemma u_pow_R:
  assumes "R b v" "R e k" "k < radix" "ok (v ^ k)"
  shows "\<exists>r. u_pow N b e = Some (Inr r) \<and> R r (v ^ k)"
  using assms(2-)
proof (induction k arbitrary: e rule: less_induct)
  case (less k)
  consider "k = 0" | "k = 1" | "1 < k" "even k" | "1 < k" "odd k" by fastforce
  then show ?case
  proof cases
    case 1
    then show ?thesis using R_isZero[OF less.prems(1)] R_1 by (subst u_pow.simps) simp
  next
    case 2
    then show ?thesis using R_isZero[OF less.prems(1)] R_isOne[OF less.prems(1)] assms(1) R_copy[OF assms(1)]
      by (subst u_pow.simps) simp
  next
    case 3
    note nz = R_isZero[OF less.prems(1)] R_isOne[OF less.prems(1)]
    obtain m where m: "o_mod N e (o_digit N 2) = Some (Inr m)" "R m (k mod 2)"
      using R_mod[OF less.prems(1) R_2 less.prems(2)] radix_gt by auto
    obtain h where h: "o_div N e (o_digit N 2) = Some (Inr h)" "R h (k div 2)"
      using R_div[OF less.prems(1) R_2 less.prems(2)] radix_gt by auto
    have lt: "k div 2 < k" "k div 2 < radix" "ok (v ^ (k div 2))"
      using 3 less.prems(2) ok_power[OF less.prems(3), of "k div 2"] by auto
    obtain p where p: "u_pow N b h = Some (Inr p)" "R p (v ^ (k div 2))"
      using less.IH[OF lt(1) h(2) lt(2,3)] by blast
    obtain r where r: "o_times N p p = Inr r" "R r (v ^ (k div 2) * v ^ (k div 2))"
      using R_times[OF p(2) p(2) lt(3)] by blast
    have "v ^ (k div 2) * v ^ (k div 2) = v ^ k" using 3 by (simp flip: power_add mult_2)
    moreover have "o_eq N m (o_digit N 0)" using R_eq[OF m(2) R_0] 3 by simp
    ultimately show ?thesis using r p h m nz 3 by (subst u_pow.simps) simp
  next
    case 4
    note nz = R_isZero[OF less.prems(1)] R_isOne[OF less.prems(1)]
    obtain m where m: "o_mod N e (o_digit N 2) = Some (Inr m)" "R m (k mod 2)"
      using R_mod[OF less.prems(1) R_2 less.prems(2)] radix_gt by auto
    obtain h where h: "o_minus N e (o_digit N 1) = Inr h" "R h (k - 1)"
      using R_minus[OF less.prems(1) R_1 _ less.prems(2)] 4 by auto
    have lt: "k - 1 < k" "k - 1 < radix" "ok (v ^ (k - 1))" "ok v"
      using 4 less.prems(2) ok_power[OF less.prems(3), of "k - 1"] ok_power[OF less.prems(3), of 1] by auto
    obtain p where p: "u_pow N b h = Some (Inr p)" "R p (v ^ (k - 1))"
      using less.IH[OF lt(1) h(2) lt(2,3)] by blast
    obtain r where r: "o_times N b p = Inr r" "R r (v * v ^ (k - 1))"
      using R_times[OF assms(1) p(2) lt(4)] by blast
    have "v * v ^ (k - 1) = v ^ k" using 4 by (simp flip: power_Suc)
    moreover have "\<not> o_eq N m (o_digit N 0)" using R_eq[OF m(2) R_0] 4 by presburger
    ultimately show ?thesis using r p h m nz 4 by (subst u_pow.simps) simp
  qed
qed

lemma u_gcd_R:
  assumes "R a v" "R b w" "v < radix" "w < radix"
  shows "\<exists>r. u_gcd N a b = Some (Inr r) \<and> R r (gcd v w)"
  using assms
proof (induction w arbitrary: a b v rule: less_induct)
  case (less w)
  show ?case
  proof (cases "w = 0")
    case True
    then show ?thesis using R_isZero[OF less.prems(2)] less.prems R_copy[OF less.prems(1)] by (subst u_gcd.simps) simp
  next
    case False
    obtain r where r: "o_mod N a b = Some (Inr r)" "R r (v mod w)"
      using R_mod[OF less.prems(1,2,3) _ less.prems(4)] False by auto
    have "v mod w < w" using False by simp
    then obtain g where g: "u_gcd N b r = Some (Inr g)" "R g (gcd w (v mod w))"
      using less.IH[OF _ less.prems(2) r(2) less.prems(4)] less.prems(4) by fastforce
    have "gcd w (v mod w) = gcd v w" by (metis gcd.commute gcd_red_nat)
    then show ?thesis using g r False R_isZero[OF less.prems(2)] by (subst u_gcd.simps) simp
  qed
qed

lemma u_lcm_R:
  assumes "R a v" "R b w" "0 < v" "0 < w" "v * w < radix"
  shows "\<exists>r. u_lcm N a b = Some (Inr r) \<and> R r (lcm v w)"
proof -
  have "v * 1 \<le> v * w" "1 * w \<le> v * w" using assms by (intro mult_le_mono; simp)+
  then have vw: "v < radix" "w < radix" using assms(5) by linarith+
  obtain p where p: "o_times N a b = Inr p" "R p (v * w)"
    using R_times[OF assms(1,2) ok_digit[OF vw(1)]] by blast
  obtain g where g: "u_gcd N a b = Some (Inr g)" "R g (gcd v w)"
    using u_gcd_R[OF assms(1,2) vw] by blast
  have "0 < gcd v w" using assms by simp
  moreover have "gcd v w < radix" using vw assms(3) gcd_le1_nat[of v w] by linarith
  ultimately obtain r where "o_div N p g = Some (Inr r)" "R r (v * w div gcd v w)"
    using R_div[OF p(2) g(2) assms(5)] by blast
  then show ?thesis using p g by (auto simp: u_lcm_def lcm_nat_def)
qed

text \<open>The binary search keeps \<open>low * low\<close> from passing \<open>n\<close> by more than a step.\<close>

lemma u_sqrt_loop_R:
  assumes "R n v" "v < 2 ^ 63" "R low l" "R high h" "R result x"
    and "0 < l" "h \<le> v" "x + 1 = l" "x * x \<le> v" "v < (h + 1) * (h + 1)" "l \<le> h + 1"
  shows "\<exists>r y. u_sqrt_loop N n low high result = Some (Inr r) \<and> R r y \<and> y * y \<le> v \<and> v < (y + 1) * (y + 1)"
  using assms(3-)
proof (induction "h + 1 - l" arbitrary: low high result l h x rule: less_induct)
  case less
  show ?case
  proof (cases "l \<le> h")
    case False
    then have "h = x" using less.prems by simp
    then have "v < (x + 1) * (x + 1)" using less.prems by simp
    moreover have "u_sqrt_loop N n low high result = Some (Inr result)"
      using R_less[OF less.prems(2,1)] False by (subst u_sqrt_loop.simps) simp
    ultimately show ?thesis using less.prems by blast
  next
    case True
    have le: "\<not> o_less N high low" using R_less[OF less.prems(2,1)] True by simp
    have bounds: "l + h < radix" using True less.prems(5) assms(2) by (simp add: radix_def)
    define m where "m = (l + h) div 2"
    have m: "l \<le> m" "m \<le> h" "0 < m" using True less.prems(4) by (auto simp: m_def)
    obtain s where s: "o_plus N low high = Inr s" "R s (l + h)" using R_plus[OF less.prems(1,2)] by blast
    obtain mid where mid: "o_div N s (o_digit N 2) = Some (Inr mid)" "R mid m"
      using R_div[OF s(2) R_2 bounds] radix_gt by (auto simp: m_def)
    have mr: "m < radix" using m bounds by linarith
    obtain sq where sq: "o_times N mid mid = Inr sq" "R sq (m * m)" using R_times[OF mid(2) mid(2) ok_digit[OF mr]] by blast
    consider "m * m = v" | "m * m < v" | "v < m * m" by linarith
    then show ?thesis
    proof cases
      case 1
      then have "u_sqrt_loop N n low high result = Some (Inr mid)"
        using le s mid sq R_eq[OF sq(2) assms(1)] by (subst u_sqrt_loop.simps) simp
      then show ?thesis using mid(2) 1 by auto
    next
      case 2
      obtain low' where low': "o_plus N mid (o_digit N 1) = Inr low'" "R low' (m + 1)"
        using R_plus[OF mid(2) R_1] by blast
      have step: "u_sqrt_loop N n low high result = u_sqrt_loop N n low' high mid"
        using le s mid sq low' 2 R_eq[OF sq(2) assms(1)] R_less[OF sq(2) assms(1)]
        by (subst u_sqrt_loop.simps) simp
      have "h + 1 - (m + 1) < h + 1 - l" using m True by linarith
      from less.hyps[OF this low'(2) less.prems(2) mid(2)] show ?thesis
        unfolding step using 2 m less.prems by auto
    next
      case 3
      obtain high' where high': "o_minus N mid (o_digit N 1) = Inr high'" "R high' (m - 1)"
        using R_minus[OF mid(2) R_1 _ mr] m by auto
      have step: "u_sqrt_loop N n low high result = u_sqrt_loop N n low high' result"
        using le s mid sq high' 3 R_eq[OF sq(2) assms(1)] R_less[OF sq(2) assms(1)]
        by (subst u_sqrt_loop.simps) simp
      have "m - 1 + 1 - l < h + 1 - l" using m True by linarith
      from less.hyps[OF this less.prems(1) high'(2) less.prems(3)] show ?thesis
        unfolding step using 3 m less.prems by auto
    qed
  qed
qed

lemma u_sqrt_R:
  assumes "R n v" "v < 2 ^ 63"
  shows "\<exists>r y. u_sqrt N n = Some (Inr r) \<and> R r y \<and> y * y \<le> v \<and> v < (y + 1) * (y + 1)"
proof -
  consider "v = 0" | "v = 1" | "1 < v" by linarith
  then show ?thesis
  proof cases
    case 1
    then show ?thesis using assms R_0 by (auto simp: u_sqrt_def R_isZero)
  next
    case 2
    then show ?thesis using assms R_1 by (auto simp: u_sqrt_def R_isZero R_isOne)
  next
    case 3
    then have "u_sqrt N n = u_sqrt_loop N n (o_digit N 1) n (o_digit N 0)"
      using assms(1) by (simp add: u_sqrt_def R_isZero[OF assms(1)] R_isOne[OF assms(1)] R_copy[OF assms(1)])
    then show ?thesis using u_sqrt_loop_R[OF assms R_1 assms(1) R_0] by simp
  qed
qed

lemma u_mod_pow_loop_R:
  assumes "R md m" "1 < m" "m \<le> 2 ^ 32"
    and "R result x" "R b y" "R e k" "x < m" "y < m" "k < radix"
  shows "\<exists>r. u_mod_pow_loop N md result b e = Some (Inr r) \<and> R r (x * y ^ k mod m)"
  using assms(4-)
proof (induction k arbitrary: result b e x y rule: less_induct)
  case (less k)
  have mr: "m < radix" using assms(3) by (simp add: radix_def)
  have mulmod: "\<exists>t r. o_times N c d = Inr t \<and> o_mod N t md = Some (Inr r) \<and> R r (p * q mod m)"
    if c: "R c p" "p < m" and d: "R d q" "q < m" for c d p q
  proof -
    have "p < radix" using c(2) mr by linarith
    then obtain t where t: "o_times N c d = Inr t" "R t (p * q)" using R_times[OF c(1) d(1) ok_digit] by blast
    then show ?thesis using R_mod[OF t(2) assms(1) mult_below_radix[OF c(2) d(2) assms(3)]] assms(2) mr by auto
  qed
  show ?case
  proof (cases "k = 0")
    case True
    then show ?thesis using R_isZero[OF less.prems(3)] less.prems by (subst u_mod_pow_loop.simps) simp
  next
    case False
    obtain bt where bt: "o_mod N e (o_digit N 2) = Some (Inr bt)" "R bt (k mod 2)"
      using R_mod[OF less.prems(3) R_2 less.prems(6)] radix_gt by auto
    obtain e' where e': "o_div N e (o_digit N 2) = Some (Inr e')" "R e' (k div 2)"
      using R_div[OF less.prems(3) R_2 less.prems(6)] radix_gt by auto
    obtain t b' where b': "o_times N b b = Inr t" "o_mod N t md = Some (Inr b')" "R b' (y * y mod m)"
      using mulmod[OF less.prems(2,5) less.prems(2,5)] by blast
    obtain u r' where r': "o_times N result b = Inr u" "o_mod N u md = Some (Inr r')" "R r' (x * y mod m)"
      using mulmod[OF less.prems(1,4) less.prems(2,5)] by blast
    have ym: "y * y mod m < m" "x * y mod m < m" using assms(2) by simp_all
    have lt: "k div 2 < k" "k div 2 < radix" using False less.prems(6) by auto
    define r2 x2 where "r2 = (if odd k then r' else result)" and "x2 = (if odd k then x * y mod m else x)"
    have r2: "R r2 x2" "x2 < m" using r'(3) less.prems(1,4) ym by (simp_all add: r2_def x2_def)
    have "o_eq N bt (o_digit N 1) \<longleftrightarrow> odd k" using R_eq[OF bt(2) R_1] by (simp add: odd_iff_mod_2_eq_one)
    then have "u_mod_pow_loop N md result b e = u_mod_pow_loop N md r2 b' e'"
      using bt e' b' r' False R_isZero[OF less.prems(3)] by (subst u_mod_pow_loop.simps) (simp add: r2_def)
    then show ?thesis
      using less.IH[OF lt(1) r2(1) b'(3) e'(2) r2(2) ym(1) lt(2)] square_multiply[of k x y m] unfolding x2_def by simp
  qed
qed

lemma u_mod_pow_R:
  assumes "R base v" "R e k" "R md m" "v < radix" "k < radix" "0 < m" "m \<le> 2 ^ 32"
  shows "\<exists>r. u_mod_pow N base e md = Some (Inr r) \<and> R r (v ^ k mod m)"
proof -
  have mr: "m < radix" using assms(7) by (simp add: radix_def)
  obtain b where b: "o_mod N base md = Some (Inr b)" "R b (v mod m)"
    using R_mod[OF assms(1,3,4,6) mr] by blast
  consider "m = 1" | "1 < m" "k = 0" | "1 < m" "k = 1" | "1 < m" "1 < k" using assms(6) by linarith
  then show ?thesis
  proof cases
    case 1
    then show ?thesis using assms R_0 by (auto simp: u_mod_pow_def R_isZero R_isOne)
  next
    case 2
    then show ?thesis using assms R_1 by (auto simp: u_mod_pow_def R_isZero R_isOne)
  next
    case 3
    then show ?thesis using assms b by (auto simp: u_mod_pow_def R_isZero R_isOne)
  next
    case 4
    have "u_mod_pow N base e md = u_mod_pow_loop N md (o_digit N 1) b e"
      using 4 assms b by (simp add: u_mod_pow_def R_isZero[OF assms(3)] R_isOne[OF assms(3)]
        R_isZero[OF assms(2)] R_isOne[OF assms(2)] R_copy[OF assms(2)])
    moreover have "1 * (v mod m) ^ k mod m = v ^ k mod m" by (simp add: power_mod)
    ultimately show ?thesis
      using u_mod_pow_loop_R[OF assms(3) 4(1) assms(7) R_1 b(2) assms(2)] 4 assms(5) by simp
  qed
qed

end

end
