(* ===== verification/Cardinal.thy ===== *)
theory Cardinal
  imports NumberCore Utilities
begin

unbundle bit_operations_syntax

text \<open>
  \<open>cpp/lib/bign/BigCardinal.h\<close>: unsigned numbers. A \<open>BigCardinal\<close> adds no state to
  \<open>BigNumberCore\<close>, so it is a \<open>core\<close>; copies made by the code are \<open>core_copy\<close>. The operands of a
  compound assignment are different objects. Recursions and data-driven loops are
  \<open>partial_function\<close>s, so that returning is something to prove.
\<close>

section \<open>Construction and text\<close>

definition cd_digit :: "digit \<Rightarrow> core" where
  "cd_digit n = core_new\<lparr>digits := [n]\<rparr>"

text \<open>The string constructor collects the overflowing chunks, the most significant one first.\<close>

definition cd_parse :: "string \<Rightarrow> int \<Rightarrow> string \<Rightarrow> error + core" where
  "cd_parse s base cs = (if \<not> (base > 1 \<and> base \<le> int (length cs)) then Inl AssertFailed
     else if s = [] then Inr (core_new\<lparr>digits := [0]\<rparr>)
     else rbind (bd_parse base (\<lambda>ov op ds. Inr (ds @ [ov])) cs s [])
       (\<lambda>(d, ds). Inr (core_new\<lparr>digits := ds @ [d]\<rparr>)))"

definition cd_bits :: "core \<Rightarrow> int" where
  "cd_bits c = (if digits c = [] then 0
     else let r = sint (ucast (bd_size (last (digits c))) :: 32 word); s = int (length (digits c)) - 1
          in if s \<noteq> 0 then r + s * 64 else r)"

fun strip_zeros :: "char \<Rightarrow> string \<Rightarrow> string" where
  "strip_zeros z (c # d # s) = (if c = z then strip_zeros z (d # s) else c # d # s)"
| "strip_zeros z s = s"

definition cd_format :: "core \<Rightarrow> int \<Rightarrow> string \<Rightarrow> error + string" where
  "cd_format c base cs = (if \<not> (base > 1 \<and> base \<le> int (length cs)) then Inl AssertFailed
     else if digits c = [] \<or> core_isZero c then Inr [cs ! 0]
     else rbind (mfold (\<lambda>d acc. rbind (bd_format base cs d) (\<lambda>t. Inr (acc @ t))) (digits c) [])
       (\<lambda>t. Inr (strip_zeros (cs ! 0) t)))"

section \<open>Arithmetic\<close>

definition cd_add :: "core \<Rightarrow> core \<Rightarrow> error + core" where
  "cd_add c n = (if core_isZero n then Inr c else if core_isZero c then Inr (core_copy n) else core_add c n)"

definition cd_inc :: "core \<Rightarrow> error + core" where
  "cd_inc c = core_add c (cd_digit 1)"

definition cd_sub :: "core \<Rightarrow> core \<Rightarrow> error + core" where
  "cd_sub c n = (if core_isZero n then Inr c
     else if core_compare c n < 0 then Inl (FlowException 1 SUB) else core_subtract c n)"

definition cd_dec :: "core \<Rightarrow> error + core" where
  "cd_dec c = (if core_isZero c then Inl (FlowException 1 SUB) else core_subtract c (cd_digit 1))"

definition cd_mul :: "core \<Rightarrow> core \<Rightarrow> error + core" where
  "cd_mul c n = (if core_isZero n \<or> core_isZero c then Inr (cd_digit 0)
     else if core_isOne n then Inr c else core_multiply c n)"

definition cd_divide :: "core \<Rightarrow> core \<Rightarrow> error + core \<times> core" where
  "cd_divide c n = core_divide (core_copy c) n core_new core_new"

text \<open>The binary operators work on a copy of the left operand and return a copy of the result.\<close>

definition on_copy :: "(core \<Rightarrow> core \<Rightarrow> error + core) \<Rightarrow> core \<Rightarrow> core \<Rightarrow> error + core" where
  "on_copy f c n = rbind (f (core_copy c) n) (\<lambda>r. Inr (core_copy r))"

definition cd_plus :: "core \<Rightarrow> core \<Rightarrow> error + core" where
  "cd_plus = on_copy cd_add"

definition cd_minus :: "core \<Rightarrow> core \<Rightarrow> error + core" where
  "cd_minus = on_copy cd_sub"

definition cd_times :: "core \<Rightarrow> core \<Rightarrow> error + core" where
  "cd_times = on_copy cd_mul"

definition cd_div_assign :: "core \<Rightarrow> core \<Rightarrow> error + core" where
  "cd_div_assign c n = rbind (cd_divide c n) (\<lambda>(q, r). Inr (core_copy q))"

definition cd_mod_assign :: "core \<Rightarrow> core \<Rightarrow> error + core" where
  "cd_mod_assign c n = rbind (cd_divide c n) (\<lambda>(q, r). Inr (core_copy r))"

definition cd_div :: "core \<Rightarrow> core \<Rightarrow> error + core" where
  "cd_div = on_copy cd_div_assign"

definition cd_mod :: "core \<Rightarrow> core \<Rightarrow> error + core" where
  "cd_mod = on_copy cd_mod_assign"

definition cd_getDigitAt :: "core \<Rightarrow> int \<Rightarrow> digit" where
  "cd_getDigitAt c pos = (if pos < 0 \<or> pos \<ge> int (length (digits c)) then 0 else digits c ! nat pos)"

section \<open>Comparison\<close>

definition cd_eq :: "core \<Rightarrow> core \<Rightarrow> bool" where
  "cd_eq c n \<longleftrightarrow> core_compare c n = 0"

definition cd_less :: "core \<Rightarrow> core \<Rightarrow> bool" where
  "cd_less c n \<longleftrightarrow> core_compare c n < 0"

definition cd_le :: "core \<Rightarrow> core \<Rightarrow> bool" where
  "cd_le c n \<longleftrightarrow> \<not> cd_less n c"

section \<open>Shifts\<close>

text \<open>The operators for the loops and utilities of \<open>Utilities\<close>.\<close>

definition cd_ops :: "core num_ops" where
  "cd_ops = \<lparr>o_digit = cd_digit, o_copy = core_copy, o_isZero = core_isZero, o_isOne = core_isOne, o_eq = cd_eq,
     o_less = cd_less, o_plus = cd_plus, o_inc = cd_inc, o_bits = cd_bits, o_minus = cd_minus, o_times = cd_times,
     o_div = (\<lambda>a b. Some (cd_div a b)), o_mod = (\<lambda>a b. Some (cd_mod a b))\<rparr>"

definition cd_power_loop :: "core \<Rightarrow> int option \<Rightarrow> core \<Rightarrow> core \<Rightarrow> (error + core) option" where
  "cd_power_loop = u_power_loop cd_ops"

definition cd_shl :: "core \<Rightarrow> core \<Rightarrow> (error + core) option" where
  "cd_shl c n = (if core_isZero n \<or> core_isZero c then Some (Inr c)
     else if cd_bits n > 1000 then Some (Inl (FlowException 1 SHL))
     else if length (digits n) = 1 \<and> digits n ! 0 < 64
     then if digits n ! 0 = 0 then Some (Inr c) else Some (core_shiftLeft c (uint (digits n ! 0)))
     else obind (cd_power_loop n (Some (cd_bits c + 1000)) (cd_digit 0) (cd_digit 1))
       (\<lambda>p. Some (cd_times c p)))"

definition cd_shr :: "core \<Rightarrow> core \<Rightarrow> (error + core) option" where
  "cd_shr c n = (if core_isZero n \<or> core_isZero c then Some (Inr c)
     else if length (digits n) = 1 \<and> digits n ! 0 < 64
     then if digits n ! 0 = 0 then Some (Inr c) else Some (core_shiftRight c (uint (digits n ! 0)))
     else obind (cd_power_loop n None (cd_digit 0) (cd_digit 1)) (\<lambda>p. Some (cd_div c p)))"

definition cd_and :: "core \<Rightarrow> core \<Rightarrow> error + core" where
  "cd_and = on_copy core_bitwiseAnd"

definition cd_or :: "core \<Rightarrow> core \<Rightarrow> error + core" where
  "cd_or = on_copy core_bitwiseOr"

definition cd_xor :: "core \<Rightarrow> core \<Rightarrow> error + core" where
  "cd_xor = on_copy core_bitwiseXor"

definition cd_not :: "core \<Rightarrow> error + core" where
  "cd_not c = rbind (core_bitwiseNot (core_copy c)) (\<lambda>r. Inr (core_copy r))"

section \<open>Utilities\<close>

definition cd_pow :: "core \<Rightarrow> core \<Rightarrow> (error + core) option" where
  "cd_pow = u_pow cd_ops"

definition cd_gcd :: "core \<Rightarrow> core \<Rightarrow> (error + core) option" where
  "cd_gcd = u_gcd cd_ops"

definition cd_lcm :: "core \<Rightarrow> core \<Rightarrow> (error + core) option" where
  "cd_lcm = u_lcm cd_ops"

definition cd_sqrt :: "core \<Rightarrow> (error + core) option" where
  "cd_sqrt = u_sqrt cd_ops"

definition cd_mod_pow :: "core \<Rightarrow> core \<Rightarrow> core \<Rightarrow> (error + core) option" where
  "cd_mod_pow = u_mod_pow cd_ops"

section \<open>Representation of naturals\<close>

text \<open>
  \<open>rep c v\<close>: the object \<open>c\<close> is usable, was not moved from, has its digits in normal form and stands
  for \<open>v\<close>. The lemmas below are the refinement of the operations to arithmetic on naturals.
\<close>

definition consistent :: "core \<Rightarrow> bool" where
  "consistent c \<longleftrightarrow> impl_ptr c = Some (create (active_type c))"

definition rep :: "core \<Rightarrow> nat \<Rightarrow> bool" where
  "rep c v \<longleftrightarrow> consistent c \<and> normal (digits c) \<and> lval (digits c) = v"

lemma core_copy_consistent [simp]: "consistent c \<Longrightarrow> core_copy c = c"
  by (simp add: core_copy_def consistent_def)

lemma consistent_new [simp]: "consistent core_new" "consistent (cd_digit d)" "consistent (core_copy c)"
  "consistent c \<Longrightarrow> consistent (c\<lparr>digits := ds\<rparr>)"
  by (simp_all add: consistent_def core_new_def cd_digit_def create_def core_copy_def)

lemma rep_copy [simp]: "rep c v \<Longrightarrow> core_copy c = c"
  by (simp add: rep_def)

lemma digits_cd_digit [simp]: "digits (cd_digit d) = [d]"
  by (simp add: cd_digit_def)

lemma rep_digit: "rep (cd_digit d) (unat d)"
  by (simp add: rep_def normal_def)

lemma rep_0: "rep (cd_digit 0) 0" and rep_1: "rep (cd_digit 1) 1" and rep_2: "rep (cd_digit 2) 2"
  using rep_digit[of 0] rep_digit[of 1] rep_digit[of 2] by simp_all

lemma rep_isZero: "rep c v \<Longrightarrow> core_isZero c \<longleftrightarrow> v = 0"
  using normal_zero[of "digits c"] by (auto simp: rep_def core_isZero_def normal_def length_Suc_conv)

lemma normal_one: "normal a \<Longrightarrow> lval a = 1 \<longleftrightarrow> a = [1]"
  using normal_lval_inj[of a "[1]"] by (auto simp: normal_def)

lemma rep_isOne: "rep c v \<Longrightarrow> core_isOne c \<longleftrightarrow> v = 1"
  using normal_one[of "digits c"] by (auto simp: rep_def core_isOne_def length_Suc_conv)

lemma rep_small: "rep c v \<Longrightarrow> v < radix \<Longrightarrow> digits c = [of_nat v]"
proof -
  assume h: "rep c v" "v < radix"
  then have "unat (of_nat v :: digit) = v" by (simp add: unat_of_nat radix_def)
  then show ?thesis using h normal_lval_inj[of "digits c" "[of_nat v]"] by (simp add: rep_def normal_def)
qed

lemma rep_length: "rep c v \<Longrightarrow> v < radix ^ k \<Longrightarrow> 0 < k \<Longrightarrow> length (digits c) \<le> k"
  using normal_length_le by (auto simp: rep_def)

lemma rep_unique: "rep c v \<Longrightarrow> rep c w \<Longrightarrow> v = w"
  by (simp add: rep_def)

lemma compare_rep:
  assumes "rep c v" "rep n w"
  shows "core_compare c n = (if v < w then -1 else if w < v then 1 else 0)"
proof -
  obtain i where "impl_ptr c = Some i" using assms by (auto simp: rep_def consistent_def)
  then show ?thesis using assms naive.compare_value karatsuba.compare_value
    by (cases i) (simp_all add: core_compare_def rep_def)
qed

lemma rep_eq: "rep c v \<Longrightarrow> rep n w \<Longrightarrow> cd_eq c n \<longleftrightarrow> v = w"
  and rep_less: "rep c v \<Longrightarrow> rep n w \<Longrightarrow> cd_less c n \<longleftrightarrow> v < w"
  and rep_le: "rep c v \<Longrightarrow> rep n w \<Longrightarrow> cd_le c n \<longleftrightarrow> v \<le> w"
  by (auto simp: cd_eq_def cd_less_def cd_le_def compare_rep)

lemma core_add_rep:
  assumes "rep c v" "normal (digits n)" "lval (digits n) = w"
  shows "\<exists>r. core_add c n = Inr r \<and> rep r (v + w)"
proof -
  obtain i where "impl_ptr c = Some i" using assms by (auto simp: rep_def consistent_def)
  then show ?thesis using assms naive.add_normal naive.add_value
    by (cases i) (auto simp: core_ops rep_def)
qed

lemma cd_add_rep: "rep c v \<Longrightarrow> rep n w \<Longrightarrow> \<exists>r. cd_add c n = Inr r \<and> rep r (v + w)"
  using core_add_rep[of c v n w] by (auto simp: cd_add_def rep_isZero) (auto simp: rep_def)

lemma cd_plus_rep: "rep c v \<Longrightarrow> rep n w \<Longrightarrow> \<exists>r. cd_plus c n = Inr r \<and> rep r (v + w)"
  using cd_add_rep[of c v n w] by (auto simp: cd_plus_def on_copy_def)

lemma cd_inc_rep: "rep c v \<Longrightarrow> \<exists>r. cd_inc c = Inr r \<and> rep r (v + 1)"
  using core_add_rep[of c v "cd_digit 1" 1] by (simp add: cd_inc_def normal_def)

lemma cd_mul_rep:
  assumes "rep c v" "rep n w" "v < radix ^ 49 \<or> w < radix ^ 49"
  shows "\<exists>r. cd_mul c n = Inr r \<and> rep r (v * w)"
proof -
  have len: "length (digits c) < 50 \<or> length (digits n) < 50"
    using rep_length[OF assms(1), of 49] rep_length[OF assms(2), of 49] assms(3) by fastforce
  obtain i where i: "impl_ptr c = Some i" using assms by (auto simp: rep_def consistent_def)
  have m: "\<exists>r. core_multiply c n = Inr r \<and> rep r (v * w)"
    using naive.multiply_value[OF len] karatsuba.multiply_value[OF len] assms(1,2) i
    by (cases i) (auto simp: core_ops rep_def)
  show ?thesis
  proof (cases "v = 0 \<or> w = 0")
    case True
    then show ?thesis using assms rep_0 by (auto simp: cd_mul_def rep_isZero)
  next
    case False
    then show ?thesis using m assms by (auto simp: cd_mul_def rep_isZero rep_isOne)
  qed
qed

lemma cd_times_rep:
  "rep c v \<Longrightarrow> rep n w \<Longrightarrow> v < radix ^ 49 \<or> w < radix ^ 49 \<Longrightarrow> \<exists>r. cd_times c n = Inr r \<and> rep r (v * w)"
  using cd_mul_rep[of c v n w] by (auto simp: cd_times_def on_copy_def)

lemma cd_sub_underflow: "rep c v \<Longrightarrow> rep n w \<Longrightarrow> v < w \<Longrightarrow> cd_sub c n = Inl (FlowException 1 SUB)"
  by (simp add: cd_sub_def rep_isZero compare_rep)

lemma cd_sub_rep:
  assumes "rep c v" "rep n w" "w \<le> v" "dominates (digits c) (digits n)"
  shows "\<exists>r. cd_sub c n = Inr r \<and> rep r (v - w)"
proof -
  obtain i where i: "impl_ptr c = Some i" using assms by (auto simp: rep_def consistent_def)
  have n: "normal (digits c)" using assms by (simp add: rep_def)
  obtain r where r: "naive_subtract (digits c) (digits n) = Inr r" "lval r + lval (digits n) = lval (digits c)"
    using naive.subtract_exact[OF n assms(4)] by blast
  have "core_subtract c n = Inr (c\<lparr>digits := r\<rparr>)" using i r by (cases i) (simp_all add: core_ops)
  moreover have "rep (c\<lparr>digits := r\<rparr>) (v - w)"
    using r naive.subtract_normal[OF r(1) n] assms by (auto simp: rep_def)
  ultimately show ?thesis using assms by (auto simp: cd_sub_def rep_isZero compare_rep)
qed

lemma cd_minus_small:
  assumes "rep c v" "rep n w" "w \<le> v" "v < radix"
  shows "\<exists>r. cd_minus c n = Inr r \<and> rep r (v - w)"
proof -
  have "unat (of_nat v :: digit) = v" "unat (of_nat w :: digit) = w"
    using assms by (simp_all add: unat_of_nat radix_def)
  then have "dominates (digits c) (digits n)"
    using assms by (simp add: rep_small dominates_single word_le_nat_alt)
  then show ?thesis using cd_sub_rep[OF assms(1-3)] assms(1) by (auto simp: cd_minus_def on_copy_def)
qed

lemma cd_divide_small:
  assumes "rep c v" "rep n w" "v < radix" "0 < w" "w < radix"
  shows "\<exists>q r. cd_divide c n = Inr (q, r) \<and> rep q (v div w) \<and> rep r (v mod w)"
proof -
  have u: "unat (of_nat v :: digit) = v" "unat (of_nat w :: digit) = w"
    using assms by (simp_all add: unat_of_nat radix_def)
  have w: "(of_nat w :: digit) \<noteq> 0" using u assms(4) by (metis less_irrefl unat_0)
  obtain i where i: "impl_ptr c = Some i" using assms by (auto simp: rep_def consistent_def)
  have "core_divide c n core_new core_new = Inr (core_new\<lparr>digits := [of_nat v div of_nat w]\<rparr>,
      core_new\<lparr>digits := [of_nat v mod of_nat w]\<rparr>)"
    using naive_divide_single[OF w, of "of_nat v"] i assms by (cases i) (simp_all add: core_ops rep_small)
  then show ?thesis using assms(1) u
    by (simp add: cd_divide_def rep_def normal_def unat_div_distrib unat_mod_distrib)
qed

lemma cd_div_small:
  "rep c v \<Longrightarrow> rep n w \<Longrightarrow> v < radix \<Longrightarrow> 0 < w \<Longrightarrow> w < radix \<Longrightarrow> \<exists>r. cd_div c n = Inr r \<and> rep r (v div w)"
  using cd_divide_small[of c v n w] by (auto simp: cd_div_def on_copy_def cd_div_assign_def)

lemma cd_mod_small:
  "rep c v \<Longrightarrow> rep n w \<Longrightarrow> v < radix \<Longrightarrow> 0 < w \<Longrightarrow> w < radix \<Longrightarrow> \<exists>r. cd_mod c n = Inr r \<and> rep r (v mod w)"
  using cd_divide_small[of c v n w] by (auto simp: cd_mod_def on_copy_def cd_mod_assign_def)

section \<open>The utilities return, with the right number\<close>

lemma cd_bits_rep:
  assumes "rep c v" "0 < v" "length (digits c) < 2 ^ 24"
  shows "0 < cd_bits c" "2 ^ (nat (cd_bits c) - 1) \<le> v" "v < 2 ^ nat (cd_bits c)"
proof -
  let ?a = "digits c"
  define d where "d = last ?a"
  define s where "s = unat (bd_size d)"
  have n: "normal ?a" "lval ?a = v" using assms by (simp_all add: rep_def)
  then have ne: "?a \<noteq> []" by (simp add: normal_def)
  have "?a = butlast ?a @ [d]" using ne by (simp add: d_def)
  then have v: "v = lval (butlast ?a) + radix ^ (length ?a - 1) * unat d"
    using n(2) lval_snoc[of "butlast ?a" d] by simp
  have small: "lval (butlast ?a) < radix ^ (length ?a - 1)" using lval_less[of "butlast ?a"] by simp
  have "d \<noteq> 0"
  proof
    assume z: "d = 0"
    then have "length ?a = 1" using n by (simp add: normal_def d_def)
    then show False using v z small assms(2) by simp
  qed
  then have b: "1 \<le> s" "s \<le> 64" "2 ^ (s - 1) \<le> unat d" "unat d < 2 ^ s"
    using bd_size_bounds[of d] by (simp_all add: s_def)
  have r: "sint (ucast (bd_size d) :: 32 word) = int s"
  proof -
    have u: "uint (bd_size d) = int s" by (simp add: s_def)
    have "sint (ucast (bd_size d) :: 32 word) = signed_take_bit 31 (uint (bd_size d))"
      by (simp add: signed_ucast_eq)
    also have "\<dots> = int s" using b u by (simp add: signed_take_bit_int_eq_self)
    finally show ?thesis .
  qed
  obtain n where len: "length ?a = Suc n" using ne by (cases ?a) auto
  have "cd_bits c = int s + int n * 64"
    using ne r by (simp add: cd_bits_def Let_def d_def[symmetric] len)
  then have bits: "nat (cd_bits c) = s + (length ?a - 1) * 64" "0 < cd_bits c"
    using b(1) by (simp_all add: len nat_add_distrib nat_mult_distrib)
  have "radix = 2 ^ 64" by (simp add: radix_def)
  then have rp: "radix ^ (length ?a - 1) = 2 ^ ((length ?a - 1) * 64)"
    by (simp only: mult.commute[of _ 64] power_mult)
  show "0 < cd_bits c" by (rule bits)
  have "nat (cd_bits c) - 1 = (length ?a - 1) * 64 + (s - 1)" using b(1) bits(1) by linarith
  then have "2 ^ (nat (cd_bits c) - 1) = radix ^ (length ?a - 1) * 2 ^ (s - 1)"
    by (simp only: rp power_add)
  also have "\<dots> \<le> radix ^ (length ?a - 1) * unat d" using b(3) by (intro mult_le_mono2)
  also have "\<dots> \<le> v" using v by simp
  finally show "2 ^ (nat (cd_bits c) - 1) \<le> v" .
  have "v < radix ^ (length ?a - 1) * (unat d + 1)" using v small by simp
  also have "\<dots> \<le> radix ^ (length ?a - 1) * 2 ^ s" using b(4) by (intro mult_le_mono2) simp
  also have "\<dots> = 2 ^ nat (cd_bits c)" by (simp only: bits(1) rp power_add mult.commute)
  finally show "v < 2 ^ nat (cd_bits c)" .
qed

interpretation cardinal: num_theory cd_ops rep "\<lambda>v. v < radix ^ 49"
proof
  show "\<exists>r. o_inc cd_ops a = Inr r \<and> rep r (v + 1)" if "rep a v" for a v
    using cd_inc_rep[OF that] by (simp add: cd_ops_def)
  show "2 ^ (nat (o_bits cd_ops a) - 1) \<le> v" if "rep a v" "0 < v" "v < radix ^ 49" for a v
    using cd_bits_rep(2)[OF that(1,2)] rep_length[OF that(1,3)] by (simp add: cd_ops_def)
qed (simp_all add: cd_ops_def rep_digit rep_isZero rep_isOne rep_eq rep_less cd_plus_rep cd_minus_small
  cd_times_rep cd_div_small cd_mod_small)

lemma cd_power_rep:
  assumes "rep n w" "w < 1000" "case limit of Some l \<Rightarrow> int w + 1 \<le> l | None \<Rightarrow> True"
  shows "\<exists>r. cd_power_loop n limit (cd_digit 0) (cd_digit 1) = Some (Inr r) \<and> rep r (2 ^ w)"
  using cardinal.u_power_R[OF assms] by (simp add: cd_power_loop_def cd_ops_def)

lemmas cd_utilities = cd_pow_def cd_gcd_def cd_lcm_def cd_sqrt_def cd_mod_pow_def

section \<open>Shifts\<close>

lemma core_shiftLeft_rep:
  assumes "rep c v" "0 \<le> k" "k < 64"
  shows "\<exists>r. core_shiftLeft c k = Inr r \<and> rep r (v * 2 ^ nat k)"
proof -
  obtain i where i: "impl_ptr c = Some i" using assms by (auto simp: rep_def consistent_def)
  obtain ds where ds: "naive_shiftLeft (digits c) k = Inr ds" "lval ds = lval (digits c) * 2 ^ nat k"
    using naive_shiftLeft_small[OF assms(2,3)] by blast
  have "normal ds" using normal_naive_shiftLeft[OF ds(1)] assms(1) by (simp add: rep_def)
  then show ?thesis using ds i assms(1) by (cases i) (auto simp: core_ops rep_def)
qed

lemma rep_single: "rep n w \<Longrightarrow> w < 64 \<Longrightarrow> digits n = [of_nat w] \<and> unat (of_nat w :: digit) = w"
  using rep_small[of n w] by (simp add: radix_def unat_of_nat)

lemma rep_not_single: "rep n w \<Longrightarrow> 64 \<le> w \<Longrightarrow> \<not> (length (digits n) = 1 \<and> digits n ! 0 < 64)"
  by (auto simp: rep_def length_Suc_conv word_less_nat_alt)

lemma cd_shl_rep:
  assumes "rep c v" "rep n w" "w < 1000" "length (digits c) < 2 ^ 24"
  shows "\<exists>r. cd_shl c n = Some (Inr r) \<and> rep r (v * 2 ^ w)"
proof (cases "w = 0 \<or> v = 0")
  case True
  then show ?thesis using assms by (auto simp: cd_shl_def rep_isZero)
next
  case False
  have "w < radix" using assms(3) by (simp add: radix_def)
  then have "length (digits n) = 1" using rep_small[OF assms(2)] by simp
  then have len: "length (digits n) < 2 ^ 24" by simp
  have pos: "0 < w" "0 < v" using False by simp_all
  have "2 ^ (nat (cd_bits n) - 1) \<le> w" using cd_bits_rep(2)[OF assms(2) pos(1) len] .
  moreover have "w < 2 ^ 10" using assms(3) by simp
  ultimately have "(2 :: nat) ^ (nat (cd_bits n) - 1) < 2 ^ 10" by linarith
  then have "nat (cd_bits n) - 1 < 10" by (simp only: power_strict_increasing_iff one_less_numeral_iff semiring_norm)
  then have bits: "\<not> cd_bits n > 1000" by linarith
  have z: "\<not> core_isZero n" "\<not> core_isZero c" using False assms by (simp_all add: rep_isZero)
  show ?thesis
  proof (cases "w < 64")
    case True
    note n = rep_single[OF assms(2) True]
    have "(of_nat w :: digit) < 64" "of_nat w \<noteq> (0 :: digit)" "uint (of_nat w :: digit) = int w"
      using True n False by (auto simp: word_less_nat_alt unat_eq_zero uint_nat simp del: of_nat_eq_0_iff)
    then have "cd_shl c n = Some (core_shiftLeft c (int w))" using n z bits by (simp add: cd_shl_def)
    then show ?thesis using core_shiftLeft_rep[OF assms(1), of "int w"] True by simp
  next
    case big: False
    have "0 < cd_bits c" using cd_bits_rep(1)[OF assms(1) pos(2) assms(4)] .
    then have lim: "int w + 1 \<le> cd_bits c + 1000" using assms(3) by linarith
    obtain p where p: "cd_power_loop n (Some (cd_bits c + 1000)) (cd_digit 0) (cd_digit 1) = Some (Inr p)" "rep p (2 ^ w)"
      using cd_power_rep[OF assms(2,3), of "Some (cd_bits c + 1000)"] lim by auto
    have "(2 :: nat) ^ w < 2 ^ (64 * 49)" using assms(3) by (intro power_strict_increasing) auto
    then have "2 ^ w < radix ^ 49" by (simp add: radix_def)
    then obtain r where r: "cd_times c p = Inr r" "rep r (v * 2 ^ w)" using cd_times_rep[OF assms(1) p(2)] by blast
    have "\<not> (length (digits n) = 1 \<and> digits n ! 0 < 64)" using rep_not_single[OF assms(2)] big by simp
    then have "cd_shl c n = Some (cd_times c p)" 
      unfolding cd_shl_def using p z bits by (simp only: if_False de_Morgan_disj simp_thms) (simp add: p(1))
    then show ?thesis using r by simp
  qed
qed

lemma core_shiftRight_eq:
  assumes "consistent c"
  shows "core_shiftRight c k = rbind (naive_shiftRight (digits c) k) (\<lambda>ds. Inr (c\<lparr>digits := ds\<rparr>))"
proof -
  obtain i where "impl_ptr c = Some i" using assms by (auto simp: consistent_def)
  then show ?thesis by (cases i; cases "naive_shiftRight (digits c) k") (simp_all add: core_ops)
qed

text \<open>A right shift of one digit: exact below 31 bits, undefined from 31 to 63.\<close>

lemma cd_shr_rep:
  assumes "rep c v" "rep n w" "v < radix" "w < 31"
  shows "\<exists>r. cd_shr c n = Some (Inr r) \<and> rep r (v div 2 ^ w)"
proof (cases "w = 0 \<or> v = 0")
  case True
  then show ?thesis using assms by (auto simp: cd_shr_def rep_isZero)
next
  case False
  have w64: "w < 64" using assms(4) by simp
  note n = rep_single[OF assms(2) w64]
  have "(of_nat w :: digit) < 64" "of_nat w \<noteq> (0 :: digit)" "uint (of_nat w :: digit) = int w"
    using w64 n False by (auto simp: word_less_nat_alt unat_eq_zero uint_nat simp del: of_nat_eq_0_iff)
  moreover have "\<not> core_isZero n" "\<not> core_isZero c" using False assms by (simp_all add: rep_isZero)
  ultimately have eq: "cd_shr c n = Some (core_shiftRight c (int w))" using n by (simp add: cd_shr_def)
  have "low_bits_clear w (digits c)" using rep_small[OF assms(1,3)] by (simp add: low_bits_clear_def)
  then obtain ds where ds: "naive_shiftRight (digits c) (int w) = Inr ds" "lval ds = lval (digits c) div 2 ^ w"
    using naive_shiftRight_clear[of "int w" "digits c"] assms(4) by auto
  have "normal ds" using normal_naive_shiftRight[OF ds(1)] assms(1) by (simp add: rep_def)
  then show ?thesis using ds assms(1) eq by (auto simp: core_shiftRight_eq rep_def)
qed

lemma cd_shr_undefined:
  assumes "rep c v" "rep n w" "0 < v" "31 \<le> w" "w < 64"
  shows "cd_shr c n = Some (Inl Undefined)"
proof -
  note n = rep_single[OF assms(2) assms(5)]
  have "(of_nat w :: digit) < 64" "of_nat w \<noteq> (0 :: digit)" "uint (of_nat w :: digit) = int w"
    using assms n by (auto simp: word_less_nat_alt unat_eq_zero uint_nat simp del: of_nat_eq_0_iff)
  moreover have "\<not> core_isZero n" "\<not> core_isZero c" using assms by (simp_all add: rep_isZero)
  ultimately have "cd_shr c n = Some (core_shiftRight c (int w))" using n by (simp add: cd_shr_def)
  then show ?thesis using naive_shiftRight_undefined[of "digits c" "int w"] assms(1,4,5)
    by (simp add: core_shiftRight_eq rep_def normal_def)
qed

section \<open>Text of single digits\<close>

lemma find_char_first: "cs \<noteq> [] \<Longrightarrow> find_char (cs ! 0) cs = Some 0"
  by (cases cs) auto

lemma parse_zero_char:
  assumes "1 < base" "base \<le> int (length cs)" "base < 2 ^ 31" "cs ! 0 \<noteq> CHR '' ''"
  shows "bd_parse_char base cb cs (cs ! 0) (0, st) = Inr (0, st)"
proof -
  have "uint (word_of_int base :: digit) = base" using assms by (simp add: uint_word_of_int)
  then have "(0 :: digit) < word_of_int base" using assms(1) by (simp add: word_less_def)
  moreover have "cs \<noteq> []" using assms by auto
  ultimately show ?thesis using assms find_char_first[of cs]
    by (simp add: bd_parse_char_def bd_times_def bd_plus_def bd_checked_def bd_mul_def bd_add_def flow_def)
qed

lemma mfold_strip_zeros:
  assumes "1 < base" "base \<le> int (length cs)" "base < 2 ^ 31" "cs ! 0 \<noteq> CHR '' ''"
  shows "mfold (bd_parse_char base cb cs) (strip_zeros (cs ! 0) s) (0, st) = mfold (bd_parse_char base cb cs) s (0, st)"
proof (induction "cs ! 0" s rule: strip_zeros.induct)
  case (1 c d s)
  then show ?case using parse_zero_char[OF assms, of cb st]
    by (cases "c = cs ! 0") (simp_all del: mfold.simps(2), simp)
qed simp_all

lemma strip_zeros_Nil [simp]: "strip_zeros z s = [] \<longleftrightarrow> s = []"
  by (induction z s rule: strip_zeros.induct) auto

lemma cd_format_parse_digit:
  assumes "cd_format (cd_digit v) base cs = Inr s" "base < 2 ^ 31"
    and "distinct (take (nat base) cs)" "CHR '' '' \<notin> set (take (nat base) cs)"
  shows "cd_parse s base cs = Inr (cd_digit v)"
proof -
  have b: "1 < base" "base \<le> int (length cs)" using assms(1) by (auto simp: cd_format_def split: if_splits)
  have "cs ! 0 = take (nat base) cs ! 0" "0 < length (take (nat base) cs)" using b by auto
  then have z: "cs ! 0 \<noteq> CHR '' ''" using assms(4) nth_mem by metis
  define cb :: "digit list digit_callback" where "cb = (\<lambda>ov op ds. Inr (ds @ [ov]))"
  have "bd_parse base cb cs s [] = Inr (v, [])"
  proof (cases "v = 0")
    case True
    then have "s = [cs ! 0]" using assms(1) b by (simp add: cd_format_def core_isZero_def)
    then show ?thesis using parse_zero_char[OF b assms(2) z] True b by (simp add: bd_parse_def)
  next
    case False
    then obtain t where t: "bd_format base cs v = Inr t" "s = strip_zeros (cs ! 0) t"
      using assms(1) b by (auto simp: cd_format_def core_isZero_def split: if_splits)
    have "bd_parse base cb cs t [] = Inr (v, [])" by (rule bd_format_parse[OF t(1) assms(2-4)])
    then show ?thesis using t(2) mfold_strip_zeros[OF b assms(2) z, of cb t "[]"] b by (simp add: bd_parse_def)
  qed
  moreover from this have "s \<noteq> []" if "v \<noteq> 0" using that b by (auto simp: bd_parse_def)
  ultimately show ?thesis using b by (auto simp: cd_parse_def cb_def cd_digit_def)
qed

section \<open>Properties\<close>

text \<open>C16: addition, increment and comparison are those of the naturals for operands of any length; a product is exact where the left
  factor is below \<open>radix ^ 49\<close>; a subtraction below zero throws, and one from a number at least as large is exact where no digit of the
  subtrahend exceeds the digit above it (\<open>dominates\<close>), so that nothing is borrowed.\<close>

theorem cardinal_arithmetic:
  assumes "rep c v" "rep n w"
  shows "(\<exists>r. cd_plus c n = Inr r \<and> rep r (v + w)) \<and> (\<exists>r. cd_inc c = Inr r \<and> rep r (v + 1))
   \<and> (v < radix ^ 49 \<longrightarrow> (\<exists>r. cd_times c n = Inr r \<and> rep r (v * w)))
   \<and> (v < w \<longrightarrow> cd_minus c n = Inl (FlowException 1 SUB))
   \<and> (w \<le> v \<and> dominates (digits c) (digits n) \<longrightarrow> (\<exists>r. cd_minus c n = Inr r \<and> rep r (v - w)))
   \<and> (cd_eq c n \<longleftrightarrow> v = w) \<and> (cd_less c n \<longleftrightarrow> v < w) \<and> (cd_le c n \<longleftrightarrow> v \<le> w)"
  using cd_plus_rep[OF assms] cd_inc_rep[OF assms(1)] cd_times_rep[OF assms] cd_sub_underflow[OF assms]
    cd_sub_rep[OF assms] rep_eq[OF assms] rep_less[OF assms] rep_le[OF assms] assms(1)
  by (auto simp: cd_minus_def on_copy_def)

lemma cardinal_arithmetic_witness:
  "(\<exists>r. cd_plus (cd_digit (- 1)) (cd_digit 1) = Inr r \<and> rep r radix)
   \<and> cd_minus (cd_digit 1) (cd_digit (- 1)) = Inl (FlowException 1 SUB)"
proof -
  have u: "unat (- 1 :: digit) = radix - 1" by (simp add: unat_eq_nat_uint uint_word_ariths radix_def)
  have "rep (cd_digit (- 1)) (radix - 1)" using rep_digit[of "- 1"] u by metis
  then show ?thesis
    using cardinal_arithmetic[of "cd_digit (- 1)" "radix - 1" "cd_digit 1" 1]
      cardinal_arithmetic[of "cd_digit 1" 1 "cd_digit (- 1)" "radix - 1"] rep_1 by (simp add: radix_def)
qed

text \<open>\<open>pow\<close> returns, and its result is the power, for an exponent of one digit and a result of
  less than 50 digits.\<close>

theorem cardinal_pow_exact:
  assumes "rep b v" "0 < v" "rep e k" "k < radix" "v ^ k < radix ^ 49"
  shows "\<exists>r. cd_pow b e = Some (Inr r) \<and> rep r (v ^ k)"
  unfolding cd_utilities by (rule cardinal.u_pow_R[OF assms(1,3-)])

lemma cardinal_pow_exact_witness:
  "\<exists>r. cd_pow (cd_digit 10) (cd_digit 100) = Some (Inr r) \<and> rep r (10 ^ 100)"
  using cardinal_pow_exact[of "cd_digit 10" 10 "cd_digit 100" 100] rep_digit[of 10] rep_digit[of 100]
  by (simp add: radix_def)

text \<open>On numbers of one digit \<open>gcd\<close> and \<open>lcm\<close> return the greatest common divisor and the least
  common multiple.\<close>

theorem cardinal_gcd_lcm_exact:
  assumes "rep a v" "rep b w" "0 < v" "0 < w" "v * w < radix"
  shows "(\<exists>r. cd_gcd a b = Some (Inr r) \<and> rep r (gcd v w)) \<and> (\<exists>r. cd_lcm a b = Some (Inr r) \<and> rep r (lcm v w))"
proof -
  have "v * 1 \<le> v * w" "1 * w \<le> v * w" using assms by (intro mult_le_mono; simp)+
  then have "v < radix" "w < radix" using assms(5) by linarith+
  then show ?thesis using cardinal.u_gcd_R[OF assms(1,2)] cardinal.u_lcm_R[OF assms] unfolding cd_utilities by blast
qed

lemma cardinal_gcd_lcm_exact_witness:
  "(\<exists>r. cd_gcd (cd_digit 48) (cd_digit 180) = Some (Inr r) \<and> rep r (gcd 48 180))
   \<and> (\<exists>r. cd_lcm (cd_digit 48) (cd_digit 180) = Some (Inr r) \<and> rep r (lcm 48 180))"
  using rep_digit[of 48] rep_digit[of 180]
  by (intro cardinal_gcd_lcm_exact) (simp_all add: radix_def)

text \<open>The binary search of \<open>sqrt\<close> ends and returns the integer square root.\<close>

theorem cardinal_sqrt_floor:
  assumes "rep n v" "v < 2 ^ 63"
  shows "\<exists>r y. cd_sqrt n = Some (Inr r) \<and> rep r y \<and> y * y \<le> v \<and> v < (y + 1) * (y + 1)"
  unfolding cd_utilities by (rule cardinal.u_sqrt_R[OF assms])

lemma cardinal_sqrt_floor_witness:
  "\<exists>r y. cd_sqrt (cd_digit 1000000) = Some (Inr r) \<and> rep r y \<and> y * y \<le> 1000000 \<and> 1000000 < (y + 1) * (y + 1)"
  using rep_digit[of 1000000] by (intro cardinal_sqrt_floor) simp_all

text \<open>C17: for a base and an exponent of one digit and a modulus from 1 to \<open>2 ^ 32\<close>, where the divisions do not throw, the
  square-and-multiply of \<open>mod_pow\<close> ends and returns the power modulo \<open>mod\<close>.\<close>

theorem cardinal_mod_pow_exact:
  assumes "rep base v" "rep e k" "rep md m" "v < radix" "k < radix" "0 < m" "m \<le> 2 ^ 32"
  shows "\<exists>r. cd_mod_pow base e md = Some (Inr r) \<and> rep r (v ^ k mod m)"
  unfolding cd_utilities by (rule cardinal.u_mod_pow_R[OF assms])

lemma cardinal_mod_pow_exact_witness:
  "\<exists>r. cd_mod_pow (cd_digit 7) (cd_digit 560) (cd_digit 561) = Some (Inr r) \<and> rep r (7 ^ 560 mod 561)"
  using rep_digit[of 7] rep_digit[of 560] rep_digit[of 561]
  by (intro cardinal_mod_pow_exact) (simp_all add: radix_def)

text \<open>\<open><<=\<close> by less than 1000 multiplies by the power of two, whichever of its two branches runs;
  \<open>>>=\<close> on one digit divides by it below 31 bits and is undefined from 31 to 63.\<close>

theorem cardinal_shifts:
  assumes "rep c v" "rep n w" "w < 1000" "length (digits c) < 2 ^ 24"
  shows "(\<exists>r. cd_shl c n = Some (Inr r) \<and> rep r (v * 2 ^ w))
   \<and> (v < radix \<and> w < 31 \<longrightarrow> (\<exists>r. cd_shr c n = Some (Inr r) \<and> rep r (v div 2 ^ w)))
   \<and> (0 < v \<and> 31 \<le> w \<and> w < 64 \<longrightarrow> cd_shr c n = Some (Inl Undefined))"
  using cd_shl_rep[OF assms] cd_shr_rep[OF assms(1,2)] cd_shr_undefined[OF assms(1,2)] by blast

lemma cardinal_shifts_witness:
  "(\<exists>r. cd_shl (cd_digit 5) (cd_digit 700) = Some (Inr r) \<and> rep r (5 * 2 ^ 700))
   \<and> (\<exists>r. cd_shr (cd_digit 1000) (cd_digit 3) = Some (Inr r) \<and> rep r (1000 div 2 ^ 3))"
  using cardinal_shifts[of "cd_digit 5" 5 "cd_digit 700" 700] cardinal_shifts[of "cd_digit 1000" 1000 "cd_digit 3" 3]
    rep_digit[of 5] rep_digit[of 700] rep_digit[of 1000] rep_digit[of 3] by (simp add: radix_def)

text \<open>What \<open>format\<close> prints for a number of one digit reads back as that number, in every base.\<close>

theorem cardinal_digit_text:
  assumes "cd_format (cd_digit v) base cs = Inr s" "base < 2 ^ 31"
    and "distinct (take (nat base) cs)" "CHR '' '' \<notin> set (take (nat base) cs)"
  shows "cd_parse s base cs = Inr (cd_digit v)"
  by (rule cd_format_parse_digit[OF assms])

lemma cardinal_digit_text_witness:
  "cd_format (cd_digit 48879) 16 DIGITS = Inr ''beef'' \<and> cd_parse ''beef'' 16 DIGITS = Inr (cd_digit 48879)"
proof -
  have f: "cd_format (cd_digit 48879) 16 DIGITS = Inr ''beef''" by code_simp
  have "cd_parse ''beef'' 16 DIGITS = Inr (cd_digit 48879)"
    by (rule cardinal_digit_text[OF f]) (simp_all add: DIGITS_def)
  then show ?thesis using f by blast
qed

text \<open>Longer numbers do not survive their text. The chunks of a long text are stored as they come,
  so the text of \<open>2 ^ 64\<close> is read as another number, and \<open>format\<close> drops the zeros inside a chunk.\<close>

theorem cardinal_long_text_faults:
  "(case cd_parse ''18446744073709551616'' 10 DIGITS of Inr c \<Rightarrow> digits c = [1844674407370955161, 6] | Inl e \<Rightarrow> False)
   \<and> lval [1844674407370955161, 6] \<noteq> 18446744073709551616
   \<and> rbind (cd_parse ''100000000000000000000005'' 10 DIGITS) (\<lambda>c. cd_format c 10 DIGITS)
      = Inr ''100000000000000000005''"
proof (intro conjI)
  show "case cd_parse ''18446744073709551616'' 10 DIGITS of Inr c \<Rightarrow> digits c = [1844674407370955161, 6] | Inl e \<Rightarrow> False"
    by code_simp
  show "lval [1844674407370955161, 6] \<noteq> 18446744073709551616" by (simp add: radix_def)
  show "rbind (cd_parse ''100000000000000000000005'' 10 DIGITS) (\<lambda>c. cd_format c 10 DIGITS)
      = Inr ''100000000000000000005''" by code_simp
qed

end
