(* ===== verification/FirstCardinal.thy ===== *)
theory FirstCardinal
  imports Naive Cardinal
begin

unbundle bit_operations_syntax

text \<open>
  \<open>cpp/lib/BigCardinal.h\<close>: the unsigned numbers of the first generation, from which \<open>BigNumberNaive\<close> was taken. The
  object is its vector of digits, least significant first, and does the arithmetic itself. The bodies of the
  inner loops are the same text as in \<open>BigNumberNaive.cpp\<close> and share their definitions (\<open>mul_outer\<close>,
  \<open>divide_step\<close>, \<open>shl_step\<close>, \<open>shr_step\<close>, \<open>bitwise_loop\<close>); the operators around them, their shortcuts and what
  they normalise are those of this file. A non-const operator returns the new object.
\<close>

section \<open>Construction, queries and text\<close>

type_synonym cardinal = "digit list"

definition fc_new :: cardinal where
  "fc_new = [0]"

definition fc_digit :: "digit \<Rightarrow> cardinal" where
  "fc_digit n = [n]"

definition fc_parse :: "string \<Rightarrow> int \<Rightarrow> string \<Rightarrow> error + cardinal" where
  "fc_parse s base cs = (if \<not> (base > 1 \<and> base \<le> int (length cs)) then Inl AssertFailed
     else if s = [] then Inr [0]
     else rbind (bd_parse base (\<lambda>ov op ds. Inr (ds @ [ov])) cs s []) (\<lambda>(d, ds). Inr (ds @ [d])))"

definition fc_isZero :: "cardinal \<Rightarrow> bool" where
  "fc_isZero a \<longleftrightarrow> length a = 1 \<and> a ! 0 = 0"

definition fc_isOne :: "cardinal \<Rightarrow> bool" where
  "fc_isOne a \<longleftrightarrow> length a = 1 \<and> a ! 0 = 1"

definition fc_bits :: "cardinal \<Rightarrow> int" where
  "fc_bits a = (if a = [] then 0
     else let r = sint (ucast (bd_size (last a)) :: 32 word); s = int (length a) - 1
          in if s \<noteq> 0 then r + s * 64 else r)"

definition fc_format :: "cardinal \<Rightarrow> int \<Rightarrow> string \<Rightarrow> error + string" where
  "fc_format a base cs = (if \<not> (base > 1 \<and> base \<le> int (length cs)) then Inl AssertFailed
     else if a = [] \<or> fc_isZero a then Inr [cs ! 0]
     else rbind (mfold (\<lambda>d acc. rbind (bd_format base cs d) (\<lambda>t. Inr (acc @ t))) a [])
       (\<lambda>t. Inr (strip_zeros (cs ! 0) t)))"

definition fc_getDigitAt :: "cardinal \<Rightarrow> int \<Rightarrow> digit" where
  "fc_getDigitAt a pos = (if pos < 0 \<or> pos \<ge> int (length a) then 0 else a ! nat pos)"

section \<open>Comparison\<close>

definition fc_eq :: "cardinal \<Rightarrow> cardinal \<Rightarrow> bool" where
  "fc_eq a n \<longleftrightarrow> length a = length n \<and> list_all (\<lambda>i. a ! i = n ! i) [0..<length a]"

text \<open>The loop of \<open>operator <\<close> with the number of digits that are left.\<close>

fun fc_less_from :: "cardinal \<Rightarrow> cardinal \<Rightarrow> nat \<Rightarrow> bool" where
  "fc_less_from a n 0 = False"
| "fc_less_from a n (Suc i) = (if a ! i \<noteq> n ! i then a ! i < n ! i else fc_less_from a n i)"

definition fc_less :: "cardinal \<Rightarrow> cardinal \<Rightarrow> bool" where
  "fc_less a n = (if length a \<noteq> length n then length a < length n else fc_less_from a n (length a))"

definition fc_le :: "cardinal \<Rightarrow> cardinal \<Rightarrow> bool" where
  "fc_le a n \<longleftrightarrow> \<not> fc_less n a"

section \<open>Arithmetic\<close>

function fc_add_digit :: "cardinal \<Rightarrow> digit \<Rightarrow> nat \<Rightarrow> cardinal" where
  "fc_add_digit a d i = (if i \<ge> length a then a @ [d]
     else let (v, ov) = bd_add (a ! i) d in if ov \<noteq> 0 then fc_add_digit (a[i := v]) ov (i + 1) else a[i := v])"
  by pat_completeness auto
termination by (relation "measure (\<lambda>(a, d, i). length a - i)") auto

declare fc_add_digit.simps [simp del]

function fc_subtractAbsDigit :: "cardinal \<Rightarrow> digit \<Rightarrow> nat \<Rightarrow> error + cardinal" where
  "fc_subtractAbsDigit a d i = (if i \<ge> length a then Inl (FlowException 1 SUB)
     else let (v, borrow) = bd_sub (a ! i) d
          in if borrow = 0 then Inr (a[i := v])
             else if i + 1 \<ge> length a then Inl (FlowException borrow SUB)
             else fc_subtractAbsDigit (a[i := v]) borrow (i + 1))"
  by pat_completeness auto
termination by (relation "measure (\<lambda>(a, d, i). length a - i)") auto

declare fc_subtractAbsDigit.simps [simp del]

definition fc_subtractAbs :: "cardinal \<Rightarrow> cardinal \<Rightarrow> error + cardinal" where
  "fc_subtractAbs a n = rbind (mfold (\<lambda>i a.
       if i \<ge> length a then Inl (FlowException 1 SUB)
       else let (v, borrow) = bd_sub (a ! i) (n ! i)
            in if borrow = 0 then Inr (a[i := v])
               else if i + 1 \<ge> length a then Inl (FlowException borrow SUB)
               else fc_subtractAbsDigit (a[i := v]) borrow (i + 1)) [0..<length n] a)
     (\<lambda>a. Inr (normalize a))"

definition fc_add :: "cardinal \<Rightarrow> cardinal \<Rightarrow> cardinal" where
  "fc_add a n = (if fc_isZero n then a else if fc_isZero a then n
     else fold (\<lambda>i a. fc_add_digit a (n ! i) i) [0..<length n] a)"

definition fc_inc :: "cardinal \<Rightarrow> cardinal" where
  "fc_inc a = fc_add_digit a 1 0"

definition fc_sub :: "cardinal \<Rightarrow> cardinal \<Rightarrow> error + cardinal" where
  "fc_sub a n = (if fc_isZero n then Inr a
     else if fc_less a n then Inl (FlowException 1 SUB) else fc_subtractAbs a n)"

text \<open>\<open>operator --\<close> does not drop a leading zero.\<close>

definition fc_dec :: "cardinal \<Rightarrow> error + cardinal" where
  "fc_dec a = (if fc_isZero a then Inl (FlowException 1 SUB) else fc_subtractAbsDigit a 1 0)"

definition fc_mul :: "cardinal \<Rightarrow> cardinal \<Rightarrow> cardinal" where
  "fc_mul a n = (if fc_isZero n \<or> fc_isZero a then [0]
     else if fc_isOne n then a
     else normalize (fold (mul_outer a n) [0..<length n] (replicate (length a + length n) 0)))"

definition fc_divide :: "cardinal \<Rightarrow> cardinal \<Rightarrow> error + cardinal \<times> cardinal" where
  "fc_divide a n = (if fc_isZero n then Inl (FlowException 1 DIV)
     else if fc_isZero a then Inr ([0], [0])
     else if fc_isOne n then Inr (a, [0])
     else if fc_less a n then Inr ([0], a)
     else let quot_size = max 1 (int (length a) - int (length n) + 1)
          in rbind (mfold (divide_step n) (rev [0..<nat quot_size]) (replicate (nat quot_size) 0, a))
               (\<lambda>(quotient, rmd). Inr (normalize quotient, normalize rmd)))"

definition fc_div :: "cardinal \<Rightarrow> cardinal \<Rightarrow> error + cardinal" where
  "fc_div a n = rbind (fc_divide a n) (\<lambda>(q, r). Inr q)"

definition fc_mod :: "cardinal \<Rightarrow> cardinal \<Rightarrow> error + cardinal" where
  "fc_mod a n = rbind (fc_divide a n) (\<lambda>(q, r). Inr r)"

section \<open>Shifts and bitwise operations\<close>

text \<open>The operators for the loops and utilities of \<open>Utilities\<close>.\<close>

definition fc_ops :: "cardinal num_ops" where
  "fc_ops = \<lparr>o_digit = fc_digit, o_copy = (\<lambda>a. a), o_isZero = fc_isZero, o_isOne = fc_isOne, o_eq = fc_eq,
     o_less = fc_less, o_plus = (\<lambda>a b. Inr (fc_add a b)), o_inc = (\<lambda>a. Inr (fc_inc a)), o_bits = fc_bits,
     o_minus = fc_sub, o_times = (\<lambda>a b. Inr (fc_mul a b)),
     o_div = (\<lambda>a b. Some (fc_div a b)), o_mod = (\<lambda>a b. Some (fc_mod a b))\<rparr>"

definition fc_power_loop :: "cardinal \<Rightarrow> int option \<Rightarrow> cardinal \<Rightarrow> cardinal \<Rightarrow> (error + cardinal) option" where
  "fc_power_loop = u_power_loop fc_ops"

definition fc_shl :: "cardinal \<Rightarrow> cardinal \<Rightarrow> (error + cardinal) option" where
  "fc_shl a n = (if fc_isZero n \<or> fc_isZero a then Some (Inr a)
     else if fc_bits n > 1000 then Some (Inl (FlowException 1 SHL))
     else if length n = 1 \<and> n ! 0 < 64
     then let shift_bits = n ! 0 in if shift_bits = 0 then Some (Inr a)
       else Some (rbind (mfold (shl_step shift_bits) [0..<length a] (a, 0))
              (\<lambda>(a, carry). Inr (if carry \<noteq> 0 then a @ [carry] else a)))
     else obind (fc_power_loop n (Some (fc_bits a + 1000)) [0] [1]) (\<lambda>p. Some (Inr (fc_mul a p))))"

definition fc_shr :: "cardinal \<Rightarrow> cardinal \<Rightarrow> (error + cardinal) option" where
  "fc_shr a n = (if fc_isZero n \<or> fc_isZero a then Some (Inr a)
     else if length n = 1 \<and> n ! 0 < 64
     then let shift_bits = n ! 0 in if shift_bits = 0 then Some (Inr a)
       else Some (rbind (mfold (shr_step shift_bits) (rev [0..<length a]) a) (\<lambda>a. Inr (normalize a)))
     else obind (fc_power_loop n None [0] [1]) (\<lambda>p. Some (fc_div a p)))"

definition fc_and :: "cardinal \<Rightarrow> cardinal \<Rightarrow> cardinal" where
  "fc_and a n = normalize (bitwise_loop (AND) a n)"

definition fc_or :: "cardinal \<Rightarrow> cardinal \<Rightarrow> cardinal" where
  "fc_or a n = normalize (bitwise_loop (OR) a n)"

definition fc_xor :: "cardinal \<Rightarrow> cardinal \<Rightarrow> cardinal" where
  "fc_xor a n = normalize (bitwise_loop (XOR) a n)"

definition fc_not :: "cardinal \<Rightarrow> cardinal" where
  "fc_not a = normalize (map NOT a)"

section \<open>Utilities\<close>

definition fc_pow :: "cardinal \<Rightarrow> cardinal \<Rightarrow> (error + cardinal) option" where
  "fc_pow = u_pow fc_ops"

definition fc_gcd :: "cardinal \<Rightarrow> cardinal \<Rightarrow> (error + cardinal) option" where
  "fc_gcd = u_gcd fc_ops"

definition fc_lcm :: "cardinal \<Rightarrow> cardinal \<Rightarrow> (error + cardinal) option" where
  "fc_lcm = u_lcm fc_ops"

definition fc_sqrt :: "cardinal \<Rightarrow> (error + cardinal) option" where
  "fc_sqrt = u_sqrt fc_ops"

definition fc_mod_pow :: "cardinal \<Rightarrow> cardinal \<Rightarrow> cardinal \<Rightarrow> (error + cardinal) option" where
  "fc_mod_pow = u_mod_pow fc_ops"

section \<open>The two generations compute the same\<close>

lemma fc_isZero_iff: "fc_isZero a \<longleftrightarrow> a = [0]" and fc_isOne_iff: "fc_isOne a \<longleftrightarrow> a = [1]"
  by (auto simp: fc_isZero_def fc_isOne_def length_Suc_conv)

lemma fc_eq_iff: "fc_eq a n \<longleftrightarrow> a = n"
  by (auto simp: fc_eq_def list_all_iff intro: nth_equalityI)

lemma fc_less_from_compare: "fc_less_from a n i \<longleftrightarrow> compare_from a n i < 0"
  by (induction i) auto

lemma fc_less_compare: "fc_less a n \<longleftrightarrow> naive_compare a n < 0"
  by (simp add: fc_less_def naive_compare_def fc_less_from_compare)

lemma fc_add_digit_eq: "fc_add_digit a d i = addDigit a d i"
proof (induction a d i rule: fc_add_digit.induct)
  case (1 a d i)
  then show ?case by (subst fc_add_digit.simps, subst addDigit.simps) (auto simp: Let_def split: prod.splits)
qed

lemma fc_subtractAbsDigit_eq: "fc_subtractAbsDigit a d i = subtractDigit a d i"
proof (induction a d i rule: fc_subtractAbsDigit.induct)
  case (1 a d i)
  then show ?case
    by (subst fc_subtractAbsDigit.simps, subst subtractDigit.simps) (auto simp: Let_def split: prod.splits)
qed

lemma fc_subtractAbs_eq: "fc_subtractAbs a n = naive_subtract a n"
proof -
  have "(\<lambda>i a. if i \<ge> length a then Inl (FlowException 1 SUB)
       else let (v, borrow) = bd_sub (a ! i) (n ! i)
            in if borrow = 0 then Inr (a[i := v])
               else if i + 1 \<ge> length a then Inl (FlowException borrow SUB)
               else fc_subtractAbsDigit (a[i := v]) borrow (i + 1)) = sub_step n"
    by (intro ext) (auto simp: sub_step_def fc_subtractAbsDigit_eq Let_def split: prod.splits)
  then show ?thesis by (simp add: fc_subtractAbs_def naive_subtract_def)
qed

text \<open>Adding at a position keeps the last digit from becoming zero: it wraps only when it carries.\<close>

lemma addDigit_last:
  "i \<le> length a \<Longrightarrow> (if i < length a then last a \<noteq> 0 else d \<noteq> 0) \<Longrightarrow> last (addDigit a d i) \<noteq> 0"
proof (induction a d i rule: addDigit.induct)
  case (1 a d i)
  show ?case
  proof (cases "i < length a")
    case False
    then show ?thesis using 1 by (simp add: addDigit.simps[of a d "length a"])
  next
    case True
    obtain v ov where vo: "bd_add (a ! i) d = (v, ov)" by fastforce
    then have ex: "unat v + radix * unat ov = unat (a ! i) + unat d" using bd_add_exact[of "a ! i" d] by simp
    have l: "last a \<noteq> 0" using 1 True by simp
    have la: "last (a[i := v]) = (if i + 1 = length a then v else last a)"
    proof -
      have "last (a[i := v]) = a[i := v] ! (length a - 1)" using True by (subst last_conv_nth) auto
      moreover have "last a = a ! (length a - 1)" using True by (intro last_conv_nth) auto
      ultimately show ?thesis using True by (auto simp: nth_list_update)
    qed
    show ?thesis
    proof (cases "ov = 0")
      case z: True
      have "v \<noteq> 0" if "i + 1 = length a"
      proof
        assume "v = 0"
        then have "unat (a ! i) = 0" using ex z by simp
        then have "a ! i = 0" by (simp add: unat_eq_0)
        moreover have "a ! i = last a" using that True by (cases a rule: rev_cases) auto
        ultimately show False using l by simp
      qed
      then show ?thesis using True vo z l la by (simp add: addDigit.simps[of a d i])
    next
      case nz: False
      have "last (addDigit (a[i := v]) ov (i + 1)) \<noteq> 0"
        using 1(1)[of "(v, ov)" v ov "a[i := v]"] True vo nz l la by simp
      then show ?thesis using True vo nz by (simp add: addDigit.simps[of a d i])
    qed
  qed
qed

lemma normal_add_loop:
  assumes "a \<noteq> []" "last a \<noteq> 0" "n \<noteq> []" "last n \<noteq> 0"
  shows "last (fold (\<lambda>i a. addDigit a (n ! i) i) [0..<length n] a) \<noteq> 0"
proof -
  let ?f = "\<lambda>k. fold (\<lambda>i a. addDigit a (n ! i) i) [0..<k] a"
  have inv: "k < length (?f k) \<longrightarrow> last (?f k) \<noteq> 0" if "k \<le> length n" for k
    using that
  proof (induction k)
    case (Suc k)
    have len: "k \<le> length (?f k)" using add_loop[of k n a] Suc.prems assms(1) by simp
    show ?case
    proof (cases "k < length (?f k)")
      case True
      then show ?thesis using addDigit_last[of k "?f k" "n ! k"] Suc by simp
    next
      case False
      then show ?thesis using len by (simp add: addDigit.simps)
    qed
  qed (use assms in simp)
  obtain k where k: "length n = Suc k" using assms(3) by (cases n) auto
  have "k \<le> length (?f k)" using add_loop[of k n a] k assms(1) by simp
  moreover have "n ! k \<noteq> 0" using assms(3,4) k by (simp add: last_conv_nth)
  ultimately show ?thesis using addDigit_last[of k "?f k" "n ! k"] inv[of k] k by simp
qed

lemma fc_add_eq: "normal a \<Longrightarrow> normal n \<Longrightarrow> fc_add a n = naive_add a n"
proof -
  assume n: "normal a" "normal n"
  have "lval (fc_add a n) = lval a + lval n"
    using add_loop[of "length n" n a] n by (auto simp: fc_add_def fc_isZero_iff fc_add_digit_eq normal_def)
  moreover have "normal (fc_add a n)"
  proof (cases "a = [0] \<or> n = [0]")
    case True
    then show ?thesis using n by (auto simp: fc_add_def fc_isZero_iff)
  next
    case False
    then have "last a \<noteq> 0" "last n \<noteq> 0" "a \<noteq> []" "n \<noteq> []"
      using n by (auto simp: normal_def length_Suc_conv)
    moreover from this have "fold (\<lambda>i a. addDigit a (n ! i) i) [0..<length n] a \<noteq> []"
      using add_loop[of "length n" n a] by auto
    ultimately show ?thesis using normal_add_loop[of a n] False by (simp add: fc_add_def fc_isZero_iff fc_add_digit_eq normal_def)
  qed
  ultimately show ?thesis using n by (intro normal_lval_inj) (simp_all add: normal_def[of a])
qed


lemma fc_mul_eq: "normal a \<Longrightarrow> normal n \<Longrightarrow> fc_mul a n = naive_multiply a n"
proof -
  assume n: "normal a" "normal n"
  then have ne: "a \<noteq> []" "n \<noteq> []" by (simp_all add: normal_def)
  show ?thesis
  proof (cases "a = [0] \<or> n = [0]")
    case True
    then have "lval (naive_multiply a n) = lval [0]" by auto
    then have "naive_multiply a n = [0]" by (intro normal_lval_inj[OF normal_naive_multiply]) (simp_all add: normal_def)
    then show ?thesis using True by (auto simp: fc_mul_def fc_isZero_iff)
  next
    case False
    show ?thesis
    proof (cases "n = [1]")
      case True
      then have "naive_multiply a n = a" by (intro normal_lval_inj[OF normal_naive_multiply n(1)]) simp
      then show ?thesis using False True by (simp add: fc_mul_def fc_isZero_iff fc_isOne_iff)
    qed (use False ne in \<open>simp add: fc_mul_def naive_multiply_def fc_isZero_iff fc_isOne_iff\<close>)
  qed
qed

lemma fc_divide_eq: "a \<noteq> [] \<Longrightarrow> n \<noteq> [] \<Longrightarrow> fc_divide a n = naive_divide a n"
  by (simp add: fc_divide_def naive_divide_def fc_isZero_iff fc_isOne_iff fc_less_compare)

lemma fc_bitwise_eq:
  "fc_and a n = naive_bitwiseAnd a n" "fc_or a n = naive_bitwiseOr a n" "fc_xor a n = naive_bitwiseXor a n"
  "fc_not a = naive_bitwiseNot a"
  by (simp_all add: fc_and_def fc_or_def fc_xor_def fc_not_def naive_bitwiseAnd_def naive_bitwiseOr_def
    naive_bitwiseXor_def naive_bitwiseNot_def)

section \<open>What the numbers stand for\<close>

definition fc_rep :: "cardinal \<Rightarrow> nat \<Rightarrow> bool" where
  "fc_rep a v \<longleftrightarrow> normal a \<and> lval a = v"

text \<open>The object of the second generation with the same digits.\<close>

definition as_core :: "cardinal \<Rightarrow> core" where
  "as_core a = core_new\<lparr>digits := a\<rparr>"

lemma as_core_rep: "rep (as_core a) v \<longleftrightarrow> fc_rep a v" and digits_as_core [simp]: "digits (as_core a) = a"
  by (simp_all add: as_core_def rep_def fc_rep_def)

lemma fc_bits_core: "fc_bits a = cd_bits (as_core a)"
  by (simp add: fc_bits_def cd_bits_def)

lemma fc_rep_digit: "fc_rep [d] (unat d)"
  by (simp add: fc_rep_def normal_def)

lemma fc_rep_isZero: "fc_rep a v \<Longrightarrow> fc_isZero a \<longleftrightarrow> v = 0"
  using normal_zero[of a] by (auto simp: fc_rep_def fc_isZero_iff)

lemma fc_rep_isOne: "fc_rep a v \<Longrightarrow> fc_isOne a \<longleftrightarrow> v = 1"
  using normal_one[of a] by (auto simp: fc_rep_def fc_isOne_iff)

lemma fc_rep_eq: "fc_rep a v \<Longrightarrow> fc_rep b w \<Longrightarrow> fc_eq a b \<longleftrightarrow> v = w"
  using normal_lval_inj[of a b] by (auto simp: fc_rep_def fc_eq_iff)

lemma fc_rep_less: "fc_rep a v \<Longrightarrow> fc_rep b w \<Longrightarrow> fc_less a b \<longleftrightarrow> v < w"
  using naive_compare_value[of a b] by (auto simp: fc_rep_def fc_less_compare)

lemma fc_rep_le: "fc_rep a v \<Longrightarrow> fc_rep b w \<Longrightarrow> fc_le a b \<longleftrightarrow> v \<le> w"
  by (auto simp: fc_le_def fc_rep_less[of b w a v])

lemma fc_rep_small: "fc_rep a v \<Longrightarrow> v < radix \<Longrightarrow> a = [of_nat v]"
  using rep_small[of "as_core a" v] by (simp add: as_core_rep)

lemma fc_rep_add: "fc_rep a v \<Longrightarrow> fc_rep b w \<Longrightarrow> fc_rep (fc_add a b) (v + w)"
  by (simp add: fc_rep_def fc_add_eq normal_def[of a])

lemma fc_inc_eq: "normal a \<Longrightarrow> fc_inc a = naive_add a [1]"
proof -
  assume n: "normal a"
  have v: "lval (addDigit a 1 0) = lval a + 1" by (simp add: lval_addDigit)
  have "normal (addDigit a 1 0)"
  proof (cases "a = [0]")
    case True
    then show ?thesis by (simp add: addDigit.simps[of "[0]"] bd_add_def normal_def Let_def)
  next
    case False
    then have "last a \<noteq> 0" "a \<noteq> []" using n by (auto simp: normal_def length_Suc_conv)
    then have "last (addDigit a 1 0) \<noteq> 0" using addDigit_last[of 0 a 1] by simp
    moreover have "addDigit a 1 0 \<noteq> []" using length_addDigit[of 0 a 1] by auto
    ultimately show ?thesis by (simp add: normal_def)
  qed
  then show ?thesis using v n
    by (simp add: fc_inc_def fc_add_digit_eq) (intro normal_lval_inj, simp_all add: normal_def[of a])
qed

lemma fc_rep_inc: "fc_rep a v \<Longrightarrow> fc_rep (fc_inc a) (v + 1)"
  by (simp add: fc_rep_def fc_inc_eq normal_def[of a])

lemma fc_rep_mul: "fc_rep a v \<Longrightarrow> fc_rep b w \<Longrightarrow> fc_rep (fc_mul a b) (v * w)"
  by (simp add: fc_rep_def fc_mul_eq)

lemma fc_rep_sub:
  assumes "fc_rep a v" "fc_rep b w" "w \<le> v" "dominates a b"
  shows "\<exists>r. fc_sub a b = Inr r \<and> fc_rep r (v - w)"
proof -
  obtain r where "naive_subtract a b = Inr r" "normal r" "lval r + lval b = lval a"
    using naive_subtract_dominated[OF assms(4)] assms(1) by (auto simp: fc_rep_def normal_def)
  then show ?thesis using assms fc_rep_less[OF assms(1,2)] fc_rep_isZero[OF assms(2)]
    by (auto simp: fc_sub_def fc_subtractAbs_eq fc_rep_def)
qed

lemma fc_rep_sub_small:
  assumes "fc_rep a v" "fc_rep b w" "w \<le> v" "v < radix"
  shows "\<exists>r. fc_sub a b = Inr r \<and> fc_rep r (v - w)"
proof -
  have "unat (of_nat v :: digit) = v" "unat (of_nat w :: digit) = w"
    using assms by (simp_all add: unat_of_nat radix_def)
  moreover have "a = [of_nat v]" "b = [of_nat w]" using assms fc_rep_small by auto
  ultimately have "dominates a b" using assms(3) by (simp add: dominates_single word_le_nat_alt)
  then show ?thesis by (rule fc_rep_sub[OF assms(1-3)])
qed

lemma fc_rep_divide_small:
  assumes "fc_rep a v" "fc_rep b w" "v < radix" "0 < w" "w < radix"
  shows "\<exists>q r. fc_divide a b = Inr (q, r) \<and> fc_rep q (v div w) \<and> fc_rep r (v mod w)"
proof -
  have u: "unat (of_nat v :: digit) = v" "unat (of_nat w :: digit) = w"
    using assms by (simp_all add: unat_of_nat radix_def)
  have w: "(of_nat w :: digit) \<noteq> 0" using u assms(4) by (metis less_irrefl unat_0)
  have "a = [of_nat v]" "b = [of_nat w]" using assms fc_rep_small by auto
  then show ?thesis using naive_divide_single[OF w, of "of_nat v"] u
    by (simp add: fc_divide_eq fc_rep_def normal_def unat_div_distrib unat_mod_distrib)
qed

interpretation first: num_theory fc_ops fc_rep "\<lambda>v. True"
proof
  show "2 ^ (nat (o_bits fc_ops a) - 1) \<le> v" if "fc_rep a v" "0 < v" "v < radix ^ 49" for a v
    using cardinal.R_bits[of "as_core a" v] that by (simp add: fc_ops_def cd_ops_def as_core_rep fc_bits_core)
  show "\<exists>r. o_inc fc_ops a = Inr r \<and> fc_rep r (v + 1)" if "fc_rep a v" for a v
    using fc_rep_inc[OF that] by (simp add: fc_ops_def)
  show "\<exists>r. o_div fc_ops a b = Some (Inr r) \<and> fc_rep r (v div w)"
    and "\<exists>r. o_mod fc_ops a b = Some (Inr r) \<and> fc_rep r (v mod w)"
    if "fc_rep a v" "fc_rep b w" "v < radix" "0 < w" "w < radix" for a b v w
    using fc_rep_divide_small[OF that] by (auto simp: fc_ops_def fc_div_def fc_mod_def)
qed (simp_all add: fc_ops_def fc_digit_def fc_rep_digit fc_rep_isZero fc_rep_isOne fc_rep_eq fc_rep_less fc_rep_add
  fc_rep_sub_small fc_rep_mul)

lemmas fc_utilities = fc_pow_def fc_gcd_def fc_lcm_def fc_sqrt_def fc_mod_pow_def

section \<open>Shifts\<close>

lemma fc_bits_small:
  assumes "fc_rep n w" "0 < w" "w < 1000"
  shows "\<not> fc_bits n > 1000"
proof -
  have "w < radix" using assms(3) by (simp add: radix_def)
  then have len: "length (digits (as_core n)) < 2 ^ 24" using fc_rep_small[OF assms(1)] by simp
  have "2 ^ (nat (fc_bits n) - 1) \<le> w"
    using cd_bits_rep(2)[OF _ assms(2) len] assms(1) by (simp add: as_core_rep fc_bits_core)
  moreover have "w < 2 ^ 10" using assms(3) by simp
  ultimately have "(2 :: nat) ^ (nat (fc_bits n) - 1) < 2 ^ 10" by linarith
  then have "nat (fc_bits n) - 1 < 10" by (simp only: power_strict_increasing_iff one_less_numeral_iff semiring_norm)
  then show ?thesis by linarith
qed

lemma normal_by_value:
  assumes "a \<noteq> []" "radix ^ (length a - 1) \<le> lval a"
  shows "normal a"
proof (rule ccontr)
  assume "\<not> normal a"
  then have l: "last a = 0" using assms(1) by (auto simp: normal_def)
  have "lval a = lval (butlast a @ [last a])" using assms(1) by simp
  also have "\<dots> = lval (butlast a)" by (simp add: l lval_snoc)
  finally have "lval a < radix ^ (length a - 1)" using lval_less[of "butlast a"] by simp
  then show False using assms(2) by simp
qed

lemma shl_from_normal:
  assumes "s < 64" "normal a" "a \<noteq> [0]"
  shows "\<exists>r. shl_from s 0 a = Inr r \<and> normal r \<and> lval r = lval a * 2 ^ unat s"
proof -
  obtain r c where r: "mfold (shl_step s) [0..<length a] (a, 0) = Inr (r, c)" "length r = length a"
    "lval r + unat c * radix ^ length a = lval a * 2 ^ unat s"
    using shl_loop[OF assms(1) le0 order_refl, of a] by auto
  have ne: "a \<noteq> []" using assms(2) by (simp add: normal_def)
  show ?thesis
  proof (cases "c = 0")
    case True
    have "lval a * 1 \<le> lval a * 2 ^ unat s" by (intro mult_le_mono) simp_all
    then have "radix ^ (length a - 1) \<le> lval a * 2 ^ unat s" using normal_lower[OF assms(2,3)] by linarith
    then have "radix ^ (length r - 1) \<le> lval r" using r True by simp
    then have "normal r" using r(2) ne by (intro normal_by_value) auto
    then show ?thesis using r True by (simp add: shl_from_def)
  next
    case False
    then have "normal (r @ [c])" by (simp add: normal_def)
    then show ?thesis using r False by (simp add: shl_from_def lval_snoc mult.commute)
  qed
qed

lemma fc_shl_small:
  assumes "fc_rep a v" "0 < v" "fc_rep n w" "0 < w" "w < 64"
  shows "\<exists>r. fc_shl a n = Some (Inr r) \<and> fc_rep r (v * 2 ^ w)"
proof -
  have n: "n = [of_nat w]" "unat (of_nat w :: digit) = w"
    using rep_single[of "as_core n" w] assms(3,5) by (simp_all add: as_core_rep)
  have s: "(of_nat w :: digit) < 64" "of_nat w \<noteq> (0 :: digit)"
    using assms(4,5) n(2) by (auto simp: word_less_nat_alt unat_eq_zero simp del: of_nat_eq_0_iff)
  have bits: "\<not> fc_bits n > 1000" using assms(4,5) by (intro fc_bits_small[OF assms(3)]) simp_all
  have a: "normal a" "a \<noteq> [0]" using assms(1,2) by (auto simp: fc_rep_def)
  obtain r where r: "shl_from (of_nat w) 0 a = Inr r" "normal r" "lval r = lval a * 2 ^ w"
    using shl_from_normal[OF s(1) a] n(2) by auto
  have z: "\<not> fc_isZero n" "\<not> fc_isZero a" using assms by (simp_all add: fc_rep_isZero)
  have "fc_shl a n = Some (shl_from (of_nat w) 0 a)"
    using z bits s by (simp add: fc_shl_def n(1) shl_from_def)
  then show ?thesis using r assms(1) by (simp add: fc_rep_def)
qed

lemma fc_shl_large:
  assumes "fc_rep a v" "0 < v" "fc_rep n w" "64 \<le> w" "w < 1000" "0 < fc_bits a"
  shows "\<exists>r. fc_shl a n = Some (Inr r) \<and> fc_rep r (v * 2 ^ w)"
proof -
  have bits: "\<not> fc_bits n > 1000" using assms(4,5) by (intro fc_bits_small[OF assms(3)]) simp_all
  have z: "\<not> fc_isZero n" "\<not> fc_isZero a" using assms by (simp_all add: fc_rep_isZero)
  have ns: "\<not> (length n = 1 \<and> n ! 0 < 64)"
    using rep_not_single[of "as_core n" w] assms(3,4) by (simp add: as_core_rep)
  obtain p where p: "fc_power_loop n (Some (fc_bits a + 1000)) [0] [1] = Some (Inr p)" "fc_rep p (2 ^ w)"
    using first.u_power_R[OF assms(3,5), of "Some (fc_bits a + 1000)"] assms(5,6)
    by (auto simp: fc_power_loop_def fc_ops_def fc_digit_def)
  have "fc_shl a n = Some (Inr (fc_mul a p))"
    unfolding fc_shl_def using z bits ns by (simp only: if_False de_Morgan_disj simp_thms) (simp add: p(1))
  then show ?thesis using fc_rep_mul[OF assms(1) p(2)] by simp
qed

lemma fc_shr_small:
  assumes "fc_rep a v" "fc_rep n w" "v < radix" "0 < v" "0 < w" "w < 31"
  shows "\<exists>r. fc_shr a n = Some (Inr r) \<and> fc_rep r (v div 2 ^ w)"
proof -
  have w64: "w < 64" using assms(6) by simp
  have n: "n = [of_nat w]" "unat (of_nat w :: digit) = w"
    using rep_single[of "as_core n" w, OF _ w64] assms(2) by (simp_all add: as_core_rep)
  have s: "(of_nat w :: digit) < 64" "of_nat w \<noteq> (0 :: digit)" "int w \<noteq> 0"
    using w64 assms(5) n(2) by (auto simp: word_less_nat_alt unat_eq_zero simp del: of_nat_eq_0_iff)
  have a: "a = [of_nat v]" by (rule fc_rep_small[OF assms(1,3)])
  have "low_bits_clear w a" by (simp add: low_bits_clear_def a)
  then obtain r where r: "naive_shiftRight a (int w) = Inr r" "lval r = lval a div 2 ^ w"
    using naive_shiftRight_clear[of "int w" a] assms(6) by auto
  have "normal r" using normal_naive_shiftRight[OF r(1)] assms(1) by (simp add: fc_rep_def)
  moreover have "\<not> fc_isZero n" "\<not> fc_isZero a" using assms by (simp_all add: fc_rep_isZero)
  then have "fc_shr a n = Some (naive_shiftRight a (int w))"
    using s w64 by (simp add: fc_shr_def n(1) naive_shiftRight_def Let_def a)
  ultimately show ?thesis using r assms(1) by (simp add: fc_rep_def)
qed

lemma fc_shr_undefined:
  assumes "fc_rep a v" "fc_rep n w" "0 < v" "31 \<le> w" "w < 64"
  shows "fc_shr a n = Some (Inl Undefined)"
proof -
  have n: "n = [of_nat w]" "unat (of_nat w :: digit) = w"
    using rep_single[of "as_core n" w, OF _ assms(5)] assms(2) by (simp_all add: as_core_rep)
  have s: "(of_nat w :: digit) < 64" "of_nat w \<noteq> (0 :: digit)"
    using assms(4,5) n(2) by (auto simp: word_less_nat_alt unat_eq_zero simp del: of_nat_eq_0_iff)
  have ne: "a \<noteq> []" using assms(1) by (auto simp: fc_rep_def normal_def)
  have "\<not> fc_isZero n" "\<not> fc_isZero a" using assms by (simp_all add: fc_rep_isZero)
  then have "fc_shr a n = Some (naive_shiftRight a (int w))"
    using s assms(4,5) ne by (simp add: fc_shr_def n(1) naive_shiftRight_def Let_def)
  then show ?thesis using naive_shiftRight_undefined[OF ne, of "int w"] assms(4,5) by simp
qed

lemma fc_shl_rep:
  assumes "fc_rep a v" "fc_rep n w" "w < 1000" "length a < 2 ^ 24"
  shows "\<exists>r. fc_shl a n = Some (Inr r) \<and> fc_rep r (v * 2 ^ w)"
proof (cases "v = 0 \<or> w = 0")
  case True
  then show ?thesis using assms(1,2) by (auto simp: fc_shl_def fc_rep_isZero)
next
  case False
  then have pos: "0 < v" "0 < w" by simp_all
  have "0 < fc_bits a" using cd_bits_rep(1)[of "as_core a" v] assms(1,4) pos(1) by (simp add: as_core_rep fc_bits_core)
  then show ?thesis
    using fc_shl_small[OF assms(1) pos(1) assms(2) pos(2)] fc_shl_large[OF assms(1) pos(1) assms(2) _ assms(3)]
    by (cases "w < 64") simp_all
qed

lemma fc_digit_text:
  assumes "fc_format [v] base cs = Inr s" "base < 2 ^ 31"
    and "distinct (take (nat base) cs)" "CHR '' '' \<notin> set (take (nat base) cs)"
  shows "fc_parse s base cs = Inr [v]"
proof -
  have "cd_format (cd_digit v) base cs = fc_format [v] base cs"
    by (simp add: cd_format_def fc_format_def core_isZero_def fc_isZero_def cd_digit_def)
  then have "cd_format (cd_digit v) base cs = Inr s" using assms(1) by simp
  then have "cd_parse s base cs = Inr (cd_digit v)" by (rule cd_format_parse_digit[OF _ assms(2-4)])
  moreover have "rbind (fc_parse s base cs) (\<lambda>ds. Inr (core_new\<lparr>digits := ds\<rparr>)) = cd_parse s base cs"
    by (cases "bd_parse base (\<lambda>ov op ds. Inr (ds @ [ov])) cs s []") (auto simp: fc_parse_def cd_parse_def)
  ultimately show ?thesis by (cases "fc_parse s base cs") (auto simp: cd_digit_def core_new_def)
qed

section \<open>Properties\<close>

text \<open>Addition, increment, multiplication and comparison are those of the naturals at every length; a
  subtraction below zero throws and one without borrows is exact.\<close>

theorem first_cardinal_arithmetic:
  assumes "fc_rep a v" "fc_rep b w"
  shows "fc_rep (fc_add a b) (v + w) \<and> fc_rep (fc_inc a) (v + 1) \<and> fc_rep (fc_mul a b) (v * w)
   \<and> (v < w \<longrightarrow> fc_sub a b = Inl (FlowException 1 SUB))
   \<and> (w \<le> v \<and> dominates a b \<longrightarrow> (\<exists>r. fc_sub a b = Inr r \<and> fc_rep r (v - w)))
   \<and> (fc_eq a b \<longleftrightarrow> v = w) \<and> (fc_less a b \<longleftrightarrow> v < w) \<and> (fc_le a b \<longleftrightarrow> v \<le> w)"
proof -
  have "fc_sub a b = Inl (FlowException 1 SUB)" if "v < w"
    using that fc_rep_isZero[OF assms(2)] fc_rep_less[OF assms] by (simp add: fc_sub_def)
  then show ?thesis
    using fc_rep_add[OF assms] fc_rep_inc[OF assms(1)] fc_rep_mul[OF assms] fc_rep_sub[OF assms]
      fc_rep_eq[OF assms] fc_rep_less[OF assms] fc_rep_le[OF assms] by blast
qed

lemma first_cardinal_arithmetic_witness:
  "fc_rep (fc_add [5] [7]) 12 \<and> fc_rep (fc_mul [5] [7]) 35 \<and> fc_sub [5] [7] = Inl (FlowException 1 SUB)"
  using first_cardinal_arithmetic[OF fc_rep_digit[of 5] fc_rep_digit[of 7]] by simp

text \<open>\<open>pow\<close>, \<open>gcd\<close>, \<open>lcm\<close>, \<open>sqrt\<close> and \<open>mod_pow\<close> return, with the right number: the power at every length, the
  others for numbers of one digit, where the division they use is exact.\<close>

theorem first_cardinal_utilities:
  assumes "fc_rep a v" "fc_rep b w" "w < radix"
  shows "(\<exists>r. fc_pow a b = Some (Inr r) \<and> fc_rep r (v ^ w))
   \<and> (v < radix \<longrightarrow> (\<exists>r. fc_gcd a b = Some (Inr r) \<and> fc_rep r (gcd v w)))
   \<and> (0 < v \<and> 0 < w \<and> v * w < radix \<longrightarrow> (\<exists>r. fc_lcm a b = Some (Inr r) \<and> fc_rep r (lcm v w)))
   \<and> (v < 2 ^ 63 \<longrightarrow> (\<exists>r y. fc_sqrt a = Some (Inr r) \<and> fc_rep r y \<and> y * y \<le> v \<and> v < (y + 1) * (y + 1)))
   \<and> (fc_rep md m \<and> v < radix \<and> 0 < m \<and> m \<le> 2 ^ 32 \<longrightarrow> (\<exists>r. fc_mod_pow a b md = Some (Inr r) \<and> fc_rep r (v ^ w mod m)))"
  unfolding fc_utilities
  using first.u_pow_R[OF assms TrueI] first.u_gcd_R[OF assms(1,2) _ assms(3)] first.u_lcm_R[OF assms(1,2)]
    first.u_sqrt_R[OF assms(1)] first.u_mod_pow_R[OF assms(1,2) _ _ assms(3)] by blast

lemma first_cardinal_utilities_witness:
  "(\<exists>r. fc_pow [10] [100] = Some (Inr r) \<and> fc_rep r (10 ^ 100)) \<and> (\<exists>r. fc_gcd [10] [100] = Some (Inr r) \<and> fc_rep r (gcd 10 100))"
  using first_cardinal_utilities[OF fc_rep_digit[of 10] fc_rep_digit[of 100]] by (simp add: radix_def)

text \<open>A left shift by less than 1000 bits multiplies; a right shift of one digit divides below 31 bits and is
  undefined from 31 to 63; the bitwise operators are those of the naturals.\<close>

theorem first_cardinal_bits:
  assumes "fc_rep a v" "fc_rep n w"
  shows "(w < 1000 \<and> length a < 2 ^ 24 \<longrightarrow> (\<exists>r. fc_shl a n = Some (Inr r) \<and> fc_rep r (v * 2 ^ w)))
   \<and> (v < radix \<and> 0 < v \<and> 0 < w \<and> w < 31 \<longrightarrow> (\<exists>r. fc_shr a n = Some (Inr r) \<and> fc_rep r (v div 2 ^ w)))
   \<and> (0 < v \<and> 31 \<le> w \<and> w < 64 \<longrightarrow> fc_shr a n = Some (Inl Undefined))
   \<and> lval (fc_and a n) = and v w \<and> lval (fc_or a n) = or v w \<and> lval (fc_xor a n) = xor v w"
  using fc_shl_rep[OF assms] fc_shr_small[OF assms] fc_shr_undefined[OF assms] assms
  by (simp add: fc_bitwise_eq lval_naive_bitwise fc_rep_def)

lemma first_cardinal_bits_witness:
  "(\<exists>r. fc_shl [5] [700] = Some (Inr r) \<and> fc_rep r (5 * 2 ^ 700)) \<and> fc_shr [5] [40] = Some (Inl Undefined)"
  using first_cardinal_bits[OF fc_rep_digit[of 5] fc_rep_digit[of 700]]
    first_cardinal_bits[OF fc_rep_digit[of 5] fc_rep_digit[of 40]] by simp

text \<open>What \<open>format\<close> prints for a number of one digit reads back as that number, in every base.\<close>

theorem first_cardinal_text:
  assumes "fc_format [v] base cs = Inr s" "base < 2 ^ 31"
    and "distinct (take (nat base) cs)" "CHR '' '' \<notin> set (take (nat base) cs)"
  shows "fc_parse s base cs = Inr [v]"
  by (rule fc_digit_text[OF assms])

lemma first_cardinal_text_witness:
  "fc_format [48879] 16 DIGITS = Inr ''beef'' \<and> fc_parse ''beef'' 16 DIGITS = Inr [48879]"
proof
  show "fc_format [48879] 16 DIGITS = Inr ''beef''" by code_simp
  moreover have "distinct (take (nat 16) DIGITS)" "CHR '' '' \<notin> set (take (nat 16) DIGITS)" by code_simp+
  ultimately show "fc_parse ''beef'' 16 DIGITS = Inr [48879]" by (intro first_cardinal_text) simp_all
qed

text \<open>A text of more than one digit is stored with its first chunk in the lowest place, as another number.\<close>

theorem first_cardinal_long_text:
  "fc_parse ''18446744073709551616'' 10 DIGITS = Inr [1844674407370955161, 6]
   \<and> lval [1844674407370955161, 6] \<noteq> 18446744073709551616"
proof
  show "fc_parse ''18446744073709551616'' 10 DIGITS = Inr [1844674407370955161, 6]" by code_simp
qed (simp add: radix_def)

text \<open>\<open>operator --\<close> leaves a leading zero: \<open>2 ^ 64\<close> less one has two digits, is not equal to \<open>2 ^ 64 - 1\<close> and
  compares as greater than it.\<close>

theorem first_cardinal_dec_not_normal:
  "fc_dec [0, 1] = Inr [-1, 0] \<and> lval [-1, 0] = lval [-1] \<and> \<not> fc_eq [-1, 0] [-1] \<and> fc_less [-1] [-1, 0]"
proof (intro conjI)
  show "fc_dec [0, 1] = Inr [-1, 0]" by code_simp
qed (simp_all add: fc_eq_iff fc_less_def)

end
