(* ===== verification/SignedNumbers.thy ===== *)
theory SignedNumbers
  imports BigDigits "HOL-Library.Signed_Division"
begin

text \<open>
  The interface that \<open>pow\<close> and \<open>gcd\<close> of signed numbers use, with the laws a class of signed numbers
  promises: \<open>R b z\<close> says that \<open>b\<close> stands for the integer \<open>z\<close>. Both generations of \<open>BigInteger\<close> have the two functions
  with the same text; what they compute is shown once, from the laws.
\<close>

locale signed_numbers =
  fixes R :: "'b \<Rightarrow> int \<Rightarrow> bool"
    and isZero isOne :: "'b \<Rightarrow> bool"
    and copy iabs :: "'b \<Rightarrow> 'b"
    and ieq :: "'b \<Rightarrow> 'b \<Rightarrow> bool"
    and isub imul idiv imod :: "'b \<Rightarrow> 'b \<Rightarrow> error + 'b"
    and i1 c0 c1 c2 :: 'b
    and ipow igcd :: "'b \<Rightarrow> 'b \<Rightarrow> (error + 'b) option"
  assumes isZero_R: "R b x \<Longrightarrow> isZero b \<longleftrightarrow> x = 0"
    and isOne_R: "R b x \<Longrightarrow> isOne b \<longleftrightarrow> \<bar>x\<bar> = 1"
    and copy_R [simp]: "R b x \<Longrightarrow> copy b = b"
    and abs_R: "R b x \<Longrightarrow> R (iabs b) \<bar>x\<bar>"
    and eq_R: "R b x \<Longrightarrow> R n y \<Longrightarrow> ieq b n \<longleftrightarrow> x = y"
    and one_R: "R i1 1" and c0_R: "R c0 0" and c1_R: "R c1 1" and c2_R: "R c2 2"
    and minus_R: "R b x \<Longrightarrow> R n y \<Longrightarrow> x * y \<le> 0 \<or> \<bar>x\<bar> < int radix \<and> \<bar>y\<bar> < int radix \<Longrightarrow> \<exists>r. isub b n = Inr r \<and> R r (x - y)"
    and times_R: "R b x \<Longrightarrow> R n y \<Longrightarrow> nat \<bar>x\<bar> < radix ^ 49 \<or> nat \<bar>y\<bar> < radix ^ 49 \<Longrightarrow>
      \<exists>r. imul b n = Inr r \<and> R r (if y = -1 then x else x * y)"
    and div_R: "R b x \<Longrightarrow> R n y \<Longrightarrow> \<bar>x\<bar> < int radix \<Longrightarrow> \<bar>y\<bar> < int radix \<Longrightarrow> y \<noteq> 0 \<Longrightarrow> \<exists>r. idiv b n = Inr r \<and> R r (x sdiv y)"
    and mod_R: "R b x \<Longrightarrow> R n y \<Longrightarrow> \<bar>x\<bar> < int radix \<Longrightarrow> \<bar>y\<bar> < int radix \<Longrightarrow> y \<noteq> 0 \<Longrightarrow> \<exists>r. imod b n = Inr r \<and> R r (x smod y)"
    and pow_unfold: "ipow b e = (if isZero e then Some (Inr i1) else if isOne e then Some (Inr (copy b))
      else obind (Some (imod (iabs e) c2)) (\<lambda>m.
        if ieq m c0 then obind (Some (idiv (iabs e) c2)) (\<lambda>h. obind (ipow b h) (\<lambda>half. Some (imul half half)))
        else obind (Some (isub (iabs e) c1)) (\<lambda>e'. obind (ipow b e') (\<lambda>p. Some (imul b p)))))"
    and gcd_unfold: "igcd a b = (if isZero b then Some (Inr (iabs a))
      else obind (Some (imod a b)) (\<lambda>r. igcd (iabs b) (iabs r)))"
begin

lemma gcd_R:
  assumes "R a x" "R b y" "\<bar>x\<bar> < int radix" "\<bar>y\<bar> < int radix"
  shows "\<exists>r. igcd a b = Some (Inr r) \<and> R r (gcd x y)"
  using assms
proof (induction "nat \<bar>y\<bar>" arbitrary: a b x y rule: less_induct)
  case less
  show ?case
  proof (cases "y = 0")
    case True
    then show ?thesis using isZero_R[OF less.prems(2)] abs_R[OF less.prems(1)] by (subst gcd_unfold) simp
  next
    case False
    obtain r where r: "imod a b = Inr r" "R r (x smod y)" using mod_R[OF less.prems False] by blast
    have lt: "\<bar>x smod y\<bar> < \<bar>y\<bar>" using smod_int_range[OF False, of x] by auto
    have m: "nat \<bar>\<bar>x smod y\<bar>\<bar> < nat \<bar>y\<bar>" "\<bar>\<bar>y\<bar>\<bar> < int radix" "\<bar>\<bar>x smod y\<bar>\<bar> < int radix" using lt less.prems(4) by auto
    obtain g where g: "igcd (iabs b) (iabs r) = Some (Inr g)" "R g (gcd \<bar>y\<bar> \<bar>x smod y\<bar>)"
      using less.hyps[OF m(1) abs_R[OF less.prems(2)] abs_R[OF r(2)] m(2,3)] by blast
    have "gcd \<bar>y\<bar> \<bar>x smod y\<bar> = gcd y (x smod y)" by simp
    also have "\<dots> = gcd y ((x sdiv y) * y + x smod y)" by (simp only: gcd_add_mult)
    also have "\<dots> = gcd x y" by (simp only: sdiv_mult_smod_eq gcd.commute)
    finally have "gcd \<bar>y\<bar> \<bar>x smod y\<bar> = gcd x y" .
    then show ?thesis using g r False isZero_R[OF less.prems(2)] by (subst gcd_unfold) simp
  qed
qed

lemma pow_R:
  assumes "R b x" "x \<noteq> -1" "R e k" "0 \<le> k" "k < int radix" "nat \<bar>x ^ nat k\<bar> < radix ^ 49" "x \<noteq> 0"
  shows "\<exists>r. ipow b e = Some (Inr r) \<and> R r (x ^ nat k)"
  using assms(3-6)
proof (induction "nat k" arbitrary: e k rule: less_induct)
  case less
  note nz = isZero_R[OF less.prems(1)] isOne_R[OF less.prems(1)]
  note two = c2_R and one = c1_R and zero = c0_R
  have e: "R (iabs e) k" using abs_R[OF less.prems(1)] less.prems(2) by simp
  have r64: "2 < int radix" by (simp add: radix_def)
  have lim: "\<bar>k\<bar> < int radix" "\<bar>2 :: int\<bar> < int radix" using less.prems(2,3) r64 by simp_all
  have small: "nat \<bar>x ^ j\<bar> < radix ^ 49" if "j \<le> nat k" for j
  proof -
    have "nat \<bar>x\<bar> ^ j \<le> nat \<bar>x\<bar> ^ nat k" using that assms(7) by (intro power_increasing) auto
    moreover have "nat \<bar>x ^ i\<bar> = nat \<bar>x\<bar> ^ i" for i by (simp only: power_abs nat_power_eq abs_ge_zero)
    ultimately have "nat \<bar>x ^ j\<bar> \<le> nat \<bar>x ^ nat k\<bar>" by simp
    then show ?thesis using less.prems(4) by linarith
  qed
  have notm1: "x ^ j \<noteq> -1" for j
  proof
    assume h: "x ^ j = -1"
    then have "\<bar>x ^ j\<bar> = 1" by simp
    then have p: "\<bar>x\<bar> ^ j = 1" by (simp only: power_abs)
    have "j \<noteq> 0" using h by (cases j) auto
    then obtain i where "j = Suc i" by (cases j) auto
    then have "\<bar>x\<bar> dvd 1" using p by (metis dvd_triv_left power_Suc)
    then have "\<bar>x\<bar> = 1" by simp
    then have "x = 1 \<or> x = -1" by linarith
    then show False using h assms(2) by auto
  qed
  consider "k = 0" | "k = 1" | "1 < k" "even k" | "1 < k" "odd k" using less.prems(2) by fastforce
  then show ?case
  proof cases
    case 1
    then show ?thesis using nz one_R by (subst pow_unfold) simp
  next
    case 2
    then show ?thesis using nz assms(1) by (subst pow_unfold) simp
  next
    case 3
    obtain m where m: "imod (iabs e) c2 = Inr m" "R m (k smod 2)"
      using mod_R[OF e two lim] by auto
    obtain h where h: "idiv (iabs e) c2 = Inr h" "R h (k sdiv 2)"
      using div_R[OF e two lim] by auto
    have d: "k sdiv 2 = k div 2" "k smod 2 = k mod 2" using 3 by (simp_all add: signed_divide_int_def signed_modulo_int_def)
    have lt: "nat (k div 2) < nat k" "0 \<le> k div 2" "k div 2 < int radix" "nat (k div 2) \<le> nat k" using 3 less.prems(3) by auto
    obtain p where p: "ipow b h = Some (Inr p)" "R p (x ^ nat (k div 2))"
      using less.hyps[OF lt(1) _ lt(2,3) small[OF lt(4)]] h(2) d by auto
    obtain r where r: "imul p p = Inr r" "R r (x ^ nat (k div 2) * x ^ nat (k div 2))"
      using times_R[OF p(2) p(2)] small[OF lt(4)] notm1 by auto
    have "nat k = nat (k div 2) + nat (k div 2)" using 3 by (simp flip: nat_add_distrib)
    then have "x ^ nat (k div 2) * x ^ nat (k div 2) = x ^ nat k" by (simp add: power_add)
    moreover have "ieq m c0" using eq_R[OF m(2) zero] 3 d by auto
    ultimately show ?thesis using r p h m nz 3 by (subst pow_unfold) simp
  next
    case 4
    obtain m where m: "imod (iabs e) c2 = Inr m" "R m (k smod 2)"
      using mod_R[OF e two lim] by auto
    have d: "k smod 2 = k mod 2" using 4 by (simp_all add: signed_modulo_int_def)
    obtain h where h: "isub (iabs e) c1 = Inr h" "R h (k - 1)"
      using minus_R[OF e one] lim r64 by auto
    have lt: "nat (k - 1) < nat k" "0 \<le> k - 1" "k - 1 < int radix" "nat (k - 1) \<le> nat k" using 4 less.prems(3) by auto
    obtain p where p: "ipow b h = Some (Inr p)" "R p (x ^ nat (k - 1))"
      using less.hyps[OF lt(1) h(2) lt(2,3) small[OF lt(4)]] by blast
    obtain r where r: "imul b p = Inr r" "R r (x * x ^ nat (k - 1))"
      using times_R[OF assms(1) p(2)] small[OF lt(4)] notm1 by auto
    have "nat k = Suc (nat (k - 1))" using 4 by simp
    then have "x * x ^ nat (k - 1) = x ^ nat k" by simp
    moreover have "\<not> ieq m c0" using eq_R[OF m(2) zero] 4 d by (auto simp: odd_iff_mod_2_eq_one)
    ultimately show ?thesis using r p h m nz 4 by (subst pow_unfold) simp
  qed
qed

end

end
