(* ===== verification/Integers.thy ===== *)
theory Integers
  imports Cardinal SignedNumbers
begin

text \<open>
  \<open>cpp/lib/bign/BigInteger.h\<close>: signed numbers, a \<open>BigCardinal\<close> for the magnitude and the \<open>i8\<close> \<open>signal\<close>,
  which is 1 or -1. \<open>isZero\<close>, \<open>isOne\<close> and the shift and bitwise operators are inherited, so they look at
  the magnitude only.
\<close>

section \<open>Construction, text and sign\<close>

record bigint =
  magnitude :: core
  signal :: int

definition bi_new :: bigint where
  "bi_new = \<lparr>magnitude = core_new, signal = 1\<rparr>"

definition bi_digit :: "digit \<Rightarrow> bigint" where
  "bi_digit n = \<lparr>magnitude = cd_digit n, signal = 1\<rparr>"

text \<open>\<open>n\<close> is an \<open>i64\<close> greater than the smallest one, whose negation is undefined.\<close>

definition bi_int :: "int \<Rightarrow> bigint" where
  "bi_int n = (if n < 0 then \<lparr>magnitude = cd_digit (word_of_int (- n)), signal = -1\<rparr>
     else \<lparr>magnitude = cd_digit (word_of_int n), signal = 1\<rparr>)"

definition bi_card :: "core \<Rightarrow> bigint" where
  "bi_card c = \<lparr>magnitude = core_copy c, signal = 1\<rparr>"

definition bi_copy :: "bigint \<Rightarrow> bigint" where
  "bi_copy b = \<lparr>magnitude = core_copy (magnitude b), signal = signal b\<rparr>"

definition bi_parse :: "string \<Rightarrow> int \<Rightarrow> string \<Rightarrow> error + bigint" where
  "bi_parse s base cs = (if \<not> (base > 1 \<and> base \<le> int (length cs)) then Inl AssertFailed
     else if s = [] \<or> s = ''-'' then Inr \<lparr>magnitude = core_new\<lparr>digits := [0]\<rparr>, signal = 1\<rparr>
     else let negative = (hd s = CHR ''-''); num_str = (if negative then tl s else s)
       in rbind (bd_parse base (\<lambda>ov op ds. Inr (ds @ [ov])) cs num_str [])
         (\<lambda>(d, ds). Inr \<lparr>magnitude = core_new\<lparr>digits := ds @ [d]\<rparr>, signal = if negative then -1 else 1\<rparr>))"

definition bi_isZero :: "bigint \<Rightarrow> bool" where
  "bi_isZero b = core_isZero (magnitude b)"

definition bi_isOne :: "bigint \<Rightarrow> bool" where
  "bi_isOne b = core_isOne (magnitude b)"

definition bi_format :: "bigint \<Rightarrow> int \<Rightarrow> string \<Rightarrow> error + string" where
  "bi_format b base cs = (if \<not> (base > 1 \<and> base \<le> int (length cs)) then Inl AssertFailed
     else if digits (magnitude b) = [] \<or> bi_isZero b then Inr [cs ! 0]
     else rbind (mfold (\<lambda>d acc. rbind (bd_format base cs d) (\<lambda>t. Inr (acc @ t))) (digits (magnitude b))
         (if signal b < 0 then ''-'' else []))
       (\<lambda>t. let result = strip_zeros (cs ! 0) t
            in Inr (if result = CHR ''-'' # [cs ! 0] then [cs ! 0] else result)))"

definition bi_sign :: "bigint \<Rightarrow> int" where
  "bi_sign b = (if bi_isZero b then 0 else if signal b > 0 then 1 else -1)"

definition bi_isPositive :: "bigint \<Rightarrow> bool" where
  "bi_isPositive b \<longleftrightarrow> signal b > 0 \<and> \<not> bi_isZero b"

definition bi_isNegative :: "bigint \<Rightarrow> bool" where
  "bi_isNegative b \<longleftrightarrow> signal b < 0"

definition bi_abs :: "bigint \<Rightarrow> bigint" where
  "bi_abs b = (bi_copy b)\<lparr>signal := 1\<rparr>"

definition bi_negate :: "bigint \<Rightarrow> bigint" where
  "bi_negate b = (let r = bi_copy b in if \<not> bi_isZero b then r\<lparr>signal := - signal r\<rparr> else r)"

section \<open>Comparison\<close>

definition bi_eq :: "bigint \<Rightarrow> bigint \<Rightarrow> bool" where
  "bi_eq b n \<longleftrightarrow> (if bi_isZero b \<and> bi_isZero n then True
     else if signal b \<noteq> signal n then False else cd_eq (magnitude b) (magnitude n))"

definition bi_less :: "bigint \<Rightarrow> bigint \<Rightarrow> bool" where
  "bi_less b n \<longleftrightarrow> (if signal b < 0 \<and> signal n > 0 then True
     else if signal b > 0 \<and> signal n < 0 then False
     else if signal b = signal n \<and> signal b < 0 then cd_less (magnitude n) (magnitude b)
     else cd_less (magnitude b) (magnitude n))"

definition bi_ge :: "bigint \<Rightarrow> bigint \<Rightarrow> bool" where
  "bi_ge b n \<longleftrightarrow> \<not> bi_less b n"

section \<open>Arithmetic\<close>

text \<open>The operands of different sign in \<open>+=\<close>, of equal sign in \<open>-=\<close>: the smaller magnitude is subtracted
  from the larger one, and the result gets \<open>s1\<close> or \<open>s2\<close>.\<close>

definition bi_difference :: "core \<Rightarrow> core \<Rightarrow> int \<Rightarrow> int \<Rightarrow> error + bigint" where
  "bi_difference abs_this abs_n s1 s2 = rbind
     (if \<not> cd_less abs_this abs_n
      then rbind (core_subtract (magnitude (bi_card abs_this)) abs_n) (\<lambda>c. Inr \<lparr>magnitude = c, signal = s1\<rparr>)
      else rbind (core_subtract (magnitude (bi_card abs_n)) abs_this) (\<lambda>c. Inr \<lparr>magnitude = c, signal = s2\<rparr>))
     (\<lambda>r. Inr (if bi_isZero r then r\<lparr>signal := 1\<rparr> else r))"

definition bi_add :: "bigint \<Rightarrow> bigint \<Rightarrow> error + bigint" where
  "bi_add b n = (if bi_isZero n then Inr b else if bi_isZero b then Inr (bi_copy n)
     else if signal b = signal n then rbind (cd_add (magnitude b) (magnitude n)) (\<lambda>c. Inr (b\<lparr>magnitude := c\<rparr>))
     else bi_difference (magnitude (bi_abs b)) (magnitude (bi_abs n)) (signal b) (signal n))"

definition bi_sub :: "bigint \<Rightarrow> bigint \<Rightarrow> error + bigint" where
  "bi_sub b n = (if bi_isZero n then Inr b else if bi_isZero b then Inr (bi_negate n)
     else if signal b \<noteq> signal n
     then rbind (cd_plus (magnitude (bi_abs b)) (magnitude (bi_abs n))) (\<lambda>c. Inr (b\<lparr>magnitude := c\<rparr>))
     else bi_difference (magnitude (bi_abs b)) (magnitude (bi_abs n)) (signal b) (- signal b))"

definition bi_mul :: "bigint \<Rightarrow> bigint \<Rightarrow> error + bigint" where
  "bi_mul b n = (if bi_isZero n \<or> bi_isZero b then Inr (bi_int 0)
     else if bi_isOne n then Inr b
     else rbind (bi_parse ''-1'' 10 DIGITS) (\<lambda>m1.
       if bi_eq n m1 then Inr (b\<lparr>signal := - signal b\<rparr>)
       else rbind (cd_mul (core_copy (magnitude (bi_abs b))) (magnitude (bi_abs n)))
         (\<lambda>c. Inr \<lparr>magnitude = c, signal = if signal b * signal n > 0 then 1 else -1\<rparr>)))"

definition bi_divide :: "bigint \<Rightarrow> bigint \<Rightarrow> error + bigint \<times> bigint" where
  "bi_divide b n = (if bi_isZero n then Inl (FlowException 1 DIV)
     else if bi_isZero b then Inr (bi_int 0, bi_int 0)
     else if bi_eq (bi_abs n) (bi_card (cd_digit 1))
     then Inr ((bi_copy b)\<lparr>signal := signal b * signal n\<rparr>, bi_int 0)
     else let quotient_signal = (if signal b * signal n > 0 then 1 else -1); remainder_signal = signal b;
            abs_this = magnitude (bi_abs b); abs_n = magnitude (bi_abs n)
       in if cd_less abs_this abs_n then Inr (bi_int 0, bi_copy b)
          else rbind (cd_divide abs_this abs_n) (\<lambda>(qc, rc).
            let quot = (bi_card qc)\<lparr>signal := quotient_signal\<rparr>;
                rem = (bi_card rc)\<lparr>signal := remainder_signal\<rparr>
            in Inr (quot, if bi_isZero rem then rem\<lparr>signal := 1\<rparr> else rem)))"

definition bi_on_copy :: "(bigint \<Rightarrow> bigint \<Rightarrow> error + bigint) \<Rightarrow> bigint \<Rightarrow> bigint \<Rightarrow> error + bigint" where
  "bi_on_copy f b n = rbind (f (bi_copy b) n) (\<lambda>r. Inr (bi_copy r))"

definition bi_plus :: "bigint \<Rightarrow> bigint \<Rightarrow> error + bigint" where
  "bi_plus = bi_on_copy bi_add"

definition bi_minus :: "bigint \<Rightarrow> bigint \<Rightarrow> error + bigint" where
  "bi_minus = bi_on_copy bi_sub"

definition bi_times :: "bigint \<Rightarrow> bigint \<Rightarrow> error + bigint" where
  "bi_times = bi_on_copy bi_mul"

definition bi_div_assign :: "bigint \<Rightarrow> bigint \<Rightarrow> error + bigint" where
  "bi_div_assign b n = rbind (bi_divide b n) (\<lambda>(q, r). Inr q)"

definition bi_mod_assign :: "bigint \<Rightarrow> bigint \<Rightarrow> error + bigint" where
  "bi_mod_assign b n = rbind (bi_divide b n) (\<lambda>(q, r). Inr r)"

definition bi_div :: "bigint \<Rightarrow> bigint \<Rightarrow> error + bigint" where
  "bi_div = bi_on_copy bi_div_assign"

definition bi_mod :: "bigint \<Rightarrow> bigint \<Rightarrow> error + bigint" where
  "bi_mod = bi_on_copy bi_mod_assign"

definition bi_inc :: "bigint \<Rightarrow> error + bigint" where
  "bi_inc b = bi_add b (bi_int 1)"

definition bi_dec :: "bigint \<Rightarrow> error + bigint" where
  "bi_dec b = bi_sub b (bi_int 1)"

section \<open>Utilities\<close>

partial_function (option) bi_pow :: "bigint \<Rightarrow> bigint \<Rightarrow> (error + bigint) option" where
  "bi_pow base e = (if bi_isZero e then Some (Inr (bi_int 1))
     else if bi_isOne e then Some (Inr (bi_copy base))
     else obind (Some (bi_mod (bi_abs e) (bi_card (cd_digit 2)))) (\<lambda>m.
       if bi_eq m (bi_card (cd_digit 0))
       then obind (Some (bi_div (bi_abs e) (bi_card (cd_digit 2)))) (\<lambda>h.
            obind (bi_pow base h) (\<lambda>half. Some (bi_times half half)))
       else obind (Some (bi_minus (bi_abs e) (bi_card (cd_digit 1)))) (\<lambda>e'.
            obind (bi_pow base e') (\<lambda>p. Some (bi_times base p)))))"

partial_function (option) bi_gcd :: "bigint \<Rightarrow> bigint \<Rightarrow> (error + bigint) option" where
  "bi_gcd a b = (if bi_isZero b then Some (Inr (bi_abs a))
     else obind (Some (bi_mod a b)) (\<lambda>r. bi_gcd (bi_abs b) (bi_abs r)))"

definition bi_lcm :: "bigint \<Rightarrow> bigint \<Rightarrow> (error + bigint) option" where
  "bi_lcm a b = obind (Some (bi_times (bi_abs a) (bi_abs b))) (\<lambda>p.
     obind (bi_gcd a b) (\<lambda>g. Some (bi_div p g)))"

text \<open>
  \<open>abs\<close> returns a \<open>BigInteger\<close>, so that overload resolution makes the call \<open>sqrt(n.abs())\<close> inside \<open>sqrt\<close>
  the function itself and not the one on \<open>BigCardinal\<close>; the same holds in \<open>mod_pow\<close>.
\<close>

partial_function (option) bi_sqrt :: "bigint \<Rightarrow> (error + bigint) option" where
  "bi_sqrt n = (if bi_isZero n then Some (Inr (bi_int 0))
     else if bi_isOne n then Some (Inr (bi_int 1))
     else if bi_isNegative n then Some (Inl (FlowException 1 DIV))
     else obind (bi_sqrt (bi_abs n)) (\<lambda>result. Some (Inr (bi_card (magnitude result)))))"

partial_function (option) bi_mod_pow :: "bigint \<Rightarrow> bigint \<Rightarrow> bigint \<Rightarrow> (error + bigint) option" where
  "bi_mod_pow base e md = (if bi_isZero md then Some (Inl (FlowException 1 MOD))
     else obind (bi_mod_pow (bi_abs base) (bi_abs e) (bi_abs md)) (\<lambda>result. Some (Inr (bi_card (magnitude result)))))"

section \<open>Representation of integers\<close>

definition irep :: "bigint \<Rightarrow> int \<Rightarrow> bool" where
  "irep b z \<longleftrightarrow> rep (magnitude b) (nat \<bar>z\<bar>) \<and> signal b = (if z < 0 then -1 else 1)"

lemma irep_copy [simp]: "irep b z \<Longrightarrow> bi_copy b = b"
  by (cases b) (auto simp: irep_def bi_copy_def)

lemma irep_abs: "irep b z \<Longrightarrow> irep (bi_abs b) \<bar>z\<bar>"
  by (auto simp: irep_def bi_abs_def bi_copy_def)

lemma card_abs [simp]: "irep b z \<Longrightarrow> magnitude (bi_abs b) = magnitude b"
  by (auto simp: irep_def bi_abs_def bi_copy_def)

lemma irep_isZero: "irep b z \<Longrightarrow> bi_isZero b \<longleftrightarrow> z = 0"
  by (auto simp: irep_def bi_isZero_def rep_isZero)

lemma irep_isOne: "irep b z \<Longrightarrow> bi_isOne b \<longleftrightarrow> \<bar>z\<bar> = 1"
  by (auto simp: irep_def bi_isOne_def rep_isOne)

lemma irep_negative: "irep b z \<Longrightarrow> bi_isNegative b \<longleftrightarrow> z < 0"
  by (auto simp: irep_def bi_isNegative_def)

lemma irep_negate: "irep b z \<Longrightarrow> irep (bi_negate b) (- z)"
  by (auto simp: irep_isZero bi_negate_def Let_def) (auto simp: irep_def)

lemma irep_card: "rep c v \<Longrightarrow> irep (bi_card c) (int v)"
  by (auto simp: irep_def bi_card_def)

lemma irep_int: "\<bar>z\<bar> < 2 ^ 63 \<Longrightarrow> irep (bi_int z) z"
proof -
  assume h: "\<bar>z\<bar> < 2 ^ 63"
  have "unat (word_of_int w :: digit) = nat w" if "0 \<le> w" "w < 2 ^ 63" for w
    using that by (simp add: unat_eq_nat_uint uint_word_of_int)
  then have "rep (cd_digit (word_of_int w)) (nat w)" if "0 \<le> w" "w < 2 ^ 63" for w
    using that rep_digit[of "word_of_int w"] by simp
  from this[of "- z"] this[of z] show ?thesis using h
    by (cases "z < 0") (simp_all add: irep_def bi_int_def del: word_of_int_minus)
qed

lemma irep_0: "irep (bi_int 0) 0" and irep_1: "irep (bi_int 1) 1"
  by (simp_all add: irep_int)

lemma irep_eq: "irep b x \<Longrightarrow> irep n y \<Longrightarrow> bi_eq b n \<longleftrightarrow> x = y"
  using rep_eq[of "magnitude b" "nat \<bar>x\<bar>" "magnitude n" "nat \<bar>y\<bar>"]
  by (simp add: bi_eq_def irep_isZero) (auto simp: irep_def split: if_splits)

lemma irep_less: "irep b x \<Longrightarrow> irep n y \<Longrightarrow> bi_less b n \<longleftrightarrow> x < y"
  using rep_less[of "magnitude b" "nat \<bar>x\<bar>" "magnitude n" "nat \<bar>y\<bar>"] rep_less[of "magnitude n" "nat \<bar>y\<bar>" "magnitude b" "nat \<bar>x\<bar>"]
  by (auto simp: bi_less_def irep_def split: if_splits)

section \<open>Arithmetic is that of the integers\<close>

lemma core_subtract_small:
  assumes "rep c v" "rep n w" "w \<le> v" "v < radix"
  shows "\<exists>r. core_subtract c n = Inr r \<and> rep r (v - w)"
proof -
  have "unat (of_nat v :: digit) = v" "unat (of_nat w :: digit) = w"
    using assms by (simp_all add: unat_of_nat radix_def)
  then have "dominates (digits c) (digits n)" using rep_small[OF assms(1,4)] rep_small[OF assms(2)] assms(3,4)
    by (simp add: dominates_single word_le_nat_alt)
  moreover have "normal (digits c)" using assms(1) by (simp add: rep_def)
  ultimately obtain r where r: "naive_subtract (digits c) (digits n) = Inr r" "lval r + lval (digits n) = lval (digits c)" "normal r"
    using naive.subtract_exact naive.subtract_normal by blast
  obtain i where "impl_ptr c = Some i" using assms by (auto simp: rep_def consistent_def)
  then show ?thesis using assms r by (cases i) (auto simp: core_ops rep_def)
qed

lemma bi_difference_rep:
  assumes "rep c v" "rep n w" "v < radix" "w < radix" "s1 = 1 \<or> s1 = -1" "s2 = - s1"
  shows "\<exists>r. bi_difference c n s1 s2 = Inr r \<and> irep r (s1 * (int v - int w))"
proof (cases "w \<le> v")
  case True
  obtain r where r: "core_subtract c n = Inr r" "rep r (v - w)" using core_subtract_small[OF assms(1,2) True assms(3)] by blast
  have "\<not> cd_less c n" using rep_less[OF assms(1,2)] True by simp
  then have "bi_difference c n s1 s2 =
      Inr (if core_isZero r then \<lparr>magnitude = r, signal = 1\<rparr> else \<lparr>magnitude = r, signal = s1\<rparr>)"
    using r(1) assms(1,2) by (simp add: bi_difference_def bi_card_def bi_isZero_def)
  then show ?thesis using r(2) assms(5) True by (auto simp: irep_def rep_isZero[OF r(2)] nat_diff_distrib')
next
  case False
  obtain r where r: "core_subtract n c = Inr r" "rep r (w - v)"
    using core_subtract_small[OF assms(2,1) _ assms(4)] False by auto
  have "cd_less c n" using rep_less[OF assms(1,2)] False by simp
  then have "bi_difference c n s1 s2 = Inr \<lparr>magnitude = r, signal = s2\<rparr>"
    using r assms(1,2) False by (simp add: bi_difference_def bi_card_def bi_isZero_def rep_isZero)
  then show ?thesis using r(2) assms(5,6) False by (auto simp: irep_def nat_diff_distrib')
qed

lemma bi_add_rep:
  assumes "irep b x" "irep n y" "0 \<le> x * y \<or> \<bar>x\<bar> < int radix \<and> \<bar>y\<bar> < int radix"
  shows "\<exists>r. bi_add b n = Inr r \<and> irep r (x + y)"
proof -
  consider "y = 0" | "x = 0" "y \<noteq> 0" | "x \<noteq> 0" "y \<noteq> 0" "(x < 0) = (y < 0)" | "x \<noteq> 0" "y \<noteq> 0" "(x < 0) \<noteq> (y < 0)" by blast
  then show ?thesis
  proof cases
    case 3
    obtain r where r: "cd_add (magnitude b) (magnitude n) = Inr r" "rep r (nat \<bar>x\<bar> + nat \<bar>y\<bar>)"
      using cd_add_rep[of "magnitude b" "nat \<bar>x\<bar>" "magnitude n" "nat \<bar>y\<bar>"] assms(1,2) by (auto simp: irep_def)
    have "nat \<bar>x\<bar> + nat \<bar>y\<bar> = nat \<bar>x + y\<bar>" "(x + y < 0) = (x < 0)" using 3 by auto
    moreover have "bi_add b n = Inr (b\<lparr>magnitude := r\<rparr>)"
      using 3 r(1) assms(1,2) irep_isZero[OF assms(1)] irep_isZero[OF assms(2)] by (simp add: bi_add_def irep_def)
    ultimately show ?thesis using r(2) assms(1) by (auto simp: irep_def)
  next
    case 4
    then have "x * y < 0" by (auto simp: mult_less_0_iff)
    then have s: "nat \<bar>x\<bar> < radix" "nat \<bar>y\<bar> < radix" using assms(3) by auto
    have "bi_add b n = bi_difference (magnitude b) (magnitude n) (signal b) (signal n)"
      using 4 assms(1,2) irep_isZero[OF assms(1)] irep_isZero[OF assms(2)] card_abs[OF assms(1)] card_abs[OF assms(2)]
      by (auto simp: bi_add_def irep_def)
    moreover have "signal b * (int (nat \<bar>x\<bar>) - int (nat \<bar>y\<bar>)) = x + y" "signal n = - signal b" "signal b = 1 \<or> signal b = -1"
      using assms(1,2) 4 by (auto simp: irep_def)
    ultimately show ?thesis
      using bi_difference_rep[OF _ _ s, of "magnitude b" "magnitude n" "signal b" "signal n"] assms(1,2)
      by (simp add: irep_def)
  qed (use assms irep_isZero[OF assms(1)] irep_isZero[OF assms(2)] in \<open>auto simp: bi_add_def\<close>)
qed

lemma bi_sub_rep:
  assumes "irep b x" "irep n y" "x * y \<le> 0 \<or> \<bar>x\<bar> < int radix \<and> \<bar>y\<bar> < int radix"
  shows "\<exists>r. bi_sub b n = Inr r \<and> irep r (x - y)"
proof -
  consider "y = 0" | "x = 0" "y \<noteq> 0" | "x \<noteq> 0" "y \<noteq> 0" "(x < 0) \<noteq> (y < 0)" | "x \<noteq> 0" "y \<noteq> 0" "(x < 0) = (y < 0)" by blast
  then show ?thesis
  proof cases
    case 2
    then show ?thesis using irep_negate[OF assms(2)] irep_isZero[OF assms(1)] irep_isZero[OF assms(2)] by (simp add: bi_sub_def)
  next
    case 3
    obtain r where r: "cd_plus (magnitude b) (magnitude n) = Inr r" "rep r (nat \<bar>x\<bar> + nat \<bar>y\<bar>)"
      using cd_plus_rep[of "magnitude b" "nat \<bar>x\<bar>" "magnitude n" "nat \<bar>y\<bar>"] assms(1,2) by (auto simp: irep_def)
    have "nat \<bar>x\<bar> + nat \<bar>y\<bar> = nat \<bar>x - y\<bar>" "(x - y < 0) = (x < 0)" using 3 by auto
    moreover have "bi_sub b n = Inr (b\<lparr>magnitude := r\<rparr>)"
      using 3 r(1) assms(1,2) irep_isZero[OF assms(1)] irep_isZero[OF assms(2)] card_abs[OF assms(1)] card_abs[OF assms(2)]
      by (auto simp: bi_sub_def irep_def)
    ultimately show ?thesis using r(2) assms(1) by (auto simp: irep_def)
  next
    case 4
    then have "\<not> x * y \<le> 0" by (auto simp: mult_le_0_iff)
    then have s: "nat \<bar>x\<bar> < radix" "nat \<bar>y\<bar> < radix" using assms(3) by auto
    have "bi_sub b n = bi_difference (magnitude b) (magnitude n) (signal b) (- signal b)"
      using 4 assms(1,2) irep_isZero[OF assms(1)] irep_isZero[OF assms(2)] card_abs[OF assms(1)] card_abs[OF assms(2)]
      by (auto simp: bi_sub_def irep_def)
    moreover have "signal b * (int (nat \<bar>x\<bar>) - int (nat \<bar>y\<bar>)) = x - y" "signal b = 1 \<or> signal b = -1"
      using assms(1,2) 4 by (auto simp: irep_def)
    ultimately show ?thesis
      using bi_difference_rep[OF _ _ s, of "magnitude b" "magnitude n" "signal b" "- signal b"] assms(1,2)
      by (simp add: irep_def)
  qed (use assms irep_isZero[OF assms(1)] irep_isZero[OF assms(2)] in \<open>auto simp: bi_sub_def\<close>)
qed

lemma minus_one_text: "bi_parse ''-1'' 10 DIGITS = Inr (bi_int (-1))"
  by code_simp

lemma nat_abs_mult: "nat \<bar>x\<bar> * nat \<bar>y\<bar> = nat \<bar>x * y\<bar>"
  by (simp add: abs_mult nat_mult_distrib)

lemma bi_mul_rep:
  assumes "irep b x" "irep n y" "nat \<bar>x\<bar> < radix ^ 49 \<or> nat \<bar>y\<bar> < radix ^ 49"
  shows "\<exists>r. bi_mul b n = Inr r \<and> irep r (if y = -1 then x else x * y)"
proof -
  have m1: "irep (bi_int (-1)) (-1)" by (simp add: irep_int)
  note z = irep_isZero[OF assms(1)] irep_isZero[OF assms(2)] irep_isOne[OF assms(2)]
  consider "y = 0 \<or> x = 0" | "y \<noteq> 0" "x \<noteq> 0" "\<bar>y\<bar> = 1" | "y \<noteq> 0" "x \<noteq> 0" "\<bar>y\<bar> \<noteq> 1" by blast
  then show ?thesis
  proof cases
    case 3
    obtain r where r: "cd_mul (magnitude b) (magnitude n) = Inr r" "rep r (nat \<bar>x * y\<bar>)"
      using cd_mul_rep[of "magnitude b" "nat \<bar>x\<bar>" "magnitude n" "nat \<bar>y\<bar>"] assms by (auto simp: irep_def nat_abs_mult)
    have "core_copy (magnitude b) = magnitude b" using assms(1) by (auto simp: irep_def)
    then have "bi_mul b n = Inr \<lparr>magnitude = r, signal = if signal b * signal n > 0 then 1 else -1\<rparr>"
      using 3 r(1) z irep_eq[OF assms(2) m1] card_abs[OF assms(1)] card_abs[OF assms(2)]
      by (auto simp: bi_mul_def minus_one_text)
    moreover have "(signal b * signal n > 0) = (\<not> x * y < 0)"
      using assms(1,2) 3 by (auto simp: irep_def mult_less_0_iff)
    ultimately show ?thesis using r(2) 3 by (auto simp: irep_def)
  next
    case 2
    then have "y = 1 \<or> y = -1" by linarith
    then show ?thesis using 2 z assms(1) by (auto simp: bi_mul_def)
  qed (use z irep_0 in \<open>auto simp: bi_mul_def\<close>)
qed

lemma irep_signed: "rep c v \<Longrightarrow> s = 1 \<or> s = -1 \<and> v \<noteq> 0 \<Longrightarrow> irep \<lparr>magnitude = c, signal = s\<rparr> (s * int v)"
  by (auto simp: irep_def)

lemma bi_divide_rep:
  assumes "irep b x" "irep n y" "\<bar>x\<bar> < int radix" "\<bar>y\<bar> < int radix" "y \<noteq> 0"
  shows "\<exists>q r. bi_divide b n = Inr (q, r) \<and> irep q (x sdiv y) \<and> irep r (x smod y)"
proof -
  have one: "irep (bi_card (cd_digit 1)) 1" using irep_card[OF rep_1] by simp
  note z = irep_isZero[OF assms(1)] irep_isZero[OF assms(2)] irep_eq[OF irep_abs[OF assms(2)] one]
  have q: "x sdiv y = sgn x * sgn y * (\<bar>x\<bar> div \<bar>y\<bar>)" and m: "x smod y = sgn x * (\<bar>x\<bar> mod \<bar>y\<bar>)"
    by (simp_all add: signed_divide_int_def signed_modulo_int_def)
  have ps: "rep (magnitude b) (nat \<bar>x\<bar>)" "rep (magnitude n) (nat \<bar>y\<bar>)" "nat \<bar>x\<bar> < radix" "nat \<bar>y\<bar> < radix" "0 < nat \<bar>y\<bar>"
    using assms by (auto simp: irep_def)
  consider "x = 0" | "x \<noteq> 0" "\<bar>y\<bar> = 1" | "x \<noteq> 0" "\<bar>y\<bar> \<noteq> 1" "\<bar>x\<bar> < \<bar>y\<bar>" | "x \<noteq> 0" "\<bar>y\<bar> \<noteq> 1" "\<bar>y\<bar> \<le> \<bar>x\<bar>" by linarith
  then show ?thesis
  proof cases
    case 1
    then show ?thesis using z assms(5) irep_0 q m by (auto simp: bi_divide_def)
  next
    case 2
    have "irep ((bi_copy b)\<lparr>signal := signal b * signal n\<rparr>) (x * y)"
      using assms(1,2) 2 by (auto simp: irep_def bi_copy_def abs_mult mult_less_0_iff abs_if split: if_splits)
    moreover have "x sdiv y = x * y" "x smod y = 0" using 2 q m by (auto simp: sgn_if abs_if split: if_splits)
    ultimately show ?thesis using z assms(5) irep_0 2 by (auto simp: bi_divide_def)
  next
    case 3
    have "cd_less (magnitude b) (magnitude n)" using rep_less[OF ps(1,2)] 3 by simp
    then have "bi_divide b n = Inr (bi_int 0, b)"
      using z assms 3 by (simp add: bi_divide_def)
    moreover have "x sdiv y = 0" "x smod y = x" using 3 q m by (simp_all add: sgn_mult_abs)
    ultimately show ?thesis using irep_0 assms(1) by auto
  next
    case 4
    have nl: "\<not> cd_less (magnitude b) (magnitude n)" using rep_less[OF ps(1,2)] 4 by simp
    obtain qc rc where qr: "cd_divide (magnitude b) (magnitude n) = Inr (qc, rc)"
      "rep qc (nat \<bar>x\<bar> div nat \<bar>y\<bar>)" "rep rc (nat \<bar>x\<bar> mod nat \<bar>y\<bar>)"
      using cd_divide_small[OF ps(1,2,3,5,4)] by blast
    let ?q = "\<lparr>magnitude = qc, signal = if signal b * signal n > 0 then 1 else -1\<rparr>"
    let ?r = "\<lparr>magnitude = rc, signal = if core_isZero rc then 1 else signal b\<rparr>"
    have "bi_divide b n = Inr (?q, ?r)"
      using z assms(1,2,5) 4 qr nl by (simp add: bi_divide_def Let_def bi_card_def bi_isZero_def)
    moreover have "irep ?q (x sdiv y)"
    proof -
      have v: "int (nat \<bar>x\<bar> div nat \<bar>y\<bar>) = \<bar>x\<bar> div \<bar>y\<bar>" "nat \<bar>x\<bar> div nat \<bar>y\<bar> \<noteq> 0"
        using 4 assms(5) by (auto simp: zdiv_int div_eq_0_iff)
      have "x sdiv y = (if signal b * signal n > 0 then 1 else -1) * int (nat \<bar>x\<bar> div nat \<bar>y\<bar>)"
        using assms(1,2,5) 4(1) unfolding q v(1) by (auto simp: irep_def sgn_if)
      then show ?thesis using irep_signed[OF qr(2)] v(2) by auto
    qed
    moreover have "irep ?r (x smod y)"
    proof -
      have v: "int (nat \<bar>x\<bar> mod nat \<bar>y\<bar>) = \<bar>x\<bar> mod \<bar>y\<bar>" by (simp add: zmod_int)
      have "x smod y = (if core_isZero rc then 1 else signal b) * int (nat \<bar>x\<bar> mod nat \<bar>y\<bar>)"
        using assms(1) 4(1) rep_isZero[OF qr(3)] v unfolding m v by (auto simp: irep_def sgn_if)
      then show ?thesis using irep_signed[OF qr(3)] rep_isZero[OF qr(3)] assms(1) by (auto simp: irep_def)
    qed
    ultimately show ?thesis by blast
  qed
qed

text \<open>The operators on copies.\<close>

lemma irep_on_copy: "irep b x \<Longrightarrow> (\<exists>r. f b n = Inr r \<and> irep r z) \<Longrightarrow> \<exists>r. bi_on_copy f b n = Inr r \<and> irep r z"
  by (auto simp: bi_on_copy_def)

lemma bi_plus_rep:
  "irep b x \<Longrightarrow> irep n y \<Longrightarrow> 0 \<le> x * y \<or> \<bar>x\<bar> < int radix \<and> \<bar>y\<bar> < int radix \<Longrightarrow> \<exists>r. bi_plus b n = Inr r \<and> irep r (x + y)"
  unfolding bi_plus_def by (rule irep_on_copy[OF _ bi_add_rep])

lemma bi_minus_rep:
  "irep b x \<Longrightarrow> irep n y \<Longrightarrow> x * y \<le> 0 \<or> \<bar>x\<bar> < int radix \<and> \<bar>y\<bar> < int radix \<Longrightarrow> \<exists>r. bi_minus b n = Inr r \<and> irep r (x - y)"
  unfolding bi_minus_def by (rule irep_on_copy[OF _ bi_sub_rep])

lemma bi_times_rep:
  "irep b x \<Longrightarrow> irep n y \<Longrightarrow> nat \<bar>x\<bar> < radix ^ 49 \<or> nat \<bar>y\<bar> < radix ^ 49 \<Longrightarrow>
   \<exists>r. bi_times b n = Inr r \<and> irep r (if y = -1 then x else x * y)"
  unfolding bi_times_def by (rule irep_on_copy[OF _ bi_mul_rep])

lemma bi_div_rep:
  "irep b x \<Longrightarrow> irep n y \<Longrightarrow> \<bar>x\<bar> < int radix \<Longrightarrow> \<bar>y\<bar> < int radix \<Longrightarrow> y \<noteq> 0 \<Longrightarrow> \<exists>r. bi_div b n = Inr r \<and> irep r (x sdiv y)"
  unfolding bi_div_def using bi_divide_rep[of b x n y] by (intro irep_on_copy) (auto simp: bi_div_assign_def)

lemma bi_mod_rep:
  "irep b x \<Longrightarrow> irep n y \<Longrightarrow> \<bar>x\<bar> < int radix \<Longrightarrow> \<bar>y\<bar> < int radix \<Longrightarrow> y \<noteq> 0 \<Longrightarrow> \<exists>r. bi_mod b n = Inr r \<and> irep r (x smod y)"
  unfolding bi_mod_def using bi_divide_rep[of b x n y] by (intro irep_on_copy) (auto simp: bi_mod_assign_def)

section \<open>Utilities\<close>

text \<open>\<open>pow\<close> and \<open>gcd\<close> from the laws of the operators.\<close>

lemma irep_constants: "irep (bi_card (cd_digit 0)) 0" "irep (bi_card (cd_digit 1)) 1" "irep (bi_card (cd_digit 2)) 2"
  using irep_card[OF rep_0] irep_card[OF rep_1] irep_card[OF rep_2] by simp_all

interpretation signed: signed_numbers irep bi_isZero bi_isOne bi_copy bi_abs bi_eq bi_minus bi_times bi_div bi_mod
  "bi_int 1" "bi_card (cd_digit 0)" "bi_card (cd_digit 1)" "bi_card (cd_digit 2)" bi_pow bi_gcd
  by unfold_locales (fact irep_isZero irep_isOne irep_copy irep_abs irep_eq irep_1 irep_constants bi_minus_rep
    bi_times_rep bi_div_rep bi_mod_rep bi_pow.simps bi_gcd.simps)+

text \<open>\<open>sqrt\<close> and \<open>mod_pow\<close> only call themselves: a run that ends took one of the early returns.\<close>

lemma bi_sqrt_returns:
  assumes "bi_sqrt n = Some r"
  shows "\<forall>z. irep n z \<longrightarrow> z \<le> 1"
proof (rule bi_sqrt.raw_induct[of "\<lambda>n r. \<forall>z. irep n z \<longrightarrow> z \<le> 1", OF _ assms], intro allI impI, rule ccontr)
  fix f n r z
  assume ih: "\<And>n r. f n = Some r \<Longrightarrow> \<forall>z. irep n z \<longrightarrow> z \<le> 1" and n: "irep n z" "\<not> z \<le> 1"
    and run: "(if bi_isZero n then Some (Inr (bi_int 0)) else if bi_isOne n then Some (Inr (bi_int 1))
      else if bi_isNegative n then Some (Inl (FlowException 1 DIV))
      else obind (f (bi_abs n)) (\<lambda>result. Some (Inr (bi_card (magnitude result))))) = Some r"
  obtain y where "f (bi_abs n) = Some y"
    using run irep_isZero[OF n(1)] irep_isOne[OF n(1)] irep_negative[OF n(1)] n(2) by (cases "f (bi_abs n)") auto
  then show False using ih irep_abs[OF n(1)] n(2) by fastforce
qed

lemma bi_mod_pow_returns:
  assumes "bi_mod_pow base e md = Some r"
  shows "\<forall>m. irep md m \<longrightarrow> m = 0"
proof (rule bi_mod_pow.raw_induct[of "\<lambda>base e md r. \<forall>m. irep md m \<longrightarrow> m = 0", OF _ assms], intro allI impI, rule ccontr)
  fix f base e md r m
  assume ih: "\<And>base e md r. f base e md = Some r \<Longrightarrow> \<forall>m. irep md m \<longrightarrow> m = 0" and m: "irep md m" "m \<noteq> 0"
    and run: "(if bi_isZero md then Some (Inl (FlowException 1 MOD))
      else obind (f (bi_abs base) (bi_abs e) (bi_abs md)) (\<lambda>result. Some (Inr (bi_card (magnitude result))))) = Some r"
  obtain y where "f (bi_abs base) (bi_abs e) (bi_abs md) = Some y"
    using run irep_isZero[OF m(1)] m(2) by (cases "f (bi_abs base) (bi_abs e) (bi_abs md)") auto
  then show False using ih irep_abs[OF m(1)] m(2) by fastforce
qed

section \<open>Properties\<close>

text \<open>C18: on magnitudes of one digit all arithmetic is that of the integers, division truncating like
  that of C++; a zero divisor throws. Only multiplication by -1 is wrong: it returns the left operand.\<close>

theorem integer_arithmetic:
  assumes "irep b x" "irep n y" "\<bar>x\<bar> < int radix" "\<bar>y\<bar> < int radix"
  shows "(\<exists>r. bi_plus b n = Inr r \<and> irep r (x + y)) \<and> (\<exists>r. bi_minus b n = Inr r \<and> irep r (x - y))
   \<and> (\<exists>r. bi_times b n = Inr r \<and> irep r (if y = -1 then x else x * y))
   \<and> (if y = 0 then bi_div b n = Inl (FlowException 1 DIV) \<and> bi_mod b n = Inl (FlowException 1 DIV)
      else (\<exists>q. bi_div b n = Inr q \<and> irep q (x sdiv y)) \<and> (\<exists>r. bi_mod b n = Inr r \<and> irep r (x smod y)))"
proof -
  have "int radix \<le> int (radix ^ 49)" by (simp add: radix_def)
  then have lim: "nat \<bar>x\<bar> < radix ^ 49" using assms(3) by linarith
  have "bi_div b n = Inl (FlowException 1 DIV) \<and> bi_mod b n = Inl (FlowException 1 DIV)" if "y = 0"
    using irep_isZero[OF assms(2)] that
    by (simp add: bi_div_def bi_mod_def bi_on_copy_def bi_div_assign_def bi_mod_assign_def bi_divide_def)
  then show ?thesis using bi_plus_rep[OF assms(1,2)] bi_minus_rep[OF assms(1,2)] bi_times_rep[OF assms(1,2)]
      bi_div_rep[OF assms] bi_mod_rep[OF assms] assms(3,4) lim by auto
qed

lemma integer_arithmetic_witness:
  "(\<exists>q. bi_div (bi_int (-7)) (bi_int 2) = Inr q \<and> irep q (-3)) \<and> (\<exists>r. bi_mod (bi_int (-7)) (bi_int 2) = Inr r \<and> irep r (-1))
   \<and> (\<exists>r. bi_times (bi_int 5) (bi_int (-1)) = Inr r \<and> irep r 5)"
  using integer_arithmetic[of "bi_int (-7)" "-7" "bi_int 2" 2] integer_arithmetic[of "bi_int 5" 5 "bi_int (-1)" "-1"]
    irep_int[of "-7"] irep_int[of 2] irep_int[of 5] irep_int[of "-1"]
  by (simp add: radix_def signed_divide_int_def signed_modulo_int_def)

text \<open>Numbers of equal sign add, and numbers of different sign subtract, exactly at every length;
  products are exact with one factor of less than 50 digits other than -1; negation and comparison at any length.\<close>

theorem integer_any_length:
  assumes "irep b x" "irep n y"
  shows "(0 \<le> x * y \<longrightarrow> (\<exists>r. bi_plus b n = Inr r \<and> irep r (x + y)))
   \<and> (x * y \<le> 0 \<longrightarrow> (\<exists>r. bi_minus b n = Inr r \<and> irep r (x - y)))
   \<and> (nat \<bar>x\<bar> < radix ^ 49 \<and> y \<noteq> -1 \<longrightarrow> (\<exists>r. bi_times b n = Inr r \<and> irep r (x * y)))
   \<and> irep (bi_negate b) (- x) \<and> irep (bi_abs b) \<bar>x\<bar> \<and> bi_sign b = sgn x
   \<and> (bi_eq b n \<longleftrightarrow> x = y) \<and> (bi_less b n \<longleftrightarrow> x < y)"
  using bi_plus_rep[OF assms] bi_minus_rep[OF assms] bi_times_rep[OF assms] irep_negate[OF assms(1)]
    irep_abs[OF assms(1)] irep_eq[OF assms] irep_less[OF assms] irep_isZero[OF assms(1)] assms(1)
  by (auto simp: bi_sign_def irep_def sgn_if)

lemma integer_any_length_witness: "\<exists>r. bi_minus (bi_int 3) (bi_int (-4)) = Inr r \<and> irep r 7"
  using integer_any_length[of "bi_int 3" 3 "bi_int (-4)" "-4"] irep_int[of 3] irep_int[of "-4"] by simp

text \<open>\<open>pow\<close> returns the power for every base but -1 and \<open>gcd\<close> the greatest common divisor.\<close>

theorem integer_pow_gcd:
  assumes "irep b x" "irep e k" "0 \<le> k" "k < int radix" "\<bar>x\<bar> < int radix"
  shows "(x \<noteq> -1 \<and> x \<noteq> 0 \<and> nat \<bar>x ^ nat k\<bar> < radix ^ 49 \<longrightarrow> (\<exists>r. bi_pow b e = Some (Inr r) \<and> irep r (x ^ nat k)))
   \<and> (\<exists>r. bi_gcd b e = Some (Inr r) \<and> irep r (gcd x k))"
  using signed.pow_R[OF assms(1) _ assms(2-4)] signed.gcd_R[OF assms(1,2,5)] assms(3,4) by auto

lemma gcd_5_3: "gcd 3 5 = (1 :: int)"
  by code_simp

lemma integer_pow_gcd_witness:
  "(\<exists>r. bi_pow (bi_int (-3)) (bi_int 5) = Some (Inr r) \<and> irep r (-243)) \<and> (\<exists>r. bi_gcd (bi_int (-3)) (bi_int 5) = Some (Inr r) \<and> irep r 1)"
  using integer_pow_gcd[of "bi_int (-3)" "-3" "bi_int 5" 5] irep_int[of "-3"] irep_int[of 5] by (simp add: radix_def gcd_5_3)

text \<open>The square of -1 is -1 and it is its own product with itself, since \<open>isOne\<close> ignores the sign.\<close>

theorem integer_minus_one_faults:
  "bi_times (bi_int (-1)) (bi_int (-1)) = Inr (bi_int (-1)) \<and> bi_pow (bi_int (-1)) (bi_int 2) = Some (Inr (bi_int (-1)))"
proof
  show "bi_times (bi_int (-1)) (bi_int (-1)) = Inr (bi_int (-1))" by code_simp
  have one: "bi_pow (bi_int (-1)) (bi_int 1) = Some (Inr (bi_int (-1)))"
    by (subst bi_pow.simps) code_simp
  have steps: "\<not> bi_isZero (bi_int 2)" "\<not> bi_isOne (bi_int 2)"
    "bi_mod (bi_abs (bi_int 2)) (bi_card (cd_digit 2)) = Inr (bi_int 0)" "bi_eq (bi_int 0) (bi_card (cd_digit 0))"
    "bi_div (bi_abs (bi_int 2)) (bi_card (cd_digit 2)) = Inr (bi_int 1)"
    "bi_times (bi_int (-1)) (bi_int (-1)) = Inr (bi_int (-1))" by code_simp+
  show "bi_pow (bi_int (-1)) (bi_int 2) = Some (Inr (bi_int (-1)))"
    by (subst bi_pow.simps) (simp add: steps one)
qed

text \<open>\<open>sqrt\<close> of a number greater than 1 and \<open>mod_pow\<close> with a modulus other than 0 never return.\<close>

theorem integer_sqrt_mod_pow_diverge:
  assumes "irep n z"
  shows "(1 < z \<longrightarrow> bi_sqrt n = None) \<and> (z \<noteq> 0 \<longrightarrow> bi_mod_pow b e n = None)
   \<and> (z = 0 \<longrightarrow> bi_mod_pow b e n = Some (Inl (FlowException 1 MOD)))"
proof (intro conjI impI)
  show "bi_sqrt n = None" if "1 < z" using bi_sqrt_returns[of n] assms that by (cases "bi_sqrt n") force+
  show "bi_mod_pow b e n = None" if "z \<noteq> 0"
    using bi_mod_pow_returns[of b e n] assms that by (cases "bi_mod_pow b e n") auto
  show "bi_mod_pow b e n = Some (Inl (FlowException 1 MOD))" if "z = 0"
    using irep_isZero[OF assms] that by (subst bi_mod_pow.simps) simp
qed

lemma integer_sqrt_mod_pow_diverge_witness: "bi_sqrt (bi_int 4) = None \<and> bi_mod_pow (bi_int 2) (bi_int 3) (bi_int 5) = None"
  using integer_sqrt_mod_pow_diverge[of "bi_int 4" 4] integer_sqrt_mod_pow_diverge[of "bi_int 5" 5]
    irep_int[of 4] irep_int[of 5] by simp

text \<open>The text \<open>-0\<close> is read as a negative zero, which is equal to 0, less than 0 and negative.\<close>

theorem integer_negative_zero:
  "\<exists>z. bi_parse ''-0'' 10 DIGITS = Inr z \<and> bi_eq z (bi_int 0) \<and> bi_less z (bi_int 0) \<and> bi_isNegative z \<and> bi_sign z = 0"
proof (intro exI conjI)
  show "bi_parse ''-0'' 10 DIGITS = Inr \<lparr>magnitude = cd_digit 0, signal = -1\<rparr>" by code_simp
qed code_simp+

end
