(* ===== verification/FirstInteger.thy ===== *)
theory FirstInteger
  imports FirstCardinal Integers
begin

text \<open>
  \<open>cpp/lib/BigInteger.h\<close>: the signed numbers of the first generation, the text from which
  \<open>bign/BigInteger.h\<close> was taken, over the first \<open>BigCardinal\<close>. \<open>second\<close> takes a number to the object of the
  second generation with the same digits and sign; it commutes with the operations, so that what
  \<open>Integers\<close> shows holds here too.
\<close>

section \<open>Construction, text and sign\<close>

record fint =
  fmag :: cardinal
  fsig :: int

definition fi_new :: fint where
  "fi_new = \<lparr>fmag = fc_new, fsig = 1\<rparr>"

definition fi_digit :: "digit \<Rightarrow> fint" where
  "fi_digit n = \<lparr>fmag = fc_digit n, fsig = 1\<rparr>"

definition fi_card :: "cardinal \<Rightarrow> fint" where
  "fi_card c = \<lparr>fmag = c, fsig = 1\<rparr>"

definition fi_parse :: "string \<Rightarrow> int \<Rightarrow> string \<Rightarrow> error + fint" where
  "fi_parse s base cs = (if \<not> (base > 1 \<and> base \<le> int (length cs)) then Inl AssertFailed
     else if s = [] \<or> s = ''-'' then Inr \<lparr>fmag = [0], fsig = 1\<rparr>
     else let negative = (hd s = CHR ''-''); num_str = (if negative then tl s else s)
       in if num_str = [] then Inr \<lparr>fmag = [0], fsig = 1\<rparr>
          else rbind (bd_parse base (\<lambda>ov op ds. Inr (ds @ [ov])) cs num_str [])
            (\<lambda>(d, ds). Inr \<lparr>fmag = ds @ [d], fsig = if negative then -1 else 1\<rparr>))"

definition fi_isZero :: "fint \<Rightarrow> bool" where
  "fi_isZero b = fc_isZero (fmag b)"

definition fi_isOne :: "fint \<Rightarrow> bool" where
  "fi_isOne b = fc_isOne (fmag b)"

definition fi_format :: "fint \<Rightarrow> int \<Rightarrow> string \<Rightarrow> error + string" where
  "fi_format b base cs = (if \<not> (base > 1 \<and> base \<le> int (length cs)) then Inl AssertFailed
     else if fmag b = [] \<or> fi_isZero b then Inr [cs ! 0]
     else rbind (mfold (\<lambda>d acc. rbind (bd_format base cs d) (\<lambda>t. Inr (acc @ t))) (fmag b)
         (if fsig b < 0 then ''-'' else []))
       (\<lambda>t. let result = strip_zeros (cs ! 0) t
            in Inr (if result = CHR ''-'' # [cs ! 0] then [cs ! 0] else result)))"

definition fi_sign :: "fint \<Rightarrow> int" where
  "fi_sign b = (if fi_isZero b then 0 else if fsig b > 0 then 1 else -1)"

definition fi_isPositive :: "fint \<Rightarrow> bool" where
  "fi_isPositive b \<longleftrightarrow> fsig b > 0 \<and> \<not> fi_isZero b"

definition fi_isNegative :: "fint \<Rightarrow> bool" where
  "fi_isNegative b \<longleftrightarrow> fsig b < 0"

definition fi_abs :: "fint \<Rightarrow> fint" where
  "fi_abs b = b\<lparr>fsig := 1\<rparr>"

definition fi_negate :: "fint \<Rightarrow> fint" where
  "fi_negate b = (if \<not> fi_isZero b then b\<lparr>fsig := - fsig b\<rparr> else b)"

section \<open>Comparison\<close>

definition fi_eq :: "fint \<Rightarrow> fint \<Rightarrow> bool" where
  "fi_eq b n \<longleftrightarrow> (if fi_isZero b \<and> fi_isZero n then True
     else if fsig b \<noteq> fsig n then False else fc_eq (fmag b) (fmag n))"

definition fi_less :: "fint \<Rightarrow> fint \<Rightarrow> bool" where
  "fi_less b n \<longleftrightarrow> (if fsig b < 0 \<and> fsig n > 0 then True
     else if fsig b > 0 \<and> fsig n < 0 then False
     else if fsig b = fsig n \<and> fsig b < 0 then fc_less (fmag n) (fmag b)
     else fc_less (fmag b) (fmag n))"

definition fi_le :: "fint \<Rightarrow> fint \<Rightarrow> bool" where
  "fi_le b n \<longleftrightarrow> \<not> fi_less n b"

definition fi_ge :: "fint \<Rightarrow> fint \<Rightarrow> bool" where
  "fi_ge b n \<longleftrightarrow> \<not> fi_less b n"

section \<open>Arithmetic\<close>

text \<open>The operands of different sign in \<open>+=\<close>, of equal sign in \<open>-=\<close>.\<close>

definition fi_difference :: "cardinal \<Rightarrow> cardinal \<Rightarrow> int \<Rightarrow> int \<Rightarrow> error + fint" where
  "fi_difference abs_this abs_n s1 s2 = rbind
     (if \<not> fc_less abs_this abs_n
      then rbind (fc_subtractAbs abs_this abs_n) (\<lambda>c. Inr \<lparr>fmag = c, fsig = s1\<rparr>)
      else rbind (fc_subtractAbs abs_n abs_this) (\<lambda>c. Inr \<lparr>fmag = c, fsig = s2\<rparr>))
     (\<lambda>r. Inr (if fi_isZero r then r\<lparr>fsig := 1\<rparr> else r))"

definition fi_add :: "fint \<Rightarrow> fint \<Rightarrow> error + fint" where
  "fi_add b n = (if fi_isZero n then Inr b else if fi_isZero b then Inr n
     else if fsig b = fsig n then Inr (b\<lparr>fmag := fc_add (fmag b) (fmag n)\<rparr>)
     else fi_difference (fmag (fi_abs b)) (fmag (fi_abs n)) (fsig b) (fsig n))"

definition fi_sub :: "fint \<Rightarrow> fint \<Rightarrow> error + fint" where
  "fi_sub b n = (if fi_isZero n then Inr b else if fi_isZero b then Inr (fi_negate n)
     else if fsig b \<noteq> fsig n then Inr (b\<lparr>fmag := fc_add (fmag (fi_abs b)) (fmag (fi_abs n))\<rparr>)
     else fi_difference (fmag (fi_abs b)) (fmag (fi_abs n)) (fsig b) (- fsig b))"

definition fi_inc :: "fint \<Rightarrow> error + fint" where
  "fi_inc b = fi_add b (fi_digit 1)"

definition fi_dec :: "fint \<Rightarrow> error + fint" where
  "fi_dec b = fi_sub b (fi_digit 1)"

definition fi_mul :: "fint \<Rightarrow> fint \<Rightarrow> error + fint" where
  "fi_mul b n = (if fi_isZero n \<or> fi_isZero b then Inr (fi_digit 0)
     else if fi_isOne n then Inr b
     else rbind (fi_parse ''-1'' 10 DIGITS) (\<lambda>m1.
       if fi_eq n m1 then Inr (b\<lparr>fsig := - fsig b\<rparr>)
       else Inr \<lparr>fmag = fc_mul (fmag (fi_abs b)) (fmag (fi_abs n)), fsig = if fsig b * fsig n > 0 then 1 else -1\<rparr>))"

definition fi_divide :: "fint \<Rightarrow> fint \<Rightarrow> error + fint \<times> fint" where
  "fi_divide b n = (if fi_isZero n then Inl (FlowException 1 DIV)
     else if fi_isZero b then Inr (fi_digit 0, fi_digit 0)
     else if fi_eq (fi_abs n) (fi_card (fc_digit 1))
     then Inr (b\<lparr>fsig := fsig b * fsig n\<rparr>, fi_digit 0)
     else let quotient_signal = (if fsig b * fsig n > 0 then 1 else -1); remainder_signal = fsig b;
            abs_this = fmag (fi_abs b); abs_n = fmag (fi_abs n)
       in if fc_less abs_this abs_n then Inr (fi_digit 0, b)
          else rbind (fc_divide abs_this abs_n) (\<lambda>(qc, rc).
            let quot = (fi_card qc)\<lparr>fsig := quotient_signal\<rparr>;
                rem = (fi_card rc)\<lparr>fsig := remainder_signal\<rparr>
            in Inr (quot, if fi_isZero rem then rem\<lparr>fsig := 1\<rparr> else rem)))"

definition fi_div :: "fint \<Rightarrow> fint \<Rightarrow> error + fint" where
  "fi_div b n = rbind (fi_divide b n) (\<lambda>(q, r). Inr q)"

definition fi_mod :: "fint \<Rightarrow> fint \<Rightarrow> error + fint" where
  "fi_mod b n = rbind (fi_divide b n) (\<lambda>(q, r). Inr r)"

section \<open>Utilities\<close>

partial_function (option) fi_pow :: "fint \<Rightarrow> fint \<Rightarrow> (error + fint) option" where
  "fi_pow base e = (if fi_isZero e then Some (Inr (fi_digit 1))
     else if fi_isOne e then Some (Inr base)
     else obind (Some (fi_mod (fi_abs e) (fi_card (fc_digit 2)))) (\<lambda>m.
       if fi_eq m (fi_card (fc_digit 0))
       then obind (Some (fi_div (fi_abs e) (fi_card (fc_digit 2)))) (\<lambda>h.
            obind (fi_pow base h) (\<lambda>half. Some (fi_mul half half)))
       else obind (Some (fi_sub (fi_abs e) (fi_card (fc_digit 1)))) (\<lambda>e'.
            obind (fi_pow base e') (\<lambda>p. Some (fi_mul base p)))))"

partial_function (option) fi_gcd :: "fint \<Rightarrow> fint \<Rightarrow> (error + fint) option" where
  "fi_gcd a b = (if fi_isZero b then Some (Inr (fi_abs a))
     else obind (Some (fi_mod a b)) (\<lambda>r. fi_gcd (fi_abs b) (fi_abs r)))"

definition fi_lcm :: "fint \<Rightarrow> fint \<Rightarrow> (error + fint) option" where
  "fi_lcm a b = obind (Some (fi_mul (fi_abs a) (fi_abs b))) (\<lambda>p.
     obind (fi_gcd a b) (\<lambda>g. Some (fi_div p g)))"

text \<open>As in \<open>Integers\<close>, \<open>abs\<close> returns a \<open>BigInteger\<close> and the two functions call themselves.\<close>

partial_function (option) fi_sqrt :: "fint \<Rightarrow> (error + fint) option" where
  "fi_sqrt n = (if fi_isZero n then Some (Inr (fi_digit 0))
     else if fi_isOne n then Some (Inr (fi_digit 1))
     else if fi_isNegative n then Some (Inl (FlowException 1 DIV))
     else obind (fi_sqrt (fi_abs n)) (\<lambda>result. Some (Inr (fi_card (fmag result)))))"

partial_function (option) fi_mod_pow :: "fint \<Rightarrow> fint \<Rightarrow> fint \<Rightarrow> (error + fint) option" where
  "fi_mod_pow base e md = (if fi_isZero md then Some (Inl (FlowException 1 MOD))
     else obind (fi_mod_pow (fi_abs base) (fi_abs e) (fi_abs md)) (\<lambda>result. Some (Inr (fi_card (fmag result)))))"


section \<open>The same number in the second generation\<close>

definition second :: "fint \<Rightarrow> bigint" where
  "second f = \<lparr>magnitude = as_core (fmag f), signal = fsig f\<rparr>"

lemma second_sel [simp]: "magnitude (second f) = as_core (fmag f)" "signal (second f) = fsig f"
  by (simp_all add: second_def)

lemma as_core_eq: "core_new\<lparr>digits := a\<rparr> = as_core a" "cd_digit d = as_core [d]" "core_new = as_core [0]"
  by (simp_all add: as_core_def cd_digit_def core_new_def)

lemma as_core_copy [simp]: "core_copy (as_core a) = as_core a"
  by (intro core_copy_consistent) (simp add: as_core_def)

lemma as_core_digits [simp]: "(as_core a)\<lparr>digits := b\<rparr> = as_core b"
  by (simp add: as_core_def)

lemma as_core_impl [simp]: "impl_ptr (as_core a) = Some Karatsuba"
  by (simp add: as_core_def core_new_def createBest_def available_def)

text \<open>What the operators of the second generation do with such objects.\<close>

lemma as_core_isZero [simp]: "normal a \<Longrightarrow> core_isZero (as_core a) = fc_isZero a"
  by (auto simp: core_isZero_def fc_isZero_def normal_def)

lemma as_core_isOne [simp]: "core_isOne (as_core a) = fc_isOne a"
  by (simp add: core_isOne_def fc_isOne_def)

lemma as_core_less [simp]: "cd_less (as_core a) (as_core b) = fc_less a b"
  by (simp add: cd_less_def core_compare_def fc_less_compare kara_delegates)

lemma as_core_cmp_eq [simp]: "normal a \<Longrightarrow> normal b \<Longrightarrow> cd_eq (as_core a) (as_core b) = fc_eq a b"
  using rep_eq[of "as_core a" "lval a" "as_core b" "lval b"] fc_rep_eq[of a "lval a" b "lval b"]
  by (simp add: as_core_rep fc_rep_def)

lemma as_core_add [simp]:
  assumes "normal a" "normal b"
  shows "cd_add (as_core a) (as_core b) = Inr (as_core (fc_add a b))"
    and "cd_plus (as_core a) (as_core b) = Inr (as_core (fc_add a b))"
proof -
  show a: "cd_add (as_core a) (as_core b) = Inr (as_core (fc_add a b))"
    using assms by (auto simp: cd_add_def core_ops fc_add_eq[symmetric]) (auto simp: fc_add_def)
  then show "cd_plus (as_core a) (as_core b) = Inr (as_core (fc_add a b))"
    by (simp add: cd_plus_def on_copy_def)
qed

lemma as_core_subtract [simp]:
  "core_subtract (as_core a) (as_core b) = rbind (fc_subtractAbs a b) (\<lambda>r. Inr (as_core r))"
  by (simp add: core_ops fc_subtractAbs_eq)

lemma as_core_mul [simp]:
  assumes "normal a" "normal b" "length a < 50 \<or> length b < 50"
  shows "cd_mul (as_core a) (as_core b) = Inr (as_core (fc_mul a b))"
proof -
  have "kara_multiply a b = Inr (fc_mul a b)"
    using kara_multiply_small[OF assms(3)] fc_mul_eq[OF assms(1,2)] by simp
  then show ?thesis using assms by (auto simp: cd_mul_def core_ops as_core_eq) (auto simp: fc_mul_def)
qed

lemma as_core_divide [simp]:
  assumes "normal a" "normal b"
  shows "cd_divide (as_core a) (as_core b) = rbind (fc_divide a b) (\<lambda>(q, r). Inr (as_core q, as_core r))"
  using assms fc_divide_eq[of a b] by (simp add: cd_divide_def core_ops as_core_eq normal_def)

section \<open>The operations commute with it\<close>

text \<open>Numbers whose digits are in normal form.\<close>

definition fi_ok :: "fint \<Rightarrow> bool" where
  "fi_ok f \<longleftrightarrow> normal (fmag f)"

lemma normal_digit [simp]: "normal (fc_digit d)" and fi_abs_mag [simp]: "fmag (fi_abs f) = fmag f"
  by (simp_all add: fc_digit_def normal_def fi_abs_def)

lemma fi_ok_simps [simp]: "fi_ok (fi_digit d)" "fi_ok f \<Longrightarrow> fi_ok (fi_abs f)" "fi_ok f \<Longrightarrow> fi_ok (fi_negate f)"
  "normal c \<Longrightarrow> fi_ok (fi_card c)" "fi_ok f \<Longrightarrow> fi_ok (f\<lparr>fsig := s\<rparr>)"
  by (simp_all add: fi_ok_def fi_digit_def fc_digit_def fi_abs_def fi_negate_def fi_card_def normal_def)

lemma second_digit: "bi_int 0 = second (fi_digit 0)" "bi_int 1 = second (fi_digit 1)" "bi_digit d = second (fi_digit d)"
  "bi_card (as_core c) = second (fi_card c)" "bi_card (cd_digit d) = second (fi_card (fc_digit d))"
  by (simp_all add: bi_int_def bi_digit_def bi_card_def second_def fi_digit_def fi_card_def fc_digit_def as_core_eq)

lemma second_parse: "bi_parse s base cs = rbind (fi_parse s base cs) (\<lambda>f. Inr (second f))"
proof -
  have "num_str \<noteq> []" if "s \<noteq> []" "s \<noteq> ''-''" "num_str = (if hd s = CHR ''-'' then tl s else s)" for num_str
    using that by (cases s) auto
  then show ?thesis
    by (auto simp: bi_parse_def fi_parse_def second_def as_core_eq Let_def rbind_assoc split: prod.splits
        intro!: arg_cong2[where f = rbind])
qed

lemma second_queries [simp]:
  assumes "fi_ok f"
  shows "bi_isZero (second f) = fi_isZero f" "bi_isOne (second f) = fi_isOne f" "bi_sign (second f) = fi_sign f"
    "bi_isPositive (second f) = fi_isPositive f" "bi_isNegative (second f) = fi_isNegative f"
    "bi_copy (second f) = second f" "bi_abs (second f) = second (fi_abs f)" "bi_negate (second f) = second (fi_negate f)"
    "bi_format (second f) base cs = fi_format f base cs"
  using assms
  by (simp_all add: fi_ok_def bi_isZero_def fi_isZero_def bi_isOne_def fi_isOne_def bi_sign_def fi_sign_def bi_isPositive_def
      fi_isPositive_def bi_isNegative_def fi_isNegative_def bi_copy_def second_def bi_abs_def fi_abs_def bi_negate_def
      fi_negate_def bi_format_def fi_format_def Let_def)

lemma second_compare [simp]:
  "fi_ok f \<Longrightarrow> fi_ok g \<Longrightarrow> bi_eq (second f) (second g) = fi_eq f g"
  "bi_less (second f) (second g) = fi_less f g"
  by (simp_all add: bi_eq_def fi_eq_def bi_less_def fi_less_def fi_ok_def[symmetric])

lemma fc_subtractAbs_normal: "fc_subtractAbs a b = Inr r \<Longrightarrow> normal a \<Longrightarrow> normal r"
  using naive.subtract_normal[of a b r] by (simp add: fc_subtractAbs_eq)

lemma second_difference:
  assumes "normal a" "normal b"
  shows "bi_difference (as_core a) (as_core b) s t = rbind (fi_difference a b s t) (\<lambda>f. Inr (second f))"
proof -
  have step: "rbind (core_subtract (as_core c) (as_core d)) (\<lambda>c. Inr (if bi_isZero \<lparr>magnitude = c, signal = u\<rparr>
        then \<lparr>magnitude = c, signal = u\<rparr>\<lparr>signal := 1\<rparr> else \<lparr>magnitude = c, signal = u\<rparr>))
      = rbind (fc_subtractAbs c d) (\<lambda>c. Inr (second (if fi_isZero \<lparr>fmag = c, fsig = u\<rparr>
        then \<lparr>fmag = c, fsig = u\<rparr>\<lparr>fsig := 1\<rparr> else \<lparr>fmag = c, fsig = u\<rparr>)))" if "normal c" for c d u
  proof (cases "fc_subtractAbs c d")
    case (Inr r)
    then have "normal r" using fc_subtractAbs_normal that by blast
    then show ?thesis using Inr by (simp add: bi_isZero_def fi_isZero_def second_def)
  qed simp
  show ?thesis using step[OF assms(1), of b s] step[OF assms(2), of a t]
    by (simp add: bi_difference_def fi_difference_def rbind_assoc bi_card_def)
qed

lemma second_add: "fi_ok f \<Longrightarrow> fi_ok g \<Longrightarrow> bi_add (second f) (second g) = rbind (fi_add f g) (\<lambda>r. Inr (second r))"
  and second_sub: "fi_ok f \<Longrightarrow> fi_ok g \<Longrightarrow> bi_sub (second f) (second g) = rbind (fi_sub f g) (\<lambda>r. Inr (second r))"
  by (simp_all add: bi_add_def fi_add_def bi_sub_def fi_sub_def second_difference fi_ok_def[symmetric])


text \<open>Fewer than 50 digits, below which Karatsuba's algorithm leaves the product to the naive one.\<close>

definition short :: "fint \<Rightarrow> bool" where
  "short f \<longleftrightarrow> length (fmag f) < 50"

lemma second_minus_one: "fi_parse ''-1'' 10 DIGITS = Inr \<lparr>fmag = [1], fsig = -1\<rparr>"
  by code_simp

lemma second_mul:
  assumes "fi_ok f" "fi_ok g" "short f \<or> short g"
  shows "bi_mul (second f) (second g) = rbind (fi_mul f g) (\<lambda>r. Inr (second r))"
proof -
  have m1: "fi_ok \<lparr>fmag = [1], fsig = -1\<rparr>" by (simp add: fi_ok_def normal_def)
  have "cd_mul (as_core (fmag f)) (as_core (fmag g)) = Inr (as_core (fc_mul (fmag f) (fmag g)))"
    using assms by (simp add: fi_ok_def short_def)
  then show ?thesis using assms(1,2) m1
    by (simp add: bi_mul_def fi_mul_def second_digit second_parse second_minus_one fi_abs_def)
qed

lemma second_copy [simp]: "bi_copy (second f) = second f"
  by (simp add: bi_copy_def second_def)

lemma fc_divide_normal:
  assumes "fc_divide a b = Inr (q, r)" "normal a" "normal b"
  shows "normal q \<and> normal r"
  using assms naive.divide_normal[of a b q r] fc_divide_eq[of a b] by (simp add: normal_def[of a] normal_def[of b])

lemma second_divide:
  assumes "fi_ok f" "fi_ok g"
  shows "bi_divide (second f) (second g) = rbind (fi_divide f g) (\<lambda>(q, r). Inr (second q, second r))"
proof (cases "fc_divide (fmag f) (fmag g)")
  case (Inl e)
  then show ?thesis using assms
    by (simp add: bi_divide_def fi_divide_def second_digit fi_ok_def[symmetric] Let_def)
next
  case (Inr qr)
  obtain q r where qr: "qr = (q, r)" by fastforce
  then have n: "normal q" "normal r" using Inr fc_divide_normal assms by (auto simp: fi_ok_def)
  have "normal (fmag f)" "normal (fmag g)" using assms by (simp_all add: fi_ok_def)
  then have d: "cd_divide (as_core (fmag f)) (as_core (fmag g)) = Inr (as_core q, as_core r)" using Inr qr by simp
  have z: "bi_isZero ((bi_card (as_core r))\<lparr>signal := s\<rparr>) = fi_isZero ((fi_card r)\<lparr>fsig := s\<rparr>)" for s
    using n by (simp add: bi_isZero_def bi_card_def fi_isZero_def fi_card_def)
  have c: "(bi_card (as_core x))\<lparr>signal := s\<rparr> = second ((fi_card x)\<lparr>fsig := s\<rparr>)" for x s
    by (simp add: bi_card_def fi_card_def second_def)
  show ?thesis using assms Inr qr d z c
    by (simp add: bi_divide_def fi_divide_def second_digit Let_def)
qed

lemma second_operators:
  assumes "fi_ok f" "fi_ok g"
  shows "bi_plus (second f) (second g) = rbind (fi_add f g) (\<lambda>r. Inr (second r))"
    "bi_minus (second f) (second g) = rbind (fi_sub f g) (\<lambda>r. Inr (second r))"
    "bi_div (second f) (second g) = rbind (fi_div f g) (\<lambda>r. Inr (second r))"
    "bi_mod (second f) (second g) = rbind (fi_mod f g) (\<lambda>r. Inr (second r))"
    "short f \<or> short g \<Longrightarrow> bi_times (second f) (second g) = rbind (fi_mul f g) (\<lambda>r. Inr (second r))"
proof -
  show "bi_plus (second f) (second g) = rbind (fi_add f g) (\<lambda>r. Inr (second r))"
    "bi_minus (second f) (second g) = rbind (fi_sub f g) (\<lambda>r. Inr (second r))"
    "short f \<or> short g \<Longrightarrow> bi_times (second f) (second g) = rbind (fi_mul f g) (\<lambda>r. Inr (second r))"
    using second_add[OF assms] second_sub[OF assms] second_mul[OF assms]
    by (simp_all add: bi_plus_def bi_minus_def bi_times_def bi_on_copy_def rbind_assoc)
  show "bi_div (second f) (second g) = rbind (fi_div f g) (\<lambda>r. Inr (second r))"
    "bi_mod (second f) (second g) = rbind (fi_mod f g) (\<lambda>r. Inr (second r))"
    using second_divide[OF assms]
    by (cases "fi_divide f g", auto simp: bi_div_def bi_mod_def bi_div_assign_def bi_mod_assign_def fi_div_def fi_mod_def
        bi_on_copy_def)+
qed

section \<open>What the numbers stand for\<close>

definition fi_rep :: "fint \<Rightarrow> int \<Rightarrow> bool" where
  "fi_rep f z \<longleftrightarrow> irep (second f) z"

lemma fi_rep_ok: "fi_rep f z \<Longrightarrow> fi_ok f"
  by (simp add: fi_rep_def irep_def as_core_rep fc_rep_def fi_ok_def)

lemma fi_rep_short: "fi_rep f z \<Longrightarrow> nat \<bar>z\<bar> < radix ^ 49 \<Longrightarrow> short f"
  using rep_length[of "as_core (fmag f)" "nat \<bar>z\<bar>" 49] by (simp add: fi_rep_def irep_def short_def)

lemma fi_rep_second: "b = second f \<Longrightarrow> irep b z \<Longrightarrow> fi_rep f z"
  by (simp add: fi_rep_def)

text \<open>A result of the second generation with a value is one of the first.\<close>

lemma fi_rep_result:
  assumes "m = rbind k (\<lambda>r. Inr (second r))" "\<exists>r. m = Inr r \<and> irep r z"
  shows "\<exists>r. k = Inr r \<and> fi_rep r z"
  using assms by (auto simp: fi_rep_def)

lemma fi_rep_simps: "fi_rep f x \<Longrightarrow> fi_isZero f \<longleftrightarrow> x = 0" "fi_rep f x \<Longrightarrow> fi_isOne f \<longleftrightarrow> \<bar>x\<bar> = 1"
  "fi_rep f x \<Longrightarrow> fi_isNegative f \<longleftrightarrow> x < 0" "fi_rep f x \<Longrightarrow> fi_rep (fi_abs f) \<bar>x\<bar>" "fi_rep f x \<Longrightarrow> fi_rep (fi_negate f) (- x)"
  using irep_isZero[of "second f" x] irep_isOne[of "second f" x] irep_negative[of "second f" x] irep_abs[of "second f" x]
    irep_negate[of "second f" x] fi_rep_ok[of f x]
  by (simp_all add: fi_rep_def)

lemma fi_rep_compare: "fi_rep f x \<Longrightarrow> fi_rep g y \<Longrightarrow> (fi_eq f g \<longleftrightarrow> x = y) \<and> (fi_less f g \<longleftrightarrow> x < y)"
  using irep_eq[of "second f" x "second g" y] irep_less[of "second f" x "second g" y] fi_rep_ok[of f x] fi_rep_ok[of g y]
  by (simp add: fi_rep_def)

lemma fi_rep_digit: "fi_rep (fi_digit d) (int (unat d))" and fi_rep_card: "fi_rep (fi_card (fc_digit d)) (int (unat d))"
proof -
  show "fi_rep (fi_digit d) (int (unat d))" using irep_card[OF rep_digit[of d]]
    by (simp add: fi_rep_def second_digit(3)[symmetric]) (simp add: bi_digit_def bi_card_def as_core_eq)
  then show "fi_rep (fi_card (fc_digit d)) (int (unat d))" by (simp add: fi_digit_def fi_card_def)
qed

lemma fi_rep_constants: "fi_rep (fi_digit 0) 0" "fi_rep (fi_digit 1) 1" "fi_rep (fi_card (fc_digit 0)) 0"
  "fi_rep (fi_card (fc_digit 1)) 1" "fi_rep (fi_card (fc_digit 2)) 2"
  using fi_rep_digit[of 0] fi_rep_digit[of 1] fi_rep_card[of 0] fi_rep_card[of 1] fi_rep_card[of 2] by simp_all

lemma fi_rep_ops:
  assumes "fi_rep f x" "fi_rep g y"
  shows "0 \<le> x * y \<or> \<bar>x\<bar> < int radix \<and> \<bar>y\<bar> < int radix \<Longrightarrow> \<exists>r. fi_add f g = Inr r \<and> fi_rep r (x + y)"
    and "x * y \<le> 0 \<or> \<bar>x\<bar> < int radix \<and> \<bar>y\<bar> < int radix \<Longrightarrow> \<exists>r. fi_sub f g = Inr r \<and> fi_rep r (x - y)"
    and "nat \<bar>x\<bar> < radix ^ 49 \<or> nat \<bar>y\<bar> < radix ^ 49 \<Longrightarrow> \<exists>r. fi_mul f g = Inr r \<and> fi_rep r (if y = -1 then x else x * y)"
    and "\<bar>x\<bar> < int radix \<Longrightarrow> \<bar>y\<bar> < int radix \<Longrightarrow> y \<noteq> 0 \<Longrightarrow> \<exists>r. fi_div f g = Inr r \<and> fi_rep r (x sdiv y)"
    and "\<bar>x\<bar> < int radix \<Longrightarrow> \<bar>y\<bar> < int radix \<Longrightarrow> y \<noteq> 0 \<Longrightarrow> \<exists>r. fi_mod f g = Inr r \<and> fi_rep r (x smod y)"
proof -
  note ok = fi_rep_ok[OF assms(1)] fi_rep_ok[OF assms(2)]
  note ir = assms[unfolded fi_rep_def]
  note op = second_operators[OF ok]
  show "\<exists>r. fi_add f g = Inr r \<and> fi_rep r (x + y)" if "0 \<le> x * y \<or> \<bar>x\<bar> < int radix \<and> \<bar>y\<bar> < int radix"
    using fi_rep_result[OF op(1)] bi_plus_rep[OF ir] that by blast
  show "\<exists>r. fi_sub f g = Inr r \<and> fi_rep r (x - y)" if "x * y \<le> 0 \<or> \<bar>x\<bar> < int radix \<and> \<bar>y\<bar> < int radix"
    using fi_rep_result[OF op(2)] bi_minus_rep[OF ir] that by blast
  show "\<exists>r. fi_mul f g = Inr r \<and> fi_rep r (if y = -1 then x else x * y)" if l: "nat \<bar>x\<bar> < radix ^ 49 \<or> nat \<bar>y\<bar> < radix ^ 49"
    using fi_rep_result[OF op(5)] bi_times_rep[OF ir l] l fi_rep_short[OF assms(1)] fi_rep_short[OF assms(2)] by blast
  show "\<exists>r. fi_div f g = Inr r \<and> fi_rep r (x sdiv y)" "\<exists>r. fi_mod f g = Inr r \<and> fi_rep r (x smod y)"
    if l: "\<bar>x\<bar> < int radix" "\<bar>y\<bar> < int radix" "y \<noteq> 0"
    using fi_rep_result[OF op(3)] fi_rep_result[OF op(4)] bi_div_rep[OF ir l] bi_mod_rep[OF ir l] by blast+
qed

interpretation first_signed: signed_numbers fi_rep fi_isZero fi_isOne "\<lambda>b. b" fi_abs fi_eq fi_sub fi_mul fi_div fi_mod
  "fi_digit 1" "fi_card (fc_digit 0)" "fi_card (fc_digit 1)" "fi_card (fc_digit 2)" fi_pow fi_gcd
proof unfold_locales
  show "fi_rep b x \<Longrightarrow> fi_rep n y \<Longrightarrow> fi_eq b n \<longleftrightarrow> x = y" for b x n y using fi_rep_compare by blast
qed (rule refl | fact fi_rep_simps fi_rep_constants fi_rep_ops fi_pow.simps fi_gcd.simps)+

text \<open>A run of \<open>sqrt\<close> or \<open>mod_pow\<close> that ends took one of the early returns.\<close>

lemma fi_sqrt_returns:
  assumes "fi_sqrt n = Some r"
  shows "\<forall>z. fi_rep n z \<longrightarrow> z \<le> 1"
proof (rule fi_sqrt.raw_induct[of "\<lambda>n r. \<forall>z. fi_rep n z \<longrightarrow> z \<le> 1", OF _ assms], intro allI impI, rule ccontr)
  fix f n r z
  assume ih: "\<And>n r. f n = Some r \<Longrightarrow> \<forall>z. fi_rep n z \<longrightarrow> z \<le> 1" and n: "fi_rep n z" "\<not> z \<le> 1"
    and run: "(if fi_isZero n then Some (Inr (fi_digit 0)) else if fi_isOne n then Some (Inr (fi_digit 1))
      else if fi_isNegative n then Some (Inl (FlowException 1 DIV))
      else obind (f (fi_abs n)) (\<lambda>result. Some (Inr (fi_card (fmag result))))) = Some r"
  obtain y where "f (fi_abs n) = Some y" using run fi_rep_simps(1-3)[OF n(1)] n(2) by (cases "f (fi_abs n)") auto
  then show False using ih fi_rep_simps(4)[OF n(1)] n(2) by fastforce
qed

lemma fi_mod_pow_returns:
  assumes "fi_mod_pow base e md = Some r"
  shows "\<forall>m. fi_rep md m \<longrightarrow> m = 0"
proof (rule fi_mod_pow.raw_induct[of "\<lambda>base e md r. \<forall>m. fi_rep md m \<longrightarrow> m = 0", OF _ assms], intro allI impI, rule ccontr)
  fix f base e md r m
  assume ih: "\<And>base e md r. f base e md = Some r \<Longrightarrow> \<forall>m. fi_rep md m \<longrightarrow> m = 0" and m: "fi_rep md m" "m \<noteq> 0"
    and run: "(if fi_isZero md then Some (Inl (FlowException 1 MOD))
      else obind (f (fi_abs base) (fi_abs e) (fi_abs md)) (\<lambda>result. Some (Inr (fi_card (fmag result))))) = Some r"
  obtain y where "f (fi_abs base) (fi_abs e) (fi_abs md) = Some y"
    using run fi_rep_simps(1)[OF m(1)] m(2) by (cases "f (fi_abs base) (fi_abs e) (fi_abs md)") auto
  then show False using ih fi_rep_simps(4)[OF m(1)] m(2) by fastforce
qed

text \<open>Subtracting a vector of one digit is subtracting the digit at position 0.\<close>

lemma subtractDigit_single: "naive_subtract a [d] = rbind (subtractDigit a d 0) (\<lambda>r. Inr (normalize r))"
proof -
  have "mfold f [] = Inr" for f :: "nat \<Rightarrow> digit list \<Rightarrow> error + digit list" by (rule ext) simp
  moreover have "rbind x Inr = x" for x :: "error + digit list" by (cases x) simp_all
  ultimately show ?thesis
    by (subst subtractDigit.simps) (auto simp: naive_subtract_def sub_step_def Let_def split: prod.splits)
qed

section \<open>Properties\<close>

text \<open>C28: The operators \<open>+\<close>, \<open>++\<close>, \<open>-\<close>, \<open>*\<close> and the comparisons of the two generations of \<open>BigCardinal\<close>, each with its own
  shortcuts, loops and normalisation, give the same digits or the same error for operands in normal form, products where a factor has fewer
  than 50 digits, and \<open><<=\<close> by less than 1000 of less than \<open>2 ^ 24\<close> digits. \<open>--\<close> of the first leaves the leading zero that the second
  drops.\<close>

theorem cardinal_generations_agree:
  assumes "normal a" "normal n"
  shows "cd_plus (as_core a) (as_core n) = Inr (as_core (fc_add a n)) \<and> cd_inc (as_core a) = Inr (as_core (fc_inc a))
   \<and> cd_minus (as_core a) (as_core n) = rbind (fc_sub a n) (\<lambda>r. Inr (as_core r))
   \<and> cd_dec (as_core a) = rbind (fc_dec a) (\<lambda>r. Inr (as_core (normalize r)))
   \<and> (length a < 50 \<or> length n < 50 \<longrightarrow> cd_times (as_core a) (as_core n) = Inr (as_core (fc_mul a n)))
   \<and> (cd_eq (as_core a) (as_core n) \<longleftrightarrow> fc_eq a n) \<and> (cd_less (as_core a) (as_core n) \<longleftrightarrow> fc_less a n)
   \<and> (cd_le (as_core a) (as_core n) \<longleftrightarrow> fc_le a n)
   \<and> (lval n < 1000 \<and> length a < 2 ^ 24 \<longrightarrow>
        (\<exists>c. cd_shl (as_core a) (as_core n) = Some (Inr c) \<and> fc_shl a n = Some (Inr (digits c))))"
proof -
  have "\<exists>c. cd_shl (as_core a) (as_core n) = Some (Inr c) \<and> fc_shl a n = Some (Inr (digits c))"
    if w: "lval n < 1000" "length a < 2 ^ 24"
  proof -
    have r: "fc_rep a (lval a)" "fc_rep n (lval n)" using assms by (simp_all add: fc_rep_def)
    obtain d where d: "fc_shl a n = Some (Inr d)" "fc_rep d (lval a * 2 ^ lval n)" using fc_shl_rep[OF r w] by blast
    obtain c where c: "cd_shl (as_core a) (as_core n) = Some (Inr c)" "rep c (lval a * 2 ^ lval n)"
      using cd_shl_rep[of "as_core a" "lval a" "as_core n" "lval n"] r w by (auto simp: as_core_rep)
    have "digits c = d" using c(2) d(2) by (intro normal_lval_inj) (simp_all add: rep_def fc_rep_def)
    then show ?thesis using c d by blast
  qed
  moreover have "cd_inc (as_core a) = Inr (as_core (fc_inc a))"
    using assms(1) by (simp add: cd_inc_def core_ops fc_inc_eq as_core_eq)
  moreover have "cd_minus (as_core a) (as_core n) = rbind (fc_sub a n) (\<lambda>r. Inr (as_core r))"
    using assms(2) as_core_less[of a n] by (simp add: cd_minus_def on_copy_def cd_sub_def fc_sub_def cd_less_def rbind_assoc)
  moreover have "cd_dec (as_core a) = rbind (fc_dec a) (\<lambda>r. Inr (as_core (normalize r)))"
    using assms(1) fc_subtractAbsDigit_eq subtractDigit_single
    by (simp add: cd_dec_def fc_dec_def as_core_eq rbind_assoc fc_subtractAbs_eq)
  moreover have "cd_times (as_core a) (as_core n) = Inr (as_core (fc_mul a n))" if "length a < 50 \<or> length n < 50"
    using as_core_mul[OF assms that] by (simp add: cd_times_def on_copy_def)
  ultimately show ?thesis using as_core_add(2)[OF assms] assms by (simp add: cd_le_def fc_le_def del: One_nat_def)
qed

lemma cardinal_generations_agree_witness:
  "cd_plus (as_core [-1, 5]) (as_core [1]) = Inr (as_core [0, 6]) \<and> cd_minus (as_core [5]) (as_core [9]) = Inl (FlowException 1 SUB)
   \<and> cd_dec (as_core [0, 1]) = Inr (as_core [-1])"
proof -
  have n: "normal [-1, 5 :: digit]" "normal [1 :: digit]" "normal [5 :: digit]" "normal [9 :: digit]" "normal [0, 1 :: digit]"
    by (simp_all add: normal_def)
  have "fc_add [-1, 5] [1] = [0, 6]" "fc_sub [5] [9] = Inl (FlowException 1 SUB)" "fc_dec [0, 1] = Inr [-1, 0]"
    "normalize [-1, 0 :: digit] = [-1]" by code_simp+
  then show ?thesis
    using cardinal_generations_agree[OF n(1,2)] cardinal_generations_agree[OF n(3,4)] cardinal_generations_agree[OF n(5,2)] by simp
qed

text \<open>C29: For operands with digits in normal form addition, subtraction, division with remainder, the comparisons, parsing and formatting
  of the two generations of \<open>BigInteger\<close> give the same digits and sign or the same error; multiplication does where a factor has fewer
  than 50 digits. Above, the second generation multiplies by Karatsuba's method, whose subtractions may borrow.\<close>

theorem integer_generations_agree:
  assumes "fi_ok f" "fi_ok g"
  shows "bi_plus (second f) (second g) = rbind (fi_add f g) (\<lambda>r. Inr (second r))
   \<and> bi_minus (second f) (second g) = rbind (fi_sub f g) (\<lambda>r. Inr (second r))
   \<and> (short f \<or> short g \<longrightarrow> bi_times (second f) (second g) = rbind (fi_mul f g) (\<lambda>r. Inr (second r)))
   \<and> bi_divide (second f) (second g) = rbind (fi_divide f g) (\<lambda>(q, r). Inr (second q, second r))
   \<and> (bi_eq (second f) (second g) \<longleftrightarrow> fi_eq f g) \<and> (bi_less (second f) (second g) \<longleftrightarrow> fi_less f g)
   \<and> bi_parse s base cs = rbind (fi_parse s base cs) (\<lambda>f. Inr (second f)) \<and> bi_format (second f) base cs = fi_format f base cs"
  using second_operators[OF assms] second_divide[OF assms] second_compare second_parse second_queries(9) assms by blast

lemma integer_generations_agree_witness:
  "bi_minus (second (fi_digit 5)) (second (fi_digit 9)) = Inr (second \<lparr>fmag = [4], fsig = -1\<rparr>)"
proof -
  have "fi_sub (fi_digit 5) (fi_digit 9) = Inr \<lparr>fmag = [4], fsig = -1\<rparr>" by code_simp
  then show ?thesis using integer_generations_agree[of "fi_digit 5" "fi_digit 9"] by simp
qed

text \<open>What holds for the second generation holds for the first: arithmetic on one digit is that of the integers but for
  the multiplication by -1, \<open>pow\<close> and \<open>gcd\<close> return with the right number, \<open>sqrt\<close> and \<open>mod_pow\<close> do not return.\<close>

theorem first_integer_arithmetic:
  assumes "fi_rep f x" "fi_rep g y" "\<bar>x\<bar> < int radix" "\<bar>y\<bar> < int radix"
  shows "(\<exists>r. fi_add f g = Inr r \<and> fi_rep r (x + y)) \<and> (\<exists>r. fi_sub f g = Inr r \<and> fi_rep r (x - y))
   \<and> (\<exists>r. fi_mul f g = Inr r \<and> fi_rep r (if y = -1 then x else x * y))
   \<and> (if y = 0 then fi_div f g = Inl (FlowException 1 DIV) \<and> fi_mod f g = Inl (FlowException 1 DIV)
      else (\<exists>q. fi_div f g = Inr q \<and> fi_rep q (x sdiv y)) \<and> (\<exists>r. fi_mod f g = Inr r \<and> fi_rep r (x smod y)))
   \<and> (\<exists>r. fi_gcd f g = Some (Inr r) \<and> fi_rep r (gcd x y))
   \<and> (0 \<le> y \<and> x \<noteq> -1 \<and> x \<noteq> 0 \<and> nat \<bar>x ^ nat y\<bar> < radix ^ 49 \<longrightarrow> (\<exists>r. fi_pow f g = Some (Inr r) \<and> fi_rep r (x ^ nat y)))
   \<and> (1 < x \<longrightarrow> fi_sqrt f = None) \<and> (y \<noteq> 0 \<longrightarrow> fi_mod_pow f f g = None)"
proof -
  have "int radix \<le> int (radix ^ 49)" by (simp add: radix_def)
  then have lim: "nat \<bar>x\<bar> < radix ^ 49" using assms(3) by linarith
  have z: "fi_div f g = Inl (FlowException 1 DIV) \<and> fi_mod f g = Inl (FlowException 1 DIV)" if "y = 0"
    using fi_rep_simps(1)[OF assms(2)] that by (simp add: fi_div_def fi_mod_def fi_divide_def)
  have s: "fi_sqrt f = None" if "1 < x" using fi_sqrt_returns[of f] assms(1) that by (cases "fi_sqrt f") force+
  have m: "fi_mod_pow f f g = None" if "y \<noteq> 0"
    using fi_mod_pow_returns[of f f g] assms(2) that by (cases "fi_mod_pow f f g") auto
  have p: "\<exists>r. fi_pow f g = Some (Inr r) \<and> fi_rep r (x ^ nat y)"
    if "0 \<le> y \<and> x \<noteq> -1 \<and> x \<noteq> 0 \<and> nat \<bar>x ^ nat y\<bar> < radix ^ 49"
    using first_signed.pow_R[OF assms(1) _ assms(2)] that assms(4) by auto
  show ?thesis using fi_rep_ops(1,2,3)[OF assms(1,2)] fi_rep_ops(4,5)[OF assms] first_signed.gcd_R[OF assms] assms(3,4) lim z s m p
    by auto
qed

lemma first_integer_arithmetic_witness:
  "(\<exists>q. fi_div (fi_digit 7) (fi_digit 2) = Inr q \<and> fi_rep q 3) \<and> fi_sqrt (fi_digit 7) = None
   \<and> (\<exists>r. fi_pow (fi_digit 7) (fi_digit 2) = Some (Inr r) \<and> fi_rep r 49)"
  using first_integer_arithmetic[OF fi_rep_digit[of 7] fi_rep_digit[of 2]] by (simp add: radix_def signed_divide_int_def)

end
