(* ===== verification/Decimals.thy ===== *)
theory Decimals
  imports Integers Complex_Main
begin

text \<open>
  \<open>cpp/lib/bign/BigDecimal.h\<close>: decimal fractions, a \<open>BigInteger\<close> and the number of its digits behind
  the point. Loops over \<open>int\<close> counters run as often as the counter says; the counters stay within \<open>int\<close>.
\<close>

section \<open>State, scaling and normal form\<close>

record bigdec =
  num :: bigint
  decimal_places :: int

text \<open>The loops \<open>for(i = 0; i < n; i++) scale = scale * BigInteger(10)\<close>, from 1.\<close>

definition scale10 :: "int \<Rightarrow> error + bigint" where
  "scale10 n = mfold (\<lambda>_ s. bi_times s (bi_int 10)) [0..<nat n] (bi_int 1)"

function trailing_zeros :: "int \<Rightarrow> int \<Rightarrow> bigint \<Rightarrow> error + int" where
  "trailing_zeros places n check =
     (if n < places \<and> \<not> bi_isZero check
      then rbind (bi_mod check (bi_int 10)) (\<lambda>m.
        if bi_isZero m then rbind (bi_div check (bi_int 10)) (\<lambda>check. trailing_zeros places (n + 1) check)
        else Inr n)
      else Inr n)"
  by pat_completeness auto
termination by (relation "measure (\<lambda>(p, n, c). nat (p - n))") auto

declare trailing_zeros.simps [simp del]

definition bd_strip :: "bigdec \<Rightarrow> bigint \<Rightarrow> int \<Rightarrow> error + bigdec" where
  "bd_strip d temp tz = rbind (scale10 tz) (\<lambda>divisor. rbind (bi_div temp divisor) (\<lambda>v.
     Inr \<lparr>num = if bi_isNegative (num d) then bi_negate v else v, decimal_places = decimal_places d - tz\<rparr>))"

definition bd_normalize :: "bigdec \<Rightarrow> error + bigdec" where
  "bd_normalize d = (if bi_isZero (num d) then Inr (d\<lparr>decimal_places := 0\<rparr>)
     else if decimal_places d = 0 then Inr d
     else let temp = (if bi_isNegative (num d) then bi_abs (num d) else bi_copy (num d))
       in rbind (scale10 (decimal_places d)) (\<lambda>frac_divisor.
          rbind (bi_mod temp frac_divisor) (\<lambda>frac_part.
          rbind (if bi_isZero frac_part then Inr (decimal_places d)
                 else trailing_zeros (decimal_places d) 0 (bi_copy frac_part)) (\<lambda>tz.
            if tz > 0 \<and> tz \<le> decimal_places d then bd_strip d temp tz else Inr d))))"

definition bd_scale_to :: "int \<Rightarrow> bigdec \<Rightarrow> error + bigdec" where
  "bd_scale_to max_places a = (if decimal_places a < max_places
     then rbind (scale10 (max_places - decimal_places a)) (\<lambda>scale.
          rbind (bi_times (num a) scale) (\<lambda>v. Inr \<lparr>num = bi_copy v, decimal_places = max_places\<rparr>))
     else Inr a)"

definition alignDecimalPlaces :: "bigdec \<Rightarrow> bigdec \<Rightarrow> error + bigdec \<times> bigdec" where
  "alignDecimalPlaces a b = (if decimal_places a = decimal_places b then Inr (a, b)
     else let m = (if decimal_places a > decimal_places b then decimal_places a else decimal_places b)
       in rbind (bd_scale_to m a) (\<lambda>a. rbind (bd_scale_to m b) (\<lambda>b. Inr (a, b))))"

section \<open>Construction\<close>

definition dec_digit :: "digit \<Rightarrow> int \<Rightarrow> bigdec" where
  "dec_digit n places = \<lparr>num = bi_digit n, decimal_places = places\<rparr>"

definition dec_int :: "bigint \<Rightarrow> int \<Rightarrow> error + bigdec" where
  "dec_int n places = bd_normalize \<lparr>num = bi_copy n, decimal_places = places\<rparr>"

definition dec_copy :: "bigdec \<Rightarrow> bigdec" where
  "dec_copy d = \<lparr>num = bi_copy (num d), decimal_places = decimal_places d\<rparr>"

definition dec_parse :: "string \<Rightarrow> error + bigdec" where
  "dec_parse s = (if s = [] then Inr (dec_digit 0 0)
     else let negative = (hd s = CHR ''-''); num_str = (if negative then tl s else s)
     in if num_str = [] then Inr (dec_digit 0 0)
     else case find_char (CHR ''.'') num_str of
       None \<Rightarrow> rbind (bi_parse s 10 DIGITS) (\<lambda>i. dec_int i 0)
     | Some dot_pos \<Rightarrow>
       let int_part = take dot_pos num_str;
           frac_part = (if dot_pos + 1 < length num_str then drop (dot_pos + 1) num_str else [])
       in if int_part = [] \<and> frac_part = [] then Inr (dec_digit 0 0)
       else let int_part = (if int_part = [] then ''0'' else int_part)
       in if frac_part = []
       then rbind (bi_parse (if negative then CHR ''-'' # int_part else int_part) 10 DIGITS) (\<lambda>i. dec_int i 0)
       else rbind (bi_parse (int_part @ frac_part) 10 DIGITS) (\<lambda>combined.
            rbind (dec_int combined (int (length frac_part))) (\<lambda>d.
              bd_normalize (if negative then d\<lparr>num := bi_negate (num d)\<rparr> else d))))"

section \<open>Arithmetic and comparison\<close>

definition dec_linear :: "(bigint \<Rightarrow> bigint \<Rightarrow> error + bigint) \<Rightarrow> bigdec \<Rightarrow> bigdec \<Rightarrow> error + bigdec" where
  "dec_linear f d n = rbind (alignDecimalPlaces (dec_copy d) (dec_copy n)) (\<lambda>(a, b).
     rbind (f (num a) (num b)) (\<lambda>v. bd_normalize \<lparr>num = v, decimal_places = decimal_places a\<rparr>))"

definition dec_add :: "bigdec \<Rightarrow> bigdec \<Rightarrow> error + bigdec" where
  "dec_add d n = dec_linear bi_plus d n"

definition dec_sub :: "bigdec \<Rightarrow> bigdec \<Rightarrow> error + bigdec" where
  "dec_sub d n = dec_linear bi_minus d n"

definition dec_mul :: "bigdec \<Rightarrow> bigdec \<Rightarrow> error + bigdec" where
  "dec_mul d n = rbind (bi_times (num d) (num n)) (\<lambda>v.
     Inr \<lparr>num = v, decimal_places = decimal_places d + decimal_places n\<rparr>)"

definition dec_divide :: "bigdec \<Rightarrow> bigdec \<Rightarrow> error + bigdec" where
  "dec_divide d n = (if bi_isZero (num n) then Inl (FlowException 1 DIV)
     else let target_places = (if decimal_places d > decimal_places n then decimal_places d else decimal_places n);
            scale_factor = target_places + 10
       in rbind (scale10 scale_factor) (\<lambda>scale.
          rbind (bi_times (bi_copy (num d)) scale) (\<lambda>scaled_this.
          rbind (scale10 (decimal_places n)) (\<lambda>scale_n.
          rbind (bi_times (bi_copy (num n)) scale_n) (\<lambda>scaled_n.
          rbind (bi_div scaled_this scaled_n) (\<lambda>v.
            bd_normalize \<lparr>num = v, decimal_places = scale_factor - decimal_places n\<rparr>))))))"

definition dec_on_copy :: "(bigdec \<Rightarrow> bigdec \<Rightarrow> error + bigdec) \<Rightarrow> bigdec \<Rightarrow> bigdec \<Rightarrow> error + bigdec" where
  "dec_on_copy f d n = rbind (f (dec_copy d) n) (\<lambda>r. Inr (dec_copy r))"

definition dec_plus :: "bigdec \<Rightarrow> bigdec \<Rightarrow> error + bigdec" where
  "dec_plus = dec_on_copy dec_add"

definition dec_minus :: "bigdec \<Rightarrow> bigdec \<Rightarrow> error + bigdec" where
  "dec_minus = dec_on_copy dec_sub"

definition dec_times :: "bigdec \<Rightarrow> bigdec \<Rightarrow> error + bigdec" where
  "dec_times = dec_on_copy dec_mul"

definition dec_div :: "bigdec \<Rightarrow> bigdec \<Rightarrow> error + bigdec" where
  "dec_div = dec_on_copy dec_divide"

definition dec_eq :: "bigdec \<Rightarrow> bigdec \<Rightarrow> error + bool" where
  "dec_eq d n = rbind (alignDecimalPlaces (dec_copy d) (dec_copy n)) (\<lambda>(a, b). Inr (bi_eq (num a) (num b)))"

definition dec_less :: "bigdec \<Rightarrow> bigdec \<Rightarrow> error + bool" where
  "dec_less d n = rbind (alignDecimalPlaces (dec_copy d) (dec_copy n)) (\<lambda>(a, b). Inr (bi_less (num a) (num b)))"

section \<open>Rounding and text\<close>

definition dec_round :: "bigdec \<Rightarrow> int \<Rightarrow> error + bigdec" where
  "dec_round d places = (if places \<ge> decimal_places d then Inr (dec_copy d)
     else if places < 0 then Inr (dec_copy d)
     else let v = (if bi_isNegative (num d) then bi_abs (num d) else bi_copy (num d))
       in rbind (scale10 (decimal_places d - places)) (\<lambda>remove_scale.
          rbind (bi_div remove_scale (bi_int 10)) (\<lambda>s10.
          rbind (bi_div v s10) (\<lambda>temp.
          rbind (bi_mod temp (bi_int 10)) (\<lambda>rounding_digit.
          rbind (bi_div v remove_scale) (\<lambda>rounded.
          rbind (if bi_ge rounding_digit (bi_int 5) then bi_plus rounded (bi_int 1) else Inr rounded) (\<lambda>rounded.
            dec_int (if bi_isNegative (num d) then bi_negate rounded else rounded) places)))))))"

definition dec_truncate :: "bigdec \<Rightarrow> int \<Rightarrow> error + bigdec" where
  "dec_truncate d places = (if places \<ge> decimal_places d then Inr (dec_copy d)
     else if places < 0 then Inr (dec_copy d)
     else rbind (scale10 (decimal_places d - places)) (\<lambda>remove_scale.
          rbind (bi_div (bi_copy (num d)) remove_scale) (\<lambda>truncated. dec_int truncated places)))"

definition setDecimalPlaces :: "bigdec \<Rightarrow> int \<Rightarrow> error + bigdec" where
  "setDecimalPlaces d places = (if places < 0 then Inr d
     else rbind
       (if places < decimal_places d
        then rbind (scale10 (decimal_places d - places)) (\<lambda>scale. bi_div (num d) scale)
        else if places > decimal_places d
        then rbind (scale10 (places - decimal_places d)) (\<lambda>scale. bi_times (num d) scale)
        else Inr (num d))
       (\<lambda>v. Inr \<lparr>num = v, decimal_places = places\<rparr>))"

fun drop_last_zeros :: "string \<Rightarrow> string" where
  "drop_last_zeros (c # d # s) = (if c = CHR ''0'' then drop_last_zeros (d # s) else c # d # s)"
| "drop_last_zeros s = s"

fun drop_last_zeros_to_point :: "string \<Rightarrow> string" where
  "drop_last_zeros_to_point (c # d # s) =
     (if c = CHR ''0'' \<and> d \<noteq> CHR ''.'' then drop_last_zeros_to_point (d # s) else c # d # s)"
| "drop_last_zeros_to_point s = s"

text \<open>\<open>if(result.back() == '.') result.pop_back()\<close>.\<close>

definition drop_point :: "string \<Rightarrow> string" where
  "drop_point r = (if last r = CHR ''.'' then butlast r else r)"

definition point_text :: "string \<Rightarrow> nat \<Rightarrow> string" where
  "point_text t places =
     (let int_str = replicate (places - length t) (CHR ''0'') @ t
      in if length int_str = places
         then drop_point (rev (drop_last_zeros (rev (''0.'' @ int_str))))
         else let dot_pos = length int_str - places; int_part = take dot_pos int_str; frac_part = drop dot_pos int_str
              in drop_point (rev (drop_last_zeros_to_point (rev (int_part @ ''.'' @ frac_part)))))"

definition dec_format :: "bigdec \<Rightarrow> int \<Rightarrow> error + string" where
  "dec_format d places =
     (let places = (if places < 0 then decimal_places d else places)
      in rbind (if places \<ge> 0 \<and> places < decimal_places d then dec_round (dec_copy d) places
                else if places > decimal_places d then setDecimalPlaces (dec_copy d) places
                else Inr (dec_copy d)) (\<lambda>to_format.
         let v = num to_format; negative = bi_isNegative v
         in rbind (bi_format (if negative then bi_abs v else v) 10 DIGITS) (\<lambda>int_str.
              let text = (if decimal_places to_format = 0 then int_str
                          else point_text int_str (nat (decimal_places to_format)))
              in Inr (if negative then CHR ''-'' # text else text))))"

section \<open>The value of a decimal\<close>

text \<open>\<open>drep d z p\<close>: the decimal stands for \<open>z / 10 ^ p\<close> with \<open>p\<close> digits behind the point.\<close>

definition drep :: "bigdec \<Rightarrow> int \<Rightarrow> nat \<Rightarrow> bool" where
  "drep d z p \<longleftrightarrow> irep (num d) z \<and> decimal_places d = int p"

definition dval :: "int \<Rightarrow> nat \<Rightarrow> rat" where
  "dval z p = of_int z / 10 ^ p"

text \<open>\<open>dec_is d r\<close>: a decimal in normal form (no zero at the end behind the point) of value \<open>r\<close>.\<close>

definition dec_is :: "bigdec \<Rightarrow> rat \<Rightarrow> bool" where
  "dec_is d r \<longleftrightarrow> (\<exists>z p. drep d z p \<and> r = dval z p \<and> (p = 0 \<or> \<not> 10 dvd z))"

lemma dec_isI: "drep d z p \<Longrightarrow> p = 0 \<or> \<not> 10 dvd z \<Longrightarrow> dec_is d (dval z p)"
  by (auto simp: dec_is_def)

lemma drep_copy [simp]: "drep d z p \<Longrightarrow> dec_copy d = d"
  by (cases d) (auto simp: drep_def dec_copy_def)

lemma irep_10: "irep (bi_int 10) 10"
  by (simp add: irep_int)

lemma scale10_rep: "\<exists>r. scale10 (int n) = Inr r \<and> irep r (10 ^ n)"
proof (induction n)
  case 0
  show ?case using irep_1 by (simp add: scale10_def)
next
  case (Suc n)
  then obtain r where r: "mfold (\<lambda>_ s. bi_times s (bi_int 10)) [0..<n] (bi_int 1) = Inr r" "irep r (10 ^ n)"
    by (auto simp: scale10_def)
  have "nat \<bar>10 :: int\<bar> < radix ^ 49" by (simp add: radix_def)
  then obtain s where "bi_times r (bi_int 10) = Inr s" "irep s (10 ^ n * 10)"
    using bi_times_rep[OF r(2) irep_10] by auto
  then show ?case using r(1) by (simp add: scale10_def mfold_append mult.commute nat_add_distrib del: of_nat_Suc)
qed

text \<open>Counting the zeros at the end.\<close>

lemma trailing_zeros_rep:
  assumes "irep c z" "0 < z" "z < 10 ^ d" "d \<le> 19"
  shows "\<exists>k < d. trailing_zeros (n + int d) n c = Inr (n + int k) \<and> 10 ^ k dvd z \<and> \<not> 10 ^ Suc k dvd z"
  using assms
proof (induction d arbitrary: n c z)
  case (Suc d)
  have "(10 :: int) ^ Suc d \<le> 10 ^ 19" using Suc.prems(4) by (intro power_increasing) auto
  then have zr: "\<bar>z\<bar> < int radix" "\<bar>10 :: int\<bar> < int radix" using Suc.prems(2,3) by (simp_all add: radix_def)
  obtain m where m: "bi_mod c (bi_int 10) = Inr m" "irep m (z mod 10)"
    using bi_mod_rep[OF Suc.prems(1) irep_10 zr] Suc.prems(2) by (auto simp: signed_modulo_int_def)
  note z = irep_isZero[OF m(2)] irep_isZero[OF Suc.prems(1)]
  show ?case
  proof (cases "10 dvd z")
    case False
    then have "trailing_zeros (n + int (Suc d)) n c = Inr n"
      using Suc.prems(2) m z by (subst trailing_zeros.simps) (simp add: dvd_eq_mod_eq_0)
    then show ?thesis using False by (intro exI[of _ 0]) simp
  next
    case True
    obtain q where q: "bi_div c (bi_int 10) = Inr q" "irep q (z div 10)"
      using bi_div_rep[OF Suc.prems(1) irep_10 zr] Suc.prems(2) by (auto simp: signed_divide_int_def)
    have z10: "z = 10 * (z div 10)" using True by simp
    have step: "trailing_zeros (n + int (Suc d)) n c = trailing_zeros (n + 1 + int d) (n + 1) q"
      using Suc.prems(2) m z q True by (subst trailing_zeros.simps) (simp add: dvd_eq_mod_eq_0 add.assoc)
    have small: "z div 10 < 10 ^ d" "0 < z div 10" using Suc.prems(2,3) z10 unfolding power_Suc by linarith+
    obtain k where k: "k < d" "trailing_zeros (n + 1 + int d) (n + 1) q = Inr (n + 1 + int k)"
      "10 ^ k dvd z div 10" "\<not> 10 ^ Suc k dvd z div 10"
      using Suc.IH[OF q(2) small(2,1)] Suc.prems(4) by force
    have "10 ^ Suc j dvd z \<longleftrightarrow> 10 ^ j dvd z div 10" for j
      by (subst z10, unfold power_Suc) (subst dvd_mult_cancel_left, simp)
    then have "10 ^ Suc k dvd z" "\<not> 10 ^ Suc (Suc k) dvd z" using k(3,4) by blast+
    then show ?thesis using step k(1,2) by (intro exI[of _ "Suc k"]) (simp del: power_Suc)
  qed
qed simp

text \<open>The normal form.\<close>

lemma bd_normalize_rep:
  assumes "drep d z p" "\<bar>z\<bar> < 2 ^ 63" "p \<le> 19"
  shows "\<exists>r. bd_normalize d = Inr r \<and> dec_is r (dval z p)"
proof -
  have i: "irep (num d) z" and pl: "decimal_places d = int p" using assms(1) by (simp_all add: drep_def)
  note zero = irep_isZero[OF i]
  define temp where "temp = (if bi_isNegative (num d) then bi_abs (num d) else bi_copy (num d))"
  have t: "irep temp \<bar>z\<bar>" using irep_abs[OF i] i irep_negative[OF i] by (cases "z < 0") (simp_all add: temp_def)
  consider "z = 0" | "z \<noteq> 0" "p = 0" | "z \<noteq> 0" "0 < p" by blast
  then show ?thesis
  proof cases
    case 1
    then have "bd_normalize d = Inr (d\<lparr>decimal_places := 0\<rparr>)" using zero by (simp add: bd_normalize_def)
    moreover have "dec_is (d\<lparr>decimal_places := 0\<rparr>) (dval z p)"
      using i 1 by (auto simp: dec_is_def drep_def dval_def intro!: exI[of _ 0])
    ultimately show ?thesis by blast
  next
    case 2
    then show ?thesis using zero pl assms(1) by (auto simp: bd_normalize_def dec_is_def)
  next
    case 3
    obtain fd where fd: "scale10 (int p) = Inr fd" "irep fd (10 ^ p)" using scale10_rep by blast
    have "(10 :: int) ^ p \<le> 10 ^ 19" using assms(3) by (intro power_increasing) auto
    then have pr: "\<bar>10 ^ p :: int\<bar> < int radix" by (simp add: radix_def)
    have zr: "\<bar>\<bar>z\<bar>\<bar> < int radix" using assms(2) by (simp add: radix_def)
    obtain fp where fp: "bi_mod temp fd = Inr fp" "irep fp (\<bar>z\<bar> mod 10 ^ p)"
      using bi_mod_rep[OF t fd(2) zr pr] 3(1) by (auto simp: signed_modulo_int_def)
    have "\<exists>k \<le> p. (if bi_isZero fp then Inr (int p) else trailing_zeros (int p) 0 fp) = Inr (int k)
      \<and> 10 ^ k dvd z \<and> (k = p \<or> \<not> 10 ^ Suc k dvd z)"
    proof (cases "\<bar>z\<bar> mod 10 ^ p = 0")
      case True
      then have "10 ^ p dvd z" by (simp add: mod_eq_0_iff_dvd)
      then show ?thesis using True irep_isZero[OF fp(2)] by auto
    next
      case False
      have "0 \<le> \<bar>z\<bar> mod 10 ^ p" by simp
      then have pos: "0 < \<bar>z\<bar> mod 10 ^ p" using False by linarith
      obtain k where k: "k < p" "trailing_zeros (0 + int p) 0 fp = Inr (0 + int k)"
        "10 ^ k dvd \<bar>z\<bar> mod 10 ^ p" "\<not> 10 ^ Suc k dvd \<bar>z\<bar> mod 10 ^ p"
        using trailing_zeros_rep[OF fp(2) pos _ assms(3), of 0] by auto
      have "10 ^ j dvd \<bar>z\<bar> mod 10 ^ p \<longleftrightarrow> 10 ^ j dvd z" if "j \<le> p" for j
        using dvd_mod_iff[of "10 ^ j" "10 ^ p" "\<bar>z\<bar>"] le_imp_power_dvd[OF that, of "10 :: int"] by simp
      from this[of k] this[of "Suc k"] k show ?thesis using irep_isZero[OF fp(2)] False
        by (intro exI[of _ k]) simp
    qed
    then obtain k where k: "k \<le> p" "(if bi_isZero fp then Inr (int p) else trailing_zeros (int p) 0 fp) = Inr (int k)"
      "10 ^ k dvd z" "k = p \<or> \<not> 10 ^ Suc k dvd z" by blast
    have "bd_normalize d = rbind (if bi_isZero fp then Inr (int p) else trailing_zeros (int p) 0 fp)
        (\<lambda>tz. if tz > 0 \<and> tz \<le> int p then bd_strip d temp tz else Inr d)"
      using 3 zero pl fd fp irep_copy[OF fp(2)]
      by (simp add: bd_normalize_def temp_def[symmetric] Let_def split del: if_split cong: if_cong)
    then have norm: "bd_normalize d = (if int k > 0 then bd_strip d temp (int k) else Inr d)"
      unfolding k(2) using k(1) by simp
    show ?thesis
    proof (cases "k = 0")
      case True
      then show ?thesis using norm k(4) 3 assms(1) by (auto simp: dec_is_def)
    next
      case False
      obtain dv where dv: "scale10 (int k) = Inr dv" "irep dv (10 ^ k)" using scale10_rep by blast
      have "(10 :: int) ^ k \<le> 10 ^ p" using k(1) by (intro power_increasing) auto
      moreover have "\<bar>10 ^ k :: int\<bar> = 10 ^ k" "\<bar>10 ^ p :: int\<bar> = 10 ^ p" by simp_all
      ultimately have kr: "\<bar>10 ^ k :: int\<bar> < int radix" using pr by linarith
      obtain v where v: "bi_div temp dv = Inr v" "irep v (\<bar>z\<bar> div 10 ^ k)"
        using bi_div_rep[OF t dv(2) zr kr] by (auto simp: signed_divide_int_def sgn_if split: if_splits)
      obtain y where y: "z = 10 ^ k * y" using k(3) by blast
      have q: "\<bar>z\<bar> div 10 ^ k = \<bar>y\<bar>" "(z < 0) = (y < 0)" by (simp_all add: y abs_mult mult_less_0_iff)
      let ?r = "\<lparr>num = if bi_isNegative (num d) then bi_negate v else v, decimal_places = int p - int k\<rparr>"
      have "bd_normalize d = Inr ?r" using norm False dv v pl by (simp add: bd_strip_def)
      moreover have "drep ?r y (p - k)"
        using v(2) irep_negate[OF v(2)] irep_negative[OF i] q k(1) by (auto simp: drep_def)
      moreover have "dval z p = dval y (p - k)"
        using k(1) by (simp add: dval_def y field_simps flip: power_add)
      moreover have "p - k = 0 \<or> \<not> 10 dvd y"
        using k(1,4) y by (auto simp: mult.commute[of _ "10 ^ k"])
      ultimately show ?thesis using dec_isI[of ?r y "p - k"] by simp
    qed
  qed
qed

section \<open>Alignment, addition, comparison\<close>

lemma pow10_small: "n \<le> 200 \<Longrightarrow> nat \<bar>10 ^ n :: int\<bar> < radix ^ 49"
proof -
  assume "n \<le> 200"
  then have "(10 :: nat) ^ n \<le> 10 ^ 200" by (intro power_increasing) auto
  also have "\<dots> < radix ^ 49" by (simp add: radix_def)
  finally show ?thesis by (simp add: nat_power_eq)
qed

lemma times_pow10:
  assumes "irep b z" "n \<le> 200"
  shows "\<exists>s r. scale10 (int n) = Inr s \<and> bi_times b s = Inr r \<and> irep r (z * 10 ^ n)"
proof -
  obtain s where s: "scale10 (int n) = Inr s" "irep s (10 ^ n)" using scale10_rep by blast
  have "(0 :: int) < 10 ^ n" by simp
  then have "(10 :: int) ^ n \<noteq> -1" by linarith
  then show ?thesis using bi_times_rep[OF assms(1) s(2)] pow10_small[OF assms(2)] s(1) by auto
qed

lemma bd_scale_to_rep:
  assumes "drep d z p" "p \<le> m" "m \<le> 200"
  shows "\<exists>r. bd_scale_to (int m) d = Inr r \<and> drep r (z * 10 ^ (m - p)) m"
proof (cases "p < m")
  case True
  have "irep (num d) z" "m - p \<le> 200" using assms by (simp_all add: drep_def)
  from times_pow10[OF this] obtain s r where
    s: "scale10 (int (m - p)) = Inr s" "bi_times (num d) s = Inr r" "irep r (z * 10 ^ (m - p))"
    by (elim exE conjE)
  have e: "decimal_places d = int p" "int m - int p = int (m - p)" using assms(1,2) by (simp_all add: drep_def of_nat_diff)
  have "bd_scale_to (int m) d = Inr \<lparr>num = r, decimal_places = int m\<rparr>"
    unfolding bd_scale_to_def e using True s by simp
  then show ?thesis using s(3) by (simp add: drep_def)
next
  case False
  then show ?thesis using assms by (auto simp: bd_scale_to_def drep_def)
qed

lemma align_rep:
  assumes "drep d x p" "drep n y q" "p \<le> 200" "q \<le> 200"
  shows "\<exists>a b. alignDecimalPlaces d n = Inr (a, b) \<and> drep a (x * 10 ^ (max p q - p)) (max p q)
    \<and> drep b (y * 10 ^ (max p q - q)) (max p q)"
proof (cases "p = q")
  case True
  then show ?thesis using assms by (auto simp: alignDecimalPlaces_def drep_def)
next
  case False
  obtain a b where "bd_scale_to (int (max p q)) d = Inr a" "drep a (x * 10 ^ (max p q - p)) (max p q)"
    "bd_scale_to (int (max p q)) n = Inr b" "drep b (y * 10 ^ (max p q - q)) (max p q)"
    using bd_scale_to_rep[OF assms(1), of "max p q"] bd_scale_to_rep[OF assms(2), of "max p q"] assms(3,4) by auto
  moreover have "(if decimal_places d > decimal_places n then decimal_places d else decimal_places n) = int (max p q)"
    using assms(1,2) by (auto simp: drep_def)
  moreover have "decimal_places d \<noteq> decimal_places n" using assms(1,2) False by (auto simp: drep_def)
  ultimately show ?thesis unfolding alignDecimalPlaces_def Let_def by auto
qed

lemma dval_scale: "p \<le> m \<Longrightarrow> dval (z * 10 ^ (m - p)) m = dval z p"
  by (simp add: dval_def field_simps flip: power_add)

text \<open>The magnitudes, brought to the same number of places, and the places must be small enough for
  the one-digit division of the normalisation.\<close>

definition fits :: "int \<Rightarrow> nat \<Rightarrow> nat \<Rightarrow> bool" where
  "fits z p m \<longleftrightarrow> p \<le> m \<and> m \<le> 19 \<and> \<bar>z\<bar> * 10 ^ (m - p) < 2 ^ 62"

lemma fitsD: "fits z p m \<Longrightarrow> \<bar>z * 10 ^ (m - p)\<bar> < 2 ^ 62"
  by (simp add: fits_def abs_mult)

lemma dec_linear_rep:
  assumes "drep d x p" "drep n y q" "fits x p (max p q)" "fits y q (max p q)"
    and f: "\<And>a b u v. irep a u \<Longrightarrow> irep b v \<Longrightarrow> \<bar>u\<bar> < int radix \<Longrightarrow> \<bar>v\<bar> < int radix \<Longrightarrow> \<exists>r. f a b = Inr r \<and> irep r (u + s * v)"
    and s: "s = 1 \<or> s = -1"
  shows "\<exists>r. dec_linear f d n = Inr r \<and> dec_is r (dval x p + of_int s * dval y q)"
proof -
  let ?m = "max p q" let ?x = "x * 10 ^ (max p q - p)" let ?y = "y * 10 ^ (max p q - q)"
  obtain a b where ab: "alignDecimalPlaces d n = Inr (a, b)" "drep a ?x ?m" "drep b ?y ?m"
    using align_rep[OF assms(1,2)] assms(3,4) by (auto simp: fits_def)
  have sum: "\<bar>u + s * v\<bar> < 2 ^ 63" if "\<bar>u\<bar> < 2 ^ 62" "\<bar>v\<bar> < 2 ^ 62" for u v :: int
    using s
  proof
    assume "s = 1"
    then show ?thesis using that by simp
  next
    assume "s = -1"
    then show ?thesis using that by simp
  qed
  have lim: "\<bar>?x\<bar> < int radix" "\<bar>?y\<bar> < int radix" "\<bar>?x + s * ?y\<bar> < 2 ^ 63"
    using fitsD[OF assms(3)] fitsD[OF assms(4)] sum[OF fitsD[OF assms(3)] fitsD[OF assms(4)]]
    by (simp_all add: radix_def)
  obtain v where v: "f (num a) (num b) = Inr v" "irep v (?x + s * ?y)"
    using f[OF _ _ lim(1,2)] ab(2,3) by (auto simp: drep_def)
  let ?d = "\<lparr>num = v, decimal_places = decimal_places a\<rparr>"
  have d: "drep ?d (?x + s * ?y) ?m" "?m \<le> 19" using v(2) ab(2) assms(3) by (simp_all add: drep_def fits_def)
  obtain r where r: "bd_normalize ?d = Inr r" "dec_is r (dval (?x + s * ?y) ?m)"
    using bd_normalize_rep[OF d(1) lim(3) d(2)] by blast
  have "dval (?x + s * ?y) ?m = dval ?x ?m + of_int s * dval ?y ?m" by (simp add: dval_def field_simps)
  also have "\<dots> = dval x p + of_int s * dval y q" by (simp only: dval_scale max.cobounded1 max.cobounded2)
  finally show ?thesis using r ab(1) v(1) assms(1,2) by (simp add: dec_linear_def)
qed

lemma dec_copy_is: "dec_is r v \<Longrightarrow> dec_copy r = r"
  by (auto simp: dec_is_def)

lemma dec_plus_rep:
  assumes "drep d x p" "drep n y q" "fits x p (max p q)" "fits y q (max p q)"
  shows "\<exists>r. dec_plus d n = Inr r \<and> dec_is r (dval x p + dval y q)"
proof -
  have "\<exists>r. bi_plus a b = Inr r \<and> irep r (u + (1) * v)"
    if "irep a u" "irep b v" "\<bar>u\<bar> < int radix" "\<bar>v\<bar> < int radix" for a b u v
    using bi_plus_rep[OF that(1,2)] that(3,4) by simp
  from dec_linear_rep[OF assms, of bi_plus "1", OF this] obtain r where
    "dec_linear bi_plus d n = Inr r" "dec_is r (dval x p + of_int (1) * dval y q)" by auto
  then show ?thesis using assms(1) dec_copy_is[of r]
    by (simp add: dec_plus_def dec_on_copy_def dec_add_def)
qed

lemma dec_minus_rep:
  assumes "drep d x p" "drep n y q" "fits x p (max p q)" "fits y q (max p q)"
  shows "\<exists>r. dec_minus d n = Inr r \<and> dec_is r (dval x p - dval y q)"
proof -
  have "\<exists>r. bi_minus a b = Inr r \<and> irep r (u + (-1) * v)"
    if "irep a u" "irep b v" "\<bar>u\<bar> < int radix" "\<bar>v\<bar> < int radix" for a b u v
    using bi_minus_rep[OF that(1,2)] that(3,4) by simp
  from dec_linear_rep[OF assms, of bi_minus "-1", OF this] obtain r where
    "dec_linear bi_minus d n = Inr r" "dec_is r (dval x p + of_int (-1) * dval y q)" by auto
  then show ?thesis using assms(1) dec_copy_is[of r]
    by (simp add: dec_minus_def dec_on_copy_def dec_sub_def)
qed

lemma dval_less: "dval x m < dval y m \<longleftrightarrow> x < y" and dval_eq: "dval x m = dval y m \<longleftrightarrow> x = y"
  by (simp_all add: dval_def divide_less_cancel)

lemma dec_compare_rep:
  assumes "drep d x p" "drep n y q" "p \<le> 200" "q \<le> 200"
  shows "dec_eq d n = Inr (dval x p = dval y q)" "dec_less d n = Inr (dval x p < dval y q)"
proof -
  obtain a b where ab: "alignDecimalPlaces d n = Inr (a, b)" "drep a (x * 10 ^ (max p q - p)) (max p q)"
    "drep b (y * 10 ^ (max p q - q)) (max p q)" using align_rep[OF assms] by blast
  have v: "dval x p = dval (x * 10 ^ (max p q - p)) (max p q)" "dval y q = dval (y * 10 ^ (max p q - q)) (max p q)"
    by (simp_all only: dval_scale max.cobounded1 max.cobounded2)
  have i: "irep (num a) (x * 10 ^ (max p q - p))" "irep (num b) (y * 10 ^ (max p q - q))" using ab by (simp_all add: drep_def)
  show "dec_eq d n = Inr (dval x p = dval y q)"
    using ab(1) irep_eq[OF i] assms(1,2) unfolding v dval_eq by (simp add: dec_eq_def)
  show "dec_less d n = Inr (dval x p < dval y q)"
    using ab(1) irep_less[OF i] assms(1,2) unfolding v dval_less by (simp add: dec_less_def)
qed

lemma dec_times_rep:
  assumes "drep d x p" "drep n y q" "nat \<bar>x\<bar> < radix ^ 49" "y \<noteq> -1"
  shows "\<exists>r. dec_times d n = Inr r \<and> drep r (x * y) (p + q)"
proof -
  obtain r where "bi_times (num d) (num n) = Inr r" "irep r (x * y)"
    using bi_times_rep[of "num d" x "num n" y] assms by (auto simp: drep_def)
  then show ?thesis using assms(1,2) by (auto simp: dec_times_def dec_on_copy_def dec_mul_def drep_def dec_copy_def)
qed

section \<open>Rounding and division\<close>

text \<open>Rounding half away from zero at \<open>k\<close> places fewer.\<close>

definition round_half :: "int \<Rightarrow> nat \<Rightarrow> int" where
  "round_half z k = sgn z * ((\<bar>z\<bar> + 5 * 10 ^ (k - 1)) div 10 ^ k)"

lemma round_digit:
  fixes z s :: int
  assumes "0 \<le> z" "0 < s"
  shows "z div (10 * s) + (if z div s mod 10 \<ge> 5 then 1 else 0) = (z + 5 * s) div (10 * s)"
proof -
  define q where "q = z div s"
  have "z div (10 * s) = q div 10" using assms(2) zdiv_zmult2_eq[of 10 z s] by (simp only: q_def mult.commute[of 10 s])
  moreover have "(z + 5 * s) div s = q + 5" using assms(2) by (simp add: q_def)
  then have "(z + 5 * s) div (10 * s) = (q + 5) div 10"
    using zdiv_zmult2_eq[of 10 "z + 5 * s" s] by (simp add: mult.commute[of s 10])
  moreover have "q div 10 + (if q mod 10 \<ge> 5 then 1 else 0) = (q + 5) div 10"
  proof (cases "q mod 10 \<ge> 5")
    case True
    then show ?thesis using int_div_pos_eq[of "q + 5" 10 "q div 10 + 1" "q mod 10 - 5"] by simp
  next
    case False
    then show ?thesis using int_div_pos_eq[of "q + 5" 10 "q div 10" "q mod 10 + 5"] by simp
  qed
  ultimately show ?thesis unfolding q_def[symmetric] by (simp only:)
qed

lemma round_half_sgn: "round_half z k = (if z < 0 then - \<bar>round_half z k\<bar> else \<bar>round_half z k\<bar>)"
proof -
  have "0 \<le> (\<bar>z\<bar> + 5 * 10 ^ (k - 1)) div (10 :: int) ^ k" by (simp add: pos_imp_zdiv_nonneg_iff)
  then show ?thesis unfolding round_half_def by (cases "z = 0") (auto simp: abs_mult sgn_if)
qed

lemma div_le_self: "0 \<le> a \<Longrightarrow> a div 10 ^ j \<le> (a :: int)"
proof -
  assume a: "0 \<le> a"
  then have "nat a div 10 ^ j \<le> nat a" by simp
  then have "int (nat a div 10 ^ j) \<le> int (nat a)" by (simp only: zle_int)
  then show ?thesis using a by (simp add: zdiv_int)
qed

lemma sdiv_nonneg: "0 \<le> a \<Longrightarrow> 0 < b \<Longrightarrow> a sdiv b = a div b" and smod_nonneg: "0 \<le> a \<Longrightarrow> 0 < b \<Longrightarrow> a smod b = a mod (b :: int)"
  by (auto simp: signed_divide_int_def signed_modulo_int_def sgn_if)

lemma dec_round_rep:
  assumes "drep d z p" "\<bar>z\<bar> < 2 ^ 62" "p \<le> 18" "k < p"
  shows "\<exists>r. dec_round d (int k) = Inr r \<and> dec_is r (dval (round_half z (p - k)) k)"
proof -
  obtain j where j: "p - k = Suc j" using assms(4) by (metis Suc_diff_Suc)
  have i: "irep (num d) z" and pl: "decimal_places d = int p" using assms(1) by (simp_all add: drep_def)
  define v where "v = (if bi_isNegative (num d) then bi_abs (num d) else bi_copy (num d))"
  have v: "irep v \<bar>z\<bar>" using irep_abs[OF i] i irep_negative[OF i] by (cases "z < 0") (simp_all add: v_def)
  have zr: "\<bar>\<bar>z\<bar>\<bar> < int radix" using assms(2) by (simp add: radix_def)
  have "(10 :: int) ^ Suc j \<le> 10 ^ 18" using j assms(3) by (intro power_increasing) auto
  then have pr: "\<bar>10 ^ Suc j :: int\<bar> < int radix" "\<bar>10 ^ j :: int\<bar> < int radix" "\<bar>10 :: int\<bar> < int radix"
    by (simp_all add: radix_def)
  obtain sc where sc: "scale10 (int (Suc j)) = Inr sc" "irep sc (10 ^ Suc j)" using scale10_rep by blast
  have nz: "(10 :: int) ^ Suc j \<noteq> 0" "(10 :: int) ^ j \<noteq> 0" "(10 :: int) \<noteq> 0" by simp_all
  have sd: "10 ^ Suc j sdiv 10 = (10 :: int) ^ j" "\<bar>z\<bar> sdiv 10 ^ Suc j = \<bar>z\<bar> div 10 ^ Suc j"
    "\<bar>z\<bar> sdiv 10 ^ j = \<bar>z\<bar> div 10 ^ j" "(\<bar>z\<bar> div 10 ^ j) smod 10 = \<bar>z\<bar> div 10 ^ j mod 10"
    by (simp_all add: sdiv_nonneg smod_nonneg pos_imp_zdiv_nonneg_iff)
  obtain s10 where s10: "bi_div sc (bi_int 10) = Inr s10" "irep s10 (10 ^ j)"
    using bi_div_rep[OF sc(2) irep_10 pr(1,3) nz(3)] unfolding sd by blast
  obtain tm where tm: "bi_div v s10 = Inr tm" "irep tm (\<bar>z\<bar> div 10 ^ j)"
    using bi_div_rep[OF v s10(2) zr pr(2) nz(2)] unfolding sd by blast
  have "\<bar>z\<bar> div 10 ^ j \<le> \<bar>z\<bar>" by (rule div_le_self) simp
  moreover have "0 \<le> \<bar>z\<bar> div 10 ^ j" by (simp add: pos_imp_zdiv_nonneg_iff)
  ultimately have tr: "\<bar>\<bar>z\<bar> div 10 ^ j\<bar> < int radix" using zr by linarith
  obtain rd where rd: "bi_mod tm (bi_int 10) = Inr rd" "irep rd (\<bar>z\<bar> div 10 ^ j mod 10)"
    using bi_mod_rep[OF tm(2) irep_10 tr pr(3) nz(3)] unfolding sd by blast
  obtain ro where ro: "bi_div v sc = Inr ro" "irep ro (\<bar>z\<bar> div 10 ^ Suc j)"
    using bi_div_rep[OF v sc(2) zr pr(1) nz(1)] unfolding sd by blast
  have ge: "bi_ge rd (bi_int 5) \<longleftrightarrow> \<bar>z\<bar> div 10 ^ j mod 10 \<ge> 5"
    using irep_less[OF rd(2), of "bi_int 5" 5] irep_int[of 5] by (auto simp: bi_ge_def)
  have "\<exists>up. (if bi_ge rd (bi_int 5) then bi_plus ro (bi_int 1) else Inr ro) = Inr up
      \<and> irep up (\<bar>z\<bar> div 10 ^ Suc j + (if \<bar>z\<bar> div 10 ^ j mod 10 \<ge> 5 then 1 else 0))"
    using bi_plus_rep[OF ro(2) irep_1] ro(2) ge pos_imp_zdiv_nonneg_iff[of "10 ^ Suc j" "\<bar>z\<bar>"] by auto
  moreover have rh: "\<bar>z\<bar> div 10 ^ Suc j + (if \<bar>z\<bar> div 10 ^ j mod 10 \<ge> 5 then 1 else 0) = \<bar>round_half z (p - k)\<bar>"
  proof -
    have "0 \<le> (\<bar>z\<bar> + 5 * 10 ^ j) div (10 * 10 ^ j)" by (simp add: pos_imp_zdiv_nonneg_iff)
    then have "\<bar>round_half z (p - k)\<bar> = (\<bar>z\<bar> + 5 * 10 ^ j) div (10 * 10 ^ j)"
      by (cases "z = 0") (simp_all add: round_half_def j abs_mult)
    then show ?thesis using round_digit[of "\<bar>z\<bar>" "10 ^ j"] by simp
  qed
  ultimately obtain up where up: "(if bi_ge rd (bi_int 5) then bi_plus ro (bi_int 1) else Inr ro) = Inr up"
    "irep up \<bar>round_half z (p - k)\<bar>" by auto
  let ?n = "if bi_isNegative (num d) then bi_negate up else up"
  have n: "irep ?n (round_half z (p - k))"
    using up(2) irep_negate[OF up(2)] irep_negative[OF i] round_half_sgn[of z "p - k"]
    by (cases "z < 0") (simp_all add: abs_if split: if_splits)
  have "\<bar>z\<bar> div 10 ^ Suc j \<le> \<bar>z\<bar>" by (rule div_le_self) simp
  moreover have "(if \<bar>z\<bar> div 10 ^ j mod 10 \<ge> 5 then 1 else 0) \<le> (1 :: int)" by simp
  ultimately have "\<bar>round_half z (p - k)\<bar> \<le> \<bar>z\<bar> + 1" using rh by linarith
  then have lim: "\<bar>round_half z (p - k)\<bar> < 2 ^ 63" using assms(2) by simp
  have d: "drep \<lparr>num = bi_copy ?n, decimal_places = int k\<rparr> (round_half z (p - k)) k" using n by (simp add: drep_def)
  obtain r where r: "dec_int ?n (int k) = Inr r" "dec_is r (dval (round_half z (p - k)) k)"
    using bd_normalize_rep[OF d lim] assms(3,4) by (auto simp: dec_int_def)
  have e: "int p - int k = int (Suc j)" using j assms(4) by linarith
  have "dec_round d (int k) = dec_int ?n (int k)"
    unfolding dec_round_def pl e v_def[symmetric] Let_def using sc s10 tm rd ro up(1) assms(4) by simp
  then show ?thesis using r by simp
qed

text \<open>Division keeps \<open>max p q + 10 - q\<close> places of \<open>x / y\<close>, the quotient of the digits: the places of the
  operands are not taken into account.\<close>

lemma dec_div_rep:
  assumes "drep d x p" "drep n y q" "y \<noteq> 0" "m = max p q + 10" "m \<le> 19 + q"
    and "\<bar>x\<bar> * 10 ^ m < 2 ^ 63" "\<bar>y\<bar> * 10 ^ q < 2 ^ 63" "m \<le> 200"
  shows "\<exists>r. dec_div d n = Inr r \<and> dec_is r (dval ((x * 10 ^ m) sdiv (y * 10 ^ q)) (m - q))"
proof -
  have i: "irep (num d) x" "irep (num n) y" and pl: "decimal_places d = int p" "decimal_places n = int q"
    using assms(1,2) by (simp_all add: drep_def)
  have q200: "q \<le> 200" using assms(4,8) by linarith
  obtain s u where s: "scale10 (int m) = Inr s" "bi_times (num d) s = Inr u" "irep u (x * 10 ^ m)"
    using times_pow10[OF i(1) assms(8)] by (elim exE conjE)
  obtain t w where t: "scale10 (int q) = Inr t" "bi_times (num n) t = Inr w" "irep w (y * 10 ^ q)"
    using times_pow10[OF i(2) q200] by (elim exE conjE)
  have lim: "\<bar>x * 10 ^ m\<bar> < int radix" "\<bar>y * 10 ^ q\<bar> < int radix" "y * 10 ^ q \<noteq> 0"
    using assms(3,6,7) by (simp_all add: abs_mult radix_def)
  obtain v where v: "bi_div u w = Inr v" "irep v ((x * 10 ^ m) sdiv (y * 10 ^ q))"
    using bi_div_rep[OF s(3) t(3) lim] by blast
  have "\<bar>(x * 10 ^ m) sdiv (y * 10 ^ q)\<bar> \<le> \<bar>x * 10 ^ m\<bar>" using sdiv_int_range[of "x * 10 ^ m" "y * 10 ^ q"] by auto
  then have vl: "\<bar>(x * 10 ^ m) sdiv (y * 10 ^ q)\<bar> < 2 ^ 63" using assms(6) by (simp add: abs_mult)
  have "q \<le> m" using assms(4) by simp
  then have e: "int m - int q = int (m - q)" "m - q \<le> 19" using assms(5) by (simp_all add: of_nat_diff)
  have e1: "(if int p > int q then int p else int q) + 10 = int m" using assms(4) by (simp add: max_def)
  let ?d = "\<lparr>num = v, decimal_places = int (m - q)\<rparr>"
  have "drep ?d ((x * 10 ^ m) sdiv (y * 10 ^ q)) (m - q)" using v(2) by (simp add: drep_def)
  from bd_normalize_rep[OF this vl e(2)] obtain r where
    r: "bd_normalize ?d = Inr r" "dec_is r (dval ((x * 10 ^ m) sdiv (y * 10 ^ q)) (m - q))" by blast
  have nz: "\<not> bi_isZero (num n)" using irep_isZero[OF i(2)] assms(3) by simp
  have cp: "bi_copy (num d) = num d" "bi_copy (num n) = num n" using i by simp_all
  have "dec_divide d n = rbind (Inr v) (\<lambda>v. bd_normalize \<lparr>num = v, decimal_places = int m - int q\<rparr>)"
    by (simp only: dec_divide_def pl e1 Let_def nz cp s(1,2) t(1,2) v(1) if_False rbind.simps)
  then have "dec_divide d n = Inr r" by (simp only: e(1) r(1) rbind.simps)
  then show ?thesis using r(2) assms(1) dec_copy_is[OF r(2)] by (simp add: dec_div_def dec_on_copy_def)
qed

lemma dec_zero_divisor: "drep n 0 q \<Longrightarrow> dec_div d n = Inl (FlowException 1 DIV)"
  using irep_isZero[of "num n" 0] by (simp add: dec_div_def dec_on_copy_def dec_divide_def drep_def)

section \<open>Properties\<close>

text \<open>C19: where the digits of both operands, scaled to the larger number of places, which is at most 19, are below \<open>2 ^ 62\<close> (\<open>fits\<close>):
  addition and subtraction align the operands, are exact on the rational values and leave the result in normal form (no zeros at the end),
  comparisons are those of the values; products are exact and add the places, but for a right operand with the digits -1.\<close>

theorem decimal_arithmetic:
  assumes "drep d x p" "drep n y q" "fits x p (max p q)" "fits y q (max p q)"
  shows "(\<exists>r. dec_plus d n = Inr r \<and> dec_is r (dval x p + dval y q)) \<and> (\<exists>r. dec_minus d n = Inr r \<and> dec_is r (dval x p - dval y q))
   \<and> (y \<noteq> -1 \<longrightarrow> (\<exists>r. dec_times d n = Inr r \<and> drep r (x * y) (p + q)))
   \<and> dec_eq d n = Inr (dval x p = dval y q) \<and> dec_less d n = Inr (dval x p < dval y q)"
proof -
  have lim: "p \<le> 200" "q \<le> 200" "max p q - p \<le> 200" using assms(3,4) by (auto simp: fits_def)
  have "\<bar>x\<bar> * 1 \<le> \<bar>x\<bar> * 10 ^ (max p q - p)" by (intro mult_left_mono) auto
  then have x62: "\<bar>x\<bar> < 2 ^ 62" using assms(3) by (simp add: fits_def)
  have "(2 :: nat) ^ 62 < radix ^ 49" by (simp add: radix_def)
  moreover have "nat \<bar>x\<bar> < 2 ^ 62" using x62 by (simp add: nat_less_iff)
  ultimately have "nat \<bar>x\<bar> < radix ^ 49" by (rule less_trans[rotated])
  then show ?thesis using dec_plus_rep[OF assms] dec_minus_rep[OF assms] dec_times_rep[OF assms(1,2)]
      dec_compare_rep[OF assms(1,2) lim(1,2)] by blast
qed

lemma drep_make: "\<bar>z\<bar> < 2 ^ 63 \<Longrightarrow> drep \<lparr>num = bi_int z, decimal_places = int p\<rparr> z p"
  by (simp add: drep_def irep_int)

lemma decimal_arithmetic_witness:
  "\<exists>r. dec_plus \<lparr>num = bi_int 1250, decimal_places = int 3\<rparr> \<lparr>num = bi_int (-5), decimal_places = int 1\<rparr> = Inr r
     \<and> dec_is r (3 / 4)"
proof -
  have "dval 1250 3 + dval (-5) 1 = 3 / 4" by (simp add: dval_def)
  moreover have "\<exists>r. dec_plus \<lparr>num = bi_int 1250, decimal_places = int 3\<rparr> \<lparr>num = bi_int (-5), decimal_places = int 1\<rparr> = Inr r
     \<and> dec_is r (dval 1250 3 + dval (-5) 1)"
    using decimal_arithmetic[OF drep_make[of 1250 3] drep_make[of "-5" 1]] by (simp add: fits_def del: One_nat_def)
  ultimately show ?thesis by (simp only:)
qed

text \<open>\<open>round\<close> rounds half away from zero, on negative values too.\<close>

theorem decimal_round_half:
  assumes "drep d z p" "\<bar>z\<bar> < 2 ^ 62" "p \<le> 18" "k < p"
  shows "\<exists>r. dec_round d (int k) = Inr r \<and> dec_is r (dval (round_half z (p - k)) k)"
  by (rule dec_round_rep[OF assms])

lemma decimal_round_half_witness:
  "\<exists>r. dec_round \<lparr>num = bi_int (-1005), decimal_places = int 3\<rparr> (int 2) = Inr r \<and> dec_is r (dval (-101) 2)"
  using decimal_round_half[OF drep_make[of "-1005" 3], of 2] by (simp add: round_half_def)

text \<open>The quotient is that of the digits, cut at \<open>max p q + 10 - q\<close> places; it is the quotient of the
  values only when both operands have the same number of places. A zero divisor throws.\<close>

theorem decimal_division:
  assumes "drep d x p" "drep n y q" "m = max p q + 10" "m \<le> 19 + q" "m \<le> 200"
    and "\<bar>x\<bar> * 10 ^ m < 2 ^ 63" "\<bar>y\<bar> * 10 ^ q < 2 ^ 63"
  shows "if y = 0 then dec_div d n = Inl (FlowException 1 DIV)
    else \<exists>r. dec_div d n = Inr r \<and> dec_is r (dval ((x * 10 ^ m) sdiv (y * 10 ^ q)) (m - q))"
  using dec_div_rep[OF assms(1,2) _ assms(3,4,6,7,5)] dec_zero_divisor assms(2) by auto

lemma decimal_division_witness:
  "\<exists>r. dec_div \<lparr>num = bi_int 1, decimal_places = int 0\<rparr> \<lparr>num = bi_int 3, decimal_places = int 0\<rparr> = Inr r
     \<and> dec_is r (dval 3333333333 10)"
  using decimal_division[OF drep_make[of 1 0] drep_make[of 3 0], of 10] by (simp add: signed_divide_int_def)

text \<open>1.5 divided by 3 is 5 and 1 divided by 0.5 is 0.2.\<close>

theorem decimal_division_faults:
  "rbind (dec_parse ''1.5'') (\<lambda>a. rbind (dec_parse ''3'') (\<lambda>b. rbind (dec_div a b) (\<lambda>r. dec_format r (-1)))) = Inr ''5''
   \<and> rbind (dec_parse ''1'') (\<lambda>a. rbind (dec_parse ''0.5'') (\<lambda>b. rbind (dec_div a b) (\<lambda>r. dec_format r (-1)))) = Inr ''0.2''"
proof
  show "rbind (dec_parse ''1.5'') (\<lambda>a. rbind (dec_parse ''3'') (\<lambda>b. rbind (dec_div a b) (\<lambda>r. dec_format r (-1)))) = Inr ''5''"
    by code_simp
  show "rbind (dec_parse ''1'') (\<lambda>a. rbind (dec_parse ''0.5'') (\<lambda>b. rbind (dec_div a b) (\<lambda>r. dec_format r (-1)))) = Inr ''0.2''"
    by code_simp
qed

end
