(* ===== verification/Numbers.thy ===== *)
theory Numbers
  imports Decimals
begin

text \<open>
  \<open>cpp/lib/bign/BigNumber.h\<close>: the user-facing number, a variant of the three kinds, whose operators
  promote to the larger kind. \<open>std::get\<close> of another kind than the one held throws.
\<close>

section \<open>Kinds and conversions\<close>

datatype number = Card core | Integer bigint | Decimal bigdec

definition num_card :: "core \<Rightarrow> number" where
  "num_card c = Card (core_copy c)"

definition num_integer :: "bigint \<Rightarrow> number" where
  "num_integer i = Integer (bi_copy i)"

definition num_decimal :: "bigdec \<Rightarrow> number" where
  "num_decimal d = Decimal (dec_copy d)"

definition num_new :: number where
  "num_new = Card (cd_digit 0)"

definition num_digit :: "digit \<Rightarrow> number" where
  "num_digit n = Card (cd_digit n)"

text \<open>\<open>BigNumber(i64)\<close>, for \<open>n\<close> above the smallest \<open>i64\<close>, and \<open>BigNumber(int)\<close>, which casts.\<close>

definition num_i64 :: "int \<Rightarrow> number" where
  "num_i64 n = (if n < 0 then Integer ((bi_digit (word_of_int (- n)))\<lparr>signal := -1\<rparr>)
     else Card (cd_digit (word_of_int n)))"

definition num_int :: "int \<Rightarrow> number" where
  "num_int n = num_digit (word_of_int n)"

definition num_parse :: "string \<Rightarrow> int \<Rightarrow> string \<Rightarrow> error + number" where
  "num_parse s base cs = (if find_char (CHR ''.'') s \<noteq> None then rbind (dec_parse s) (\<lambda>d. Inr (Decimal d))
     else if s = [] \<or> hd s = CHR ''-'' then rbind (bi_parse s base cs) (\<lambda>i. Inr (Integer i))
     else rbind (cd_parse s base cs) (\<lambda>c. Inr (Card c)))"

definition isCardinal :: "number \<Rightarrow> bool" where
  "isCardinal n = (case n of Card _ \<Rightarrow> True | _ \<Rightarrow> False)"

definition isInteger :: "number \<Rightarrow> bool" where
  "isInteger n = (case n of Integer _ \<Rightarrow> True | _ \<Rightarrow> False)"

definition isDecimal :: "number \<Rightarrow> bool" where
  "isDecimal n = (case n of Decimal _ \<Rightarrow> True | _ \<Rightarrow> False)"

definition asCardinal :: "number \<Rightarrow> error + core" where
  "asCardinal n = (case n of Card c \<Rightarrow> Inr (core_copy c)
     | Integer i \<Rightarrow> if bi_isNegative i then Inl RuntimeError else Inr (core_copy (magnitude i))
     | Decimal d \<Rightarrow> Inl BadVariantAccess)"

definition asInteger :: "number \<Rightarrow> bigint" where
  "asInteger n = (case n of Integer i \<Rightarrow> bi_copy i | Decimal d \<Rightarrow> bi_copy (num d) | Card c \<Rightarrow> bi_card c)"

definition asDecimal :: "number \<Rightarrow> error + bigdec" where
  "asDecimal n = (case n of Decimal d \<Rightarrow> Inr (dec_copy d) | Integer i \<Rightarrow> dec_int i 0 | Card c \<Rightarrow> dec_int (bi_card c) 0)"

section \<open>Arithmetic\<close>

text \<open>Both operands as decimals, as integers or as cardinals.\<close>

definition on_decimals :: "(bigdec \<Rightarrow> bigdec \<Rightarrow> error + 'a) \<Rightarrow> number \<Rightarrow> number \<Rightarrow> error + 'a" where
  "on_decimals f a b = rbind (asDecimal a) (\<lambda>x. rbind (asDecimal b) (\<lambda>y. f x y))"

definition on_integers :: "(bigint \<Rightarrow> bigint \<Rightarrow> error + 'a) \<Rightarrow> number \<Rightarrow> number \<Rightarrow> error + 'a" where
  "on_integers f a b = f (asInteger a) (asInteger b)"

definition on_cardinals :: "(core \<Rightarrow> core \<Rightarrow> error + 'a) \<Rightarrow> number \<Rightarrow> number \<Rightarrow> error + 'a" where
  "on_cardinals f a b = rbind (asCardinal a) (\<lambda>x. rbind (asCardinal b) (\<lambda>y. f x y))"

definition to_card :: "error + core \<Rightarrow> error + number" where
  "to_card m = rbind m (\<lambda>c. Inr (num_card c))"

definition to_integer :: "error + bigint \<Rightarrow> error + number" where
  "to_integer m = rbind m (\<lambda>i. Inr (num_integer i))"

definition to_decimal :: "error + bigdec \<Rightarrow> error + number" where
  "to_decimal m = rbind m (\<lambda>d. Inr (num_decimal d))"

definition num_plus :: "number \<Rightarrow> number \<Rightarrow> error + number" where
  "num_plus a b = (if isDecimal a \<or> isDecimal b then to_decimal (on_decimals dec_plus a b)
     else if isInteger a \<or> isInteger b then to_integer (on_integers bi_plus a b)
     else to_card (on_cardinals cd_plus a b))"

definition num_minus :: "number \<Rightarrow> number \<Rightarrow> error + number" where
  "num_minus a b = (if isDecimal a \<or> isDecimal b then to_decimal (on_decimals dec_minus a b)
     else if isInteger a \<or> isInteger b then to_integer (on_integers bi_minus a b)
     else on_cardinals (\<lambda>x y. if cd_less x y then to_integer (bi_minus (bi_card x) (bi_card y))
       else to_card (cd_minus x y)) a b)"

definition num_times :: "number \<Rightarrow> number \<Rightarrow> error + number" where
  "num_times a b = (if isDecimal a \<or> isDecimal b then to_decimal (on_decimals dec_times a b)
     else if isInteger a \<or> isInteger b then to_integer (on_integers bi_times a b)
     else to_card (on_cardinals cd_times a b))"

definition num_div :: "number \<Rightarrow> number \<Rightarrow> error + number" where
  "num_div a b = (if isDecimal a \<or> isDecimal b then to_decimal (on_decimals dec_div a b)
     else if isInteger a \<or> isInteger b then to_integer (on_integers bi_div a b)
     else to_card (on_cardinals cd_div a b))"

definition num_mod :: "number \<Rightarrow> number \<Rightarrow> error + number" where
  "num_mod a b = (if isDecimal a \<or> isDecimal b then to_integer (on_integers bi_mod a b)
     else if isInteger a \<or> isInteger b then to_integer (on_integers bi_mod a b)
     else to_card (on_cardinals cd_mod a b))"

definition num_add_assign :: "number \<Rightarrow> number \<Rightarrow> error + number" where
  "num_add_assign a b = num_plus a b"

definition num_sub_assign :: "number \<Rightarrow> number \<Rightarrow> error + number" where
  "num_sub_assign a b = num_minus a b"

definition num_mul_assign :: "number \<Rightarrow> number \<Rightarrow> error + number" where
  "num_mul_assign a b = num_times a b"

definition num_div_assign :: "number \<Rightarrow> number \<Rightarrow> error + number" where
  "num_div_assign a b = num_div a b"

definition num_mod_assign :: "number \<Rightarrow> number \<Rightarrow> error + number" where
  "num_mod_assign a b = num_mod a b"

definition num_inc :: "number \<Rightarrow> error + number" where
  "num_inc n = (case n of
     Decimal d \<Rightarrow> rbind (dec_add (dec_copy d) (dec_digit 1 0)) (\<lambda>d. Inr (num_decimal d))
   | Integer i \<Rightarrow> rbind (bi_inc i) (\<lambda>i. Inr (Integer i))
   | Card c \<Rightarrow> rbind (cd_inc c) (\<lambda>c. Inr (Card c)))"

definition num_dec :: "number \<Rightarrow> error + number" where
  "num_dec n = (case n of
     Decimal d \<Rightarrow> rbind (dec_sub (dec_copy d) (dec_digit 1 0)) (\<lambda>d. Inr (num_decimal d))
   | Integer i \<Rightarrow> rbind (bi_dec i) (\<lambda>i. Inr (Integer i))
   | Card c \<Rightarrow> rbind (bi_dec (asInteger n)) (\<lambda>i. Inr (num_integer i)))"

section \<open>Shifts and bitwise operators\<close>

text \<open>The shift and bitwise operators of \<open>BigInteger\<close> are those of \<open>BigCardinal\<close>: they return a cardinal.\<close>

definition num_shift :: "(core \<Rightarrow> core \<Rightarrow> (error + core) option) \<Rightarrow> number \<Rightarrow> number \<Rightarrow> (error + number) option" where
  "num_shift f a b = (if isInteger a \<or> isInteger b
     then obind (f (magnitude (asInteger a)) (magnitude (asInteger b))) (\<lambda>c. Some (Inr (num_card c)))
     else obind (Some (asCardinal a)) (\<lambda>x. obind (Some (asCardinal b)) (\<lambda>y.
       obind (f x y) (\<lambda>c. Some (Inr (num_card c))))))"

text \<open>\<open>operator<<\<close> works on a copy of the left operand.\<close>

definition copy_shift :: "(core \<Rightarrow> core \<Rightarrow> (error + core) option) \<Rightarrow> core \<Rightarrow> core \<Rightarrow> (error + core) option" where
  "copy_shift f c n = obind (f (core_copy c) n) (\<lambda>r. Some (Inr (core_copy r)))"

definition num_shl :: "number \<Rightarrow> number \<Rightarrow> (error + number) option" where
  "num_shl a b = num_shift (copy_shift cd_shl) a b"

definition num_shr :: "number \<Rightarrow> number \<Rightarrow> (error + number) option" where
  "num_shr a b = num_shift (copy_shift cd_shr) a b"

definition num_shr_int :: "number \<Rightarrow> int \<Rightarrow> error + number" where
  "num_shr_int n bits = (case n of
     Integer i \<Rightarrow> rbind (core_shiftRight (magnitude i) bits) (\<lambda>c. Inr (Integer (i\<lparr>magnitude := c\<rparr>)))
   | Card c \<Rightarrow> rbind (core_shiftRight c bits) (\<lambda>c. Inr (Card c))
   | Decimal d \<Rightarrow> Inl BadVariantAccess)"

definition num_bitwise :: "(core \<Rightarrow> core \<Rightarrow> error + core) \<Rightarrow> number \<Rightarrow> number \<Rightarrow> error + number" where
  "num_bitwise f a b = (if isInteger a \<or> isInteger b
     then to_card (on_integers (\<lambda>x y. f (magnitude x) (magnitude y)) a b)
     else to_card (on_cardinals f a b))"

definition num_and :: "number \<Rightarrow> number \<Rightarrow> error + number" where
  "num_and a b = num_bitwise cd_and a b"

definition num_or :: "number \<Rightarrow> number \<Rightarrow> error + number" where
  "num_or a b = num_bitwise cd_or a b"

definition num_xor :: "number \<Rightarrow> number \<Rightarrow> error + number" where
  "num_xor a b = num_bitwise cd_xor a b"

definition num_not :: "number \<Rightarrow> error + number" where
  "num_not n = (if isInteger n then to_card (cd_not (magnitude (asInteger n)))
     else rbind (asCardinal n) (\<lambda>c. to_card (cd_not c)))"

section \<open>Queries and comparison\<close>

definition num_isZero :: "number \<Rightarrow> error + bool" where
  "num_isZero n = (case n of Decimal d \<Rightarrow> rbind (asDecimal n) (\<lambda>d. Inr (bi_isZero (num d)))
     | Integer i \<Rightarrow> Inr (bi_isZero (asInteger n)) | Card c \<Rightarrow> rbind (asCardinal n) (\<lambda>c. Inr (core_isZero c)))"

definition num_isOne :: "number \<Rightarrow> error + bool" where
  "num_isOne n = (case n of
     Decimal d \<Rightarrow> rbind (asDecimal n) (\<lambda>d. rbind (dec_parse ''1.0'') (\<lambda>one. rbind (dec_eq d one) (\<lambda>e.
       if e then Inr True else rbind (dec_parse ''1'') (\<lambda>one. dec_eq d one))))
   | Integer i \<Rightarrow> Inr (bi_isOne (asInteger n)) | Card c \<Rightarrow> rbind (asCardinal n) (\<lambda>c. Inr (core_isOne c)))"

definition num_eq :: "number \<Rightarrow> number \<Rightarrow> error + bool" where
  "num_eq a b = rbind (num_isZero a) (\<lambda>za. rbind (if za then num_isZero b else Inr False) (\<lambda>zb.
     if zb then Inr True
     else if isDecimal a \<or> isDecimal b then on_decimals dec_eq a b
     else if isInteger a \<and> isInteger b then on_integers (\<lambda>x y. Inr (bi_eq x y)) a b
     else if isCardinal a \<and> isCardinal b then on_cardinals (\<lambda>x y. Inr (cd_eq x y)) a b
     else on_integers (\<lambda>x y. Inr (bi_eq x y)) a b))"

definition num_less :: "number \<Rightarrow> number \<Rightarrow> error + bool" where
  "num_less a b = (if isDecimal a \<or> isDecimal b then on_decimals dec_less a b
     else if isInteger a \<or> isInteger b then on_integers (\<lambda>x y. Inr (bi_less x y)) a b
     else on_cardinals (\<lambda>x y. Inr (cd_less x y)) a b)"

definition num_gt :: "number \<Rightarrow> number \<Rightarrow> error + bool" where
  "num_gt a b = num_less b a"

definition num_le :: "number \<Rightarrow> number \<Rightarrow> error + bool" where
  "num_le a b = rbind (num_less b a) (\<lambda>l. Inr (\<not> l))"

definition num_ge :: "number \<Rightarrow> number \<Rightarrow> error + bool" where
  "num_ge a b = rbind (num_less a b) (\<lambda>l. Inr (\<not> l))"

definition num_ne :: "number \<Rightarrow> number \<Rightarrow> error + bool" where
  "num_ne a b = rbind (num_eq a b) (\<lambda>e. Inr (\<not> e))"

definition num_format :: "number \<Rightarrow> int \<Rightarrow> string \<Rightarrow> error + string" where
  "num_format n base cs = (case n of Decimal d \<Rightarrow> rbind (asDecimal n) (\<lambda>d. dec_format d (-1))
     | Integer i \<Rightarrow> bi_format (asInteger n) base cs | Card c \<Rightarrow> rbind (asCardinal n) (\<lambda>c. cd_format c base cs))"

definition num_size :: "number \<Rightarrow> error + nat" where
  "num_size n = (case n of Decimal d \<Rightarrow> rbind (asDecimal n) (\<lambda>d. Inr (core_size (magnitude (num d))))
     | Integer i \<Rightarrow> Inr (core_size (magnitude (asInteger n))) | Card c \<Rightarrow> rbind (asCardinal n) (\<lambda>c. Inr (core_size c)))"

definition num_bits :: "number \<Rightarrow> error + int" where
  "num_bits n = (case n of Decimal d \<Rightarrow> rbind (asDecimal n) (\<lambda>d. Inr (cd_bits (magnitude (num d))))
     | Integer i \<Rightarrow> Inr (cd_bits (magnitude (asInteger n))) | Card c \<Rightarrow> rbind (asCardinal n) (\<lambda>c. Inr (cd_bits c)))"

definition num_negate :: "number \<Rightarrow> error + number" where
  "num_negate n = (case n of
     Decimal d \<Rightarrow> rbind (asDecimal n) (\<lambda>d. rbind (dec_int (bi_negate (num d)) (decimal_places d)) (\<lambda>r. Inr (num_decimal r)))
   | Integer i \<Rightarrow> Inr (num_integer (bi_negate (asInteger n)))
   | Card c \<Rightarrow> Inr (num_integer (bi_negate (asInteger n))))"

definition num_abs :: "number \<Rightarrow> error + number" where
  "num_abs n = (case n of
     Decimal d \<Rightarrow> rbind (asDecimal n) (\<lambda>d.
       if bi_isNegative (num d)
       then rbind (dec_int (bi_abs (num d)) 0) (\<lambda>negated.
            rbind (dec_int (num negated) (decimal_places d)) (\<lambda>r. Inr (num_decimal r)))
       else Inr n)
   | Integer i \<Rightarrow> Inr (num_integer (bi_abs (asInteger n)))
   | Card c \<Rightarrow> Inr n)"

definition num_sign :: "number \<Rightarrow> error + int" where
  "num_sign n = (case n of Decimal d \<Rightarrow> rbind (asDecimal n) (\<lambda>d. Inr (bi_sign (num d)))
     | Integer i \<Rightarrow> Inr (bi_sign (asInteger n)) | Card c \<Rightarrow> rbind (num_isZero n) (\<lambda>z. Inr (if z then 0 else 1)))"

definition num_isPositive :: "number \<Rightarrow> error + bool" where
  "num_isPositive n = (case n of Decimal d \<Rightarrow> rbind (asDecimal n) (\<lambda>d. Inr (\<not> bi_isZero (num d) \<and> bi_isPositive (num d)))
     | Integer i \<Rightarrow> Inr (bi_isPositive (asInteger n)) | Card c \<Rightarrow> rbind (num_isZero n) (\<lambda>z. Inr (\<not> z)))"

definition num_isNegative :: "number \<Rightarrow> error + bool" where
  "num_isNegative n = (case n of Decimal d \<Rightarrow> rbind (asDecimal n) (\<lambda>d. Inr (bi_isNegative (num d)))
     | Integer i \<Rightarrow> Inr (bi_isNegative (asInteger n)) | Card c \<Rightarrow> Inr False)"

section \<open>Utilities\<close>

text \<open>The overloads for \<open>BigNumber\<close> choose the functions on \<open>BigInteger\<close> or on \<open>BigCardinal\<close>.\<close>

definition via_integer :: "(error + bigint) option \<Rightarrow> (error + number) option" where
  "via_integer m = obind m (\<lambda>i. Some (Inr (num_integer i)))"

definition via_card :: "(error + core) option \<Rightarrow> (error + number) option" where
  "via_card m = obind m (\<lambda>c. Some (Inr (num_card c)))"

definition num_pow :: "number \<Rightarrow> number \<Rightarrow> (error + number) option" where
  "num_pow base e = (if isInteger base \<or> isInteger e then via_integer (bi_pow (asInteger base) (asInteger e))
     else obind (Some (asCardinal base)) (\<lambda>b. obind (Some (asCardinal e)) (\<lambda>e. via_card (cd_pow b e))))"

definition num_gcd :: "number \<Rightarrow> number \<Rightarrow> (error + number) option" where
  "num_gcd a b = (if isInteger a \<or> isInteger b then via_integer (bi_gcd (asInteger a) (asInteger b))
     else obind (Some (asCardinal a)) (\<lambda>a. obind (Some (asCardinal b)) (\<lambda>b. via_card (cd_gcd a b))))"

definition num_lcm :: "number \<Rightarrow> number \<Rightarrow> (error + number) option" where
  "num_lcm a b = (if isInteger a \<or> isInteger b then via_integer (bi_lcm (asInteger a) (asInteger b))
     else obind (Some (asCardinal a)) (\<lambda>a. obind (Some (asCardinal b)) (\<lambda>b. via_card (cd_lcm a b))))"

definition num_sqrt :: "number \<Rightarrow> (error + number) option" where
  "num_sqrt n = (if isInteger n then via_integer (bi_sqrt (asInteger n))
     else obind (Some (asCardinal n)) (\<lambda>c. via_card (cd_sqrt c)))"

definition num_mod_pow :: "number \<Rightarrow> number \<Rightarrow> number \<Rightarrow> (error + number) option" where
  "num_mod_pow base e md = (if isInteger base \<or> isInteger e \<or> isInteger md
     then via_integer (bi_mod_pow (asInteger base) (asInteger e) (asInteger md))
     else obind (Some (asCardinal base)) (\<lambda>b. obind (Some (asCardinal e)) (\<lambda>e. obind (Some (asCardinal md)) (\<lambda>m.
       via_card (cd_mod_pow b e m)))))"

section \<open>Cardinals as numbers\<close>

definition crep :: "number \<Rightarrow> nat \<Rightarrow> bool" where
  "crep n v \<longleftrightarrow> (\<exists>c. n = Card c \<and> rep c v)"

definition nrep :: "number \<Rightarrow> int \<Rightarrow> bool" where
  "nrep n z \<longleftrightarrow> (case n of Card c \<Rightarrow> 0 \<le> z \<and> rep c (nat z) | Integer i \<Rightarrow> irep i z | Decimal d \<Rightarrow> False)"

lemma crepE: "crep n v \<Longrightarrow> (\<And>c. n = Card c \<Longrightarrow> rep c v \<Longrightarrow> P) \<Longrightarrow> P"
  by (auto simp: crep_def)

lemma crep_nrep: "crep n v \<Longrightarrow> nrep n (int v)"
  by (auto simp: crep_def nrep_def)

lemma nrep_kinds [simp]: "nrep n z \<Longrightarrow> \<not> isDecimal n"
  by (cases n) (auto simp: nrep_def isDecimal_def)

lemma kind_simps [simp]: "isInteger (Card c) = False" "isDecimal (Card c) = False" "isCardinal (Card c) = True"
  "isInteger (Integer i) = True" "isDecimal (Integer i) = False" "isCardinal (Integer i) = False"
  "isDecimal (Decimal d) = True" "isInteger (Decimal d) = False" "isCardinal (Decimal d) = False"
  by (simp_all add: isInteger_def isDecimal_def isCardinal_def)

lemma asInteger_rep: "nrep n z \<Longrightarrow> irep (asInteger n) z"
  using irep_card[of _ "nat z"] by (cases n) (auto simp: nrep_def asInteger_def)

lemma asCardinal_rep [simp]: "rep c v \<Longrightarrow> asCardinal (Card c) = Inr c"
  by (simp add: asCardinal_def)

lemma crep_int: "0 \<le> k \<Longrightarrow> k < 2 ^ 63 \<Longrightarrow> crep (num_int k) (nat k)"
proof -
  assume k: "0 \<le> k" "k < 2 ^ 63"
  have "unat (word_of_int k :: digit) = nat k" using k by (simp add: unat_eq_nat_uint uint_word_of_int)
  then show ?thesis using rep_digit[of "word_of_int k"] by (simp add: crep_def num_int_def num_digit_def)
qed

lemma to_card_rep: "(\<exists>r. m = Inr r \<and> rep r v) \<Longrightarrow> \<exists>r. to_card m = Inr r \<and> crep r v"
  by (auto simp: to_card_def crep_def num_card_def)

lemma to_integer_rep: "(\<exists>r. m = Inr r \<and> irep r z) \<Longrightarrow> \<exists>r. to_integer m = Inr r \<and> nrep r z"
  by (auto simp: to_integer_def nrep_def num_integer_def)

lemma num_plus_c: "crep a v \<Longrightarrow> crep b w \<Longrightarrow> \<exists>r. num_plus a b = Inr r \<and> crep r (v + w)"
  by (elim crepE) (simp add: num_plus_def on_cardinals_def to_card_rep cd_plus_rep)

lemma num_times_c:
  "crep a v \<Longrightarrow> crep b w \<Longrightarrow> v < radix ^ 49 \<or> w < radix ^ 49 \<Longrightarrow> \<exists>r. num_times a b = Inr r \<and> crep r (v * w)"
  by (elim crepE) (simp add: num_times_def on_cardinals_def to_card_rep cd_times_rep)

lemma num_minus_c:
  "crep a v \<Longrightarrow> crep b w \<Longrightarrow> w \<le> v \<Longrightarrow> v < radix \<Longrightarrow> \<exists>r. num_minus a b = Inr r \<and> crep r (v - w)"
  by (elim crepE) (simp add: num_minus_def on_cardinals_def rep_less to_card_rep cd_minus_small)

lemma num_div_c:
  "crep a v \<Longrightarrow> crep b w \<Longrightarrow> v < radix \<Longrightarrow> 0 < w \<Longrightarrow> w < radix \<Longrightarrow> \<exists>r. num_div a b = Inr r \<and> crep r (v div w)"
  by (elim crepE) (simp add: num_div_def on_cardinals_def to_card_rep cd_div_small)

lemma num_mod_c:
  "crep a v \<Longrightarrow> crep b w \<Longrightarrow> v < radix \<Longrightarrow> 0 < w \<Longrightarrow> w < radix \<Longrightarrow> \<exists>r. num_mod a b = Inr r \<and> crep r (v mod w)"
  by (elim crepE) (simp add: num_mod_def on_cardinals_def to_card_rep cd_mod_small)

lemma num_isZero_c: "crep n v \<Longrightarrow> num_isZero n = Inr (v = 0)"
  by (elim crepE) (simp add: num_isZero_def rep_isZero)

lemma num_isOne_c: "crep n v \<Longrightarrow> num_isOne n = Inr (v = 1)"
  by (elim crepE) (simp add: num_isOne_def rep_isOne)

lemma num_eq_c:
  assumes "crep a v" "crep b w"
  shows "num_eq a b = Inr (v = w)"
proof -
  note z = num_isZero_c[OF assms(1)] num_isZero_c[OF assms(2)]
  obtain c d where "a = Card c" "rep c v" "b = Card d" "rep d w" using assms by (auto simp: crep_def)
  then have e: "isDecimal a = False" "isInteger a = False" "isDecimal b = False" "isInteger b = False"
    "isCardinal a" "isCardinal b" "on_cardinals (\<lambda>x y. Inr (cd_eq x y)) a b = Inr (v = w)"
    by (simp_all add: on_cardinals_def rep_eq)
  show ?thesis unfolding num_eq_def z by (cases "v = 0"; cases "w = 0") (simp_all add: e z)
qed

lemma num_less_c: "crep a v \<Longrightarrow> crep b w \<Longrightarrow> num_less a b = Inr (v < w)"
  by (elim crepE) (simp add: num_less_def on_cardinals_def rep_less)

lemma num_le_c: "crep a v \<Longrightarrow> crep b w \<Longrightarrow> num_le a b = Inr (v \<le> w)"
  by (simp add: num_le_def num_less_c[of b w a v] not_less)

lemma num_gt_c: "crep a v \<Longrightarrow> crep b w \<Longrightarrow> num_gt a b = Inr (v > w)"
  by (simp add: num_gt_def num_less_c)

lemma num_ge_c: "crep a v \<Longrightarrow> crep b w \<Longrightarrow> num_ge a b = Inr (v \<ge> w)"
  by (simp add: num_ge_def num_less_c not_less)

lemma num_ne_c: "crep a v \<Longrightarrow> crep b w \<Longrightarrow> num_ne a b = Inr (v \<noteq> w)"
  by (simp add: num_ne_def num_eq_c)

lemma num_shr_c:
  assumes "crep a v" "crep b w" "v < radix" "w < 31"
  shows "\<exists>r. num_shr a b = Some (Inr r) \<and> crep r (v div 2 ^ w)"
proof -
  obtain c d where cd: "a = Card c" "rep c v" "b = Card d" "rep d w" using assms by (auto simp: crep_def)
  obtain r where "cd_shr c d = Some (Inr r)" "rep r (v div 2 ^ w)" using cd_shr_rep[OF cd(2,4) assms(3,4)] by blast
  then show ?thesis using cd by (simp add: num_shr_def num_shift_def copy_shift_def crep_def num_card_def)
qed

section \<open>Promotion\<close>

text \<open>The value of the result, and its kind: the larger one of the operands, or a signed number when
  the difference of two cardinals is negative.\<close>

lemma on_integers_rep:
  "nrep a x \<Longrightarrow> nrep b y \<Longrightarrow> (\<And>i j. irep i x \<Longrightarrow> irep j y \<Longrightarrow> \<exists>r. f i j = Inr r \<and> irep r z) \<Longrightarrow>
   \<exists>r. to_integer (on_integers f a b) = Inr r \<and> nrep r z"
  by (rule to_integer_rep) (simp add: on_integers_def asInteger_rep)

lemma nrep_cases:
  assumes "nrep a x" "nrep b y"
  obtains "isInteger a \<or> isInteger b" | v w where "crep a v" "crep b w" "x = int v" "y = int w"
  using assms by (cases a; cases b) (auto simp: nrep_def crep_def nat_eq_iff2)

lemma num_plus_rep:
  assumes "nrep a x" "nrep b y" "\<bar>x\<bar> < int radix" "\<bar>y\<bar> < int radix"
  shows "\<exists>r. num_plus a b = Inr r \<and> nrep r (x + y)"
  using assms(1,2)
proof (cases rule: nrep_cases)
  case 1
  have "\<exists>r. to_integer (on_integers bi_plus a b) = Inr r \<and> nrep r (x + y)"
    using on_integers_rep[OF assms(1,2), of bi_plus] bi_plus_rep assms(3,4) by blast
  then show ?thesis using 1 assms(1,2) by (simp add: num_plus_def)
next
  case (2 v w)
  then show ?thesis using num_plus_c[of a v b w] crep_nrep by fastforce
qed

lemma num_times_rep:
  assumes "nrep a x" "nrep b y" "\<bar>x\<bar> < int radix" "\<bar>y\<bar> < int radix" "y \<noteq> -1"
  shows "\<exists>r. num_times a b = Inr r \<and> nrep r (x * y)"
proof -
  have "int radix \<le> int (radix ^ 49)" by (simp add: radix_def)
  then have lim: "nat \<bar>x\<bar> < radix ^ 49" using assms(3) by linarith
  from assms(1,2) show ?thesis
  proof (cases rule: nrep_cases)
    case 1
    have "\<exists>r. to_integer (on_integers bi_times a b) = Inr r \<and> nrep r (x * y)"
      using on_integers_rep[OF assms(1,2), of bi_times] bi_times_rep[of _ x _ y] lim assms(5) by auto
    then show ?thesis using 1 assms(1,2) by (simp add: num_times_def)
  next
    case (2 v w)
    then show ?thesis using num_times_c[of a v b w] crep_nrep lim by fastforce
  qed
qed

lemma num_div_mod_rep:
  assumes "nrep a x" "nrep b y" "\<bar>x\<bar> < int radix" "\<bar>y\<bar> < int radix" "y \<noteq> 0"
  shows "\<exists>r. num_div a b = Inr r \<and> nrep r (x sdiv y)" "\<exists>r. num_mod a b = Inr r \<and> nrep r (x smod y)"
proof -
  have "(\<exists>r. num_div a b = Inr r \<and> nrep r (x sdiv y)) \<and> (\<exists>r. num_mod a b = Inr r \<and> nrep r (x smod y))"
    using assms(1,2)
  proof (cases rule: nrep_cases)
    case 1
    have "\<exists>r. to_integer (on_integers bi_div a b) = Inr r \<and> nrep r (x sdiv y)"
      "\<exists>r. to_integer (on_integers bi_mod a b) = Inr r \<and> nrep r (x smod y)"
      using on_integers_rep[OF assms(1,2), of bi_div] on_integers_rep[OF assms(1,2), of bi_mod]
        bi_div_rep[OF _ _ assms(3-5)] bi_mod_rep[OF _ _ assms(3-5)] by blast+
    then show ?thesis using 1 assms(1,2) by (simp add: num_div_def num_mod_def)
  next
    case (2 v w)
    have w: "v < radix" "0 < w" "w < radix" using 2 assms(3-5) by auto
    have e: "x sdiv y = int (v div w)" "x smod y = int (v mod w)"
      using w by (simp_all add: 2 sdiv_nonneg smod_nonneg zdiv_int zmod_int)
    show ?thesis unfolding e using num_div_c[OF 2(1,2) w] num_mod_c[OF 2(1,2) w] crep_nrep by blast
  qed
  then show "\<exists>r. num_div a b = Inr r \<and> nrep r (x sdiv y)" "\<exists>r. num_mod a b = Inr r \<and> nrep r (x smod y)" by blast+
qed

lemma num_minus_rep:
  assumes "nrep a x" "nrep b y" "\<bar>x\<bar> < int radix" "\<bar>y\<bar> < int radix"
  shows "\<exists>r. num_minus a b = Inr r \<and> nrep r (x - y)"
  using assms(1,2)
proof (cases rule: nrep_cases)
  case 1
  have "\<exists>r. to_integer (on_integers bi_minus a b) = Inr r \<and> nrep r (x - y)"
    using on_integers_rep[OF assms(1,2), of bi_minus] bi_minus_rep assms(3,4) by blast
  then show ?thesis using 1 assms(1,2) by (simp add: num_minus_def)
next
  case (2 v w)
  show ?thesis
  proof (cases "w \<le> v")
    case True
    then show ?thesis using num_minus_c[OF 2(1,2) True] 2(3,4) assms(3) crep_nrep[of _ "v - w"] by (auto simp: of_nat_diff)
  next
    case False
    obtain c d where cd: "a = Card c" "rep c v" "b = Card d" "rep d w" using 2 by (auto simp: crep_def)
    obtain r where "bi_minus (bi_card c) (bi_card d) = Inr r" "irep r (x - y)"
      using bi_minus_rep[OF irep_card[OF cd(2)] irep_card[OF cd(4)]] 2(3,4) assms(3,4) by auto
    then show ?thesis using False cd
      by (auto simp: num_minus_def on_cardinals_def rep_less to_integer_def nrep_def num_integer_def)
  qed
qed

lemma num_compare_rep:
  assumes "nrep a x" "nrep b y"
  shows "num_eq a b = Inr (x = y)" "num_less a b = Inr (x < y)"
proof -
  have z: "num_isZero a = Inr (x = 0)" "num_isZero b = Inr (y = 0)"
    using assms irep_isZero[OF asInteger_rep[OF assms(1)]] irep_isZero[OF asInteger_rep[OF assms(2)]]
    by (cases a; cases b; auto simp: num_isZero_def nrep_def rep_isZero)+
  from assms show "num_eq a b = Inr (x = y)"
  proof (cases rule: nrep_cases)
    case 1
    have e: "isDecimal a = False" "isDecimal b = False" "isCardinal a \<and> isCardinal b \<longleftrightarrow> False"
      "on_integers (\<lambda>x y. Inr (bi_eq x y)) a b = Inr (x = y)"
      using irep_eq[OF asInteger_rep[OF assms(1)] asInteger_rep[OF assms(2)]] assms 1
      by (auto simp: on_integers_def isInteger_def isCardinal_def split: number.splits)
    show ?thesis unfolding num_eq_def z by (cases "x = 0"; cases "y = 0") (simp_all add: e z)
  qed (simp add: num_eq_c)
  from assms show "num_less a b = Inr (x < y)"
  proof (cases rule: nrep_cases)
    case 1
    then show ?thesis using irep_less[OF asInteger_rep[OF assms(1)] asInteger_rep[OF assms(2)]] assms
      by (simp add: num_less_def on_integers_def)
  qed (simp add: num_less_c)
qed

section \<open>Properties\<close>

text \<open>C20: on unsigned and signed numbers of one digit, mixed or not, the operators of \<open>BigNumber\<close> are those of the integers: sums,
  differences, where one below zero promotes to a signed number, comparisons, products but by -1, quotients and remainders, which
  truncate, but by 0.\<close>

theorem number_promotion:
  assumes "nrep a x" "nrep b y" "\<bar>x\<bar> < int radix" "\<bar>y\<bar> < int radix"
  shows "(\<exists>r. num_plus a b = Inr r \<and> nrep r (x + y)) \<and> (\<exists>r. num_minus a b = Inr r \<and> nrep r (x - y))
   \<and> (y \<noteq> -1 \<longrightarrow> (\<exists>r. num_times a b = Inr r \<and> nrep r (x * y)))
   \<and> (y \<noteq> 0 \<longrightarrow> (\<exists>r. num_div a b = Inr r \<and> nrep r (x sdiv y)) \<and> (\<exists>r. num_mod a b = Inr r \<and> nrep r (x smod y)))
   \<and> num_eq a b = Inr (x = y) \<and> num_less a b = Inr (x < y)"
  using num_plus_rep[OF assms] num_minus_rep[OF assms] num_times_rep[OF assms] num_div_mod_rep[OF assms]
    num_compare_rep[OF assms(1,2)] by blast

lemma nrep_i64: "\<bar>k\<bar> < 2 ^ 63 \<Longrightarrow> nrep (num_i64 k) k"
  using irep_int[of k] by (cases "k < 0") (auto simp: nrep_def num_i64_def irep_def bi_int_def bi_digit_def)

lemma number_promotion_witness:
  "\<exists>r. num_minus (num_i64 3) (num_i64 5) = Inr r \<and> nrep r (-2)"
  using number_promotion[OF nrep_i64[of 3] nrep_i64[of 5]] by (simp add: radix_def)

text \<open>The conversions that lose: \<open>BigNumber(-1)\<close> is \<open>2 ^ 64 - 1\<close>, the integer behind 1.5 is 15 (so that
  1.5 % 4 is 3), and shifting or masking a negative number gives an unsigned one.\<close>

theorem number_conversion_faults:
  "num_format (num_int (-1)) 10 DIGITS = Inr ''18446744073709551615''
   \<and> rbind (num_parse ''1.5'' 10 DIGITS) (\<lambda>a. rbind (num_mod a (num_int 4)) (\<lambda>r. num_format r 10 DIGITS)) = Inr ''3''
   \<and> rbind (num_or (num_i64 (-6)) (num_i64 1)) (\<lambda>r. num_format r 10 DIGITS) = Inr ''7''"
proof (intro conjI)
  show "num_format (num_int (-1)) 10 DIGITS = Inr ''18446744073709551615''" by code_simp
  show "rbind (num_parse ''1.5'' 10 DIGITS) (\<lambda>a. rbind (num_mod a (num_int 4)) (\<lambda>r. num_format r 10 DIGITS)) = Inr ''3''"
    by code_simp
  show "rbind (num_or (num_i64 (-6)) (num_i64 1)) (\<lambda>r. num_format r 10 DIGITS) = Inr ''7''" by code_simp
qed

end
