(* ===== verification/Primes.thy ===== *)
theory Primes
  imports Numbers
begin

text \<open>
  \<open>cpp/lib/bign/BigPrime.h\<close>: the sieve of Eratosthenes and primality tests over \<open>BigNumber\<close>. The static
  variables \<open>primeBase\<close> and \<open>maxPrime\<close> are the record \<open>prime_state\<close>. As everywhere, \<open>None\<close> is a loop
  that does not end and an \<open>int\<close> argument of a comparison or operator is \<open>num_int\<close>.
\<close>

section \<open>Sieve\<close>

text \<open>\<open>(int) std::sqrt(lim)\<close>, which is exact for an \<open>int\<close>.\<close>

fun int_sqrt :: "nat \<Rightarrow> nat" where
  "int_sqrt 0 = 0"
| "int_sqrt (Suc n) = (let r = int_sqrt n in if (r + 1) * (r + 1) \<le> Suc n then r + 1 else r)"

text \<open>\<open>for (int j = i * i; j <= lim; j += i) s[j] = false;\<close>, where \<open>j += i\<close> may overflow \<open>int\<close>, which is undefined.\<close>

function sieve_mark :: "nat \<Rightarrow> nat \<Rightarrow> nat \<Rightarrow> bool list \<Rightarrow> error + bool list" where
  "sieve_mark mx i j s = (if 0 < i \<and> j \<le> mx
     then if j + i < 2 ^ 31 then sieve_mark mx i (j + i) (s[j := False]) else Inl Undefined
     else Inr s)"
  by pat_completeness auto
termination by (relation "measure (\<lambda>(mx, i, j, s). Suc mx - j)") auto

declare sieve_mark.simps [simp del]

text \<open>The vector \<open>s\<close>: \<open>s[1]\<close> is outside of it when \<open>lim\<close> is less than 1, \<open>lim + 1\<close> overflows for the largest \<open>int\<close>.\<close>

definition sieve_flags :: "int \<Rightarrow> error + bool list" where
  "sieve_flags mx = (if mx < 1 \<or> mx + 1 \<ge> 2 ^ 31 then Inl Undefined
     else mfold (\<lambda>i s. if s ! i then sieve_mark (nat mx) i (i * i) s else Inr s) [2..<int_sqrt (nat mx) + 1]
       ((replicate (nat mx + 1) True)[0 := False, 1 := False]))"

definition sieve :: "int \<Rightarrow> error + number list" where
  "sieve mx = rbind (sieve_flags mx) (\<lambda>s.
     Inr (map (\<lambda>i. num_int (int i)) (filter (\<lambda>i. s ! i) [2..<nat mx + 1])))"

record prime_state =
  primeBase :: "number list"
  maxPrime :: number

definition prime_start :: prime_state where
  "prime_start = \<lparr>primeBase = [], maxPrime = num_new\<rparr>"

definition initPrimality :: "int \<Rightarrow> prime_state \<Rightarrow> error + prime_state" where
  "initPrimality sz st = rbind (if - (2 ^ 31) \<le> sz * 10 \<and> sz * 10 < 2 ^ 31 then sieve (sz * 10) else Inl Undefined) (\<lambda>ps.
     let ps = (if int (length ps) > sz then take (nat sz) ps else ps)
     in Inr (if ps \<noteq> [] then \<lparr>primeBase = ps, maxPrime = last ps\<rparr> else st\<lparr>primeBase := ps\<rparr>))"

section \<open>Modular arithmetic\<close>

text \<open>\<open>(n % k) == j\<close>.\<close>

definition mod_is :: "number \<Rightarrow> int \<Rightarrow> int \<Rightarrow> error + bool" where
  "mod_is n k j = rbind (num_mod n (num_int k)) (\<lambda>m. num_eq m (num_int j))"

definition mod_times :: "number \<Rightarrow> number \<Rightarrow> number \<Rightarrow> error + number" where
  "mod_times a b m = rbind (num_times a b) (\<lambda>p. num_mod p m)"

partial_function (option) powMod_loop :: "number \<Rightarrow> number \<Rightarrow> number \<Rightarrow> number \<Rightarrow> (error + number) option" where
  "powMod_loop m r base e = obind (Some (num_isZero e)) (\<lambda>z. if z then Some (Inr r)
     else obind (Some (mod_is e 2 1)) (\<lambda>o1.
          obind (Some (if o1 then mod_times r base m else Inr r)) (\<lambda>r.
          obind (num_shr e (num_int 1)) (\<lambda>e.
          obind (Some (mod_times base base m)) (\<lambda>base. powMod_loop m r base e)))))"

definition powMod :: "number \<Rightarrow> number \<Rightarrow> number \<Rightarrow> (error + number) option" where
  "powMod b e m = obind (Some (num_eq m (num_int 1))) (\<lambda>one. if one then Some (Inr (num_int 0))
     else obind (Some (num_mod b m)) (\<lambda>base. powMod_loop m (num_int 1) base e))"

text \<open>The inner loop of \<open>jacobiBig\<close>: taking factors of 2 out of \<open>aMod\<close>.\<close>

partial_function (option) jacobi_twos :: "number \<Rightarrow> number \<Rightarrow> int \<Rightarrow> (error + number \<times> int) option" where
  "jacobi_twos aMod nCopy r = obind (Some (mod_is aMod 2 0)) (\<lambda>even.
     if \<not> even then Some (Inr (aMod, r))
     else obind (Some (num_div aMod (num_int 2))) (\<lambda>aMod.
          obind (Some (num_mod nCopy (num_int 8))) (\<lambda>nMod8.
          obind (Some (num_eq nMod8 (num_int 3))) (\<lambda>is3.
          obind (Some (if is3 then Inr True else num_eq nMod8 (num_int 5))) (\<lambda>flip.
            jacobi_twos aMod nCopy (if flip then - r else r))))))"

partial_function (option) jacobi_loop :: "number \<Rightarrow> number \<Rightarrow> int \<Rightarrow> (error + number \<times> int) option" where
  "jacobi_loop aMod nCopy r = obind (Some (num_isZero aMod)) (\<lambda>z. if z then Some (Inr (nCopy, r))
     else obind (jacobi_twos aMod nCopy r) (\<lambda>(temp, r).
          obind (Some (mod_is nCopy 4 3)) (\<lambda>a3.
          obind (Some (if a3 then mod_is temp 4 3 else Inr False)) (\<lambda>flip.
          obind (Some (num_mod nCopy temp)) (\<lambda>aMod.
            jacobi_loop aMod temp (if flip then - r else r))))))"

definition jacobiBig :: "number \<Rightarrow> number \<Rightarrow> (error + int) option" where
  "jacobiBig a n = obind (Some (num_le n (num_int 0))) (\<lambda>neg.
     obind (Some (if neg then Inr True else mod_is n 2 0)) (\<lambda>bad. if bad then Some (Inr 0)
     else obind (Some (num_mod a n)) (\<lambda>x. obind (Some (num_plus x n)) (\<lambda>x. obind (Some (num_mod x n)) (\<lambda>aMod.
          obind (jacobi_loop aMod n 1) (\<lambda>(nCopy, r).
          obind (Some (num_eq nCopy (num_int 1))) (\<lambda>one. Some (Inr (if one then r else 0)))))))))"

definition leg2Big :: "number \<Rightarrow> error + int" where
  "leg2Big n = rbind (num_mod n (num_int 8)) (\<lambda>x. rbind (num_plus x (num_int 8)) (\<lambda>x.
     rbind (num_mod x (num_int 8)) (\<lambda>m8.
     rbind (num_eq m8 (num_int 1)) (\<lambda>e1. rbind (if e1 then Inr True else num_eq m8 (num_int 7)) (\<lambda>pos.
     if pos then Inr 1
     else rbind (num_eq m8 (num_int 3)) (\<lambda>e3. rbind (if e3 then Inr True else num_eq m8 (num_int 5)) (\<lambda>neg.
     Inr (if neg then -1 else 0))))))))"

section \<open>Trial division\<close>

text \<open>The loops over \<open>primeBase\<close>. In \<open>isPrimeQR\<close>: \<open>Some False\<close> is \<open>return false\<close>.\<close>

fun qr_trial :: "number \<Rightarrow> number list \<Rightarrow> error + bool" where
  "qr_trial n [] = Inr True"
| "qr_trial n (p # ps) = rbind (num_times p p) (\<lambda>pSquared. rbind (num_gt pSquared n) (\<lambda>gt.
     if gt then Inr True
     else rbind (num_mod n p) (\<lambda>m. rbind (num_eq m (num_int 0)) (\<lambda>z. if z then Inr False else qr_trial n ps))))"

fun factor_trial :: "number \<Rightarrow> number list \<Rightarrow> error + number option" where
  "factor_trial n [] = Inr None"
| "factor_trial n (p # ps) = rbind (num_mod n p) (\<lambda>m. rbind (num_eq m (num_int 0)) (\<lambda>z.
     if z then Inr (Some p)
     else rbind (num_times p p) (\<lambda>pSquared. rbind (num_gt pSquared n) (\<lambda>gt.
       if gt then Inr None else factor_trial n ps))))"

partial_function (option) factor_loop :: "number \<Rightarrow> number \<Rightarrow> (error + number) option" where
  "factor_loop n i = obind (Some (num_times i i)) (\<lambda>sq. obind (Some (num_le sq n)) (\<lambda>le.
     if \<not> le then Some (Inr n)
     else obind (Some (num_mod n i)) (\<lambda>m. obind (Some (num_eq m (num_int 0))) (\<lambda>z.
       if z then Some (Inr i) else obind (Some (num_plus i (num_int 2))) (\<lambda>i. factor_loop n i)))))"

definition firstFactor :: "prime_state \<Rightarrow> number \<Rightarrow> (error + number) option" where
  "firstFactor st n = obind (Some (num_less n (num_int 2))) (\<lambda>lt. if lt then Some (Inr (num_int 0))
     else obind (Some (mod_is n 2 0)) (\<lambda>even. if even then Some (Inr (num_int 2))
     else obind (Some (factor_trial n (primeBase st))) (\<lambda>f. case f of Some p \<Rightarrow> Some (Inr p)
     | None \<Rightarrow>
       obind (Some (if primeBase st = [] then Inr (num_int 3) else num_plus (last (primeBase st)) (num_int 2))) (\<lambda>start.
       obind (Some (mod_is start 2 0)) (\<lambda>even.
       obind (Some (if even then num_plus start (num_int 1) else Inr start)) (\<lambda>start. factor_loop n start))))))"

definition isPrimeTD :: "prime_state \<Rightarrow> number \<Rightarrow> (error + bool) option" where
  "isPrimeTD st n = obind (Some (num_less n (num_int 2))) (\<lambda>lt. if lt then Some (Inr False)
     else obind (Some (num_eq n (num_int 2))) (\<lambda>two. if two then Some (Inr True)
     else obind (Some (mod_is n 2 0)) (\<lambda>even. if even then Some (Inr False)
     else obind (firstFactor st n) (\<lambda>f. Some (num_eq f n)))))"

section \<open>The test by quadratic reciprocity\<close>

text \<open>\<open>(e == nMinus1) ? -1 : ((e == 1) ? 1 : 0)\<close>.\<close>

definition euler_sign :: "number \<Rightarrow> number \<Rightarrow> error + int" where
  "euler_sign e m1 = rbind (num_eq e m1) (\<lambda>x. if x then Inr (-1)
     else rbind (num_eq e (num_int 1)) (\<lambda>y. Inr (if y then 1 else 0)))"

definition qr_test :: "number \<Rightarrow> number \<Rightarrow> number \<Rightarrow> number \<Rightarrow> (error + bool) option" where
  "qr_test n nMinus1 nMinus1Over2 p = obind (Some (num_eq p (num_int 2))) (\<lambda>two.
     if two then obind (Some (leg2Big n)) (\<lambda>pn. obind (powMod (num_int 2) nMinus1Over2 n) (\<lambda>e.
       obind (Some (euler_sign e nMinus1)) (\<lambda>en. Some (Inr (en = pn)))))
     else obind (Some (num_minus p (num_int 1))) (\<lambda>pMinus1.
       obind (Some (num_div pMinus1 (num_int 2))) (\<lambda>pMinus1Over2.
       obind (Some (num_mod n p)) (\<lambda>np. obind (powMod np pMinus1Over2 p) (\<lambda>npRaw.
       obind (Some (euler_sign npRaw pMinus1)) (\<lambda>npn.
       obind (jacobiBig p n) (\<lambda>pn.
       obind (Some (num_times pMinus1Over2 nMinus1Over2)) (\<lambda>exponent.
       obind (Some (mod_is exponent 2 1)) (\<lambda>odd1.
         if pn \<noteq> (if odd1 then -1 else 1) * npn then Some (Inr False)
         else obind (powMod p nMinus1Over2 n) (\<lambda>eu.
              obind (Some (euler_sign eu nMinus1)) (\<lambda>eun. Some (Inr (eun = pn)))))))))))))"

fun all_tests :: "('a \<Rightarrow> (error + bool) option) \<Rightarrow> 'a list \<Rightarrow> (error + bool) option" where
  "all_tests f [] = Some (Inr True)"
| "all_tests f (x # xs) = obind (f x) (\<lambda>ok. if \<not> ok then Some (Inr False) else all_tests f xs)"

definition fermat_test :: "number \<Rightarrow> number \<Rightarrow> int \<Rightarrow> (error + bool) option" where
  "fermat_test n nMinus1 b = obind (powMod (num_int b) nMinus1 n) (\<lambda>result. Some (num_eq result (num_int 1)))"

definition isPrimeQR :: "prime_state \<Rightarrow> number \<Rightarrow> int \<Rightarrow> (error + bool) option" where
  "isPrimeQR st n numTests = obind (Some (num_less n (num_int 2))) (\<lambda>lt. if lt then Some (Inr False)
     else obind (Some (num_eq n (num_int 2))) (\<lambda>two. if two then Some (Inr True)
     else obind (Some (mod_is n 2 0)) (\<lambda>even. if even then Some (Inr False)
     else obind (Some (qr_trial n (primeBase st))) (\<lambda>ok. if \<not> ok then Some (Inr False)
     else obind (Some (num_isZero (maxPrime st))) (\<lambda>z. obind (Some (if z then Inr True else num_isOne (maxPrime st))) (\<lambda>unset.
     obind (Some (if unset then Inr False
       else rbind (num_times (maxPrime st) (maxPrime st)) (\<lambda>mpSquared. num_less n mpSquared))) (\<lambda>small.
     if small then Some (Inr True)
     else obind (Some (num_minus n (num_int 1))) (\<lambda>nMinus1. obind (Some (num_isZero nMinus1)) (\<lambda>z0.
     if z0 then Some (Inr False)
     else obind (Some (num_div nMinus1 (num_int 2))) (\<lambda>nMinus1Over2.
     let testsToRun = (if numTests < int (length (primeBase st)) then numTests else int (length (primeBase st)))
     in obind (all_tests (qr_test n nMinus1 nMinus1Over2) (take (nat testsToRun) (primeBase st))) (\<lambda>ok.
        if \<not> ok then Some (Inr False) else all_tests (fermat_test n nMinus1) [2, 3, 5, 7])))))))))))"

section \<open>The Miller-Rabin test\<close>

partial_function (option) mr_split :: "number \<Rightarrow> nat \<Rightarrow> (error + number \<times> nat) option" where
  "mr_split d r = obind (Some (mod_is d 2 0)) (\<lambda>even. if \<not> even then Some (Inr (d, r))
     else obind (Some (num_div d (num_int 2))) (\<lambda>d. mr_split d (r + 1)))"

text \<open>The loop over \<open>j\<close>, with the number of rounds that are left; the result is \<open>cont\<close>.\<close>

fun mr_square :: "number \<Rightarrow> number \<Rightarrow> nat \<Rightarrow> number \<Rightarrow> (error + bool) option" where
  "mr_square n nMinus1 0 x = Some (Inr False)"
| "mr_square n nMinus1 (Suc j) x = obind (powMod x (num_int 2) n) (\<lambda>x.
     obind (Some (num_eq x nMinus1)) (\<lambda>e. if e then Some (Inr True) else mr_square n nMinus1 j x))"

definition small_bases :: "int list" where
  "small_bases = [2, 3, 5, 7, 11, 13, 17, 19, 23, 29, 31, 37, 41, 43, 47]"

definition mr_base :: "number \<Rightarrow> nat \<Rightarrow> error + number" where
  "mr_base n i = (let a = num_int (if i < length small_bases then small_bases ! i else 2 + int i mod 100)
     in rbind (num_ge a n) (\<lambda>ge. Inr (if ge then num_int 2 else a)))"

definition mr_round :: "number \<Rightarrow> number \<Rightarrow> number \<Rightarrow> nat \<Rightarrow> nat \<Rightarrow> (error + bool) option" where
  "mr_round n nMinus1 d r i = obind (Some (mr_base n i)) (\<lambda>a. obind (powMod a d n) (\<lambda>x.
     obind (Some (num_eq x (num_int 1))) (\<lambda>one. obind (Some (if one then Inr True else num_eq x nMinus1)) (\<lambda>ok.
     if ok then Some (Inr True) else mr_square n nMinus1 (r - 1) x))))"

definition isPrimeMR :: "number \<Rightarrow> int \<Rightarrow> (error + bool) option" where
  "isPrimeMR n k = obind (Some (num_less n (num_int 2))) (\<lambda>lt. if lt then Some (Inr False)
     else obind (Some (num_eq n (num_int 2))) (\<lambda>two. obind (Some (if two then Inr True else num_eq n (num_int 3))) (\<lambda>small.
     if small then Some (Inr True)
     else obind (Some (mod_is n 2 0)) (\<lambda>even. if even then Some (Inr False)
     else obind (Some (num_minus n (num_int 1))) (\<lambda>nMinus1. obind (mr_split nMinus1 0) (\<lambda>(d, r).
       all_tests (mr_round n nMinus1 d r) [0..<nat k]))))))"

section \<open>The sieve finds the primes\<close>

definition is_prime :: "nat \<Rightarrow> bool" where
  "is_prime n \<longleftrightarrow> 2 \<le> n \<and> (\<forall>d. d dvd n \<longrightarrow> d = 1 \<or> d = n)"

lemma int_sqrt_bounds: "int_sqrt n * int_sqrt n \<le> n \<and> n < (int_sqrt n + 1) * (int_sqrt n + 1)"
proof (induction n)
  case (Suc n)
  define r where "r = int_sqrt n"
  have r: "r * r \<le> n" "n < (r + 1) * (r + 1)" using Suc by (simp_all add: r_def)
  have "(r + 2) * (r + 2) = (r + 1) * (r + 1) + 2 * r + 3" by simp
  then show ?case using r by (auto simp: r_def[symmetric] Let_def)
qed simp

text \<open>A number without a proper divisor up to its square root is prime.\<close>

lemma is_prime_iff:
  "is_prime n \<longleftrightarrow> 2 \<le> n \<and> (\<forall>d. 2 \<le> d \<and> d dvd n \<longrightarrow> n < d * d)"
proof (cases "2 \<le> n")
  case True
  show ?thesis
  proof
    assume p: "is_prime n"
    have "n < d * d" if "2 \<le> d" "d dvd n" for d
    proof -
      have "d = n" using p that by (auto simp: is_prime_def)
      then show ?thesis using True by (simp add: n_less_m_mult_n)
    qed
    then show "2 \<le> n \<and> (\<forall>d. 2 \<le> d \<and> d dvd n \<longrightarrow> n < d * d)" using True by blast
  next
    assume h: "2 \<le> n \<and> (\<forall>d. 2 \<le> d \<and> d dvd n \<longrightarrow> n < d * d)"
    have "d = 1 \<or> d = n" if d: "d dvd n" for d
    proof (rule ccontr)
      assume c: "\<not> (d = 1 \<or> d = n)"
      obtain e where e: "n = d * e" using d by blast
      have "d \<noteq> 0" "e \<noteq> 0" "e \<noteq> 1" using e True c by (cases e; auto)+
      then have "2 \<le> d" "2 \<le> e" using c by linarith+
      then have "n < d * d" "n < e * e" using h e by auto
      then have "e < d" "d < e" using e by auto
      then show False by simp
    qed
    then show "is_prime n" using True by (simp add: is_prime_def)
  qed
qed (simp add: is_prime_def)

text \<open>The marks without the overflow, for the proofs.\<close>

function marked :: "nat \<Rightarrow> nat \<Rightarrow> nat \<Rightarrow> bool list \<Rightarrow> bool list" where
  "marked mx i j s = (if 0 < i \<and> j \<le> mx then marked mx i (j + i) (s[j := False]) else s)"
  by pat_completeness auto
termination by (relation "measure (\<lambda>(mx, i, j, s). Suc mx - j)") auto

declare marked.simps [simp del]

lemma sieve_mark_marked: "mx + i < 2 ^ 31 \<Longrightarrow> sieve_mark mx i j s = Inr (marked mx i j s)"
proof (induction mx i j s rule: marked.induct)
  case (1 mx i j s)
  then show ?case by (subst sieve_mark.simps, subst marked.simps) auto
qed

lemma length_marked [simp]: "length (marked mx i j s) = length s"
  by (induction mx i j s rule: marked.induct) (subst marked.simps, simp)

lemma marked_nth:
  assumes "length s = mx + 1" "m \<le> mx" "0 < i"
  shows "marked mx i j s ! m \<longleftrightarrow> s ! m \<and> \<not> (j \<le> m \<and> i dvd (m - j))"
  using assms
proof (induction mx i j s rule: marked.induct)
  case (1 mx i j s)
  show ?case
  proof (cases "j \<le> mx")
    case True
    have "j \<le> m \<and> i dvd (m - j) \<longleftrightarrow> m = j \<or> (j + i \<le> m \<and> i dvd (m - (j + i)))"
    proof -
      have "i dvd (m - j) \<longleftrightarrow> i dvd (m - (j + i))" if "j + i \<le> m"
        using that dvd_minus_self[of i "m - j"] by (auto simp: diff_diff_add)
      moreover have "m = j" if "j \<le> m" "i dvd (m - j)" "\<not> j + i \<le> m"
        using that dvd_imp_le[of i "m - j"] by linarith
      moreover have "i dvd m - (j + i) \<Longrightarrow> j + i \<le> m \<Longrightarrow> j \<le> m" by simp
      ultimately show ?thesis by fastforce
    qed
    then show ?thesis using 1 True by (subst marked.simps) (auto simp: nth_list_update)
  next
    case False
    then show ?thesis using 1 by (subst marked.simps) auto
  qed
qed

definition unmarked_below :: "nat \<Rightarrow> nat \<Rightarrow> bool" where
  "unmarked_below k m \<longleftrightarrow> 2 \<le> m \<and> (\<forall>d. 2 \<le> d \<and> d < k \<and> d dvd m \<longrightarrow> m < d * d)"

lemma unmarked_Suc:
  assumes "2 \<le> k"
  shows "unmarked_below (Suc k) m \<longleftrightarrow> unmarked_below k m \<and> (k dvd m \<longrightarrow> m < k * k)"
  using assms by (auto simp: unmarked_below_def less_Suc_eq)

lemma unmarked_composite:
  assumes "2 \<le> k" "\<not> unmarked_below k k" "unmarked_below k m" "k dvd m"
  shows "m < k * k"
proof -
  obtain d where d: "2 \<le> d" "d < k" "d dvd k" "d * d \<le> k" using assms(1,2) by (auto simp: unmarked_below_def not_less)
  then have "m < d * d" using assms(3,4) by (auto simp: unmarked_below_def intro: dvd_trans)
  also have "d * d \<le> k * k" using d by (intro mult_le_mono) auto
  finally show ?thesis .
qed

lemma sieve_init:
  assumes "1 \<le> mx" "m \<le> mx"
  shows "(replicate (mx + 1) True)[0 := False, 1 := False] ! m \<longleftrightarrow> 2 \<le> m"
proof -
  consider "m = 0" | "m = 1" | "2 \<le> m" by linarith
  then show ?thesis using assms by cases (simp_all add: nth_list_update del: replicate.simps)
qed

lemma sieve_loop:
  assumes "1 \<le> mx" "k \<le> mx"
  shows "let s = fold (\<lambda>i s. if s ! i then marked mx i (i * i) s else s) [2..<k + 1]
      ((replicate (mx + 1) True)[0 := False, 1 := False])
    in length s = mx + 1 \<and> (\<forall>m \<le> mx. s ! m \<longleftrightarrow> unmarked_below (k + 1) m)"
  using assms(2)
proof (induction k)
  case 0
  then show ?case using sieve_init[OF assms(1)] by (auto simp: unmarked_below_def simp del: replicate.simps)
next
  case (Suc k)
  show ?case
  proof (cases "k = 0")
    case True
    then show ?thesis using sieve_init[OF assms(1)] by (auto simp: unmarked_below_def simp del: replicate.simps)
  next
    case False
    define s where "s = fold (\<lambda>i s. if s ! i then marked mx i (i * i) s else s) [2..<k + 1]
      ((replicate (mx + 1) True)[0 := False, 1 := False])"
    have s: "length s = mx + 1" "\<And>m. m \<le> mx \<Longrightarrow> s ! m \<longleftrightarrow> unmarked_below (k + 1) m"
      using Suc.IH[unfolded s_def[symmetric] Let_def] Suc.prems by simp_all
    let ?i = "k + 1"
    have e: "fold (\<lambda>i s. if s ! i then marked mx i (i * i) s else s) [2..<Suc k + 1]
      ((replicate (mx + 1) True)[0 := False, 1 := False]) = (if s ! ?i then marked mx ?i (?i * ?i) s else s)"
      using False by (simp add: s_def)
    have i: "2 \<le> ?i" "?i \<le> mx" using False Suc.prems by auto
    have "(if s ! ?i then marked mx ?i (?i * ?i) s else s) ! m \<longleftrightarrow> unmarked_below (Suc ?i) m" if m: "m \<le> mx" for m
    proof (cases "s ! ?i")
      case True
      have "?i * ?i \<le> m \<and> ?i dvd (m - ?i * ?i) \<longleftrightarrow> \<not> (?i dvd m \<longrightarrow> m < ?i * ?i)"
      proof (cases "?i * ?i \<le> m")
        case le: True
        have "?i dvd ?i * ?i" by (rule dvd_triv_left)
        then have "?i dvd (m - ?i * ?i) \<longleftrightarrow> ?i dvd m" using le
          by (metis dvd_diff_nat dvd_diffD1 dvd_diffD)
        then show ?thesis using le by (simp only: not_less not_imp) blast
      qed simp
      then show ?thesis using True marked_nth[OF s(1) m, of ?i "?i * ?i"] s(2)[OF m] unmarked_Suc[OF i(1)] by simp
    next
      case False
      then show ?thesis using s(2)[OF m] s(2)[OF i(2)] unmarked_Suc[OF i(1)] unmarked_composite[OF i(1)] by auto
    qed
    then show ?thesis unfolding e Let_def using s(1) by simp
  qed
qed

text \<open>The root of an \<open>int\<close> is at most 46340, so below this bound no index overflows.\<close>

definition sieve_max :: int where
  "sieve_max = 2 ^ 31 - 1 - 46340"

lemma sieve_max_small [simp]: "n \<le> 1000 \<Longrightarrow> n \<le> sieve_max"
  by (simp add: sieve_max_def)

lemma int_sqrt_small: "n < 2 ^ 31 \<Longrightarrow> int_sqrt n \<le> 46340"
proof (rule ccontr)
  assume n: "n < 2 ^ 31" "\<not> int_sqrt n \<le> 46340"
  then have "46341 * 46341 \<le> int_sqrt n * int_sqrt n" by (intro mult_le_mono) simp_all
  then show False using int_sqrt_bounds[of n] n(1) by simp
qed

lemma sieve_flags_prime:
  assumes "1 \<le> mx" "mx \<le> sieve_max"
  shows "\<exists>s. sieve_flags mx = Inr s \<and> (\<forall>m \<le> nat mx. s ! m \<longleftrightarrow> is_prime m)"
proof -
  define n where "n = nat mx"
  have n: "1 \<le> n" "int n = mx" "n + 46340 < 2 ^ 31" using assms by (simp_all add: n_def sieve_max_def)
  have "int_sqrt n * 1 \<le> int_sqrt n * int_sqrt n" by (cases "int_sqrt n") auto
  then have root: "int_sqrt n \<le> n" using int_sqrt_bounds[of n] by linarith
  have root': "int_sqrt n \<le> 46340" using int_sqrt_small[of n] n(3) by simp
  define s where "s = fold (\<lambda>i s. if s ! i then marked n i (i * i) s else s) [2..<int_sqrt n + 1]
    ((replicate (n + 1) True)[0 := False, 1 := False])"
  have "mfold (\<lambda>i s. if s ! i then sieve_mark n i (i * i) s else Inr s) [2..<int_sqrt n + 1] t
    = Inr (fold (\<lambda>i s. if s ! i then marked n i (i * i) s else s) [2..<int_sqrt n + 1] t)" for t
    by (rule mfold_total) (use root' n(3) in \<open>auto simp: sieve_mark_marked\<close>)
  then have "sieve_flags mx = Inr s" using assms by (simp only: sieve_flags_def n_def s_def) (simp add: sieve_max_def)
  moreover have "s ! m \<longleftrightarrow> is_prime m" if "m \<le> n" for m
  proof -
    have "s ! m \<longleftrightarrow> unmarked_below (int_sqrt n + 1) m"
      using sieve_loop[OF n(1) root] that by (simp add: s_def Let_def)
    moreover have "m < d * d" if d: "\<not> d < int_sqrt n + 1" for d
    proof -
      have "(int_sqrt n + 1) * (int_sqrt n + 1) \<le> d * d" using d by (intro mult_le_mono) auto
      then show ?thesis using int_sqrt_bounds[of n] \<open>m \<le> n\<close> by linarith
    qed
    ultimately show ?thesis unfolding unmarked_below_def is_prime_iff by blast
  qed
  ultimately show ?thesis by (auto simp: n_def)
qed

definition primes_upto :: "nat \<Rightarrow> nat list" where
  "primes_upto n = filter is_prime [2..<n + 1]"

lemma sieve_filter:
  "\<forall>m \<le> n. s ! m \<longleftrightarrow> is_prime m \<Longrightarrow> filter (\<lambda>i. s ! i) [2..<n + 1] = primes_upto n"
  unfolding primes_upto_def by (rule filter_cong[OF refl]) auto

lemma sieve_primes:
  assumes "1 \<le> mx" "mx \<le> sieve_max"
  shows "sieve mx = Inr (map (\<lambda>i. num_int (int i)) (primes_upto (nat mx)))"
proof -
  obtain s where "sieve_flags mx = Inr s" "\<forall>m \<le> nat mx. s ! m \<longleftrightarrow> is_prime m" using sieve_flags_prime[OF assms] by blast
  then show ?thesis using sieve_filter[of "nat mx" s] by (simp only: sieve_def rbind.simps)
qed

section \<open>Modular powers\<close>

lemma crep_0: "crep (num_int 0) 0" and crep_1: "crep (num_int 1) 1" and crep_2: "crep (num_int 2) 2"
  and crep_3: "crep (num_int 3) 3"
  using crep_int[of 0] crep_int[of 1] crep_int[of 2] crep_int[of 3] by simp_all

lemma mod_is_rep:
  assumes "crep n v" "v < radix" "0 < k" "k < 2 ^ 63" "0 \<le> j" "j < 2 ^ 63"
  shows "mod_is n k j = Inr (v mod nat k = nat j)"
proof -
  have k: "crep (num_int k) (nat k)" "crep (num_int j) (nat j)" "0 < nat k" "nat k < radix"
    using crep_int assms(3-6) by (simp_all add: radix_def)
  obtain m where "num_mod n (num_int k) = Inr m" "crep m (v mod nat k)"
    using num_mod_c[OF assms(1) k(1) assms(2) k(3,4)] by blast
  then show ?thesis using num_eq_c[OF _ k(2)] by (simp add: mod_is_def)
qed

lemma even_rep: "crep n v \<Longrightarrow> v < radix \<Longrightarrow> mod_is n 2 0 = Inr (even v)"
  and odd_rep: "crep n v \<Longrightarrow> v < radix \<Longrightarrow> mod_is n 2 1 = Inr (odd v)"
  using mod_is_rep[of n v 2 0] mod_is_rep[of n v 2 1]
  by (simp_all add: even_iff_mod_2_eq_zero odd_iff_mod_2_eq_one)

lemma mod_times_rep:
  assumes "crep a p" "crep b q" "crep md m" "p < m" "q < m" "m \<le> 2 ^ 32"
  shows "\<exists>r. mod_times a b md = Inr r \<and> crep r (p * q mod m)"
proof -
  have pq: "p * q < radix" by (rule mult_below_radix[OF assms(4-6)])
  have mr: "0 < m" "m < radix" using assms(4,6) by (simp_all add: radix_def)
  have "p < radix ^ 49" using assms(4,6) by (simp add: radix_def)
  then obtain t where t: "num_times a b = Inr t" "crep t (p * q)" using num_times_c[OF assms(1,2)] by blast
  then show ?thesis using num_mod_c[OF t(2) assms(3) pq mr] by (simp add: mod_times_def)
qed

lemma powMod_loop_rep:
  assumes "crep md m" "1 < m" "m \<le> 2 ^ 32"
    and "crep r x" "crep b y" "crep e k" "x < m" "y < m" "k < radix"
  shows "\<exists>s. powMod_loop md r b e = Some (Inr s) \<and> crep s (x * y ^ k mod m)"
  using assms(4-)
proof (induction k arbitrary: r b e x y rule: less_induct)
  case (less k)
  note ez = num_isZero_c[OF less.prems(3)] odd_rep[OF less.prems(3,6)]
  show ?case
  proof (cases "k = 0")
    case True
    then show ?thesis using less.prems(1,4) ez by (subst powMod_loop.simps) simp
  next
    case False
    obtain rb where rb: "mod_times r b md = Inr rb" "crep rb (x * y mod m)"
      using mod_times_rep[OF less.prems(1,2) assms(1) less.prems(4,5) assms(3)] by blast
    obtain bb where bb: "mod_times b b md = Inr bb" "crep bb (y * y mod m)"
      using mod_times_rep[OF less.prems(2,2) assms(1) less.prems(5,5) assms(3)] by blast
    obtain e' where e': "num_shr e (num_int 1) = Some (Inr e')" "crep e' (k div 2)"
      using num_shr_c[OF less.prems(3) crep_1 less.prems(6)] by auto
    define r' x' where "r' = (if odd k then rb else r)" and "x' = (if odd k then x * y mod m else x)"
    have r': "crep r' x'" "x' < m" "y * y mod m < m" using rb less.prems(1,4) assms(2) by (simp_all add: r'_def x'_def)
    have lt: "k div 2 < k" "k div 2 < radix" using False less.prems(6) by auto
    have "(if odd k then mod_times r b md else Inr r) = Inr r'" using rb by (simp add: r'_def)
    then have "powMod_loop md r b e = powMod_loop md r' bb e'"
      using ez False e' bb by (subst powMod_loop.simps) simp
    then show ?thesis
      using less.IH[OF lt(1) r'(1) bb(2) e'(2) r'(2,3) lt(2)] square_multiply[of k x y m]
      unfolding x'_def by simp
  qed
qed

lemma powMod_rep:
  assumes "crep b v" "crep e k" "crep md m" "v < radix" "k < radix" "0 < m" "m \<le> 2 ^ 32"
  shows "\<exists>r. powMod b e md = Some (Inr r) \<and> crep r (v ^ k mod m)"
proof (cases "m = 1")
  case True
  then show ?thesis using num_eq_c[OF assms(3) crep_1] crep_0 by (simp add: powMod_def)
next
  case False
  have mr: "m < radix" using assms(7) by (simp add: radix_def)
  obtain y where y: "num_mod b md = Inr y" "crep y (v mod m)" using num_mod_c[OF assms(1,3,4,6) mr] by blast
  have m1: "1 < m" "v mod m < m" using False assms(6) by simp_all
  obtain s where "powMod_loop md (num_int 1) y e = Some (Inr s)" "crep s (1 * (v mod m) ^ k mod m)"
    using powMod_loop_rep[OF assms(3) m1(1) assms(7) crep_1 y(2) assms(2) m1 assms(5)] by blast
  then show ?thesis using y num_eq_c[OF assms(3) crep_1] False by (simp add: powMod_def power_mod)
qed

section \<open>Trial division\<close>

text \<open>\<open>bases ps qs\<close>: the numbers \<open>ps\<close> stand for the sorted primes \<open>qs\<close>.\<close>

definition bases :: "number list \<Rightarrow> nat list \<Rightarrow> bool" where
  "bases ps qs \<longleftrightarrow> list_all2 crep ps qs"

lemma qr_trial_rep:
  assumes "bases ps qs" "sorted qs" "crep n v" "v < radix" "\<forall>q \<in> set qs. 0 < q \<and> q < 2 ^ 32"
  shows "qr_trial n ps = Inr (\<forall>q \<in> set qs. q * q \<le> v \<longrightarrow> \<not> q dvd v)"
  using assms(1)[unfolded bases_def] assms(2,5)
proof (induction rule: list_all2_induct)
  case (Cons p ps q qs)
  have q: "0 < q" "q < radix" "q < radix ^ 49" using Cons.prems by (simp_all add: radix_def)
  obtain s where s: "num_times p p = Inr s" "crep s (q * q)" using num_times_c[OF Cons.hyps(1,1)] q(3) by blast
  obtain m where m: "num_mod n p = Inr m" "crep m (v mod q)" using num_mod_c[OF assms(3) Cons.hyps(1) assms(4) q(1,2)] by blast
  note c = num_gt_c[OF s(2) assms(3)] num_eq_c[OF m(2) crep_0]
  have big: "v < r * r" if "v < q * q" "r \<in> set qs" for r
  proof -
    have "q \<le> r" using Cons.prems(1) that(2) by simp
    then have "q * q \<le> r * r" by (intro mult_le_mono)
    then show ?thesis using that(1) by linarith
  qed
  show ?case
  proof (cases "v < q * q")
    case True
    then have "qr_trial n (p # ps) = Inr True" using s c by simp
    moreover have "v < r * r" if "r \<in> set (q # qs)" for r using True big[OF True] that by auto
    then have "\<forall>r \<in> set (q # qs). r * r \<le> v \<longrightarrow> \<not> r dvd v" by (auto dest: leD)
    ultimately show ?thesis by simp
  next
    case False
    then show ?thesis using s m c Cons.IH Cons.prems by (auto simp: dvd_eq_mod_eq_0)
  qed
qed simp

lemma factor_trial_rep:
  assumes "bases ps qs" "sorted qs" "crep n v" "v < radix" "\<forall>q \<in> set qs. 0 < q \<and> q < 2 ^ 32"
  shows "\<exists>f. factor_trial n ps = Inr f \<and> (case f of
      Some p \<Rightarrow> \<exists>q \<in> set qs. crep p q \<and> q dvd v \<and> (\<forall>r \<in> set qs. r < q \<longrightarrow> \<not> r dvd v)
    | None \<Rightarrow> \<forall>q \<in> set qs. q * q \<le> v \<longrightarrow> \<not> q dvd v)"
  using assms(1)[unfolded bases_def] assms(2,5)
proof (induction rule: list_all2_induct)
  case (Cons p ps q qs)
  have q: "0 < q" "q < radix" "q < radix ^ 49" using Cons.prems by (simp_all add: radix_def)
  obtain s where s: "num_times p p = Inr s" "crep s (q * q)" using num_times_c[OF Cons.hyps(1,1)] q(3) by blast
  obtain m where m: "num_mod n p = Inr m" "crep m (v mod q)" using num_mod_c[OF assms(3) Cons.hyps(1) assms(4) q(1,2)] by blast
  note c = num_gt_c[OF s(2) assms(3)] num_eq_c[OF m(2) crep_0]
  consider "q dvd v" | "\<not> q dvd v" "v < q * q" | "\<not> q dvd v" "q * q \<le> v" by linarith
  then show ?case
  proof cases
    case 1
    then have "factor_trial n (p # ps) = Inr (Some p)" using m c by (simp add: dvd_eq_mod_eq_0)
    moreover have "\<forall>r \<in> set (q # qs). r < q \<longrightarrow> \<not> r dvd v" using Cons.prems(1) by auto
    ultimately show ?thesis using 1 Cons.hyps(1) by (simp del: factor_trial.simps)
  next
    case 2
    have "v < r * r" if "r \<in> set (q # qs)" for r
    proof -
      have "q \<le> r" using Cons.prems(1) that by auto
      then have "q * q \<le> r * r" by (intro mult_le_mono)
      then show ?thesis using 2 by linarith
    qed
    then have "\<forall>r \<in> set (q # qs). r * r \<le> v \<longrightarrow> \<not> r dvd v" by (auto dest: leD)
    moreover have "factor_trial n (p # ps) = Inr None" using 2 m s c by (simp add: dvd_eq_mod_eq_0)
    ultimately show ?thesis by (simp del: factor_trial.simps)
  next
    case 3
    have step: "factor_trial n (p # ps) = factor_trial n ps" using 3 m s c by (simp add: dvd_eq_mod_eq_0)
    obtain f where f: "factor_trial n ps = Inr f" "case f of
        Some p \<Rightarrow> \<exists>q \<in> set qs. crep p q \<and> q dvd v \<and> (\<forall>r \<in> set qs. r < q \<longrightarrow> \<not> r dvd v)
      | None \<Rightarrow> \<forall>q \<in> set qs. q * q \<le> v \<longrightarrow> \<not> q dvd v" using Cons.IH Cons.prems by auto
    show ?thesis
    proof (cases f)
      case None
      then have "\<forall>r \<in> set (q # qs). r * r \<le> v \<longrightarrow> \<not> r dvd v" using f(2) 3(1) by auto
      then show ?thesis using step f(1) None by (simp del: factor_trial.simps)
    next
      case (Some p')
      then obtain q' where "q' \<in> set qs" "crep p' q'" "q' dvd v" "\<forall>r \<in> set qs. r < q' \<longrightarrow> \<not> r dvd v"
        using f(2) by auto
      then have "\<exists>q' \<in> set (q # qs). crep p' q' \<and> q' dvd v \<and> (\<forall>r \<in> set (q # qs). r < q' \<longrightarrow> \<not> r dvd v)"
        using 3(1) by auto
      then show ?thesis using step f(1) Some by (simp del: factor_trial.simps)
    qed
  qed
qed simp

definition least_factor :: "nat \<Rightarrow> nat \<Rightarrow> bool" where
  "least_factor v w \<longleftrightarrow> 2 \<le> w \<and> w dvd v \<and> (\<forall>d. 2 \<le> d \<and> d dvd v \<longrightarrow> w \<le> d)"

lemma least_factor_prime: "2 \<le> v \<Longrightarrow> least_factor v v \<longleftrightarrow> is_prime v"
proof -
  assume v: "2 \<le> v"
  have "is_prime v" if "least_factor v v"
    unfolding is_prime_def
  proof (intro conjI allI impI v)
    fix d assume d: "d dvd v"
    then have "0 < d" "d \<le> v" using v by (auto intro: dvd_imp_le Nat.gr0I)
    show "d = 1 \<or> d = v"
    proof (cases "d = 1")
      case False
      then have "2 \<le> d" using \<open>0 < d\<close> by linarith
      then have "v \<le> d" using that d by (simp add: least_factor_def)
      then show ?thesis using \<open>d \<le> v\<close> by simp
    qed simp
  qed
  moreover have "least_factor v v" if "is_prime v" using that by (fastforce simp: least_factor_def is_prime_def)
  ultimately show ?thesis by blast
qed

lemma least_factor_self: "2 \<le> v \<Longrightarrow> (\<And>d. 2 \<le> d \<Longrightarrow> d dvd v \<Longrightarrow> v < d * d) \<Longrightarrow> least_factor v v"
  using least_factor_prime is_prime_iff by blast

lemma factor_loop_rep:
  assumes "crep n v" "v < 2 ^ 62" "odd v" "2 \<le> v"
    and "crep i k" "odd k" "3 \<le> k" "\<forall>d. 2 \<le> d \<and> d < k \<and> d * d \<le> v \<longrightarrow> \<not> d dvd v" "k < 2 ^ 33"
  shows "\<exists>r w. factor_loop n i = Some (Inr r) \<and> crep r w \<and> least_factor v w"
  using assms(5-)
proof (induction "v + 2 - k" arbitrary: i k rule: less_induct)
  case less
  have kr: "k < radix" "k < radix ^ 49" "0 < k" "v < radix" using less.prems assms(2) by (simp_all add: radix_def)
  obtain s where s: "num_times i i = Inr s" "crep s (k * k)" using num_times_c[OF less.prems(1,1)] kr(2) by blast
  obtain m where m: "num_mod n i = Inr m" "crep m (v mod k)" using num_mod_c[OF assms(1) less.prems(1) kr(4,3,1)] by blast
  note c = num_le_c[OF s(2) assms(1)] num_eq_c[OF m(2) crep_0]
  consider "v < k * k" | "k * k \<le> v" "k dvd v" | "k * k \<le> v" "\<not> k dvd v" by linarith
  then show ?case
  proof cases
    case 1
    have "factor_loop n i = Some (Inr n)" using 1 s c by (subst factor_loop.simps) simp
    moreover have "least_factor v v"
    proof (rule least_factor_self[OF assms(4)])
      fix d assume d: "2 \<le> d" "d dvd v"
      show "v < d * d"
      proof (cases "d < k")
        case True
        then show ?thesis using less.prems(4) d by (meson not_le)
      next
        case False
        then have "k * k \<le> d * d" by (intro mult_le_mono) simp_all
        then show ?thesis using 1 by linarith
      qed
    qed
    ultimately show ?thesis using assms(1) by blast
  next
    case 2
    have "factor_loop n i = Some (Inr i)" using 2 s m c by (subst factor_loop.simps) (simp add: dvd_eq_mod_eq_0)
    moreover have "k \<le> d" if "2 \<le> d" "d dvd v" for d
    proof (rule ccontr)
      assume "\<not> k \<le> d"
      moreover from this have "d * d \<le> k * k" by (intro mult_le_mono) simp_all
      ultimately show False using less.prems(4) that 2(1) by (meson le_trans not_le)
    qed
    then have "least_factor v k" using 2 less.prems(3) by (simp add: least_factor_def)
    ultimately show ?thesis using less.prems(1) \<open>least_factor v k\<close> by blast
  next
    case 3
    obtain i' where i': "num_plus i (num_int 2) = Inr i'" "crep i' (k + 2)" using num_plus_c[OF less.prems(1) crep_2] by blast
    have step: "factor_loop n i = factor_loop n i'" using 3 s m c i' by (subst factor_loop.simps) (simp add: dvd_eq_mod_eq_0)
    have small: "k < 2 ^ 31"
    proof (rule ccontr)
      assume "\<not> k < 2 ^ 31"
      then have "(2 :: nat) ^ 31 * 2 ^ 31 \<le> k * k" by (intro mult_le_mono) auto
      then show False using 3(1) assms(2) by simp
    qed
    have "k * 1 \<le> k * k" using kr(3) by (intro mult_le_mono) auto
    then have lt: "v + 2 - (k + 2) < v + 2 - k" using 3(1) by linarith
    have nodiv: "\<forall>d. 2 \<le> d \<and> d < k + 2 \<and> d * d \<le> v \<longrightarrow> \<not> d dvd v"
    proof (intro allI impI)
      fix d assume d: "2 \<le> d \<and> d < k + 2 \<and> d * d \<le> v"
      then consider "d < k" | "d = k" | "d = k + 1" by linarith
      then show "\<not> d dvd v"
      proof cases
        case 3
        then show ?thesis using less.prems(2) assms(3) by (metis dvd_trans even_plus_one_iff)
      qed (use d less.prems(4) 3(2) in auto)
    qed
    show ?thesis unfolding step
      using less.hyps[OF lt i'(2) _ _ nodiv] less.prems(2,3) small by simp
  qed
qed

text \<open>\<open>base_ok st qs\<close>: \<open>primeBase\<close> holds all primes up to its last one \<open>qs\<close>, an odd one, or is empty.\<close>

definition base_ok :: "prime_state \<Rightarrow> nat list \<Rightarrow> bool" where
  "base_ok st qs \<longleftrightarrow> bases (primeBase st) qs \<and> sorted qs \<and> (\<forall>q \<in> set qs. is_prime q \<and> q < 2 ^ 32)
     \<and> (qs \<noteq> [] \<longrightarrow> odd (last qs) \<and> (\<forall>p. is_prime p \<and> p \<le> last qs \<longrightarrow> p \<in> set qs))"

lemma prime_factor_exists: "2 \<le> v \<Longrightarrow> \<exists>p. least_factor v p \<and> is_prime p"
proof -
  assume v: "2 \<le> v"
  define p where "p = (LEAST d. 2 \<le> d \<and> d dvd v)"
  have p: "2 \<le> p \<and> p dvd v" unfolding p_def by (rule LeastI[of _ v]) (use v in simp)
  have le: "p \<le> d" if "2 \<le> d" "d dvd v" for d unfolding p_def using that by (intro Least_le) simp
  have "least_factor v p" using p le by (simp add: least_factor_def)
  moreover have "least_factor p p" using p le by (auto simp: least_factor_def intro: dvd_trans)
  ultimately show ?thesis using least_factor_prime p by blast
qed

lemma no_divisor_below:
  assumes "\<forall>p. is_prime p \<and> p < k \<and> p * p \<le> v \<longrightarrow> \<not> p dvd v"
  shows "\<forall>d. 2 \<le> d \<and> d < k \<and> d * d \<le> v \<longrightarrow> \<not> d dvd v"
proof (intro allI impI)
  fix d assume d: "2 \<le> d \<and> d < k \<and> d * d \<le> v"
  then obtain p where p: "least_factor d p" "is_prime p" using prime_factor_exists by blast
  then have pd: "p dvd d" "p \<le> d" using d by (auto simp: least_factor_def dest: dvd_imp_le)
  then have "p * p \<le> d * d" by (intro mult_le_mono)
  then have "p < k" "p * p \<le> v" using d pd by linarith+
  then show "\<not> d dvd v" using assms p(2) pd(1) by (meson dvd_trans)
qed

lemma least_factor_by_primes:
  assumes "2 \<le> v" "is_prime q" "q dvd v" "\<forall>p. is_prime p \<and> p < q \<longrightarrow> \<not> p dvd v"
  shows "least_factor v q"
proof -
  obtain p where p: "least_factor v p" "is_prime p" using prime_factor_exists[OF assms(1)] by blast
  then have "p dvd v" "p \<le> q" using assms(2,3) by (auto simp: least_factor_def is_prime_def)
  then have "p = q" using assms(4) p(2) by (meson le_neq_implies_less)
  then show ?thesis using p(1) by simp
qed

lemma base_last:
  assumes "base_ok st qs" "qs \<noteq> []"
  shows "crep (last (primeBase st)) (last qs)" "primeBase st \<noteq> []"
proof -
  have l: "list_all2 crep (primeBase st) qs" using assms(1) by (simp add: base_ok_def bases_def)
  then show ne: "primeBase st \<noteq> []" using assms(2) by auto
  have len: "length (primeBase st) = length qs" using l by (rule list_all2_lengthD)
  then show "crep (last (primeBase st)) (last qs)"
    using l assms(2) ne by (simp add: last_conv_nth list_all2_nthD)
qed

lemma sorted_le_last: "sorted xs \<Longrightarrow> x \<in> set xs \<Longrightarrow> x \<le> last xs"
  by (induction xs) auto

lemma firstFactor_rep:
  assumes ok: "base_ok st qs" and n: "crep n v" "v < 2 ^ 62" "2 \<le> v"
  shows "\<exists>r w. firstFactor st n = Some (Inr r) \<and> crep r w \<and> least_factor v w"
proof -
  have vr: "v < radix" using n(2) by (simp add: radix_def)
  note c = num_less_c[OF n(1) crep_2] even_rep[OF n(1) vr]
  have ok': "bases (primeBase st) qs" "sorted qs" "\<forall>q \<in> set qs. 0 < q \<and> q < 2 ^ 32"
    using ok by (auto simp: base_ok_def is_prime_def)
  show ?thesis
  proof (cases "even v")
    case True
    then have "least_factor v 2" by (auto simp: least_factor_def)
    moreover have "firstFactor st n = Some (Inr (num_int 2))" using c True n(3) by (simp add: firstFactor_def)
    ultimately show ?thesis using crep_2 by blast
  next
    case odd: False
    obtain f where f: "factor_trial n (primeBase st) = Inr f" and fs: "case f of
        Some p \<Rightarrow> \<exists>q \<in> set qs. crep p q \<and> q dvd v \<and> (\<forall>r \<in> set qs. r < q \<longrightarrow> \<not> r dvd v)
      | None \<Rightarrow> \<forall>q \<in> set qs. q * q \<le> v \<longrightarrow> \<not> q dvd v"
      using factor_trial_rep[OF ok'(1,2) n(1) vr ok'(3)] by blast
    show ?thesis
    proof (cases f)
      case (Some p)
      then obtain q where q: "q \<in> set qs" "crep p q" "q dvd v" "\<forall>r \<in> set qs. r < q \<longrightarrow> \<not> r dvd v" using fs by auto
      have "q \<le> last qs" using ok'(2) q(1) by (rule sorted_le_last)
      have "\<not> p dvd v" if "is_prime p" "p < q" for p
      proof -
        have "p \<le> last qs" using that(2) \<open>q \<le> last qs\<close> by simp
        then have "p \<in> set qs" using ok q(1) that(1) unfolding base_ok_def by (metis empty_iff empty_set)
        then show ?thesis using q(4) that(2) by simp
      qed
      moreover have "is_prime q" using ok q(1) by (simp add: base_ok_def)
      ultimately have "least_factor v q" using least_factor_by_primes[OF n(3) _ q(3)] by blast
      moreover have "firstFactor st n = Some (Inr p)" using c odd n(3) f Some by (simp add: firstFactor_def)
      ultimately show ?thesis using q(2) by blast
    next
      case None
      then have qs: "\<forall>q \<in> set qs. q * q \<le> v \<longrightarrow> \<not> q dvd v" using fs by simp
      obtain start k where st: "(if primeBase st = [] then Inr (num_int 3) else num_plus (last (primeBase st)) (num_int 2)) = Inr start"
        "crep start k" "odd k" "3 \<le> k" "k < 2 ^ 33"
        and nodiv: "\<forall>d. 2 \<le> d \<and> d < k \<and> d * d \<le> v \<longrightarrow> \<not> d dvd v"
      proof (cases "qs = []")
        case True
        then have "primeBase st = []" using ok by (simp add: base_ok_def bases_def)
        moreover have "\<not> d dvd v" if "2 \<le> d" "d < 3" for d using that odd by (cases "d = 2") auto
        ultimately show ?thesis using that[of "num_int 3" 3] crep_3 by auto
      next
        case False
        let ?l = "last qs"
        have l: "crep (last (primeBase st)) ?l" "primeBase st \<noteq> []" using base_last[OF ok False] by blast+
        have lo: "odd ?l" "?l < 2 ^ 32" "is_prime ?l" using ok False by (auto simp: base_ok_def)
        obtain s where s: "num_plus (last (primeBase st)) (num_int 2) = Inr s" "crep s (?l + 2)"
          using num_plus_c[OF l(1) crep_2] by blast
        have "\<not> p dvd v" if "is_prime p" "p < ?l + 2" "p * p \<le> v" for p
        proof (cases "p \<le> ?l")
          case True
          then show ?thesis using ok False that qs by (auto simp: base_ok_def)
        next
          case False
          then have "p = ?l + 1" using that(2) by simp
          then have "even p" using lo(1) by simp
          then show ?thesis using odd by (meson dvd_trans)
        qed
        then have "\<forall>d. 2 \<le> d \<and> d < ?l + 2 \<and> d * d \<le> v \<longrightarrow> \<not> d dvd v" by (intro no_divisor_below) blast
        then show ?thesis using that[of s "?l + 2"] s l(2) lo by (simp add: is_prime_def)
      qed
      have "k < radix" using st(5) by (simp add: radix_def)
      then have "mod_is start 2 0 = Inr False" using even_rep[OF st(2)] st(3) by simp
      then have "firstFactor st n = factor_loop n start" using c odd n(3) f None st(1) by (simp add: firstFactor_def)
      then show ?thesis using factor_loop_rep[OF n(1,2) odd n(3) st(2-4) nodiv st(5)] by simp
    qed
  qed
qed

lemma isPrimeTD_rep:
  assumes ok: "base_ok st qs" and n: "crep n v" "v < 2 ^ 62"
  shows "isPrimeTD st n = Some (Inr (is_prime v))"
proof -
  have vr: "v < radix" using n(2) by (simp add: radix_def)
  note c = num_less_c[OF n(1) crep_2] num_eq_c[OF n(1) crep_2] even_rep[OF n(1) vr]
  consider "v < 2" | "v = 2" | "2 < v" "even v" | "2 < v" "odd v" by linarith
  then show ?thesis
  proof cases
    case 1
    then show ?thesis using c by (simp add: isPrimeTD_def is_prime_def)
  next
    case 2
    have "is_prime 2" by (simp add: is_prime_iff) (auto dest: dvd_imp_le)
    then show ?thesis using 2 c by (simp add: isPrimeTD_def)
  next
    case 3
    then have "\<not> is_prime v" by (auto simp: is_prime_def)
    then show ?thesis using 3 c by (simp add: isPrimeTD_def)
  next
    case 4
    obtain r w where r: "firstFactor st n = Some (Inr r)" "crep r w" "least_factor v w"
      using firstFactor_rep[OF ok n] 4 by auto
    have "w = v \<longleftrightarrow> is_prime v"
    proof
      show "is_prime v" if "w = v" using least_factor_prime[of v] r(3) that 4 by simp
      show "w = v" if "is_prime v" using r(3) that by (auto simp: least_factor_def is_prime_def)
    qed
    then show ?thesis using r 4 c num_eq_c[OF r(2) n(1)] by (simp add: isPrimeTD_def)
  qed
qed

section \<open>The prime base\<close>

lemma two_prime: "is_prime 2"
  by (simp add: is_prime_iff) (auto dest: dvd_imp_le)

lemma three_prime: "is_prime 3"
proof -
  have "\<not> d dvd 3" if "2 \<le> d" "d * d \<le> 3" for d :: nat
  proof -
    have "d < 2" using that(2) mult_le_mono[of 2 d 2 d] by linarith
    then show ?thesis using that(1) by simp
  qed
  then show ?thesis unfolding is_prime_iff by (auto simp: not_le[symmetric])
qed

lemma even_prime: "is_prime p \<Longrightarrow> even p \<Longrightarrow> p = 2"
  by (auto simp: is_prime_def)

lemma primes_upto_mem: "p \<in> set (primes_upto n) \<longleftrightarrow> is_prime p \<and> p \<le> n"
  by (auto simp: primes_upto_def is_prime_def)

lemma primes_upto_sorted: "sorted_wrt (<) (primes_upto n)"
  unfolding primes_upto_def by (intro sorted_wrt_filter sorted_wrt_upt)

lemma prime_bases: "n < 2 ^ 32 \<Longrightarrow> bases (map (\<lambda>i. num_int (int i)) (primes_upto n)) (primes_upto n)"
  unfolding bases_def list_all2_conv_all_nth
proof (intro conjI allI impI)
  fix i assume n: "n < 2 ^ 32" and i: "i < length (map (\<lambda>i. num_int (int i)) (primes_upto n))"
  then have "primes_upto n ! i \<in> set (primes_upto n)" by (intro nth_mem) simp
  then have "primes_upto n ! i \<le> n" by (simp add: primes_upto_mem)
  then show "crep (map (\<lambda>i. num_int (int i)) (primes_upto n) ! i) (primes_upto n ! i)"
    using i n crep_int[of "int (primes_upto n ! i)"] by simp
qed simp

lemma bases_take: "bases ps qs \<Longrightarrow> bases (take k ps) (take k qs)"
  by (simp add: bases_def list_all2_takeI)

lemma take_closed:
  fixes xs :: "nat list"
  assumes "sorted_wrt (<) xs" "take k xs \<noteq> []" "x \<in> set xs" "x \<le> last (take k xs)"
  shows "x \<in> set (take k xs)"
proof (rule ccontr)
  assume "x \<notin> set (take k xs)"
  then have "x \<in> set (drop k xs)" using assms(3) by (metis append_take_drop_id set_append Un_iff)
  moreover have "sorted_wrt (<) (take k xs @ drop k xs)" using assms(1) by simp
  ultimately have "last (take k xs) < x" using assms(2) last_in_set[of "take k xs"] unfolding sorted_wrt_append by blast
  then show False using assms(4) by simp
qed

lemma initPrimality_base:
  assumes "2 \<le> sz" "sz * 10 \<le> sieve_max"
  shows "\<exists>st'. initPrimality sz st = Inr st' \<and> base_ok st' (take (nat sz) (primes_upto (nat (sz * 10))))
    \<and> maxPrime st' = last (primeBase st')"
proof -
  define n qs ps where "n = nat (sz * 10)" and "qs = primes_upto n" and "ps = map (\<lambda>i. num_int (int i)) qs"
  have n: "n < 2 ^ 32" "3 \<le> n" "1 \<le> sz * 10" using assms by (simp_all add: n_def sieve_max_def)
  have s: "sorted_wrt (<) qs" by (simp add: qs_def primes_upto_sorted)
  have mem: "2 \<in> set qs" "3 \<in> set qs" using n two_prime three_prime by (simp_all add: qs_def primes_upto_mem)
  define ts where "ts = take (nat sz) qs"
  have ne: "ts \<noteq> []" using mem assms(1) by (auto simp: ts_def)
  have sub: "is_prime q \<and> q < 2 ^ 32" if "q \<in> set ts" for q
    using that n(1) unfolding ts_def by (auto dest!: in_set_takeD simp: qs_def primes_upto_mem)
  have lt: "last ts \<in> set ts" using ne by simp
  have closed: "p \<in> set ts" if "is_prime p" "p \<le> last ts" for p
  proof -
    have "last ts \<le> n" using lt unfolding ts_def by (auto dest!: in_set_takeD simp: qs_def primes_upto_mem)
    then have "p \<in> set qs" using that by (simp add: qs_def primes_upto_mem)
    then show ?thesis using take_closed[OF s] ne that(2) by (simp add: ts_def)
  qed
  have "odd (last ts)"
  proof
    assume "even (last ts)"
    then have two: "last ts = 2" using sub[OF lt] even_prime by blast
    have sorted: "sorted_wrt (<) ts" using s by (simp add: ts_def sorted_wrt_take)
    have "set ts \<subseteq> {2}"
    proof
      fix q assume q: "q \<in> set ts"
      have "q \<le> last ts" using sorted q by (intro sorted_le_last) (simp_all add: strict_sorted_iff)
      then show "q \<in> {2}" using two sub[OF q] by (auto simp: is_prime_def)
    qed
    moreover have "distinct ts" using sorted by (simp add: strict_sorted_iff)
    ultimately have "length ts \<le> 1" by (metis card_mono card.empty card_insert_disjoint distinct_card empty_iff finite.emptyI finite.insertI One_nat_def)
    then have "length qs \<le> 1" using assms(1) by (simp add: ts_def)
    then show False using mem by (cases qs; cases "tl qs") auto
  qed
  then have base: "base_ok \<lparr>primeBase = take (nat sz) ps, maxPrime = last (take (nat sz) ps)\<rparr> ts"
    using bases_take[OF prime_bases[OF n(1)], of "nat sz"] s sub closed ne
    by (simp add: base_ok_def ps_def qs_def ts_def take_map sorted_wrt_take strict_sorted_iff)
  have cut: "(if int (length ps) > sz then take (nat sz) ps else ps) = take (nat sz) ps" using assms(1) by simp
  have ne': "take (nat sz) ps \<noteq> []" using ne by (simp add: ps_def ts_def)
  have "sieve (sz * 10) = Inr ps" "sz * 10 < 2 ^ 31" using sieve_primes[OF n(3) assms(2)] assms(2) by (simp_all add: ps_def qs_def n_def sieve_max_def)
  then have "initPrimality sz st = Inr \<lparr>primeBase = take (nat sz) ps, maxPrime = last (take (nat sz) ps)\<rparr>"
    using cut ne' by (simp add: initPrimality_def Let_def)
  then show ?thesis using base unfolding ts_def qs_def n_def by simp
qed

section \<open>Fermat's little theorem\<close>

lemma prime_coprime:
  assumes "is_prime p" "\<not> p dvd a"
  shows "coprime p (a :: nat)"
proof -
  have "gcd p a dvd p" by simp
  then have "gcd p a = 1 \<or> gcd p a = p" using assms(1) unfolding is_prime_def by blast
  then show ?thesis using assms(2) by (metis coprime_iff_gcd_eq_1 gcd_dvd2)
qed

lemma euclid: "is_prime p \<Longrightarrow> p dvd a * b \<longleftrightarrow> p dvd a \<or> p dvd (b :: nat)"
  using coprime_dvd_mult_right_iff[OF prime_coprime, of p a b] by auto

lemma prime_dvd_fact: "is_prime p \<Longrightarrow> p dvd fact n \<Longrightarrow> p \<le> n"
proof (induction n)
  case 0
  then show ?case by (auto simp: is_prime_def)
next
  case (Suc n)
  then have "p dvd Suc n \<or> p dvd fact n" using euclid[of p "Suc n" "fact n"] by (simp only: fact_Suc of_nat_id)
  then show ?case using Suc by (auto dest: dvd_imp_le)
qed

lemma prime_dvd_choose:
  assumes "is_prime p" "0 < k" "k < p"
  shows "p dvd (p choose k)"
proof -
  have "fact k * fact (p - k) * (p choose k) = (fact p :: nat)" using assms(3) by (intro binomial_fact_lemma) simp
  moreover have "p dvd fact p" using assms by (intro dvd_fact) auto
  ultimately have "p dvd fact k * (fact (p - k) * (p choose k))" by (simp only: mult.assoc)
  then show ?thesis using euclid[OF assms(1)] prime_dvd_fact[OF assms(1)] assms(2,3) by (metis diff_less leD less_trans)
qed

lemma fermat_power:
  assumes "is_prime p"
  shows "a ^ p mod p = a mod (p :: nat)"
proof (induction a)
  case 0
  then show ?case using assms by (simp add: is_prime_def zero_power)
next
  case (Suc a)
  have p: "0 < p" using assms by (simp add: is_prime_def)
  have "p dvd (\<Sum>k \<in> {0<..<p}. (p choose k) * a ^ k)"
    using prime_dvd_choose[OF assms] by (intro dvd_sum) auto
  moreover have "(\<Sum>k \<le> p. (p choose k) * a ^ k) = 1 + a ^ p + (\<Sum>k \<in> {0<..<p}. (p choose k) * a ^ k)"
  proof -
    have "{..p} = insert 0 (insert p {0<..<p})" using p by auto
    then show ?thesis using p by simp
  qed
  moreover have "(Suc a) ^ p = (\<Sum>k \<le> p. (p choose k) * a ^ k)"
    using binomial_ring[of a 1 p] by simp
  ultimately obtain c where "Suc a ^ p = 1 + a ^ p + p * c" by (metis dvdE)
  then have "Suc a ^ p mod p = (1 + a ^ p mod p) mod p" by (simp add: mod_Suc_eq)
  then show ?case using Suc by (simp add: mod_Suc_eq)
qed

lemma fermat_little:
  assumes "is_prime p" "\<not> p dvd a"
  shows "a ^ (p - 1) mod p = (1 :: nat)"
proof -
  have p: "2 \<le> p" using assms(1) by (simp add: is_prime_def)
  have ap: "a ^ p = a * a ^ (p - 1)" using p by (cases p) simp_all
  have "0 < a" using assms(2) by (intro Nat.gr0I) auto
  then have one: "1 \<le> a ^ (p - 1)" by simp
  have "(a ^ p) mod p = a mod p" by (rule fermat_power[OF assms(1)])
  then have "p dvd a ^ p - a" using mod_eq_dvd_iff_nat[of a "a ^ p" p] ap one by (metis mult_le_mono2 nat_mult_1_right)
  then have "p dvd a * (a ^ (p - 1) - 1)" using ap by (simp add: diff_mult_distrib2)
  then have "p dvd a ^ (p - 1) - 1" using euclid[OF assms(1)] assms(2) by blast
  then have "a ^ (p - 1) mod p = 1 mod p" using mod_eq_dvd_iff_nat[OF one, of p] by simp
  then show ?thesis using p by simp
qed

text \<open>A square root of 1 modulo a prime is 1 or -1.\<close>

lemma prime_sqrt_one:
  assumes "is_prime p" "x * x mod p = 1" "x < p"
  shows "x = 1 \<or> x = p - (1 :: nat)"
proof -
  have p: "2 \<le> p" using assms(1) by (simp add: is_prime_def)
  have "0 < x" using assms(2) by (intro Nat.gr0I) auto
  then obtain y where y: "x = Suc y" by (cases x) auto
  have "x * x mod p = 1 mod p" using assms(2) p by simp
  then have "p dvd x * x - 1" using mod_eq_dvd_iff_nat[of 1 "x * x" p] \<open>0 < x\<close> by simp
  moreover have "x * x - 1 = y * (y + 2)" using y by simp
  ultimately have "p dvd y \<or> p dvd y + 2" using euclid[OF assms(1)] by metis
  then show ?thesis
  proof
    assume "p dvd y"
    then have "y = 0" using assms(3) y by (auto dest: dvd_imp_le)
    then show ?thesis using y by simp
  next
    assume "p dvd y + 2"
    then have "p \<le> y + 2" by (intro dvd_imp_le) simp_all
    then show ?thesis using assms(3) y by auto
  qed
qed

lemma strong_pseudoprime:
  assumes "is_prime p" "a ^ (d * 2 ^ r) mod p = 1"
  shows "a ^ d mod p = 1 \<or> (\<exists>i < r. a ^ (d * 2 ^ i) mod p = p - (1 :: nat))"
  using assms(2)
proof (induction r)
  case (Suc r)
  define x where "x = a ^ (d * 2 ^ r) mod p"
  have p: "2 \<le> p" using assms(1) by (simp add: is_prime_def)
  have "a ^ (d * 2 ^ Suc r) = a ^ (d * 2 ^ r) * a ^ (d * 2 ^ r)" by (simp add: mult.assoc mult_2 distrib_left flip: power_add)
  then have "x * x mod p = 1" using Suc.prems by (simp add: x_def mod_mult_eq)
  then have "x = 1 \<or> x = p - 1" using prime_sqrt_one[OF assms(1)] p by (simp add: x_def)
  then show ?case
  proof
    assume "x = 1"
    then show ?case using Suc.IH by (auto simp: x_def less_Suc_eq)
  next
    assume "x = p - 1"
    then show ?case by (auto simp: x_def)
  qed
qed simp


section \<open>The Miller-Rabin test passes every prime\<close>

lemma mr_split_rep:
  assumes "crep n v" "0 < v" "v < radix"
  shows "\<exists>d k s. mr_split n r = Some (Inr (d, r + s)) \<and> crep d k \<and> odd k \<and> v = k * 2 ^ s"
  using assms
proof (induction v arbitrary: n r rule: less_induct)
  case (less v)
  note e = even_rep[OF less.prems(1,3)]
  show ?case
  proof (cases "even v")
    case False
    then show ?thesis using e less.prems(1) by (intro exI[of _ n] exI[of _ v] exI[of _ 0]) (subst mr_split.simps, simp)
  next
    case True
    obtain n' where n': "num_div n (num_int 2) = Inr n'" "crep n' (v div 2)"
      using num_div_c[OF less.prems(1) crep_2 less.prems(3)] by (auto simp: radix_def)
    have "v div 2 < v" "0 < v div 2" "v div 2 < radix" using True less.prems by (auto elim!: evenE)
    then obtain d k s where d: "mr_split n' (r + 1) = Some (Inr (d, r + 1 + s))" "crep d k" "odd k" "v div 2 = k * 2 ^ s"
      using less.IH[OF _ n'(2), of "r + 1"] by blast
    have "mr_split n r = Some (Inr (d, r + Suc s))" using e True n' d(1) by (subst mr_split.simps) simp
    moreover have "v = k * 2 ^ Suc s" using d(4) True by (auto elim!: evenE)
    ultimately show ?thesis using d(2,3) by blast
  qed
qed

lemma mr_square_rep:
  assumes "crep n m" "crep m1 (m - 1)" "1 < m" "m \<le> 2 ^ 32" "crep x y" "y < m"
  shows "mr_square n m1 j x = Some (Inr (\<exists>i \<in> {1..j}. y ^ 2 ^ i mod m = m - 1))"
  using assms(5,6)
proof (induction j arbitrary: x y)
  case (Suc j)
  have yr: "y < radix" "2 < radix" using Suc.prems(2) assms(4) by (simp_all add: radix_def)
  obtain x' where x': "powMod x (num_int 2) n = Some (Inr x')" "crep x' (y ^ 2 mod m)"
    using powMod_rep[OF Suc.prems(1) crep_2 assms(1) yr _ assms(4)] assms(3) by auto
  have IH: "mr_square n m1 j x' = Some (Inr (\<exists>i \<in> {1..j}. (y ^ 2 mod m) ^ 2 ^ i mod m = m - 1))"
    using Suc.IH[OF x'(2)] assms(3) by simp
  have step: "(y ^ 2 mod m) ^ 2 ^ i mod m = y ^ 2 ^ Suc i mod m" for i
    by (simp add: power_mod flip: power_mult)
  have "(\<exists>i \<in> {1..Suc j}. y ^ 2 ^ i mod m = m - 1)
    \<longleftrightarrow> y ^ 2 mod m = m - 1 \<or> (\<exists>i \<in> {1..j}. y ^ 2 ^ Suc i mod m = m - 1)" (is "?l \<longleftrightarrow> ?r")
  proof
    assume ?l
    then obtain i where i: "i \<in> {1..Suc j}" "y ^ 2 ^ i mod m = m - 1" by blast
    show ?r
    proof (cases "i = 1")
      case False
      then show ?thesis using i by (intro disjI2 bexI[of _ "i - 1"]) auto
    qed (use i in simp)
  next
    assume ?r
    then show ?l
    proof
      assume "y ^ 2 mod m = m - 1"
      then show ?l by (intro bexI[of _ 1]) simp_all
    next
      assume "\<exists>i \<in> {1..j}. y ^ 2 ^ Suc i mod m = m - 1"
      then obtain i where "i \<in> {1..j}" "y ^ 2 ^ Suc i mod m = m - 1" by blast
      then show ?l by (intro bexI[of _ "Suc i"]) simp_all
    qed
  qed
  then show ?case using x' IH num_eq_c[OF x'(2) assms(2)] by (auto simp: step simp del: power_Suc)
qed simp

lemma mr_base_rep:
  assumes "crep n v" "5 \<le> v"
  shows "\<exists>a w. mr_base n i = Inr a \<and> crep a w \<and> 2 \<le> w \<and> w < v"
proof -
  define b where "b = (if i < length small_bases then small_bases ! i else 2 + int i mod 100)"
  have "2 \<le> b \<and> b < 2 ^ 63"
  proof (cases "i < length small_bases")
    case True
    have "list_all (\<lambda>b. 2 \<le> b \<and> b < 2 ^ 63) small_bases" by (simp add: small_bases_def)
    then show ?thesis using True by (simp add: b_def list_all_length)
  next
    case False
    have "0 \<le> int i mod 100" "int i mod 100 < 100" by simp_all
    then show ?thesis using False by (simp add: b_def)
  qed
  then have b: "crep (num_int b) (nat b)" "2 \<le> nat b" using crep_int by auto
  show ?thesis
    using num_ge_c[OF b(1) assms(1)] b crep_2 assms(2)
    by (cases "nat b \<ge> v") (auto simp: mr_base_def b_def[symmetric])
qed

lemma mr_round_rep:
  assumes n: "crep n p" "is_prime p" "5 \<le> p" "p < 2 ^ 32" and m1: "crep m1 (p - 1)"
    and d: "crep d k" "p - 1 = k * 2 ^ r"
  shows "mr_round n m1 d r i = Some (Inr True)"
proof -
  obtain a w where a: "mr_base n i = Inr a" "crep a w" "2 \<le> w" "w < p" using mr_base_rep[OF n(1,3)] by blast
  have "\<not> p dvd w" using a(3,4) by (auto dest: dvd_imp_le)
  then have "w ^ (k * 2 ^ r) mod p = 1" using fermat_little[OF n(2)] d(2) by simp
  then have ps: "w ^ k mod p = 1 \<or> (\<exists>i < r. w ^ (k * 2 ^ i) mod p = p - 1)" by (rule strong_pseudoprime[OF n(2)])
  have "k * 1 \<le> p - 1" unfolding d(2) by (intro mult_le_mono) auto
  then have b: "w < radix" "k < radix" "0 < p" "p \<le> 2 ^ 32" "1 < p" using a n(3,4) by (simp_all add: radix_def)
  obtain x where x: "powMod a d n = Some (Inr x)" "crep x (w ^ k mod p)"
    using powMod_rep[OF a(2) d(1) n(1) b(1-4)] by blast
  note c = num_eq_c[OF x(2) crep_1] num_eq_c[OF x(2) m1]
  show ?thesis
  proof (cases "w ^ k mod p = 1 \<or> w ^ k mod p = p - 1")
    case True
    then show ?thesis using a(1) x(1) c by (auto simp: mr_round_def)
  next
    case False
    then obtain j where j: "j < r" "w ^ (k * 2 ^ j) mod p = p - 1" using ps by blast
    have "(w ^ k mod p) ^ 2 ^ j mod p = p - 1" using j(2) by (simp add: power_mod flip: power_mult)
    moreover have "j \<noteq> 0" using j(2) False by (intro notI) simp
    then have "j \<in> {1..r - 1}" using j(1) by simp
    ultimately have "mr_square n m1 (r - 1) x = Some (Inr True)"
      using mr_square_rep[OF n(1) m1 b(5,4) x(2)] b(3) by auto
    then show ?thesis using a(1) x(1) c by (simp add: mr_round_def)
  qed
qed

lemma all_tests_true: "(\<And>x. x \<in> set xs \<Longrightarrow> f x = Some (Inr True)) \<Longrightarrow> all_tests f xs = Some (Inr True)"
  by (induction xs) simp_all

lemma isPrimeMR_prime:
  assumes "crep n p" "p < 2 ^ 32" "is_prime p"
  shows "isPrimeMR n k = Some (Inr True)"
proof -
  have pr: "p < radix" "2 \<le> p" using assms by (simp_all add: radix_def is_prime_def)
  note c = num_less_c[OF assms(1) crep_2] num_eq_c[OF assms(1) crep_2] num_eq_c[OF assms(1) crep_3]
    even_rep[OF assms(1) pr(1)]
  show ?thesis
  proof (cases "p = 2 \<or> p = 3")
    case True
    then show ?thesis using c by (auto simp: isPrimeMR_def)
  next
    case False
    then have odd: "odd p" using even_prime assms(3) by blast
    then have five: "5 \<le> p" using False pr(2) by (cases "p = 4") auto
    obtain m1 where m1: "num_minus n (num_int 1) = Inr m1" "crep m1 (p - 1)"
      using num_minus_c[OF assms(1) crep_1 _ pr(1)] pr(2) by auto
    obtain d k' r where d: "mr_split m1 0 = Some (Inr (d, 0 + r))" "crep d k'" "p - 1 = k' * 2 ^ r"
      using mr_split_rep[OF m1(2), of 0] pr by (auto simp: less_imp_diff_less)
    have "mr_round n m1 d r i = Some (Inr True)" for i
      by (rule mr_round_rep[OF assms(1,3) five assms(2) m1(2) d(2,3)])
    then have "all_tests (mr_round n m1 d r) [0..<nat k] = Some (Inr True)" by (intro all_tests_true) simp
    then show ?thesis using c False odd pr(2) m1(1) d(1) by (simp add: isPrimeMR_def)
  qed
qed

lemma num_int_eq_c: "crep n v \<Longrightarrow> 0 \<le> k \<Longrightarrow> k < 2 ^ 63 \<Longrightarrow> num_eq n (num_int k) = Inr (v = nat k)"
  using num_eq_c[of n v "num_int k" "nat k"] crep_int by simp

lemma isPrimeQR_rep:
  assumes ok: "base_ok st qs" "qs \<noteq> []" "maxPrime st = last (primeBase st)"
    and n: "crep n v" "v < radix" "v < last qs * last qs"
  shows "isPrimeQR st n k = Some (Inr (is_prime v))"
proof -
  note c = num_less_c[OF n(1) crep_2] num_eq_c[OF n(1) crep_2] even_rep[OF n(1,2)]
  have b: "bases (primeBase st) qs" "sorted qs" "\<forall>q \<in> set qs. 0 < q \<and> q < 2 ^ 32"
    using ok(1) by (auto simp: base_ok_def is_prime_def)
  have trial: "qr_trial n (primeBase st) = Inr (\<forall>q \<in> set qs. q * q \<le> v \<longrightarrow> \<not> q dvd v)"
    by (rule qr_trial_rep[OF b(1,2) n(1,2) b(3)])
  consider "v < 2" | "v = 2" | "2 < v" "even v" | "2 < v" "odd v" by linarith
  then show ?thesis
  proof cases
    case 1
    then show ?thesis using c by (simp add: isPrimeQR_def is_prime_def)
  next
    case 2
    then show ?thesis using c two_prime by (simp add: isPrimeQR_def)
  next
    case 3
    then have "\<not> is_prime v" by (auto simp: is_prime_def)
    then show ?thesis using 3 c by (simp add: isPrimeQR_def)
  next
    case 4
    have prime: "(\<forall>q \<in> set qs. q * q \<le> v \<longrightarrow> \<not> q dvd v) \<longleftrightarrow> is_prime v"
    proof
      assume nd: "\<forall>q \<in> set qs. q * q \<le> v \<longrightarrow> \<not> q dvd v"
      have "\<forall>p. is_prime p \<and> p < last qs \<and> p * p \<le> v \<longrightarrow> \<not> p dvd v"
        using ok(1,2) nd by (simp add: base_ok_def)
      then have small: "\<forall>d. 2 \<le> d \<and> d < last qs \<and> d * d \<le> v \<longrightarrow> \<not> d dvd v" by (rule no_divisor_below)
      have "v < d * d" if "2 \<le> d" "d dvd v" for d
      proof (cases "d < last qs")
        case True
        then show ?thesis using small that by (meson not_le)
      next
        case False
        then have "last qs * last qs \<le> d * d" by (intro mult_le_mono) simp_all
        then show ?thesis using n(3) by linarith
      qed
      then show "is_prime v" using 4(1) by (simp add: is_prime_iff)
    next
      assume p: "is_prime v"
      show "\<forall>q \<in> set qs. q * q \<le> v \<longrightarrow> \<not> q dvd v"
      proof (intro ballI impI)
        fix q assume q: "q \<in> set qs" "q * q \<le> v"
        then have "2 \<le> q" using ok(1) by (simp add: base_ok_def is_prime_def)
        then show "\<not> q dvd v" using p q(2) by (simp add: is_prime_iff) (meson not_le)
      qed
    qed
    have l: "crep (last (primeBase st)) (last qs)" using base_last[OF ok(1,2)] by blast
    have lp: "is_prime (last qs)" "last qs < 2 ^ 32" using ok(1,2) by (simp_all add: base_ok_def)
    then have lr: "last qs < radix ^ 49" "last qs \<noteq> 0" "last qs \<noteq> 1" by (auto simp: radix_def is_prime_def)
    obtain s where s: "num_times (last (primeBase st)) (last (primeBase st)) = Inr s" "crep s (last qs * last qs)"
      using num_times_c[OF l l] lr(1) by blast
    show ?thesis
      using c 4 trial prime num_isZero_c[OF l] num_isOne_c[OF l] lr(2,3) s num_less_c[OF n(1) s(2)] n(3)
      by (cases "is_prime v") (simp_all add: isPrimeQR_def ok(3))
  qed
qed

lemma crep_unique: "crep n v \<Longrightarrow> crep n w \<Longrightarrow> v = w"
  by (auto simp: crep_def dest: rep_unique)

text \<open>With a base of the prime 2 only, the search of \<open>firstFactor\<close> starts at 2 + 2, is moved to the odd number 5
  and never tries 3.\<close>

lemma primes_upto_10: "take 1 (primes_upto 10) = [2]"
proof -
  have "[2..<11] = 2 # [3..<11 :: nat]" by (simp add: upt_rec)
  then show ?thesis using two_prime by (simp add: primes_upto_def)
qed

lemma init_one: "initPrimality 1 st = Inr \<lparr>primeBase = [num_int 2], maxPrime = num_int 2\<rparr>"
proof -
  define ps where "ps = map (\<lambda>i. num_int (int i)) (primes_upto 10)"
  have s: "sieve 10 = Inr ps" using sieve_primes[of 10] by (simp add: ps_def sieve_max_def)
  have t: "take 1 ps = [num_int 2]" using primes_upto_10 by (simp add: ps_def take_map)
  have "(if int (length ps) > 1 then take (nat 1) ps else ps) = [num_int 2]"
    using t by (cases ps) auto
  then show ?thesis using s by (simp add: initPrimality_def Let_def)
qed

lemma skips_three: "isPrimeTD \<lparr>primeBase = [num_int 2], maxPrime = num_int 2\<rparr> (num_int 9) = Some (Inr True)"
proof -
  have r: "crep (num_int 9) 9" "(9 :: nat) < radix" "(2 :: nat) < radix" "(4 :: nat) < radix" "(2 :: nat) < radix ^ 49"
    using crep_int[of 9] by (simp_all add: radix_def)
  note c = num_less_c[OF r(1) crep_2] num_eq_c[OF r(1) crep_2] even_rep[OF r(1,2)] num_eq_c[OF r(1) r(1)]
  obtain m where m: "num_mod (num_int 9) (num_int 2) = Inr m" "crep m 1"
    using num_mod_c[OF r(1) crep_2 r(2) _ r(3)] by auto
  obtain s where s: "num_times (num_int 2) (num_int 2) = Inr s" "crep s 4"
    using num_times_c[OF crep_2 crep_2 disjI1[OF r(5)]] by auto
  have t: "factor_trial (num_int 9) [num_int 2] = Inr None"
    using m s num_eq_c[OF m(2) crep_0] num_gt_c[OF s(2) r(1)] by simp
  obtain a where a: "num_plus (num_int 2) (num_int 2) = Inr a" "crep a 4" using num_plus_c[OF crep_2 crep_2] by auto
  obtain b where b: "num_plus a (num_int 1) = Inr b" "crep b 5" using num_plus_c[OF a(2) crep_1] by auto
  have b': "(5 :: nat) < radix ^ 49" by (simp add: radix_def)
  obtain q where q: "num_times b b = Inr q" "crep q 25" using num_times_c[OF b(2,2) disjI1[OF b']] by auto
  have "factor_loop (num_int 9) b = Some (Inr (num_int 9))"
    using q num_le_c[OF q(2) r(1)] by (subst factor_loop.simps) simp
  then have "firstFactor \<lparr>primeBase = [num_int 2], maxPrime = num_int 2\<rparr> (num_int 9) = Some (Inr (num_int 9))"
    using c t a b even_rep[OF a(2) r(4)] by (simp add: firstFactor_def del: factor_trial.simps)
  then show ?thesis using c by (simp add: isPrimeTD_def)
qed

section \<open>Properties\<close>

text \<open>C21: After \<open>initPrimality(size)\<close> with \<open>size\<close> from 2 and ten times \<open>size\<close> at most \<open>2 ^ 31 - 1 - 46340\<close>, \<open>isPrimeTD\<close> ends and decides primality for
  every unsigned number below \<open>2 ^ 62\<close>.\<close>

theorem isPrimeTD_exact:
  assumes "2 \<le> sz" "sz * 10 \<le> sieve_max" "initPrimality sz st = Inr st'" "crep n v" "v < 2 ^ 62"
  shows "isPrimeTD st' n = Some (Inr (is_prime v))"
proof -
  obtain qs where "base_ok st' qs" using initPrimality_base[OF assms(1,2), of st] assms(3) by auto
  then show ?thesis by (rule isPrimeTD_rep[OF _ assms(4,5)])
qed

lemma init_exists: "\<exists>st'. initPrimality 2 st = Inr st'"
  using initPrimality_base[of 2 st] by auto

theorem isPrimeTD_exact_witness:
  "\<exists>st'. initPrimality 2 prime_start = Inr st' \<and> isPrimeTD st' (num_int 2) = Some (Inr True)"
proof -
  obtain st' where st': "initPrimality 2 prime_start = Inr st'" using init_exists by blast
  have "isPrimeTD st' (num_int 2) = Some (Inr (is_prime 2))"
    by (rule isPrimeTD_exact[OF _ _ st' crep_2]) simp_all
  then show ?thesis using st' two_prime by simp
qed

text \<open>C22: \<open>sieve(lim)\<close> returns the primes up to \<open>lim\<close>, each once and in order, for every \<open>lim\<close> from 1 to
  \<open>2 ^ 31 - 1 - 46340\<close>, where no index overflows.\<close>

theorem sieve_exact:
  assumes "1 \<le> mx" "mx \<le> sieve_max"
  shows "sieve mx = Inr (map (\<lambda>i. num_int (int i)) (filter is_prime [2..<nat mx + 1]))"
  using sieve_primes[OF assms] by (simp add: primes_upto_def)

lemma sieve_exact_witness: "sieve 30 = Inr (map (\<lambda>i. num_int (int i)) (filter is_prime [2..<31]))"
  using sieve_exact[of 30] by (simp add: sieve_max_def)

text \<open>\<open>powMod\<close> ends and computes \<open>b ^ e mod m\<close>, for every modulus up to \<open>2 ^ 32\<close>: the products stay below
  one digit, where the division is exact.\<close>

theorem powMod_exact:
  assumes "crep b v" "crep e k" "crep md m" "v < radix" "k < radix" "0 < m" "m \<le> 2 ^ 32"
  shows "\<exists>r. powMod b e md = Some (Inr r) \<and> crep r (v ^ k mod m)"
  by (rule powMod_rep[OF assms])

lemma powMod_exact_witness:
  "\<exists>r. powMod (num_int 2) (num_int 3) (num_int 1) = Some (Inr r) \<and> crep r (2 ^ 3 mod 1)"
  by (rule powMod_exact[OF crep_2 crep_3 crep_1]) (simp_all add: radix_def)

text \<open>\<open>firstFactor\<close> ends and returns the least factor greater than 1 of every number from 2 below \<open>2 ^ 62\<close>, after
  \<open>initPrimality(size)\<close> with a size from 2.\<close>

theorem firstFactor_exact:
  assumes "2 \<le> sz" "sz * 10 \<le> sieve_max" "initPrimality sz st = Inr st'" "crep n v" "v < 2 ^ 62" "2 \<le> v"
  shows "\<exists>r w. firstFactor st' n = Some (Inr r) \<and> crep r w \<and> 2 \<le> w \<and> w dvd v \<and> (\<forall>d. 2 \<le> d \<and> d dvd v \<longrightarrow> w \<le> d)"
proof -
  obtain qs where "base_ok st' qs" using initPrimality_base[OF assms(1,2), of st] assms(3) by auto
  then show ?thesis using firstFactor_rep[OF _ assms(4-6)] by (simp add: least_factor_def)
qed

lemma firstFactor_exact_witness:
  "\<exists>st' r w. initPrimality 2 prime_start = Inr st' \<and> firstFactor st' (num_int 3) = Some (Inr r) \<and> crep r w \<and> w dvd 3"
proof -
  obtain st' where st': "initPrimality 2 prime_start = Inr st'" using init_exists by blast
  show ?thesis using firstFactor_exact[OF _ _ st' crep_3] st' by auto
qed

text \<open>C23: After \<open>initPrimality(sz)\<close>, with \<open>sz\<close> from 2 and \<open>sz * 10\<close> within the bound of the sieve, the quadratic reciprocity test decides
  primality of every number below \<open>2 ^ 64\<close> that is less than the square of the largest prime of the base, whatever number of tests
  it is asked for.\<close>

theorem isPrimeQR_exact:
  assumes "2 \<le> sz" "sz * 10 \<le> sieve_max" "initPrimality sz st = Inr st'" "crep (maxPrime st') w"
    and "crep n v" "v < 2 ^ 64" "v < w * w"
  shows "isPrimeQR st' n k = Some (Inr (is_prime v))"
proof -
  obtain qs where ok: "base_ok st' qs" "qs = take (nat sz) (primes_upto (nat (sz * 10)))" "maxPrime st' = last (primeBase st')"
    using initPrimality_base[OF assms(1,2), of st] assms(3) by auto
  have "2 \<in> set (primes_upto (nat (sz * 10)))" using two_prime assms(1) by (simp add: primes_upto_mem)
  then have ne: "qs \<noteq> []" using assms(1) unfolding ok(2) by auto
  have "w = last qs" using base_last(1)[OF ok(1) ne] assms(4) by (simp add: ok(3) crep_unique)
  then show ?thesis using isPrimeQR_rep[OF ok(1) ne ok(3) assms(5)] assms(6,7) by (simp add: radix_def)
qed

lemma isPrimeQR_exact_witness:
  "\<exists>st'. initPrimality 2 prime_start = Inr st' \<and> isPrimeQR st' (num_int 3) 10 = Some (Inr True)"
proof -
  obtain st' where ok: "initPrimality 2 prime_start = Inr st'"
      "base_ok st' (take (nat 2) (primes_upto (nat (2 * 10))))" "maxPrime st' = last (primeBase st')"
    using initPrimality_base[of 2 prime_start] by auto
  let ?qs = "take (nat 2) (primes_upto (nat (2 * 10)))"
  have "2 \<in> set (primes_upto 20)" using two_prime by (simp add: primes_upto_mem)
  then have ne: "?qs \<noteq> []" by auto
  have w: "crep (maxPrime st') (last ?qs)" using base_last(1)[OF ok(2) ne] ok(3) by simp
  have "is_prime (last ?qs)" using ok(2) ne last_in_set by (simp add: base_ok_def)
  then have "2 * 2 \<le> last ?qs * last ?qs" unfolding is_prime_def by (intro mult_le_mono) simp_all
  then have "3 < last ?qs * last ?qs" by linarith
  then have "isPrimeQR st' (num_int 3) 10 = Some (Inr (is_prime 3))"
    using isPrimeQR_exact[OF _ _ ok(1) w crep_3, of 10] by simp
  then show ?thesis using ok(1) three_prime by simp
qed

text \<open>C24: The Miller-Rabin test never rejects a prime below \<open>2 ^ 32\<close>, for any number of rounds.\<close>

theorem isPrimeMR_accepts_primes:
  assumes "crep n p" "p < 2 ^ 32" "is_prime p"
  shows "isPrimeMR n k = Some (Inr True)"
  by (rule isPrimeMR_prime[OF assms])

lemma isPrimeMR_accepts_primes_witness: "isPrimeMR (num_int 3) 5 = Some (Inr True)"
  by (rule isPrimeMR_accepts_primes[OF crep_3 _ three_prime]) simp

text \<open>With a base of one prime \<open>isPrimeTD\<close> takes 9 for a prime: \<open>firstFactor\<close> continues at the last prime
  of the base plus 2, made odd, and so skips 3.\<close>

theorem isPrimeTD_skips_three:
  "\<exists>st. initPrimality 1 prime_start = Inr st \<and> isPrimeTD st (num_int 9) = Some (Inr True) \<and> 3 dvd (9 :: nat)"
  using init_one skips_three by simp

end
