(* ===== verification/FirstPrimes.thy ===== *)
theory FirstPrimes
  imports FirstInteger Primes
begin

text \<open>
  \<open>cpp/lib/BigPrime.h\<close>: the primality tests of the first generation, where \<open>BigNumber\<close> is an alias of the first
  \<open>BigInteger\<close> (\<open>cpp/lib/BigNumber.h\<close>). The text is that of \<open>bign/BigPrime.h\<close>; the operators are other ones. An \<open>int\<close>
  argument is converted to \<open>digit\<close>, and \<open>>>\<close> is that of \<open>BigCardinal\<close>.
\<close>

section \<open>Sieve and state\<close>

definition fi_int :: "int \<Rightarrow> fint" where
  "fi_int n = fi_digit (word_of_int n)"

definition fp_sieve :: "int \<Rightarrow> error + fint list" where
  "fp_sieve mx = rbind (sieve_flags mx) (\<lambda>s.
     Inr (map (\<lambda>i. fi_int (int i)) (filter (\<lambda>i. s ! i) [2..<nat mx + 1])))"

record fprime_state =
  fprimeBase :: "fint list"
  fmaxPrime :: fint

definition fp_start :: fprime_state where
  "fp_start = \<lparr>fprimeBase = [], fmaxPrime = fi_new\<rparr>"

definition fp_initPrimality :: "int \<Rightarrow> fprime_state \<Rightarrow> error + fprime_state" where
  "fp_initPrimality sz st = rbind (if - (2 ^ 31) \<le> sz * 10 \<and> sz * 10 < 2 ^ 31 then fp_sieve (sz * 10) else Inl Undefined) (\<lambda>ps.
     let ps = (if int (length ps) > sz then take (nat sz) ps else ps)
     in Inr (if ps \<noteq> [] then \<lparr>fprimeBase = ps, fmaxPrime = last ps\<rparr> else st\<lparr>fprimeBase := ps\<rparr>))"

section \<open>Modular arithmetic\<close>

definition fp_mod_is :: "fint \<Rightarrow> int \<Rightarrow> int \<Rightarrow> error + bool" where
  "fp_mod_is n k j = rbind (fi_mod n (fi_int k)) (\<lambda>m. Inr (fi_eq m (fi_int j)))"

definition fp_mod_times :: "fint \<Rightarrow> fint \<Rightarrow> fint \<Rightarrow> error + fint" where
  "fp_mod_times a b m = rbind (fi_mul a b) (\<lambda>p. fi_mod p m)"

definition fp_half :: "fint \<Rightarrow> (error + fint) option" where
  "fp_half e = obind (fc_shr (fmag e) (fc_digit 1)) (\<lambda>c. Some (Inr (fi_card c)))"

partial_function (option) fp_powMod_loop :: "fint \<Rightarrow> fint \<Rightarrow> fint \<Rightarrow> fint \<Rightarrow> (error + fint) option" where
  "fp_powMod_loop m r base e = (if fi_isZero e then Some (Inr r)
     else obind (Some (fp_mod_is e 2 1)) (\<lambda>o1.
          obind (Some (if o1 then fp_mod_times r base m else Inr r)) (\<lambda>r.
          obind (fp_half e) (\<lambda>e.
          obind (Some (fp_mod_times base base m)) (\<lambda>base. fp_powMod_loop m r base e)))))"

definition fp_powMod :: "fint \<Rightarrow> fint \<Rightarrow> fint \<Rightarrow> (error + fint) option" where
  "fp_powMod b e m = (if fi_eq m (fi_int 1) then Some (Inr (fi_int 0))
     else obind (Some (fi_mod b m)) (\<lambda>base. fp_powMod_loop m (fi_int 1) base e))"

partial_function (option) fp_jacobi_twos :: "fint \<Rightarrow> fint \<Rightarrow> int \<Rightarrow> (error + fint \<times> int) option" where
  "fp_jacobi_twos aMod nCopy r = obind (Some (fp_mod_is aMod 2 0)) (\<lambda>even.
     if \<not> even then Some (Inr (aMod, r))
     else obind (Some (fi_div aMod (fi_int 2))) (\<lambda>aMod.
          obind (Some (fi_mod nCopy (fi_int 8))) (\<lambda>nMod8.
            fp_jacobi_twos aMod nCopy (if fi_eq nMod8 (fi_int 3) \<or> fi_eq nMod8 (fi_int 5) then - r else r))))"

partial_function (option) fp_jacobi_loop :: "fint \<Rightarrow> fint \<Rightarrow> int \<Rightarrow> (error + fint \<times> int) option" where
  "fp_jacobi_loop aMod nCopy r = (if fi_isZero aMod then Some (Inr (nCopy, r))
     else obind (fp_jacobi_twos aMod nCopy r) (\<lambda>(temp, r).
          obind (Some (fp_mod_is nCopy 4 3)) (\<lambda>a3.
          obind (Some (if a3 then fp_mod_is temp 4 3 else Inr False)) (\<lambda>flip.
          obind (Some (fi_mod nCopy temp)) (\<lambda>aMod.
            fp_jacobi_loop aMod temp (if flip then - r else r))))))"

definition fp_jacobiBig :: "fint \<Rightarrow> fint \<Rightarrow> (error + int) option" where
  "fp_jacobiBig a n = obind (Some (if fi_le n (fi_int 0) then Inr True else fp_mod_is n 2 0)) (\<lambda>bad. if bad then Some (Inr 0)
     else obind (Some (fi_mod a n)) (\<lambda>x. obind (Some (fi_add x n)) (\<lambda>x. obind (Some (fi_mod x n)) (\<lambda>aMod.
          obind (fp_jacobi_loop aMod n 1) (\<lambda>(nCopy, r). Some (Inr (if fi_eq nCopy (fi_int 1) then r else 0)))))))"

definition fp_leg2Big :: "fint \<Rightarrow> error + int" where
  "fp_leg2Big n = rbind (fi_mod n (fi_int 8)) (\<lambda>x. rbind (fi_add x (fi_int 8)) (\<lambda>x.
     rbind (fi_mod x (fi_int 8)) (\<lambda>m8.
     if fi_eq m8 (fi_int 1) \<or> fi_eq m8 (fi_int 7) then Inr 1
     else if fi_eq m8 (fi_int 3) \<or> fi_eq m8 (fi_int 5) then Inr (-1) else Inr 0)))"

section \<open>Trial division\<close>

fun fp_qr_trial :: "fint \<Rightarrow> fint list \<Rightarrow> error + bool" where
  "fp_qr_trial n [] = Inr True"
| "fp_qr_trial n (p # ps) = rbind (fi_mul p p) (\<lambda>pSquared.
     if fi_less n pSquared then Inr True
     else rbind (fi_mod n p) (\<lambda>m. if fi_eq m (fi_int 0) then Inr False else fp_qr_trial n ps))"

fun fp_factor_trial :: "fint \<Rightarrow> fint list \<Rightarrow> error + fint option" where
  "fp_factor_trial n [] = Inr None"
| "fp_factor_trial n (p # ps) = rbind (fi_mod n p) (\<lambda>m.
     if fi_eq m (fi_int 0) then Inr (Some p)
     else rbind (fi_mul p p) (\<lambda>pSquared. if fi_less n pSquared then Inr None else fp_factor_trial n ps))"

partial_function (option) fp_factor_loop :: "fint \<Rightarrow> fint \<Rightarrow> (error + fint) option" where
  "fp_factor_loop n i = obind (Some (fi_mul i i)) (\<lambda>sq.
     if \<not> fi_le sq n then Some (Inr n)
     else obind (Some (fi_mod n i)) (\<lambda>m.
       if fi_eq m (fi_int 0) then Some (Inr i) else obind (Some (fi_add i (fi_int 2))) (\<lambda>i. fp_factor_loop n i)))"

definition fp_firstFactor :: "fprime_state \<Rightarrow> fint \<Rightarrow> (error + fint) option" where
  "fp_firstFactor st n = (if fi_less n (fi_int 2) then Some (Inr (fi_int 0))
     else obind (Some (fp_mod_is n 2 0)) (\<lambda>even. if even then Some (Inr (fi_int 2))
     else obind (Some (fp_factor_trial n (fprimeBase st))) (\<lambda>f. case f of Some p \<Rightarrow> Some (Inr p)
     | None \<Rightarrow>
       obind (Some (if fprimeBase st = [] then Inr (fi_int 3) else fi_add (last (fprimeBase st)) (fi_int 2))) (\<lambda>start.
       obind (Some (fp_mod_is start 2 0)) (\<lambda>even.
       obind (Some (if even then fi_add start (fi_int 1) else Inr start)) (\<lambda>start. fp_factor_loop n start))))))"

definition fp_isPrimeTD :: "fprime_state \<Rightarrow> fint \<Rightarrow> (error + bool) option" where
  "fp_isPrimeTD st n = (if fi_less n (fi_int 2) then Some (Inr False)
     else if fi_eq n (fi_int 2) then Some (Inr True)
     else obind (Some (fp_mod_is n 2 0)) (\<lambda>even. if even then Some (Inr False)
     else obind (fp_firstFactor st n) (\<lambda>f. Some (Inr (fi_eq f n)))))"

section \<open>The test by quadratic reciprocity\<close>

definition fp_euler_sign :: "fint \<Rightarrow> fint \<Rightarrow> int" where
  "fp_euler_sign e m1 = (if fi_eq e m1 then -1 else if fi_eq e (fi_int 1) then 1 else 0)"

definition fp_qr_test :: "fint \<Rightarrow> fint \<Rightarrow> fint \<Rightarrow> fint \<Rightarrow> (error + bool) option" where
  "fp_qr_test n nMinus1 nMinus1Over2 p =
     (if fi_eq p (fi_int 2) then obind (Some (fp_leg2Big n)) (\<lambda>pn. obind (fp_powMod (fi_int 2) nMinus1Over2 n) (\<lambda>e.
        Some (Inr (fp_euler_sign e nMinus1 = pn))))
      else obind (Some (fi_sub p (fi_int 1))) (\<lambda>pMinus1.
        obind (Some (fi_div pMinus1 (fi_int 2))) (\<lambda>pMinus1Over2.
        obind (Some (fi_mod n p)) (\<lambda>np. obind (fp_powMod np pMinus1Over2 p) (\<lambda>npRaw.
        let npn = fp_euler_sign npRaw pMinus1
        in obind (fp_jacobiBig p n) (\<lambda>pn.
           obind (Some (fi_mul pMinus1Over2 nMinus1Over2)) (\<lambda>exponent.
           obind (Some (fp_mod_is exponent 2 1)) (\<lambda>odd1.
             if pn \<noteq> (if odd1 then -1 else 1) * npn then Some (Inr False)
             else obind (fp_powMod p nMinus1Over2 n) (\<lambda>eu. Some (Inr (fp_euler_sign eu nMinus1 = pn)))))))))))"

definition fp_fermat_test :: "fint \<Rightarrow> fint \<Rightarrow> int \<Rightarrow> (error + bool) option" where
  "fp_fermat_test n nMinus1 b = obind (fp_powMod (fi_int b) nMinus1 n) (\<lambda>result. Some (Inr (fi_eq result (fi_int 1))))"

definition fp_isPrimeQR :: "fprime_state \<Rightarrow> fint \<Rightarrow> int \<Rightarrow> (error + bool) option" where
  "fp_isPrimeQR st n numTests = (if fi_less n (fi_int 2) then Some (Inr False)
     else if fi_eq n (fi_int 2) then Some (Inr True)
     else obind (Some (fp_mod_is n 2 0)) (\<lambda>even. if even then Some (Inr False)
     else obind (Some (fp_qr_trial n (fprimeBase st))) (\<lambda>ok. if \<not> ok then Some (Inr False)
     else obind (Some (if fi_isZero (fmaxPrime st) \<or> fi_isOne (fmaxPrime st) then Inr False
       else rbind (fi_mul (fmaxPrime st) (fmaxPrime st)) (\<lambda>mpSquared. Inr (fi_less n mpSquared)))) (\<lambda>small.
     if small then Some (Inr True)
     else obind (Some (fi_sub n (fi_int 1))) (\<lambda>nMinus1.
     if fi_isZero nMinus1 then Some (Inr False)
     else obind (Some (fi_div nMinus1 (fi_int 2))) (\<lambda>nMinus1Over2.
     let testsToRun = (if numTests < int (length (fprimeBase st)) then numTests else int (length (fprimeBase st)))
     in obind (all_tests (fp_qr_test n nMinus1 nMinus1Over2) (take (nat testsToRun) (fprimeBase st))) (\<lambda>ok.
        if \<not> ok then Some (Inr False) else all_tests (fp_fermat_test n nMinus1) [2, 3, 5, 7])))))))"

section \<open>The Miller-Rabin test\<close>

partial_function (option) fp_mr_split :: "fint \<Rightarrow> nat \<Rightarrow> (error + fint \<times> nat) option" where
  "fp_mr_split d r = obind (Some (fp_mod_is d 2 0)) (\<lambda>even. if \<not> even then Some (Inr (d, r))
     else obind (Some (fi_div d (fi_int 2))) (\<lambda>d. fp_mr_split d (r + 1)))"

fun fp_mr_square :: "fint \<Rightarrow> fint \<Rightarrow> nat \<Rightarrow> fint \<Rightarrow> (error + bool) option" where
  "fp_mr_square n nMinus1 0 x = Some (Inr False)"
| "fp_mr_square n nMinus1 (Suc j) x = obind (fp_powMod x (fi_int 2) n) (\<lambda>x.
     if fi_eq x nMinus1 then Some (Inr True) else fp_mr_square n nMinus1 j x)"

definition fp_mr_base :: "fint \<Rightarrow> nat \<Rightarrow> fint" where
  "fp_mr_base n i = (let a = fi_int (if i < length small_bases then small_bases ! i else 2 + int i mod 100)
     in if fi_ge a n then fi_int 2 else a)"

definition fp_mr_round :: "fint \<Rightarrow> fint \<Rightarrow> fint \<Rightarrow> nat \<Rightarrow> nat \<Rightarrow> (error + bool) option" where
  "fp_mr_round n nMinus1 d r i = obind (fp_powMod (fp_mr_base n i) d n) (\<lambda>x.
     if fi_eq x (fi_int 1) \<or> fi_eq x nMinus1 then Some (Inr True) else fp_mr_square n nMinus1 (r - 1) x)"

definition fp_isPrimeMR :: "fint \<Rightarrow> int \<Rightarrow> (error + bool) option" where
  "fp_isPrimeMR n k = (if fi_less n (fi_int 2) then Some (Inr False)
     else if fi_eq n (fi_int 2) \<or> fi_eq n (fi_int 3) then Some (Inr True)
     else obind (Some (fp_mod_is n 2 0)) (\<lambda>even. if even then Some (Inr False)
     else obind (Some (fi_sub n (fi_int 1))) (\<lambda>nMinus1. obind (fp_mr_split nMinus1 0) (\<lambda>(d, r).
       all_tests (fp_mr_round n nMinus1 d r) [0..<nat k]))))"

section \<open>The same number in both generations\<close>

definition both :: "nat \<Rightarrow> fint \<Rightarrow> number \<Rightarrow> bool" where
  "both v f x \<longleftrightarrow> fi_rep f (int v) \<and> crep x v"

lemma both_int: "0 \<le> k \<Longrightarrow> k < 2 ^ 63 \<Longrightarrow> both (nat k) (fi_int k) (num_int k)"
  using fi_rep_digit[of "word_of_int k"] crep_int[of k]
  by (simp add: both_def fi_int_def unsigned_of_int take_bit_int_eq_self)

lemma both_ints: "both 0 (fi_int 0) (num_int 0)" "both 1 (fi_int 1) (num_int 1)" "both 2 (fi_int 2) (num_int 2)"
  "both 3 (fi_int 3) (num_int 3)" "both 5 (fi_int 5) (num_int 5)" "both 7 (fi_int 7) (num_int 7)" "both 8 (fi_int 8) (num_int 8)"
  using both_int[of 0] both_int[of 1] both_int[of 2] both_int[of 3] both_int[of 5] both_int[of 7] both_int[of 8] by simp_all

text \<open>Comparisons come out as those of the values on both sides.\<close>

lemma both_tests:
  "both v f x \<Longrightarrow> fi_isZero f \<longleftrightarrow> v = 0" "both v f x \<Longrightarrow> fi_isOne f \<longleftrightarrow> v = 1"
  "both v f x \<Longrightarrow> num_isZero x = Inr (v = 0)" "both v f x \<Longrightarrow> num_isOne x = Inr (v = 1)"
  using fi_rep_simps[of f "int v"] num_isZero_c[of x v] num_isOne_c[of x v] by (auto simp: both_def)

lemma both_compare:
  assumes "both v f x" "both w g y"
  shows "fi_eq f g \<longleftrightarrow> v = w" "fi_less f g \<longleftrightarrow> v < w" "fi_le f g \<longleftrightarrow> v \<le> w" "fi_ge f g \<longleftrightarrow> v \<ge> w"
    "num_eq x y = Inr (v = w)" "num_less x y = Inr (v < w)" "num_le x y = Inr (v \<le> w)" "num_ge x y = Inr (v \<ge> w)" "num_gt x y = Inr (v > w)"
proof -
  have r: "fi_rep f (int v)" "fi_rep g (int w)" and c: "crep x v" "crep y w" using assms by (simp_all add: both_def)
  show "fi_eq f g \<longleftrightarrow> v = w" "fi_less f g \<longleftrightarrow> v < w" using fi_rep_compare[OF r] by simp_all
  show "fi_le f g \<longleftrightarrow> v \<le> w" using fi_rep_compare[OF r(2,1)] by (simp add: fi_le_def not_less)
  show "fi_ge f g \<longleftrightarrow> v \<ge> w" using fi_rep_compare[OF r] by (simp add: fi_ge_def not_less)
  show "num_eq x y = Inr (v = w)" "num_less x y = Inr (v < w)" "num_le x y = Inr (v \<le> w)" "num_ge x y = Inr (v \<ge> w)"
    "num_gt x y = Inr (v > w)"
    using num_eq_c[OF c] num_less_c[OF c] num_le_c[OF c] num_ge_c[OF c] num_gt_c[OF c] by simp_all
qed

lemma signed_nat: "int v sdiv int w = int (v div w)" "int v smod int w = int (v mod w)"
  unfolding signed_divide_int_def signed_modulo_int_def zdiv_int zmod_int by (auto simp: sgn_if)

text \<open>\<open>sim R p q\<close>: both generations return a result, and the results are related.\<close>

definition sim :: "('a \<Rightarrow> 'b \<Rightarrow> bool) \<Rightarrow> (error + 'a) option \<Rightarrow> (error + 'b) option \<Rightarrow> bool" where
  "sim R p q \<longleftrightarrow> (\<exists>x y. p = Some (Inr x) \<and> q = Some (Inr y) \<and> R x y)"

lemma sim_return: "R x y \<Longrightarrow> sim R (Some (Inr x)) (Some (Inr y))"
  by (simp add: sim_def)

lemma sim_bind:
  assumes "sim R p q" and "\<And>x y. R x y \<Longrightarrow> sim S (f x) (g y)"
  shows "sim S (obind p f) (obind q g)"
  using assms by (auto simp: sim_def)

lemma some_rbind: "Some (rbind a f) = obind (Some a) (\<lambda>x. Some (f x))"
  by (cases a) auto

lemma sim_ops:
  assumes "both v f x" "both w g y"
  shows "v < radix \<Longrightarrow> 0 < w \<Longrightarrow> w < radix \<Longrightarrow> sim (both (v mod w)) (Some (fi_mod f g)) (Some (num_mod x y))"
    "v < radix \<Longrightarrow> 0 < w \<Longrightarrow> w < radix \<Longrightarrow> sim (both (v div w)) (Some (fi_div f g)) (Some (num_div x y))"
    "v < radix \<Longrightarrow> sim (both (v * w)) (Some (fi_mul f g)) (Some (num_times x y))"
    "sim (both (v + w)) (Some (fi_add f g)) (Some (num_plus x y))"
    "w \<le> v \<Longrightarrow> v < radix \<Longrightarrow> sim (both (v - w)) (Some (fi_sub f g)) (Some (num_minus x y))"
proof -
  note c = assms[unfolded both_def, THEN conjunct2] and r = assms[unfolded both_def, THEN conjunct1]
  show "sim (both (v mod w)) (Some (fi_mod f g)) (Some (num_mod x y))" if "v < radix" "0 < w" "w < radix"
    using fi_rep_ops(5)[OF r] num_mod_c[OF c that] that by (auto simp: sim_def both_def signed_nat)
  show "sim (both (v div w)) (Some (fi_div f g)) (Some (num_div x y))" if "v < radix" "0 < w" "w < radix"
    using fi_rep_ops(4)[OF r] num_div_c[OF c that] that by (auto simp: sim_def both_def signed_nat)
  show "sim (both (v * w)) (Some (fi_mul f g)) (Some (num_times x y))" if "v < radix"
  proof -
    have "v < radix ^ 49" using that by (simp add: radix_def)
    then show ?thesis using fi_rep_ops(3)[OF r] num_times_c[OF c] by (auto simp: sim_def both_def)
  qed
  show "sim (both (v + w)) (Some (fi_add f g)) (Some (num_plus x y))"
    using fi_rep_ops(1)[OF r] num_plus_c[OF c] by (auto simp: sim_def both_def)
  show "sim (both (v - w)) (Some (fi_sub f g)) (Some (num_minus x y))" if "w \<le> v" "v < radix"
    using fi_rep_ops(2)[OF r] num_minus_c[OF c that] that by (auto simp: sim_def both_def of_nat_diff)
qed

lemma both_mod_is:
  assumes "both v f x" "v < radix" "0 < k" "k < 2 ^ 63" "0 \<le> j" "j < 2 ^ 63"
  shows "fp_mod_is f k j = Inr (v mod nat k = nat j)" "mod_is x k j = Inr (v mod nat k = nat j)"
proof -
  have kk: "0 < nat k" "nat k < radix" using assms(3,4) by (simp_all add: radix_def nat_less_iff)
  have k: "both (nat k) (fi_int k) (num_int k)" and j: "both (nat j) (fi_int j) (num_int j)"
    using both_int assms(3-6) by simp_all
  have "sim (both (v mod nat k)) (Some (fi_mod f (fi_int k))) (Some (num_mod x (num_int k)))"
    by (rule sim_ops(1)[OF assms(1) k assms(2) kk])
  moreover obtain m where "num_mod x (num_int k) = Inr m"
    using num_mod_c[of x v "num_int k" "nat k"] assms(1,2) k kk by (auto simp: both_def)
  ultimately obtain m' where m: "fi_mod f (fi_int k) = Inr m'" "both (v mod nat k) m' m" by (auto simp: sim_def)
  then show "fp_mod_is f k j = Inr (v mod nat k = nat j)"
    using both_compare(1)[OF m(2) j] by (simp add: fp_mod_is_def)
  show "mod_is x k j = Inr (v mod nat k = nat j)" using mod_is_rep[of x v k j] assms by (simp add: both_def)
qed

lemma both_even:
  assumes "both v f x" "v < radix"
  shows "fp_mod_is f 2 0 = Inr (even v) \<and> mod_is x 2 0 = Inr (even v)"
proof -
  have "v mod nat 2 = nat 0 \<longleftrightarrow> even v" unfolding even_iff_mod_2_eq_zero by simp
  then show ?thesis using both_mod_is[OF assms, of 2 0] by simp
qed

lemma both_odd:
  assumes "both v f x" "v < radix"
  shows "fp_mod_is f 2 1 = Inr (odd v) \<and> mod_is x 2 1 = Inr (odd v)"
proof -
  have "v mod nat 2 = nat 1 \<longleftrightarrow> odd v" unfolding odd_iff_mod_2_eq_one by simp
  then show ?thesis using both_mod_is[OF assms, of 2 1] by simp
qed

lemma both_mod4: "both v f x \<Longrightarrow> v < radix \<Longrightarrow> fp_mod_is f 4 3 = Inr (v mod 4 = 3) \<and> mod_is x 4 3 = Inr (v mod 4 = 3)"
  using both_mod_is[of v f x 4 3] by simp

definition below :: "nat \<Rightarrow> fint \<Rightarrow> number \<Rightarrow> bool" where
  "below m f x \<longleftrightarrow> (\<exists>v < m. both v f x)"

lemma sim_weaken: "sim R p q \<Longrightarrow> (\<And>x y. R x y \<Longrightarrow> S x y) \<Longrightarrow> sim S p q"
  by (auto simp: sim_def)

lemma belowI: "both v f x \<Longrightarrow> v < m \<Longrightarrow> below m f x"
  unfolding below_def by blast

lemma sim_mod_times:
  assumes "both p a x" "both q b y" "both m md z" "p < m" "q < m" "m \<le> 2 ^ 32"
  shows "sim (below m) (Some (fp_mod_times a b md)) (Some (mod_times x y z))"
proof -
  have pq: "p * q < radix" by (rule mult_below_radix[OF assms(4-6)])
  have m: "0 < m" "m < radix" "p < radix" using assms(4,6) by (simp_all add: radix_def)
  show ?thesis unfolding fp_mod_times_def mod_times_def some_rbind
  proof (rule sim_bind[OF sim_ops(3)[OF assms(1,2) m(3)]])
    fix r s assume "both (p * q) r s"
    from sim_ops(1)[OF this assms(3) pq m(1,2)] show "sim (below m) (Some (fi_mod r md)) (Some (num_mod s z))"
      by (rule sim_weaken) (rule belowI, assumption, use m(1) in simp)
  qed
qed

lemma sim_half:
  assumes "both k e x" "k < radix"
  shows "sim (both (k div 2)) (fp_half e) (num_shr x (num_int 1))"
proof -
  obtain s where s: "num_shr x (num_int 1) = Some (Inr s)" "crep s (k div 2)"
    using num_shr_c[of x k "num_int 1" 1] both_ints(2) assms by (auto simp: both_def)
  have e: "fc_rep (fmag e) k" using assms(1) by (simp add: both_def fi_rep_def irep_def as_core_rep)
  have "\<exists>c. fc_shr (fmag e) (fc_digit 1) = Some (Inr c) \<and> fc_rep c (k div 2)"
  proof (cases "k = 0")
    case True
    then have "fi_isZero e" using both_tests(1)[OF assms(1)] by simp
    then show ?thesis using e True by (simp add: fc_shr_def fi_isZero_def)
  next
    case False
    then show ?thesis using fc_shr_small[OF e fc_rep_digit[of 1]] assms(2) by (simp add: fc_digit_def)
  qed
  then obtain c where c: "fc_shr (fmag e) (fc_digit 1) = Some (Inr c)" "fc_rep c (k div 2)" by blast
  have "fi_rep (fi_card c) (int (k div 2))"
    using irep_card[of "as_core c" "k div 2"] c(2) by (simp add: fi_rep_def second_digit as_core_rep)
  then show ?thesis using s c(1) by (simp add: sim_def fp_half_def both_def)
qed

lemma belowE: "below m f x \<Longrightarrow> (\<And>v. v < m \<Longrightarrow> both v f x \<Longrightarrow> P) \<Longrightarrow> P"
  unfolding below_def by blast

lemma sim_powMod_loop:
  assumes "both m md z" "1 < m" "m \<le> 2 ^ 32"
    and "below m r x" "below m b y" "both k e w" "k < radix"
  shows "sim (below m) (fp_powMod_loop md r b e) (powMod_loop z x y w)"
  using assms(4-)
proof (induction k arbitrary: r b e x y w rule: less_induct)
  case (less k)
  note t = both_tests(1,3)[OF less.prems(3)] both_odd[OF less.prems(3,4)]
  show ?case
  proof (cases "k = 0")
    case True
    then show ?thesis using less.prems(1) t by (subst fp_powMod_loop.simps, subst powMod_loop.simps) (simp add: sim_return)
  next
    case False
    obtain p q where pq: "p < m" "both p r x" "q < m" "both q b y" using less.prems(1,2) by (elim belowE)
    have step: "sim (below m) (Some (if odd k then fp_mod_times r b md else Inr r)) (Some (if odd k then mod_times x y z else Inr x))"
      using sim_mod_times[OF pq(2,4) assms(1) pq(1,3) assms(3)] less.prems(1) by (simp add: sim_return)
    have square: "sim (below m) (Some (fp_mod_times b b md)) (Some (mod_times y y z))"
      by (rule sim_mod_times[OF pq(4,4) assms(1) pq(3,3) assms(3)])
    have lt: "k div 2 < k" "k div 2 < radix" using False less.prems(4) by auto
    have "sim (below m)
      (obind (Some (if odd k then fp_mod_times r b md else Inr r)) (\<lambda>r. obind (fp_half e) (\<lambda>e.
         obind (Some (fp_mod_times b b md)) (\<lambda>base. fp_powMod_loop md r base e))))
      (obind (Some (if odd k then mod_times x y z else Inr x)) (\<lambda>r. obind (num_shr w (num_int 1)) (\<lambda>e.
         obind (Some (mod_times y y z)) (\<lambda>base. powMod_loop z r base e))))"
      by (rule sim_bind[OF step], rule sim_bind[OF sim_half[OF less.prems(3,4)]], rule sim_bind[OF square], rule less.IH[OF lt(1) _ _ _ lt(2)])
    then show ?thesis using False t by (subst fp_powMod_loop.simps, subst powMod_loop.simps) simp
  qed
qed

lemma sim_powMod:
  assumes "both v b x" "both k e y" "both m md z" "v < radix" "k < radix" "0 < m" "m \<le> 2 ^ 32"
  shows "sim (below m) (fp_powMod b e md) (powMod x y z)"
proof (cases "m = 1")
  case True
  then show ?thesis using both_compare(1,5)[OF assms(3) both_ints(2)] belowI[OF both_ints(1), of m]
    by (simp add: fp_powMod_def powMod_def sim_return)
next
  case False
  then have m: "1 < m" "m < radix" using assms(6,7) by (simp_all add: radix_def)
  have one: "below m (fi_int 1) (num_int 1)" by (rule belowI[OF both_ints(2) m(1)])
  have "sim (below m) (Some (fi_mod b md)) (Some (num_mod x z))"
    by (rule sim_weaken[OF sim_ops(1)[OF assms(1,3,4,6) m(2)]]) (rule belowI, assumption, use m(1) in simp)
  then have "sim (below m) (obind (Some (fi_mod b md)) (\<lambda>base. fp_powMod_loop md (fi_int 1) base e))
      (obind (Some (num_mod x z)) (\<lambda>base. powMod_loop z (num_int 1) base y))"
    by (rule sim_bind) (rule sim_powMod_loop[OF assms(3) m(1) assms(7) one _ assms(2,5)])
  then show ?thesis using both_compare(1,5)[OF assms(3) both_ints(2)] False by (simp add: fp_powMod_def powMod_def)
qed

text \<open>The results of the loops of the Jacobi symbol.\<close>

definition odd_pair :: "nat \<Rightarrow> fint \<times> int \<Rightarrow> number \<times> int \<Rightarrow> bool" where
  "odd_pair a t t' \<longleftrightarrow> snd t = snd t' \<and> (\<exists>u. both u (fst t) (fst t') \<and> odd u \<and> u \<le> a)"

lemma sim_jacobi_twos:
  assumes "both c g y" "c < radix" "both a f x" "0 < a" "a < radix"
  shows "sim (odd_pair a) (fp_jacobi_twos f g r) (jacobi_twos x y r)"
  using assms(3-)
proof (induction a arbitrary: f x r rule: less_induct)
  case (less a)
  note t = both_even[OF less.prems(1,3)]
  show ?case
  proof (cases "even a")
    case False
    then show ?thesis using t less.prems(1)
      by (subst fp_jacobi_twos.simps, subst jacobi_twos.simps) (auto intro!: sim_return simp: odd_pair_def)
  next
    case True
    have r8: "0 < (2::nat)" "2 < radix" "0 < (8::nat)" "8 < radix" by (simp_all add: radix_def)
    have half: "sim (both (a div 2)) (Some (fi_div f (fi_int 2))) (Some (num_div x (num_int 2)))"
      by (rule sim_ops(2)[OF less.prems(1) both_ints(3) less.prems(3) r8(1,2)])
    have m8: "sim (both (c mod 8)) (Some (fi_mod g (fi_int 8))) (Some (num_mod y (num_int 8)))"
      by (rule sim_ops(1)[OF assms(1) both_ints(7) assms(2) r8(3,4)])
    have lt: "a div 2 < a" "0 < a div 2" "a div 2 < radix" using True less.prems(2,3) by (auto elim!: evenE)
    have IH: "sim (odd_pair a) (fp_jacobi_twos f' g r') (jacobi_twos x' y r')" if "both (a div 2) f' x'" for f' x' r'
      by (rule sim_weaken[OF less.IH[OF lt(1) that lt(2,3)]]) (use lt(1) in \<open>force simp: odd_pair_def\<close>)
    have "sim (odd_pair a)
      (obind (Some (fi_div f (fi_int 2))) (\<lambda>aMod. obind (Some (fi_mod g (fi_int 8))) (\<lambda>nMod8.
         fp_jacobi_twos aMod g (if fi_eq nMod8 (fi_int 3) \<or> fi_eq nMod8 (fi_int 5) then - r else r))))
      (obind (Some (num_div x (num_int 2))) (\<lambda>aMod. obind (Some (num_mod y (num_int 8))) (\<lambda>nMod8.
         obind (Some (num_eq nMod8 (num_int 3))) (\<lambda>is3. obind (Some (if is3 then Inr True else num_eq nMod8 (num_int 5))) (\<lambda>flip.
           jacobi_twos aMod y (if flip then - r else r))))))"
    proof (rule sim_bind[OF half], rule sim_bind[OF m8])
      fix f' x' n8 n8' assume b: "both (a div 2) f' x'" and n: "both (c mod 8) n8 n8'"
      show "sim (odd_pair a) (fp_jacobi_twos f' g (if fi_eq n8 (fi_int 3) \<or> fi_eq n8 (fi_int 5) then - r else r))
        (obind (Some (num_eq n8' (num_int 3))) (\<lambda>is3. obind (Some (if is3 then Inr True else num_eq n8' (num_int 5))) (\<lambda>flip.
           jacobi_twos x' y (if flip then - r else r))))"
        using both_compare(1,5)[OF n both_ints(4)] both_compare(1,5)[OF n both_ints(5)] IH[OF b] by auto
    qed
    then show ?thesis using t True by (subst fp_jacobi_twos.simps, subst jacobi_twos.simps) simp
  qed
qed

definition any_pair :: "fint \<times> int \<Rightarrow> number \<times> int \<Rightarrow> bool" where
  "any_pair t t' \<longleftrightarrow> snd t = snd t' \<and> (\<exists>u. both u (fst t) (fst t'))"

lemma sim_jacobi_loop:
  assumes "both a f x" "both c g y" "a < radix" "c < radix"
  shows "sim any_pair (fp_jacobi_loop f g r) (jacobi_loop x y r)"
  using assms
proof (induction a arbitrary: f x c g y r rule: less_induct)
  case (less a)
  note z = both_tests(1,3)[OF less.prems(1)] both_mod4[OF less.prems(2,4)]
  show ?case
  proof (cases "a = 0")
    case True
    then show ?thesis using z less.prems(2)
      by (subst fp_jacobi_loop.simps, subst jacobi_loop.simps) (auto intro!: sim_return simp: any_pair_def)
  next
    case False
    then have tw: "sim (odd_pair a) (fp_jacobi_twos f g r) (jacobi_twos x y r)"
      using sim_jacobi_twos[OF less.prems(2,4,1) _ less.prems(3)] by simp
    have "sim any_pair
      (obind (fp_jacobi_twos f g r) (\<lambda>(temp, r). obind (Some (fp_mod_is g 4 3)) (\<lambda>a3.
         obind (Some (if a3 then fp_mod_is temp 4 3 else Inr False)) (\<lambda>flip. obind (Some (fi_mod g temp)) (\<lambda>aMod.
           fp_jacobi_loop aMod temp (if flip then - r else r)))))) 
      (obind (jacobi_twos x y r) (\<lambda>(temp, r). obind (Some (mod_is y 4 3)) (\<lambda>a3.
         obind (Some (if a3 then mod_is temp 4 3 else Inr False)) (\<lambda>flip. obind (Some (num_mod y temp)) (\<lambda>aMod.
           jacobi_loop aMod temp (if flip then - r else r))))))"
    proof (rule sim_bind[OF tw])
      fix t t' assume "odd_pair a t t'"
      then obtain f' x' q u where t: "t = (f', q)" "t' = (x', q)" "both u f' x'" "odd u" "u \<le> a"
        by (cases t; cases t') (auto simp: odd_pair_def)
      have u: "0 < u" "u < radix" using t(4,5) less.prems(3) by (auto intro: Nat.gr0I)
      have md: "sim (both (c mod u)) (Some (fi_mod g f')) (Some (num_mod y x'))"
        by (rule sim_ops(1)[OF less.prems(2) t(3) less.prems(4) u])
      have lt: "c mod u < a" "c mod u < radix" using u t(5) mod_less_divisor[OF u(1), of c] by linarith+
      have "sim any_pair (obind (Some (fi_mod g f')) (\<lambda>aMod. fp_jacobi_loop aMod f' p)) (obind (Some (num_mod y x')) (\<lambda>aMod. jacobi_loop aMod x' p))" for p
        by (rule sim_bind[OF md]) (rule less.IH[OF lt(1) _ t(3) lt(2) u(2)])
      then show "sim any_pair
        (case t of (temp, r) \<Rightarrow> obind (Some (fp_mod_is g 4 3)) (\<lambda>a3.
         obind (Some (if a3 then fp_mod_is temp 4 3 else Inr False)) (\<lambda>flip. obind (Some (fi_mod g temp)) (\<lambda>aMod.
           fp_jacobi_loop aMod temp (if flip then - r else r)))))
        (case t' of (temp, r) \<Rightarrow> obind (Some (mod_is y 4 3)) (\<lambda>a3.
         obind (Some (if a3 then mod_is temp 4 3 else Inr False)) (\<lambda>flip. obind (Some (num_mod y temp)) (\<lambda>aMod.
           jacobi_loop aMod temp (if flip then - r else r)))))"
        using z both_mod4[OF t(3) u(2)] by (simp add: t(1,2))
    qed
    then show ?thesis using z False by (subst fp_jacobi_loop.simps, subst jacobi_loop.simps) simp
  qed
qed

lemma sim_jacobiBig:
  assumes "both v a x" "both w n y" "v < radix" "w < 2 ^ 63"
  shows "sim (=) (fp_jacobiBig a n) (jacobiBig x y)"
proof (cases "w = 0 \<or> even w")
  case True
  have wr: "w < radix" using assms(4) by (simp add: radix_def)
  show ?thesis
    using True both_compare(3,7)[OF assms(2) both_ints(1)] both_even[OF assms(2) wr]
    by (auto simp: fp_jacobiBig_def jacobiBig_def sim_return)
next
  case False
  have w: "0 < w" "w < radix" "odd w" using assms(4) False by (simp_all add: radix_def)
  have sum: "v mod w + w < radix" using mod_less_divisor[OF w(1), of v] assms(4) by (simp add: radix_def)
  have s: "sim (=)
    (obind (Some (fi_mod a n)) (\<lambda>x. obind (Some (fi_add x n)) (\<lambda>x. obind (Some (fi_mod x n)) (\<lambda>aMod.
       obind (fp_jacobi_loop aMod n 1) (\<lambda>(nCopy, r). Some (Inr (if fi_eq nCopy (fi_int 1) then r else 0)))))))
    (obind (Some (num_mod x y)) (\<lambda>x. obind (Some (num_plus x y)) (\<lambda>x. obind (Some (num_mod x y)) (\<lambda>aMod.
       obind (jacobi_loop aMod y 1) (\<lambda>(nCopy, r). obind (Some (num_eq nCopy (num_int 1))) (\<lambda>one. Some (Inr (if one then r else 0))))))))"
  proof (rule sim_bind[OF sim_ops(1)[OF assms(1,2,3) w(1,2)]], rule sim_bind[OF sim_ops(4)[OF _ assms(2)]], assumption,
      rule sim_bind[OF sim_ops(1)[OF _ assms(2) sum w(1,2)]], assumption, rule sim_bind[OF sim_jacobi_loop[OF _ assms(2)]], assumption)
    show "(v mod w + w) mod w < radix" using mod_less_divisor[OF w(1), of "v mod w + w"] w(2) by linarith
    fix t t' assume "any_pair t t'"
    then obtain f q u g where "t = (f, q)" "t' = (g, q)" "both u f g" by (cases t; cases t') (auto simp: any_pair_def)
    then show "sim (=) (case t of (nCopy, r) \<Rightarrow> Some (Inr (if fi_eq nCopy (fi_int 1) then r else 0)))
       (case t' of (nCopy, r) \<Rightarrow> obind (Some (num_eq nCopy (num_int 1))) (\<lambda>one. Some (Inr (if one then r else 0))))"
      using both_compare(1,5)[OF _ both_ints(2)] by (simp add: sim_return)
  qed (rule w(2))
  then show ?thesis
    using w both_compare(3,7)[OF assms(2) both_ints(1)] both_even[OF assms(2) w(2)] by (simp add: fp_jacobiBig_def jacobiBig_def)
qed

lemma sim_leg2Big:
  assumes "both w n y" "w < radix"
  shows "sim (=) (Some (fp_leg2Big n)) (Some (leg2Big y))"
proof -
  have r8: "0 < (8::nat)" "8 < radix" by (simp_all add: radix_def)
  have sum: "w mod 8 + 8 < radix" using mod_less_divisor[OF r8(1), of w] by (simp add: radix_def)
  show ?thesis unfolding fp_leg2Big_def leg2Big_def some_rbind
  proof (rule sim_bind[OF sim_ops(1)[OF assms(1) both_ints(7) assms(2) r8]], rule sim_bind[OF sim_ops(4)[OF _ both_ints(7)]], assumption,
      rule sim_bind[OF sim_ops(1)[OF _ both_ints(7) sum r8]], assumption)
    fix f x assume b: "both ((w mod 8 + 8) mod 8) f x"
    show "sim (=)
      (Some (if fi_eq f (fi_int 1) \<or> fi_eq f (fi_int 7) then Inr 1 else if fi_eq f (fi_int 3) \<or> fi_eq f (fi_int 5) then Inr (-1) else Inr 0))
      (obind (Some (num_eq x (num_int 1))) (\<lambda>e1. obind (Some (if e1 then Inr True else num_eq x (num_int 7))) (\<lambda>pos.
         Some (if pos then Inr 1 else rbind (num_eq x (num_int 3)) (\<lambda>e3. rbind (if e3 then Inr True else num_eq x (num_int 5)) (\<lambda>neg.
           Inr (if neg then -1 else 0)))))))"
      using both_compare(1,5)[OF b both_ints(2)] both_compare(1,5)[OF b both_ints(4)] both_compare(1,5)[OF b both_ints(5)] both_compare(1,5)[OF b both_ints(6)]
      by (auto intro: sim_return)
  qed
qed

section \<open>The tests agree\<close>

definition small_both :: "fint \<Rightarrow> number \<Rightarrow> bool" where
  "small_both f x \<longleftrightarrow> (\<exists>q. 0 < q \<and> q < 2 ^ 32 \<and> both q f x)"

lemma small_bothE:
  assumes "small_both f x"
  obtains q where "0 < q" "q < 2 ^ 32" "q < radix" "q * q < radix" "both q f x"
proof -
  obtain q where q: "0 < q" "q < 2 ^ 32" "both q f x" using assms by (auto simp: small_both_def)
  have "q * q < 2 ^ 32 * 2 ^ 32" using q(2) by (intro mult_strict_mono) simp_all
  then show ?thesis using that[OF q(1,2) _ _ q(3)] q(2) by (simp add: radix_def)
qed

lemma sim_qr_trial:
  assumes "both v n y" "v < radix" "list_all2 small_both ps qs"
  shows "sim (=) (Some (fp_qr_trial n ps)) (Some (qr_trial y qs))"
  using assms(3)
proof (induction rule: list_all2_induct)
  case Nil
  then show ?case by (simp add: sim_return)
next
  case (Cons p ps q qs)
  obtain w where w: "0 < w" "w < radix" "w * w < radix" "both w p q" using Cons(1) by (rule small_bothE)
  have inner: "sim (=) (Some (rbind (fi_mod n p) (\<lambda>m. if fi_eq m (fi_int 0) then Inr False else fp_qr_trial n ps)))
    (Some (rbind (num_mod y q) (\<lambda>m. rbind (num_eq m (num_int 0)) (\<lambda>z. if z then Inr False else qr_trial y qs))))"
    unfolding some_rbind
    by (rule sim_bind[OF sim_ops(1)[OF assms(1) w(4) assms(2) w(1,2)]])
      (use both_compare(1,5)[OF _ both_ints(1)] Cons.IH in \<open>auto intro: sim_return\<close>)
  show ?case unfolding fp_qr_trial.simps qr_trial.simps some_rbind[of "fi_mul p p"] some_rbind[of "num_times q q"]
    by (rule sim_bind[OF sim_ops(3)[OF w(4,4,2)]])
      (use both_compare(2,9)[OF _ assms(1)] both_compare(2,9)[OF assms(1)] inner in \<open>auto intro: sim_return\<close>)
qed

lemma sim_factor_trial:
  assumes "both v n y" "v < radix" "list_all2 small_both ps qs"
  shows "sim (rel_option small_both) (Some (fp_factor_trial n ps)) (Some (factor_trial y qs))"
  using assms(3)
proof (induction rule: list_all2_induct)
  case Nil
  then show ?case by (simp add: sim_return)
next
  case (Cons p ps q qs)
  obtain w where w: "0 < w" "w < radix" "w * w < radix" "both w p q" using Cons(1) by (rule small_bothE)
  have inner: "sim (rel_option small_both)
     (Some (rbind (fi_mul p p) (\<lambda>pSquared. if fi_less n pSquared then Inr None else fp_factor_trial n ps)))
     (Some (rbind (num_times q q) (\<lambda>pSquared. rbind (num_gt pSquared y) (\<lambda>gt. if gt then Inr None else factor_trial y qs))))"
    unfolding some_rbind
    by (rule sim_bind[OF sim_ops(3)[OF w(4,4,2)]])
      (use both_compare(9)[OF _ assms(1)] both_compare(2)[OF assms(1)] Cons.IH in \<open>auto intro: sim_return\<close>)
  show ?case unfolding fp_factor_trial.simps factor_trial.simps some_rbind[of "fi_mod n p"] some_rbind[of "num_mod y q"]
    by (rule sim_bind[OF sim_ops(1)[OF assms(1) w(4) assms(2) w(1,2)]])
      (use both_compare(1,5)[OF _ both_ints(1)] inner Cons(1) in \<open>auto intro: sim_return\<close>)
qed

definition digit_both :: "fint \<Rightarrow> number \<Rightarrow> bool" where
  "digit_both f x \<longleftrightarrow> (\<exists>q < radix. both q f x)"

lemma sim_factor_loop:
  assumes "both v n y" "v < 2 ^ 62" "both k i j" "0 < k" "k < 2 ^ 33"
  shows "sim digit_both (fp_factor_loop n i) (factor_loop y j)"
  using assms(3-)
proof (induction "v + 2 - k" arbitrary: i j k rule: less_induct)
  case less
  have vr: "v < radix" "k < radix" using assms(2) less.prems(3) by (simp_all add: radix_def)
  have "sim digit_both (obind (Some (fi_mul i i)) (\<lambda>sq. if \<not> fi_le sq n then Some (Inr n)
        else obind (Some (fi_mod n i)) (\<lambda>m. if fi_eq m (fi_int 0) then Some (Inr i) else obind (Some (fi_add i (fi_int 2))) (\<lambda>i. fp_factor_loop n i))))
      (obind (Some (num_times j j)) (\<lambda>sq. obind (Some (num_le sq y)) (\<lambda>le. if \<not> le then Some (Inr y)
        else obind (Some (num_mod y j)) (\<lambda>m. obind (Some (num_eq m (num_int 0))) (\<lambda>z.
          if z then Some (Inr j) else obind (Some (num_plus j (num_int 2))) (\<lambda>i. factor_loop y i))))))"
  proof (rule sim_bind[OF sim_ops(3)[OF less.prems(1,1) vr(2)]])
    fix f x assume sq: "both (k * k) f x"
    have le: "fi_le f n \<longleftrightarrow> k * k \<le> v" "num_le x y = Inr (k * k \<le> v)" using both_compare(3,7)[OF sq assms(1)] by simp_all
    show "sim digit_both (if \<not> fi_le f n then Some (Inr n) else obind (Some (fi_mod n i)) (\<lambda>m.
         if fi_eq m (fi_int 0) then Some (Inr i) else obind (Some (fi_add i (fi_int 2))) (\<lambda>i. fp_factor_loop n i)))
      (obind (Some (num_le x y)) (\<lambda>le. if \<not> le then Some (Inr y) else obind (Some (num_mod y j)) (\<lambda>m. obind (Some (num_eq m (num_int 0))) (\<lambda>z.
          if z then Some (Inr j) else obind (Some (num_plus j (num_int 2))) (\<lambda>i. factor_loop y i)))))"
    proof (cases "k * k \<le> v")
      case False
      moreover have "digit_both n y" using assms(1) vr(1) by (auto simp: digit_both_def)
      ultimately show ?thesis using le by (simp add: sim_return)
    next
      case True
      have "k \<le> k * k" using less.prems(2) by simp
      from this True have kv: "k \<le> v" by (rule le_trans)
      have "k < 2 ^ 31 + 1"
      proof (rule ccontr)
        assume "\<not> k < 2 ^ 31 + 1"
        then have "(2 ^ 31 + 1) * (2 ^ 31 + 1) \<le> k * k" by (intro mult_le_mono) simp_all
        then show False using True assms(2) by simp
      qed
      then have nxt: "v + 2 - (k + 2) < v + 2 - k" "0 < k + 2" "k + 2 < 2 ^ 33" using kv by simp_all
      have md: "sim (both (v mod k)) (Some (fi_mod n i)) (Some (num_mod y j))"
        by (rule sim_ops(1)[OF assms(1) less.prems(1) vr(1) less.prems(2) vr(2)])
      have "sim digit_both (obind (Some (fi_add i (fi_int 2))) (\<lambda>i. fp_factor_loop n i)) (obind (Some (num_plus j (num_int 2))) (\<lambda>i. factor_loop y i))"
        by (rule sim_bind[OF sim_ops(4)[OF less.prems(1) both_ints(3)]]) (rule less.hyps[OF nxt(1) _ nxt(2,3)])
      moreover have "digit_both i j" using less.prems(1) vr(2) by (auto simp: digit_both_def)
      ultimately have "sim digit_both (obind (Some (fi_mod n i)) (\<lambda>m. if fi_eq m (fi_int 0) then Some (Inr i) else obind (Some (fi_add i (fi_int 2))) (\<lambda>i. fp_factor_loop n i)))
        (obind (Some (num_mod y j)) (\<lambda>m. obind (Some (num_eq m (num_int 0))) (\<lambda>z. if z then Some (Inr j) else obind (Some (num_plus j (num_int 2))) (\<lambda>i. factor_loop y i))))"
        by (intro sim_bind[OF md]) (use both_compare(1,5)[OF _ both_ints(1)] in \<open>auto intro: sim_return\<close>)
      then show ?thesis using le True by simp
    qed
  qed
  then show ?case by (subst fp_factor_loop.simps, subst factor_loop.simps)
qed

text \<open>The bases of both generations hold the same primes.\<close>

definition same_base :: "fprime_state \<Rightarrow> prime_state \<Rightarrow> bool" where
  "same_base s t \<longleftrightarrow> list_all2 small_both (fprimeBase s) (primeBase t) \<and> (\<exists>q < 2 ^ 32. both q (fmaxPrime s) (maxPrime t))"

lemma digit_bothI: "both v f x \<Longrightarrow> v < radix \<Longrightarrow> digit_both f x"
  by (auto simp: digit_both_def)

text \<open>Where the search beyond the base starts, and the search from there.\<close>

lemma sim_search_start:
  assumes "list_all2 small_both ps qs"
  shows "sim (\<lambda>f x. \<exists>k. 0 < k \<and> k < 2 ^ 32 + 2 \<and> both k f x)
    (Some (if ps = [] then Inr (fi_int 3) else fi_add (last ps) (fi_int 2)))
    (Some (if qs = [] then Inr (num_int 3) else num_plus (last qs) (num_int 2)))"
proof (cases "qs = []")
  case True
  then have "ps = []" using assms by simp
  then show ?thesis using True both_ints(4) by (auto intro!: sim_return exI[of _ 3])
next
  case False
  then have ne: "ps \<noteq> []" using assms by auto
  have "small_both (last ps) (last qs)" using assms False ne list_all2_nthD2[OF assms, of "length qs - 1"]
    by (simp add: last_conv_nth list_all2_lengthD)
  then obtain q where q: "0 < q" "q < 2 ^ 32" "both q (last ps) (last qs)" by (auto simp: small_both_def)
  have "sim (both (q + 2)) (Some (fi_add (last ps) (fi_int 2))) (Some (num_plus (last qs) (num_int 2)))"
    by (rule sim_ops(4)[OF q(3) both_ints(3)])
  then have "sim (\<lambda>f x. \<exists>k. 0 < k \<and> k < 2 ^ 32 + 2 \<and> both k f x) (Some (fi_add (last ps) (fi_int 2))) (Some (num_plus (last qs) (num_int 2)))"
    by (rule sim_weaken) (use q(2) in \<open>auto intro!: exI[of _ "q + 2"]\<close>)
  then show ?thesis using False ne by simp
qed

lemma sim_search:
  assumes "both v n y" "v < 2 ^ 62" and k: "0 < k" "k < 2 ^ 32 + 2" "both k f x"
  shows "sim digit_both
      (obind (Some (fp_mod_is f 2 0)) (\<lambda>even. obind (Some (if even then fi_add f (fi_int 1) else Inr f)) (\<lambda>start. fp_factor_loop n start)))
      (obind (Some (mod_is x 2 0)) (\<lambda>even. obind (Some (if even then num_plus x (num_int 1) else Inr x)) (\<lambda>start. factor_loop y start)))"
proof -
  have kr: "k < radix" "k < 2 ^ 33" "0 < k + 1" "k + 1 < 2 ^ 33" using k(1,2) by (simp_all add: radix_def)
  show ?thesis
  proof (cases "even k")
    case True
    have "sim digit_both (obind (Some (fi_add f (fi_int 1))) (\<lambda>start. fp_factor_loop n start)) (obind (Some (num_plus x (num_int 1))) (\<lambda>start. factor_loop y start))"
      by (rule sim_bind[OF sim_ops(4)[OF k(3) both_ints(2)]]) (rule sim_factor_loop[OF assms(1,2) _ kr(3,4)])
    then show ?thesis using both_even[OF k(3) kr(1)] True by simp
  next
    case False
    then show ?thesis using both_even[OF k(3) kr(1)] sim_factor_loop[OF assms(1,2) k(3,1) kr(2)] by simp
  qed
qed

lemma sim_firstFactor:
  assumes "same_base s t" "both v n y" "v < 2 ^ 62"
  shows "sim digit_both (fp_firstFactor s n) (firstFactor t y)"
proof -
  have vr: "v < radix" using assms(3) by (simp add: radix_def)
  have base: "list_all2 small_both (fprimeBase s) (primeBase t)" using assms(1) by (simp add: same_base_def)
  have digit: "digit_both p q" if "small_both p q" for p q using that by (auto elim!: small_bothE intro: digit_bothI)
  define F G where "F = obind (Some (if fprimeBase s = [] then Inr (fi_int 3) else fi_add (last (fprimeBase s)) (fi_int 2))) (\<lambda>start.
       obind (Some (fp_mod_is start 2 0)) (\<lambda>even. obind (Some (if even then fi_add start (fi_int 1) else Inr start)) (\<lambda>start. fp_factor_loop n start)))"
    and "G = obind (Some (if primeBase t = [] then Inr (num_int 3) else num_plus (last (primeBase t)) (num_int 2))) (\<lambda>start.
       obind (Some (mod_is start 2 0)) (\<lambda>even. obind (Some (if even then num_plus start (num_int 1) else Inr start)) (\<lambda>start. factor_loop y start)))"
  have "sim digit_both F G"
    unfolding F_def G_def by (rule sim_bind[OF sim_search_start[OF base]]) (use sim_search[OF assms(2,3)] in blast)
  then have "sim digit_both (case a of Some p \<Rightarrow> Some (Inr p) | None \<Rightarrow> F) (case b of Some p \<Rightarrow> Some (Inr p) | None \<Rightarrow> G)"
    if "rel_option small_both a b" for a b using that digit by (cases a; cases b) (auto intro: sim_return)
  then have "sim digit_both (obind (Some (fp_factor_trial n (fprimeBase s))) (\<lambda>f. case f of Some p \<Rightarrow> Some (Inr p) | None \<Rightarrow> F))
     (obind (Some (factor_trial y (primeBase t))) (\<lambda>f. case f of Some p \<Rightarrow> Some (Inr p) | None \<Rightarrow> G))"
    by (rule sim_bind[OF sim_factor_trial[OF assms(2) vr base]])
  then show ?thesis
    using both_compare(2,6)[OF assms(2) both_ints(3)] both_even[OF assms(2) vr]
      digit_bothI[OF both_ints(1)] digit_bothI[OF both_ints(3)]
    unfolding fp_firstFactor_def firstFactor_def F_def[symmetric] G_def[symmetric]
    by (auto simp: radix_def intro: sim_return)
qed

lemma sim_isPrimeTD:
  assumes "same_base s t" "both v n y" "v < 2 ^ 62"
  shows "sim (=) (fp_isPrimeTD s n) (isPrimeTD t y)"
proof -
  have vr: "v < radix" using assms(3) by (simp add: radix_def)
  have f: "sim (=) (obind (fp_firstFactor s n) (\<lambda>f. Some (Inr (fi_eq f n)))) (obind (firstFactor t y) (\<lambda>f. Some (num_eq f y)))"
  proof (rule sim_bind[OF sim_firstFactor[OF assms]])
    fix f x assume "digit_both f x"
    then obtain q where "both q f x" by (auto simp: digit_both_def)
    from both_compare(1,5)[OF this assms(2)] show "sim (=) (Some (Inr (fi_eq f n))) (Some (num_eq x y))" by (simp add: sim_return)
  qed
  show ?thesis
    using both_compare(1,2,5,6)[OF assms(2) both_ints(3)] both_even[OF assms(2) vr] f
    by (auto simp: fp_isPrimeTD_def isPrimeTD_def intro: sim_return)
qed

lemma sim_all_tests:
  assumes "list_all2 R xs ys" "\<And>x y. R x y \<Longrightarrow> sim (=) (f x) (g y)"
  shows "sim (=) (all_tests f xs) (all_tests g ys)"
  using assms(1)
proof (induction rule: list_all2_induct)
  case (Cons x xs y ys)
  show ?case unfolding all_tests.simps
    by (rule sim_bind[OF assms(2)[OF Cons(1)]]) (use Cons.IH in \<open>auto intro: sim_return\<close>)
qed (simp add: sim_return)

lemma euler_sign_both:
  assumes "both u e x" "both w m1 z"
  shows "euler_sign x z = Inr (fp_euler_sign e m1)"
  using both_compare(1,5)[OF assms] both_compare(1,5)[OF assms(1) both_ints(2)] by (simp add: euler_sign_def fp_euler_sign_def)

text \<open>A power modulo \<open>m\<close> followed by its sign.\<close>

lemma sim_power_sign:
  assumes "both v b x" "both k e y" "both m md z" "v < radix" "k < radix" "0 < m" "m \<le> 2 ^ 32" "both w m1 z1"
    and "\<And>q. sim R (f q) (g q)"
  shows "sim R (obind (fp_powMod b e md) (\<lambda>r. f (fp_euler_sign r m1)))
    (obind (powMod x y z) (\<lambda>r. obind (Some (euler_sign r z1)) g))"
proof (rule sim_bind[OF sim_powMod[OF assms(1-7)]])
  fix r r' assume "below m r r'"
  then show "sim R (f (fp_euler_sign r m1)) (obind (Some (euler_sign r' z1)) g)"
    using euler_sign_both[OF _ assms(8)] assms(9) by (elim belowE) simp
qed

lemma sim_qr_test:
  assumes n: "both v n y" "2 < v" "v < 2 ^ 32" and m1: "both (v - 1) m y1" and h: "both ((v - 1) div 2) m2 y2"
    and p: "small_both p q"
  shows "sim (=) (fp_qr_test n m m2 p) (qr_test y y1 y2 q)"
proof -
  have v: "v < radix" "(v - 1) div 2 < radix" "0 < v" "v \<le> 2 ^ 32" "v < 2 ^ 63" using n(2,3) by (simp_all add: radix_def)
  obtain w where w: "0 < w" "w < 2 ^ 32" "w < radix" "w * w < radix" "both w p q" using p by (rule small_bothE)
  have r2: "0 < (2 :: nat)" "2 < radix" by (simp_all add: radix_def)
  show ?thesis
  proof (cases "w = 2")
    case True
    have "sim (=) (obind (Some (fp_leg2Big n)) (\<lambda>pn. obind (fp_powMod (fi_int 2) m2 n) (\<lambda>e. Some (Inr (fp_euler_sign e m = pn)))))
      (obind (Some (leg2Big y)) (\<lambda>pn. obind (powMod (num_int 2) y2 y) (\<lambda>e. obind (Some (euler_sign e y1)) (\<lambda>en. Some (Inr (en = pn))))))"
      by (rule sim_bind[OF sim_leg2Big[OF n(1) v(1)]], hypsubst,
          rule sim_power_sign[OF both_ints(3) h n(1) r2(2) v(2-4) m1], simp add: sim_return)
    then show ?thesis using both_compare(1,5)[OF w(5) both_ints(3)] True by (simp add: fp_qr_test_def qr_test_def)
  next
    case False
    have pm: "sim (both (w - 1)) (Some (fi_sub p (fi_int 1))) (Some (num_minus q (num_int 1)))"
      by (rule sim_ops(5)[OF w(5) both_ints(2) _ w(3)]) (use w(1) in simp)
    have rest: "sim (=)
      (obind (Some (fi_div f (fi_int 2))) (\<lambda>f2. obind (Some (fi_mod n p)) (\<lambda>np. obind (fp_powMod np f2 p) (\<lambda>npRaw.
        let npn = fp_euler_sign npRaw f in obind (fp_jacobiBig p n) (\<lambda>pn. obind (Some (fi_mul f2 m2)) (\<lambda>exponent.
          obind (Some (fp_mod_is exponent 2 1)) (\<lambda>odd1. if pn \<noteq> (if odd1 then -1 else 1) * npn then Some (Inr False)
             else obind (fp_powMod p m2 n) (\<lambda>eu. Some (Inr (fp_euler_sign eu m = pn)))))))))) 
      (obind (Some (num_div x (num_int 2))) (\<lambda>x2. obind (Some (num_mod y q)) (\<lambda>np. obind (powMod np x2 q) (\<lambda>npRaw.
        obind (Some (euler_sign npRaw x)) (\<lambda>npn. obind (jacobiBig q y) (\<lambda>pn. obind (Some (num_times x2 y2)) (\<lambda>exponent.
          obind (Some (mod_is exponent 2 1)) (\<lambda>odd1. if pn \<noteq> (if odd1 then -1 else 1) * npn then Some (Inr False)
             else obind (powMod q y2 y) (\<lambda>eu. obind (Some (euler_sign eu y1)) (\<lambda>eun. Some (Inr (eun = pn))))))))))))"
      if f: "both (w - 1) f x" for f x
    proof -
      have wr: "w - 1 < radix" "(w - 1) div 2 < radix" "w \<le> 2 ^ 32" using w(2,3) by simp_all
      have ex: "(w - 1) div 2 * ((v - 1) div 2) < radix"
      proof -
        have "(w - 1) div 2 * ((v - 1) div 2) \<le> 2 ^ 31 * 2 ^ 31" using w(2) n(3) by (intro mult_le_mono) simp_all
        then show ?thesis by (simp add: radix_def)
      qed
      have mr: "v mod w < radix" using mod_less_divisor[OF w(1), of v] w(3) by linarith
      show ?thesis unfolding Let_def
        apply (rule sim_bind[OF sim_ops(2)[OF f both_ints(3) wr(1) r2]])
        apply (rule sim_bind[OF sim_ops(1)[OF n(1) w(5) v(1) w(1,3)]])
        apply (rule sim_power_sign[OF _ _ w(5) mr wr(2) w(1) wr(3) f], assumption, assumption)
        apply (rule sim_bind[OF sim_jacobiBig[OF w(5) n(1) w(3) v(5)]], hypsubst)
        apply (rule sim_bind[OF sim_ops(3)[OF _ h wr(2)]], assumption)
        using both_odd[OF _ ex] sim_power_sign[OF w(5) h n(1) w(3) v(2-4) m1, of "(=)" "\<lambda>eun. Some (Inr (eun = _))" "\<lambda>eun. Some (Inr (eun = _))"]
        apply (auto intro!: sim_return)
        done
    qed
    show ?thesis using sim_bind[OF pm rest] both_compare(1,5)[OF w(5) both_ints(3)] False by (simp add: fp_qr_test_def qr_test_def)
  qed
qed

lemma sim_fermat_test:
  assumes n: "both v n y" "0 < v" "v < 2 ^ 32" and m1: "both (v - 1) m y1" and b: "0 \<le> b" "b < 2 ^ 63"
  shows "sim (=) (fp_fermat_test n m b) (fermat_test y y1 b)"
  unfolding fp_fermat_test_def fermat_test_def
proof (rule sim_bind[OF sim_powMod[OF both_int[OF b] m1 n(1) _ _ n(2)]])
  show "nat b < radix" "v - 1 < radix" "v \<le> 2 ^ 32" using b(2) n(3) by (simp_all add: radix_def nat_less_iff)
  fix f x assume "below v f x"
  then show "sim (=) (Some (Inr (fi_eq f (fi_int 1)))) (Some (num_eq x (num_int 1)))"
    using both_compare(1,5)[OF _ both_ints(2)] by (elim belowE) (simp add: sim_return)
qed

lemma sim_if: "(a \<Longrightarrow> sim R p q) \<Longrightarrow> (\<not> a \<Longrightarrow> sim R p' q') \<Longrightarrow> sim R (if a then p else p') (if a then q else q')"
  by simp

text \<open>The comparison with the square of the largest prime.\<close>

lemma sim_below_square:
  assumes "both v n y" "both mx f x" "mx < 2 ^ 32"
  shows "sim (=) (Some (if c then Inr False else rbind (fi_mul f f) (\<lambda>q. Inr (fi_less n q))))
    (Some (if c then Inr False else rbind (num_times x x) (\<lambda>q. num_less y q)))"
proof (cases c)
  case False
  have mr: "mx < radix" using assms(3) by (simp add: radix_def)
  have "sim (=) (obind (Some (fi_mul f f)) (\<lambda>q. Some (Inr (fi_less n q)))) (obind (Some (num_times x x)) (\<lambda>q. Some (num_less y q)))"
    by (rule sim_bind[OF sim_ops(3)[OF assms(2,2) mr]]) (use both_compare(2,6)[OF assms(1)] in \<open>simp add: sim_return\<close>)
  then show ?thesis using False by (simp add: some_rbind)
qed (simp add: sim_return)

text \<open>The two rounds of tests of \<open>isPrimeQR\<close>, over the first \<open>j\<close> primes of the base.\<close>

lemma sim_both_rounds:
  assumes base: "list_all2 small_both ps qs" and n: "both v n y" "2 < v" "v < 2 ^ 32"
    and m: "both (v - 1) m y1" and h: "both ((v - 1) div 2) m2 y2"
  shows "sim (=) (obind (all_tests (fp_qr_test n m m2) (take j ps)) (\<lambda>ok. if \<not> ok then Some (Inr False) else all_tests (fp_fermat_test n m) [2, 3, 5, 7]))
    (obind (all_tests (qr_test y y1 y2) (take j qs)) (\<lambda>ok. if \<not> ok then Some (Inr False) else all_tests (fermat_test y y1) [2, 3, 5, 7]))"
proof (rule sim_bind[OF sim_all_tests[OF list_all2_takeI[OF base]]])
  show "sim (=) (fp_qr_test n m m2 p) (qr_test y y1 y2 q)" if "small_both p q" for p q by (rule sim_qr_test[OF n m h that])
  have same: "list_all2 (\<lambda>a b. a = b \<and> 0 \<le> a \<and> a < 2 ^ 63) [2, 3, 5, 7] [2, 3, 5, 7 :: int]" by simp
  have "sim (=) (all_tests (fp_fermat_test n m) [2, 3, 5, 7]) (all_tests (fermat_test y y1) [2, 3, 5, 7])"
    by (rule sim_all_tests[OF same]) (use sim_fermat_test[OF n(1) _ n(3) m] n(2) in auto)
  then show "sim (=) (if \<not> a then Some (Inr False) else all_tests (fp_fermat_test n m) [2, 3, 5, 7])
     (if \<not> b then Some (Inr False) else all_tests (fermat_test y y1) [2, 3, 5, 7])" if "a = b" for a b
    using that by (simp add: sim_return del: all_tests.simps)
qed

lemma sim_after_trial:
  assumes base: "list_all2 small_both ps qs" and n: "both v n y" "2 < v" "v < 2 ^ 32"
  shows "sim (=)
     (obind (Some (fi_sub n (fi_int 1))) (\<lambda>m. if fi_isZero m then Some (Inr False) else obind (Some (fi_div m (fi_int 2))) (\<lambda>m2.
        obind (all_tests (fp_qr_test n m m2) (take j ps)) (\<lambda>ok. if \<not> ok then Some (Inr False) else all_tests (fp_fermat_test n m) [2, 3, 5, 7]))))
     (obind (Some (num_minus y (num_int 1))) (\<lambda>m. obind (Some (num_isZero m)) (\<lambda>z0. if z0 then Some (Inr False) else obind (Some (num_div m (num_int 2))) (\<lambda>m2.
        obind (all_tests (qr_test y m m2) (take j qs)) (\<lambda>ok. if \<not> ok then Some (Inr False) else all_tests (fermat_test y m) [2, 3, 5, 7])))))"
proof -
  have vr: "v < radix" "v - 1 < radix" "1 \<le> v" and r2: "0 < (2 :: nat)" "2 < radix" using n(2,3) by (simp_all add: radix_def)
  show ?thesis
  proof (rule sim_bind[OF sim_ops(5)[OF n(1) both_ints(2) vr(3,1)]])
    fix m y1 assume m: "both (v - 1) m y1"
    have "sim (=) (if v - 1 = 0 then Some (Inr False) else obind (Some (fi_div m (fi_int 2))) (\<lambda>m2. obind (all_tests (fp_qr_test n m m2) (take j ps))
          (\<lambda>ok. if \<not> ok then Some (Inr False) else all_tests (fp_fermat_test n m) [2, 3, 5, 7])))
        (if v - 1 = 0 then Some (Inr False) else obind (Some (num_div y1 (num_int 2))) (\<lambda>m2. obind (all_tests (qr_test y y1 m2) (take j qs))
          (\<lambda>ok. if \<not> ok then Some (Inr False) else all_tests (fermat_test y y1) [2, 3, 5, 7])))"
      by (rule sim_if, rule sim_return, rule refl, rule sim_bind[OF sim_ops(2)[OF m both_ints(3) vr(2) r2] sim_both_rounds[OF base n m]])
    then show "sim (=) (if fi_isZero m then Some (Inr False) else obind (Some (fi_div m (fi_int 2))) (\<lambda>m2. obind (all_tests (fp_qr_test n m m2) (take j ps))
          (\<lambda>ok. if \<not> ok then Some (Inr False) else all_tests (fp_fermat_test n m) [2, 3, 5, 7])))
        (obind (Some (num_isZero y1)) (\<lambda>z0. if z0 then Some (Inr False) else obind (Some (num_div y1 (num_int 2))) (\<lambda>m2. obind (all_tests (qr_test y y1 m2) (take j qs))
          (\<lambda>ok. if \<not> ok then Some (Inr False) else all_tests (fermat_test y y1) [2, 3, 5, 7]))))"
      using both_tests(1,3)[OF m] by (simp del: all_tests.simps)
  qed
qed

lemma sim_isPrimeQR:
  assumes "same_base s t" "both v n y" "v < 2 ^ 32"
  shows "sim (=) (fp_isPrimeQR s n k) (isPrimeQR t y k)"
proof -
  have vr: "v < radix" using assms(3) by (simp add: radix_def)
  have base: "list_all2 small_both (fprimeBase s) (primeBase t)" using assms(1) by (simp add: same_base_def)
  obtain mx where mx: "mx < 2 ^ 32" "both mx (fmaxPrime s) (maxPrime t)" using assms(1) by (auto simp: same_base_def)
  define F G where "F = (\<lambda>j. obind (Some (fi_sub n (fi_int 1))) (\<lambda>m. if fi_isZero m then Some (Inr False) else obind (Some (fi_div m (fi_int 2))) (\<lambda>m2.
        obind (all_tests (fp_qr_test n m m2) (take j (fprimeBase s))) (\<lambda>ok. if \<not> ok then Some (Inr False) else all_tests (fp_fermat_test n m) [2, 3, 5, 7]))))"
    and "G = (\<lambda>j. obind (Some (num_minus y (num_int 1))) (\<lambda>m. obind (Some (num_isZero m)) (\<lambda>z0. if z0 then Some (Inr False) else obind (Some (num_div m (num_int 2))) (\<lambda>m2.
        obind (all_tests (qr_test y m m2) (take j (primeBase t))) (\<lambda>ok. if \<not> ok then Some (Inr False) else all_tests (fermat_test y m) [2, 3, 5, 7])))))"
  have rest: "sim (=) (F j) (G j)" if "2 < v" for j unfolding F_def G_def by (rule sim_after_trial[OF base assms(2) that assms(3)])
  have whole: "sim (=) (obind (Some (fp_qr_trial n (fprimeBase s))) (\<lambda>ok. if \<not> ok then Some (Inr False) else
      obind (Some (if c then Inr False else rbind (fi_mul (fmaxPrime s) (fmaxPrime s)) (\<lambda>q. Inr (fi_less n q)))) (\<lambda>small. if small then Some (Inr True) else F j)))
     (obind (Some (qr_trial y (primeBase t))) (\<lambda>ok. if \<not> ok then Some (Inr False) else
      obind (Some (if c then Inr False else rbind (num_times (maxPrime t) (maxPrime t)) (\<lambda>q. num_less y q))) (\<lambda>small. if small then Some (Inr True) else G j)))"
    if "2 < v" for c j
    by (rule sim_bind[OF sim_qr_trial[OF assms(2) vr base]], hypsubst, rule sim_if, rule sim_return, rule refl,
        rule sim_bind[OF sim_below_square[OF assms(2) mx(2,1)]], hypsubst, rule sim_if, rule sim_return, rule refl, rule rest[OF that])
  note c = both_compare(1,2,5,6)[OF assms(2) both_ints(3)] both_even[OF assms(2) vr]
  show ?thesis
  proof (cases "v \<le> 2 \<or> even v")
    case True
    then show ?thesis using c by (auto simp: fp_isPrimeQR_def isPrimeQR_def intro: sim_return)
  next
    case False
    have "fp_isPrimeQR s n k = obind (Some (fp_qr_trial n (fprimeBase s))) (\<lambda>ok. if \<not> ok then Some (Inr False) else
      obind (Some (if mx = 0 \<or> mx = 1 then Inr False else rbind (fi_mul (fmaxPrime s) (fmaxPrime s)) (\<lambda>q. Inr (fi_less n q)))) (\<lambda>small.
        if small then Some (Inr True) else F (nat (if k < int (length (primeBase t)) then k else int (length (primeBase t))))))"
      using c False unfolding fp_isPrimeQR_def Let_def both_tests(1,2)[OF mx(2)] list_all2_lengthD[OF base] F_def
      by (simp del: all_tests.simps)
    moreover have "isPrimeQR t y k = obind (Some (qr_trial y (primeBase t))) (\<lambda>ok. if \<not> ok then Some (Inr False) else
      obind (Some (if mx = 0 \<or> mx = 1 then Inr False else rbind (num_times (maxPrime t) (maxPrime t)) (\<lambda>q. num_less y q))) (\<lambda>small.
        if small then Some (Inr True) else G (nat (if k < int (length (primeBase t)) then k else int (length (primeBase t))))))"
    proof -
      have unset: "obind (Some (num_isZero (maxPrime t))) (\<lambda>z. obind (Some (if z then Inr True else num_isOne (maxPrime t))) h) = h (mx = 0 \<or> mx = 1)" for h
        using both_tests(3,4)[OF mx(2)] by auto
      show ?thesis using c False unfolding isPrimeQR_def Let_def unset G_def by (simp del: all_tests.simps)
    qed
    ultimately show ?thesis using whole False by simp
  qed
qed

text \<open>The powers of two of \<open>n - 1\<close>: the odd part and their number are the same.\<close>

definition split_pair :: "nat \<Rightarrow> fint \<times> nat \<Rightarrow> number \<times> nat \<Rightarrow> bool" where
  "split_pair a t t' \<longleftrightarrow> snd t = snd t' \<and> (\<exists>u. both u (fst t) (fst t') \<and> u \<le> a)"

lemma sim_mr_split:
  assumes "both a f x" "0 < a" "a < radix"
  shows "sim (split_pair a) (fp_mr_split f r) (mr_split x r)"
  using assms
proof (induction a arbitrary: f x r rule: less_induct)
  case (less a)
  note t = both_even[OF less.prems(1,3)]
  show ?case
  proof (cases "even a")
    case False
    then show ?thesis using t less.prems(1)
      by (subst fp_mr_split.simps, subst mr_split.simps) (auto intro!: sim_return simp: split_pair_def)
  next
    case True
    have r2: "0 < (2 :: nat)" "2 < radix" by (simp_all add: radix_def)
    have lt: "a div 2 < a" "0 < a div 2" "a div 2 < radix" using True less.prems(2,3) by (auto elim!: evenE)
    have "sim (split_pair a) (fp_mr_split g (r + 1)) (mr_split z (r + 1))" if "both (a div 2) g z" for g z
      by (rule sim_weaken[OF less.IH[OF lt(1) that lt(2,3)]]) (use lt(1) in \<open>force simp: split_pair_def\<close>)
    then have "sim (split_pair a) (obind (Some (fi_div f (fi_int 2))) (\<lambda>d. fp_mr_split d (r + 1)))
        (obind (Some (num_div x (num_int 2))) (\<lambda>d. mr_split d (r + 1)))"
      by (rule sim_bind[OF sim_ops(2)[OF less.prems(1) both_ints(3) less.prems(3) r2]])
    then show ?thesis using t True by (subst fp_mr_split.simps, subst mr_split.simps) simp
  qed
qed

lemma sim_mr_square:
  assumes n: "both v n y" "0 < v" "v < 2 ^ 32" and m1: "both w m y1" and "below v f x"
  shows "sim (=) (fp_mr_square n m j f) (mr_square y y1 j x)"
  using assms(5)
proof (induction j arbitrary: f x)
  case (Suc j)
  obtain q where q: "q < v" "both q f x" using Suc.prems by (elim belowE)
  have b: "q < radix" "2 < radix" "v \<le> 2 ^ 32" using q(1) n(3) by (simp_all add: radix_def)
  show ?case unfolding fp_mr_square.simps mr_square.simps
  proof (rule sim_bind[OF sim_powMod[OF q(2) both_ints(3) n(1) b(1,2) n(2) b(3)]])
    fix g z assume g: "below v g z"
    then obtain u where u: "both u g z" by (elim belowE)
    show "sim (=) (if fi_eq g m then Some (Inr True) else fp_mr_square n m j g)
      (obind (Some (num_eq z y1)) (\<lambda>e. if e then Some (Inr True) else mr_square y y1 j z))"
      using both_compare(1,5)[OF u m1] Suc.IH[OF g] by (simp add: sim_return)
  qed
qed (simp add: sim_return)

lemma both_mr_base:
  assumes "both v n y"
  shows "\<exists>a w. mr_base y i = Inr a \<and> both w (fp_mr_base n i) a \<and> w < radix"
proof -
  define b where "b = (if i < length small_bases then small_bases ! i else 2 + int i mod 100)"
  have "0 \<le> b \<and> b < 2 ^ 63"
  proof (cases "i < length small_bases")
    case True
    have "list_all (\<lambda>b. 0 \<le> b \<and> b < 2 ^ 63) small_bases" by (simp add: small_bases_def)
    then show ?thesis using True by (simp add: b_def list_all_length)
  next
    case False
    have "0 \<le> int i mod 100" "int i mod 100 < 100" by simp_all
    then show ?thesis using False by (simp add: b_def)
  qed
  then have b: "both (nat b) (fi_int b) (num_int b)" "nat b < radix" using both_int by (simp_all add: radix_def nat_less_iff)
  have "2 < radix" by (simp add: radix_def)
  then show ?thesis using both_compare(4,8)[OF b(1) assms] b both_ints(3)
    by (cases "nat b \<ge> v") (auto simp: mr_base_def fp_mr_base_def b_def[symmetric])
qed

lemma sim_mr_round:
  assumes n: "both v n y" "0 < v" "v < 2 ^ 32" and m1: "both w m y1" and d: "both k d e" "k < radix"
  shows "sim (=) (fp_mr_round n m d r i) (mr_round y y1 e r i)"
proof -
  obtain a u where a: "mr_base y i = Inr a" "both u (fp_mr_base n i) a" "u < radix" using both_mr_base[OF n(1)] by blast
  have le: "v \<le> 2 ^ 32" using n(3) by simp
  have "sim (=) (obind (fp_powMod (fp_mr_base n i) d n) (\<lambda>x. if fi_eq x (fi_int 1) \<or> fi_eq x m then Some (Inr True) else fp_mr_square n m (r - 1) x))
    (obind (powMod a e y) (\<lambda>x. obind (Some (num_eq x (num_int 1))) (\<lambda>one. obind (Some (if one then Inr True else num_eq x y1)) (\<lambda>ok.
       if ok then Some (Inr True) else mr_square y y1 (r - 1) x))))"
  proof (rule sim_bind[OF sim_powMod[OF a(2) d(1) n(1) a(3) d(2) n(2) le]])
    fix f x assume f: "below v f x"
    then obtain q where q: "both q f x" by (elim belowE)
    show "sim (=) (if fi_eq f (fi_int 1) \<or> fi_eq f m then Some (Inr True) else fp_mr_square n m (r - 1) f)
      (obind (Some (num_eq x (num_int 1))) (\<lambda>one. obind (Some (if one then Inr True else num_eq x y1)) (\<lambda>ok.
       if ok then Some (Inr True) else mr_square y y1 (r - 1) x)))"
      using both_compare(1,5)[OF q both_ints(2)] both_compare(1,5)[OF q m1] sim_mr_square[OF n m1 f, of "r - 1"] by (auto intro: sim_return)
  qed
  then show ?thesis using a(1) by (simp add: fp_mr_round_def mr_round_def)
qed

lemma sim_isPrimeMR:
  assumes "both v n y" "v < 2 ^ 32"
  shows "sim (=) (fp_isPrimeMR n k) (isPrimeMR y k)"
proof -
  have vr: "v < radix" "v - 1 < radix" using assms(2) by (simp_all add: radix_def)
  have rest: "sim (=) (obind (Some (fi_sub n (fi_int 1))) (\<lambda>m. obind (fp_mr_split m 0) (\<lambda>(d, r). all_tests (fp_mr_round n m d r) [0..<nat k])))
    (obind (Some (num_minus y (num_int 1))) (\<lambda>m. obind (mr_split m 0) (\<lambda>(d, r). all_tests (mr_round y m d r) [0..<nat k])))"
    if v: "2 < v"
  proof (rule sim_bind[OF sim_ops(5)[OF assms(1) both_ints(2) _ vr(1)]])
    fix m m' assume m: "both (v - 1) m m'"
    show "sim (=) (obind (fp_mr_split m 0) (\<lambda>(d, r). all_tests (fp_mr_round n m d r) [0..<nat k]))
      (obind (mr_split m' 0) (\<lambda>(d, r). all_tests (mr_round y m' d r) [0..<nat k]))"
    proof (rule sim_bind[OF sim_mr_split[OF m _ vr(2)]])
      fix t t' assume "split_pair (v - 1) t t'"
      then obtain d e r u where t: "t = (d, r)" "t' = (e, r)" "both u d e" "u \<le> v - 1" by (cases t; cases t') (auto simp: split_pair_def)
      have u: "u < radix" "0 < v" using t(4) vr(2) v by simp_all
      have "sim (=) (all_tests (fp_mr_round n m d r) [0..<nat k]) (all_tests (mr_round y m' e r) [0..<nat k])"
        by (rule sim_all_tests[where R = "(=)"]) (simp_all add: list.rel_eq sim_mr_round[OF assms(1) u(2) assms(2) m t(3) u(1)])
      then show "sim (=) (case t of (d, r) \<Rightarrow> all_tests (fp_mr_round n m d r) [0..<nat k])
        (case t' of (d, r) \<Rightarrow> all_tests (mr_round y m' d r) [0..<nat k])" by (simp add: t(1,2))
    qed (use v in simp)
  qed (use v in simp)
  show ?thesis
    using both_compare(1,2,5,6)[OF assms(1) both_ints(3)] both_compare(1,5)[OF assms(1) both_ints(4)] both_even[OF assms(1) vr(1)] rest
    by (auto simp: fp_isPrimeMR_def isPrimeMR_def intro: sim_return)
qed

section \<open>The bases\<close>

lemma both_small: "0 < i \<Longrightarrow> i < 2 ^ 32 \<Longrightarrow> small_both (fi_int (int i)) (num_int (int i))"
  using both_int[of "int i"] by (auto simp: small_both_def)

lemma same_base_init:
  assumes "1 \<le> sz" "sz * 10 \<le> sieve_max"
  shows "\<exists>s' t'. fp_initPrimality sz s = Inr s' \<and> initPrimality sz t = Inr t' \<and> same_base s' t'"
proof -
  define qs where "qs = take (nat sz) (primes_upto (nat (sz * 10)))"
  have n: "1 \<le> sz * 10" "nat (sz * 10) < 2 ^ 32" and int: "- (2 ^ 31) \<le> sz * 10 \<and> sz * 10 < 2 ^ 31"
    using assms by (simp_all add: sieve_max_def)
  have "2 \<in> set (primes_upto (nat (sz * 10)))" using two_prime assms(1) by (simp add: primes_upto_mem)
  then have ne: "qs \<noteq> []" using assms(1) by (auto simp: qs_def)
  have range: "0 < i \<and> i < 2 ^ 32" if "i \<in> set qs" for i
    using that n(2) by (auto dest!: in_set_takeD simp: qs_def primes_upto_mem is_prime_def)
  have base: "list_all2 small_both (map (\<lambda>i. fi_int (int i)) qs) (map (\<lambda>i. num_int (int i)) qs)"
    by (simp add: list.rel_map) (use range both_small in \<open>auto intro!: list.rel_refl_strong\<close>)
  have l: "small_both (fi_int (int (last qs))) (num_int (int (last qs)))" using range[OF last_in_set[OF ne]] both_small by blast
  have cut: "(if int (length (primes_upto (nat (sz * 10)))) > sz then take (nat sz) (primes_upto (nat (sz * 10))) else primes_upto (nat (sz * 10))) = qs"
    by (simp add: qs_def)
  have pick: "(if int (length (map f (primes_upto (nat (sz * 10))))) > sz then take (nat sz) (map f (primes_upto (nat (sz * 10)))) else map f (primes_upto (nat (sz * 10)))) = map f qs"
    for f :: "nat \<Rightarrow> 'x" using cut by (simp add: take_map qs_def)
  obtain fl where fl: "sieve_flags (sz * 10) = Inr fl" "\<forall>m \<le> nat (sz * 10). fl ! m \<longleftrightarrow> is_prime m"
    using sieve_flags_prime[OF n(1) assms(2)] by blast
  have sieves: "fp_sieve (sz * 10) = Inr (map (\<lambda>i. fi_int (int i)) (primes_upto (nat (sz * 10))))"
    "sieve (sz * 10) = Inr (map (\<lambda>i. num_int (int i)) (primes_upto (nat (sz * 10))))"
    unfolding fp_sieve_def sieve_def fl(1) rbind.simps sieve_filter[OF fl(2)] by simp_all
  have "fp_initPrimality sz s = Inr \<lparr>fprimeBase = map (\<lambda>i. fi_int (int i)) qs, fmaxPrime = fi_int (int (last qs))\<rparr>"
    using ne unfolding fp_initPrimality_def if_P[OF int] sieves rbind.simps Let_def pick by (simp add: last_map)
  moreover have "initPrimality sz t = Inr \<lparr>primeBase = map (\<lambda>i. num_int (int i)) qs, maxPrime = num_int (int (last qs))\<rparr>"
    using ne unfolding initPrimality_def if_P[OF int] sieves rbind.simps Let_def pick by (simp add: last_map)
  moreover have "same_base \<lparr>fprimeBase = map (\<lambda>i. fi_int (int i)) qs, fmaxPrime = fi_int (int (last qs))\<rparr>
    \<lparr>primeBase = map (\<lambda>i. num_int (int i)) qs, maxPrime = num_int (int (last qs))\<rparr>"
    using base l by (auto simp: same_base_def small_both_def)
  ultimately show ?thesis by blast
qed

lemma sim_eq: "sim (=) p q \<longleftrightarrow> p = q \<and> (\<exists>r. q = Some (Inr r))"
  by (auto simp: sim_def)

section \<open>Properties\<close>

text \<open>C25: After \<open>initPrimality(sz)\<close> in both generations, with \<open>sz\<close> from 1 and \<open>sz * 10\<close> within the bound of the sieve, the three tests
  of both end on every number below \<open>2 ^ 32\<close> and give the same verdict, prime or not.\<close>

theorem prime_generations_agree:
  assumes "1 \<le> sz" "sz * 10 \<le> sieve_max" "fp_initPrimality sz s = Inr s'" "initPrimality sz t = Inr t'"
    and "fi_rep n (int v)" "crep y v" "v < 2 ^ 32"
  shows "fp_isPrimeTD s' n = isPrimeTD t' y \<and> fp_isPrimeQR s' n k = isPrimeQR t' y k \<and> fp_isPrimeMR n k = isPrimeMR y k
    \<and> (\<exists>td qr mr. isPrimeTD t' y = Some (Inr td) \<and> isPrimeQR t' y k = Some (Inr qr) \<and> isPrimeMR y k = Some (Inr mr))"
proof -
  have b: "both v n y" and v: "v < 2 ^ 62" using assms(5-7) by (simp_all add: both_def)
  have "same_base s' t'" using same_base_init[OF assms(1,2), of s t] assms(3,4) by simp
  then show ?thesis
    using sim_isPrimeTD[OF _ b v] sim_isPrimeQR[OF _ b assms(7)] sim_isPrimeMR[OF b assms(7)] unfolding sim_eq by blast
qed

lemma prime_generations_agree_witness:
  "\<exists>s' t'. fp_initPrimality 2 fp_start = Inr s' \<and> initPrimality 2 prime_start = Inr t'
    \<and> fp_isPrimeTD s' (fi_int 3) = isPrimeTD t' (num_int 3) \<and> fp_isPrimeMR (fi_int 3) 4 = isPrimeMR (num_int 3) 4"
proof -
  obtain s' t' where i: "fp_initPrimality 2 fp_start = Inr s'" "initPrimality 2 prime_start = Inr t'"
    using same_base_init[of 2 fp_start prime_start] by auto
  have "both 3 (fi_int 3) (num_int 3)" by (rule both_ints(4))
  then have "fi_rep (fi_int 3) (int 3)" "crep (num_int 3) 3" by (simp_all add: both_def)
  from prime_generations_agree[OF _ _ i this, of 4] show ?thesis using i by auto
qed

text \<open>The trial division of the first generation decides primality below \<open>2 ^ 62\<close>, its test by quadratic reciprocity decides it
  below the square of the largest prime of the base, and its Miller-Rabin test accepts every prime below \<open>2 ^ 32\<close>.\<close>

theorem first_isPrime_exact:
  assumes "2 \<le> sz" "sz * 10 \<le> sieve_max" "fp_initPrimality sz s = Inr s'" "fi_rep n (int v)" "v < 2 ^ 62"
    and "fi_rep (fmaxPrime s') (int w)"
  shows "fp_isPrimeTD s' n = Some (Inr (is_prime v))
    \<and> (v < 2 ^ 32 \<and> v < w * w \<longrightarrow> fp_isPrimeQR s' n k = Some (Inr (is_prime v)))
    \<and> (v < 2 ^ 32 \<and> is_prime v \<longrightarrow> fp_isPrimeMR n k = Some (Inr True))"
proof -
  let ?qs = "take (nat sz) (primes_upto (nat (sz * 10)))"
  obtain t' where t': "initPrimality sz prime_start = Inr t'" "same_base s' t'"
    using same_base_init[of sz s prime_start] assms(1-3) by auto
  have ok: "base_ok t' ?qs" "maxPrime t' = last (primeBase t')" using initPrimality_base[OF assms(1,2), of prime_start] t'(1) by simp_all
  have b: "both v n (num_int (int v))" using crep_int[of "int v"] assms(4,5) by (simp add: both_def)
  then have c: "crep (num_int (int v)) v" by (simp add: both_def)
  have td: "isPrimeTD t' (num_int (int v)) = Some (Inr (is_prime v))" by (rule isPrimeTD_rep[OF ok(1) c assms(5)])
  have "2 \<in> set (primes_upto (nat (sz * 10)))" using two_prime assms(1) by (simp add: primes_upto_mem)
  then have ne: "?qs \<noteq> []" using assms(1) by auto
  obtain mx where mx: "both mx (fmaxPrime s') (maxPrime t')" using t'(2) by (auto simp: same_base_def)
  then have m: "fi_rep (fmaxPrime s') (int mx)" by (simp add: both_def)
  have "mx = w" using fi_rep_compare[OF m assms(6)] fi_rep_compare[OF m m] by simp
  then have w: "w = last ?qs" using base_last(1)[OF ok(1) ne] mx crep_unique by (auto simp: ok(2) both_def)
  have vr: "v < radix" using assms(5) by (simp add: radix_def)
  have "isPrimeQR t' (num_int (int v)) k = Some (Inr (is_prime v))" if "v < w * w"
    by (rule isPrimeQR_rep[OF ok(1) ne ok(2) c vr]) (use that w in simp)
  moreover have "isPrimeMR (num_int (int v)) k = Some (Inr True)" if "v < 2 ^ 32" "is_prime v" by (rule isPrimeMR_prime[OF c that])
  ultimately show ?thesis
    using sim_isPrimeTD[OF t'(2) b assms(5)] sim_isPrimeQR[OF t'(2) b] sim_isPrimeMR[OF b] td unfolding sim_eq by auto
qed

end
