(* ===== verification/FirstDecimal.thy ===== *)
theory FirstDecimal
  imports FirstInteger Decimals
begin

text \<open>
  \<open>cpp/lib/BigDecimal.h\<close>: the decimal fractions of the first generation, over the first \<open>BigInteger\<close>. The text differs from
  \<open>bign/BigDecimal.h\<close> in what is normalised and in \<open>format\<close> and \<open>setDecimalPlaces\<close>.
\<close>

section \<open>State, scaling and normal form\<close>

record fdec =
  fnum :: fint
  fplaces :: int

definition fd_scale10 :: "int \<Rightarrow> error + fint" where
  "fd_scale10 n = mfold (\<lambda>_ s. fi_mul s (fi_digit 10)) [0..<nat n] (fi_digit 1)"

function fd_trailing_zeros :: "int \<Rightarrow> int \<Rightarrow> fint \<Rightarrow> error + int" where
  "fd_trailing_zeros places n check =
     (if n < places \<and> \<not> fi_isZero check
      then rbind (fi_mod check (fi_digit 10)) (\<lambda>m.
        if fi_isZero m then rbind (fi_div check (fi_digit 10)) (\<lambda>check. fd_trailing_zeros places (n + 1) check)
        else Inr n)
      else Inr n)"
  by pat_completeness auto
termination by (relation "measure (\<lambda>(p, n, c). nat (p - n))") auto

declare fd_trailing_zeros.simps [simp del]

definition fd_strip :: "fdec \<Rightarrow> fint \<Rightarrow> int \<Rightarrow> error + fdec" where
  "fd_strip d temp tz = rbind (fd_scale10 tz) (\<lambda>divisor. rbind (fi_div temp divisor) (\<lambda>v.
     Inr \<lparr>fnum = if fi_isNegative (fnum d) then fi_negate v else v, fplaces = fplaces d - tz\<rparr>))"

definition fd_normalize :: "fdec \<Rightarrow> error + fdec" where
  "fd_normalize d = (if fi_isZero (fnum d) then Inr (d\<lparr>fplaces := 0\<rparr>)
     else if fplaces d = 0 then Inr d
     else let temp = (if fi_isNegative (fnum d) then fi_abs (fnum d) else fnum d)
       in rbind (fd_scale10 (fplaces d)) (\<lambda>frac_divisor.
          rbind (fi_mod temp frac_divisor) (\<lambda>frac_part.
          rbind (if fi_isZero frac_part then Inr (fplaces d) else fd_trailing_zeros (fplaces d) 0 frac_part) (\<lambda>tz.
            if tz > 0 \<and> tz \<le> fplaces d then fd_strip d temp tz else Inr d))))"

definition fd_scale_to :: "int \<Rightarrow> fdec \<Rightarrow> error + fdec" where
  "fd_scale_to max_places a = (if fplaces a < max_places
     then rbind (fd_scale10 (max_places - fplaces a)) (\<lambda>scale.
          rbind (fi_mul (fnum a) scale) (\<lambda>v. Inr \<lparr>fnum = v, fplaces = max_places\<rparr>))
     else Inr a)"

definition fd_align :: "fdec \<Rightarrow> fdec \<Rightarrow> error + fdec \<times> fdec" where
  "fd_align a b = (if fplaces a = fplaces b then Inr (a, b)
     else let m = (if fplaces a > fplaces b then fplaces a else fplaces b)
       in rbind (fd_scale_to m a) (\<lambda>a. rbind (fd_scale_to m b) (\<lambda>b. Inr (a, b))))"

section \<open>Construction\<close>

definition fd_digit :: "digit \<Rightarrow> int \<Rightarrow> fdec" where
  "fd_digit n places = \<lparr>fnum = fi_digit n, fplaces = places\<rparr>"

definition fd_int :: "fint \<Rightarrow> int \<Rightarrow> error + fdec" where
  "fd_int n places = fd_normalize \<lparr>fnum = n, fplaces = places\<rparr>"

definition fd_parse :: "string \<Rightarrow> error + fdec" where
  "fd_parse s = (if s = [] then Inr (fd_digit 0 0)
     else let negative = (hd s = CHR ''-''); num_str = (if negative then tl s else s)
     in if num_str = [] then Inr (fd_digit 0 0)
     else case find_char (CHR ''.'') num_str of
       None \<Rightarrow> rbind (fi_parse s 10 DIGITS) (\<lambda>i. fd_int i 0)
     | Some dot_pos \<Rightarrow>
       let int_part = take dot_pos num_str;
           frac_part = (if dot_pos + 1 < length num_str then drop (dot_pos + 1) num_str else [])
       in if int_part = [] \<and> frac_part = [] then Inr (fd_digit 0 0)
       else let int_part = (if int_part = [] then ''0'' else int_part)
       in if frac_part = []
       then rbind (fi_parse (if negative then CHR ''-'' # int_part else int_part) 10 DIGITS) (\<lambda>i. fd_int i 0)
       else rbind (fi_parse (int_part @ frac_part) 10 DIGITS) (\<lambda>combined.
            rbind (fd_int combined (int (length frac_part))) (\<lambda>d.
              fd_normalize (if negative then d\<lparr>fnum := fi_negate (fnum d)\<rparr> else d))))"

section \<open>Arithmetic and comparison\<close>

definition fd_linear :: "(fint \<Rightarrow> fint \<Rightarrow> error + fint) \<Rightarrow> fdec \<Rightarrow> fdec \<Rightarrow> error + fdec" where
  "fd_linear f d n = rbind (fd_align d n) (\<lambda>(a, b).
     rbind (f (fnum a) (fnum b)) (\<lambda>v. fd_normalize \<lparr>fnum = v, fplaces = fplaces a\<rparr>))"

definition fd_add :: "fdec \<Rightarrow> fdec \<Rightarrow> error + fdec" where
  "fd_add d n = fd_linear fi_add d n"

definition fd_sub :: "fdec \<Rightarrow> fdec \<Rightarrow> error + fdec" where
  "fd_sub d n = fd_linear fi_sub d n"

definition fd_mul :: "fdec \<Rightarrow> fdec \<Rightarrow> error + fdec" where
  "fd_mul d n = rbind (fi_mul (fnum d) (fnum n)) (\<lambda>v.
     fd_normalize \<lparr>fnum = v, fplaces = fplaces d + fplaces n\<rparr>)"

definition fd_div :: "fdec \<Rightarrow> fdec \<Rightarrow> error + fdec" where
  "fd_div d n = (if fi_isZero (fnum n) then Inl (FlowException 1 DIV)
     else let target_places = (if fplaces d > fplaces n then fplaces d else fplaces n);
            scale_factor = target_places + 10
       in rbind (fd_scale10 scale_factor) (\<lambda>scale.
          rbind (fi_mul (fnum d) scale) (\<lambda>scaled_this.
          rbind (fd_scale10 (fplaces n)) (\<lambda>scale_n.
          rbind (fi_mul (fnum n) scale_n) (\<lambda>scaled_n.
          rbind (fi_div scaled_this scaled_n) (\<lambda>v.
            fd_normalize \<lparr>fnum = v, fplaces = scale_factor - fplaces n\<rparr>))))))"

definition fd_eq :: "fdec \<Rightarrow> fdec \<Rightarrow> error + bool" where
  "fd_eq d n = rbind (fd_align d n) (\<lambda>(a, b). Inr (fi_eq (fnum a) (fnum b)))"

definition fd_less :: "fdec \<Rightarrow> fdec \<Rightarrow> error + bool" where
  "fd_less d n = rbind (fd_align d n) (\<lambda>(a, b). Inr (fi_less (fnum a) (fnum b)))"

section \<open>Rounding and text\<close>

definition fd_round :: "fdec \<Rightarrow> int \<Rightarrow> error + fdec" where
  "fd_round d places = (if places \<ge> fplaces d then Inr d
     else if places < 0 then Inr d
     else let v = (if fi_isNegative (fnum d) then fi_abs (fnum d) else fnum d)
       in rbind (fd_scale10 (fplaces d - places)) (\<lambda>remove_scale.
          rbind (fi_div remove_scale (fi_digit 10)) (\<lambda>s10.
          rbind (fi_div v s10) (\<lambda>temp.
          rbind (fi_mod temp (fi_digit 10)) (\<lambda>rounding_digit.
          rbind (fi_div v remove_scale) (\<lambda>rounded.
          rbind (if fi_ge rounding_digit (fi_digit 5) then fi_add rounded (fi_digit 1) else Inr rounded) (\<lambda>rounded.
            fd_int (if fi_isNegative (fnum d) then fi_negate rounded else rounded) places)))))))"

definition fd_truncate :: "fdec \<Rightarrow> int \<Rightarrow> error + fdec" where
  "fd_truncate d places = (if places \<ge> fplaces d then Inr d
     else if places < 0 then Inr d
     else rbind (fd_scale10 (fplaces d - places)) (\<lambda>remove_scale.
          rbind (fi_div (fnum d) remove_scale) (\<lambda>truncated. fd_int truncated places)))"

definition fd_setDecimalPlaces :: "fdec \<Rightarrow> int \<Rightarrow> error + fdec" where
  "fd_setDecimalPlaces d places = rbind
     (if places < fplaces d then rbind (fd_scale10 (fplaces d - places)) (\<lambda>scale. fi_div (fnum d) scale)
      else if places > fplaces d then rbind (fd_scale10 (places - fplaces d)) (\<lambda>scale. fi_mul (fnum d) scale)
      else Inr (fnum d))
     (\<lambda>v. fd_normalize \<lparr>fnum = v, fplaces = places\<rparr>)"

text \<open>\<open>format(places)\<close> cuts the digits at \<open>places\<close> and never at the places of the number.\<close>

definition fd_format :: "fdec \<Rightarrow> int \<Rightarrow> error + string" where
  "fd_format d places =
     (let places = (if places < 0 then fplaces d else places); v = fnum d; negative = fi_isNegative v
      in rbind (fi_format (if negative then fi_abs v else v) 10 DIGITS) (\<lambda>int_str.
           let text = (if places = 0 then int_str else point_text int_str (nat places))
           in Inr (if negative then CHR ''-'' # text else text)))"


section \<open>The same decimal in the second generation\<close>

lemma fi_ok_results:
  assumes "fi_ok f" "fi_ok g"
  shows "fi_add f g = Inr r \<Longrightarrow> fi_ok r" "fi_sub f g = Inr r \<Longrightarrow> fi_ok r" "fi_mul f g = Inr r \<Longrightarrow> fi_ok r"
    "fi_divide f g = Inr (q, r) \<Longrightarrow> fi_ok q \<and> fi_ok r"
proof -
  have a: "normal (fc_add (fmag f) (fmag g))" "normal (fc_mul (fmag f) (fmag g))"
    using assms fc_rep_add[of "fmag f" "lval (fmag f)" "fmag g" "lval (fmag g)"]
      fc_rep_mul[of "fmag f" "lval (fmag f)" "fmag g" "lval (fmag g)"] by (simp_all add: fi_ok_def fc_rep_def)
  have d: "fi_ok r" if r: "fi_difference (fmag f) (fmag g) s t = Inr r" for s t
  proof -
    obtain c where c: "fc_subtractAbs (fmag f) (fmag g) = Inr c \<or> fc_subtractAbs (fmag g) (fmag f) = Inr c" "fmag r = c"
      using r by (auto simp: fi_difference_def split: if_splits)
    then have "normal c" using fc_subtractAbs_normal assms unfolding fi_ok_def by blast
    then show ?thesis using c(2) by (simp add: fi_ok_def)
  qed
  show "fi_add f g = Inr r \<Longrightarrow> fi_ok r" using assms a d by (auto simp: fi_add_def fi_ok_def split: if_splits)
  show "fi_sub f g = Inr r \<Longrightarrow> fi_ok r" using assms a d by (auto simp: fi_sub_def fi_ok_def fi_negate_def split: if_splits)
  show "fi_ok r" if m: "fi_mul f g = Inr r"
  proof -
    have "r \<in> {fi_digit 0, f, f\<lparr>fsig := - fsig f\<rparr>} \<or> fmag r = fc_mul (fmag f) (fmag g)"
      using m unfolding fi_mul_def second_minus_one rbind.simps by (auto split: if_splits)
    then show ?thesis using assms(1) a(2) by (auto simp: fi_ok_def fi_digit_def)
  qed
  show "fi_divide f g = Inr (q, r) \<Longrightarrow> fi_ok q \<and> fi_ok r"
    using assms fc_divide_normal[of "fmag f" "fmag g"]
    by (cases "fc_divide (fmag f) (fmag g)")
      (auto simp: fi_divide_def Let_def fi_ok_def fi_card_def split: if_splits, simp_all add: fi_digit_def)
qed

lemma fi_ok_div: "fi_ok f \<Longrightarrow> fi_ok g \<Longrightarrow> fi_div f g = Inr r \<Longrightarrow> fi_ok r"
  and fi_ok_mod: "fi_ok f \<Longrightarrow> fi_ok g \<Longrightarrow> fi_mod f g = Inr r \<Longrightarrow> fi_ok r"
  unfolding fi_div_def fi_mod_def rbind_eq_Inr_iff by (auto intro: fi_ok_results(4)[THEN conjunct1] fi_ok_results(4)[THEN conjunct2])

text \<open>
  A computation of the second generation that takes the steps of one of the first: it gives the translation of
  its result, which is one of \<open>P\<close>, or the same error.
\<close>

definition agree :: "('a \<Rightarrow> bool) \<Rightarrow> ('a \<Rightarrow> 'b) \<Rightarrow> error + 'b \<Rightarrow> error + 'a \<Rightarrow> bool" where
  "agree P h m' m \<longleftrightarrow> m' = rbind m (\<lambda>r. Inr (h r)) \<and> (\<forall>r. m = Inr r \<longrightarrow> P r)"

named_theorems agree_intros

lemma agreeD: "agree P h m' m \<Longrightarrow> m' = rbind m (\<lambda>r. Inr (h r))" "agree P h m' m \<Longrightarrow> m = Inr r \<Longrightarrow> P r"
  by (simp_all add: agree_def)

lemma agree_bind [agree_intros]:
  assumes "agree P h m' m" "\<And>r. P r \<Longrightarrow> agree Q k (f' (h r)) (f r)"
  shows "agree Q k (rbind m' f') (rbind m f)"
  using assms by (cases m) (auto simp: agree_def)

lemma agree_Inr [agree_intros]: "P x \<Longrightarrow> y = h x \<Longrightarrow> agree P h (Inr y) (Inr x)"
  and agree_Inl [agree_intros]: "agree P h (Inl e) (Inl e)"
  by (simp_all add: agree_def)

lemma agree_if [agree_intros]:
  "c' = c \<Longrightarrow> (c \<Longrightarrow> agree P h m' m) \<Longrightarrow> (\<not> c \<Longrightarrow> agree P h n' n) \<Longrightarrow> agree P h (if c' then m' else n') (if c then m else n)"
  by simp

lemma agree_operators [agree_intros]:
  assumes "fi_ok f" "fi_ok g"
  shows "agree fi_ok second (bi_plus (second f) (second g)) (fi_add f g)"
    "agree fi_ok second (bi_minus (second f) (second g)) (fi_sub f g)"
    "agree fi_ok second (bi_div (second f) (second g)) (fi_div f g)"
    "agree fi_ok second (bi_mod (second f) (second g)) (fi_mod f g)"
    "short f \<or> short g \<Longrightarrow> agree fi_ok second (bi_times (second f) (second g)) (fi_mul f g)"
  unfolding agree_def using second_operators[OF assms] fi_ok_results[OF assms] fi_ok_div[OF assms] fi_ok_mod[OF assms] by blast+

lemma second_10: "bi_int 10 = second (fi_digit 10)" "bi_int 5 = second (fi_digit 5)"
  by (simp_all add: bi_int_def second_def fi_digit_def fc_digit_def as_core_eq)

lemma short_digit [simp]: "short (fi_digit d)"
  by (simp add: short_def fi_digit_def fc_digit_def)

lemma agree_scale10: "agree fi_ok second (scale10 n) (fd_scale10 n)"
proof -
  have "agree fi_ok second (mfold (\<lambda>_ s. bi_times s (second (fi_digit 10))) xs (second s)) (mfold (\<lambda>_ s. fi_mul s (fi_digit 10)) xs s)"
    if "fi_ok s" for s and xs :: "nat list"
    using that
  proof (induction xs arbitrary: s)
    case (Cons x xs)
    show ?case unfolding mfold.simps by (rule agree_intros Cons.IH | simp add: Cons.prems)+
  qed (simp add: agree_def)
  then show ?thesis by (simp add: scale10_def fd_scale10_def second_digit second_10)
qed

lemma fd_scale10_rep: "\<exists>r. fd_scale10 (int n) = Inr r \<and> fi_rep r (10 ^ n)"
  using fi_rep_result[OF agreeD(1)[OF agree_scale10] scale10_rep] .

lemma fd_scale10_short:
  assumes "fd_scale10 n = Inr r" "n \<le> 300"
  shows "short r"
proof -
  have "(10 :: nat) ^ nat n \<le> 10 ^ 300" using assms(2) by (intro power_increasing) auto
  also have "\<dots> < radix ^ 49" by (simp add: radix_def)
  finally have "nat \<bar>10 ^ nat n :: int\<bar> < radix ^ 49" by (simp add: nat_power_eq)
  moreover have "fi_rep r (10 ^ nat n)" using fd_scale10_rep[of "nat n"] assms(1) by (cases "0 \<le> n") (auto simp: fd_scale10_def)
  ultimately show ?thesis using fi_rep_short by blast
qed

lemma agree_scale10_short: "n \<le> 300 \<Longrightarrow> agree (\<lambda>r. fi_ok r \<and> short r) second (scale10 n) (fd_scale10 n)"
  using agree_scale10[of n] fd_scale10_short[of n] by (simp add: agree_def)

lemma agree_trailing_zeros:
  "fi_ok c \<Longrightarrow> agree (\<lambda>_. True) (\<lambda>n. n) (trailing_zeros p n (second c)) (fd_trailing_zeros p n c)"
proof (induction "nat (p - n)" arbitrary: n c rule: less_induct)
  case less
  have "agree (\<lambda>_. True) (\<lambda>n. n) (trailing_zeros p (n + 1) (second r)) (fd_trailing_zeros p (n + 1) r)"
    if "n < p" "fi_ok r" for r
    using less.hyps[of "n + 1" r] that by simp
  then show ?case using less.prems
    by (subst trailing_zeros.simps, subst fd_trailing_zeros.simps, unfold second_10) (rule agree_intros | simp)+
qed

definition second_dec :: "fdec \<Rightarrow> bigdec" where
  "second_dec d = \<lparr>num = second (fnum d), decimal_places = fplaces d\<rparr>"

lemma second_dec_sel [simp]: "num (second_dec d) = second (fnum d)" "decimal_places (second_dec d) = fplaces d"
  "dec_copy (second_dec d) = second_dec d"
  by (simp_all add: second_dec_def dec_copy_def)

text \<open>Digits in normal form, and few enough places for the scales to be short.\<close>

definition fd_ok :: "fdec \<Rightarrow> bool" where
  "fd_ok d \<longleftrightarrow> fi_ok (fnum d) \<and> 0 \<le> fplaces d \<and> fplaces d \<le> 200"

abbreviation fd_fine :: "fdec \<Rightarrow> bool" where
  "fd_fine d \<equiv> fi_ok (fnum d)"

lemma second_dec_make: "\<lparr>num = second v, decimal_places = p\<rparr> = second_dec \<lparr>fnum = v, fplaces = p\<rparr>"
  by (simp add: second_dec_def)

lemma agree_strip:
  assumes "fd_fine d" "fi_ok t"
  shows "agree fd_fine second_dec (bd_strip (second_dec d) (second t) z) (fd_strip d t z)"
  unfolding bd_strip_def fd_strip_def using assms
  by - (rule agree_intros agree_scale10 | simp add: second_dec_def)+

lemma agree_normalize:
  assumes "fd_fine d"
  shows "agree fd_fine second_dec (bd_normalize (second_dec d)) (fd_normalize d)"
proof -
  define t where "t = (if fi_isNegative (fnum d) then fi_abs (fnum d) else fnum d)"
  have t: "fi_ok t" "(if bi_isNegative (second (fnum d)) then bi_abs (second (fnum d)) else bi_copy (second (fnum d))) = second t"
    using assms by (simp_all add: t_def)
  have "agree (\<lambda>_. True) (\<lambda>n. n) (if bi_isZero (second p) then Inr (fplaces d) else trailing_zeros (fplaces d) 0 (bi_copy (second p)))
      (if fi_isZero p then Inr (fplaces d) else fd_trailing_zeros (fplaces d) 0 p)" if "fi_ok p" for p
    using that by (simp add: agree_trailing_zeros) (simp add: agree_def)
  then show ?thesis
    unfolding bd_normalize_def fd_normalize_def second_dec_sel t(2) t_def[symmetric] Let_def using assms t(1)
    by - (assumption | rule agree_intros agree_scale10 agree_strip | simp add: second_dec_def)+
qed

lemma agree_make [agree_intros]:
  "fi_ok v \<Longrightarrow> agree fd_fine second_dec (bd_normalize \<lparr>num = second v, decimal_places = p\<rparr>) (fd_normalize \<lparr>fnum = v, fplaces = p\<rparr>)"
  using agree_normalize[of "\<lparr>fnum = v, fplaces = p\<rparr>"] by (simp add: second_dec_make)

lemma agree_scale_to:
  assumes "fd_fine d" "m - fplaces d \<le> 300"
  shows "agree fd_fine second_dec (bd_scale_to m (second_dec d)) (fd_scale_to m d)"
  unfolding bd_scale_to_def fd_scale_to_def second_dec_sel using assms
  by - (rule agree_intros agree_scale10_short | simp add: second_dec_def)+

lemma agree_align:
  assumes "fd_ok d" "fd_ok n"
  shows "agree (\<lambda>(a, b). fd_fine a \<and> fd_fine b) (map_prod second_dec second_dec)
    (alignDecimalPlaces (second_dec d) (second_dec n)) (fd_align d n)"
  unfolding alignDecimalPlaces_def fd_align_def second_dec_sel Let_def using assms
  by - (rule agree_intros agree_scale_to | simp add: fd_ok_def)+

lemma agree_linear:
  assumes "fd_ok d" "fd_ok n"
    and f: "\<And>a b. fi_ok a \<Longrightarrow> fi_ok b \<Longrightarrow> agree fi_ok second (f' (second a) (second b)) (f a b)"
  shows "agree fd_fine second_dec (dec_linear f' (second_dec d) (second_dec n)) (fd_linear f d n)"
  unfolding dec_linear_def fd_linear_def second_dec_sel
proof (rule agree_bind[OF agree_align[OF assms(1,2)]], clarsimp)
  show "agree fd_fine second_dec (rbind (f' (second (fnum a)) (second (fnum b))) (\<lambda>v. bd_normalize \<lparr>num = v, decimal_places = fplaces a\<rparr>))
      (rbind (f (fnum a) (fnum b)) (\<lambda>v. fd_normalize \<lparr>fnum = v, fplaces = fplaces a\<rparr>))" if "fd_fine a" "fd_fine b" for a b
    using that by - (rule agree_intros f | simp)+
qed

lemma agree_dec_operators:
  assumes "fd_ok d" "fd_ok n"
  shows "agree fd_fine second_dec (dec_plus (second_dec d) (second_dec n)) (fd_add d n)"
    and "agree fd_fine second_dec (dec_minus (second_dec d) (second_dec n)) (fd_sub d n)"
    and "dec_eq (second_dec d) (second_dec n) = fd_eq d n" "dec_less (second_dec d) (second_dec n) = fd_less d n"
proof -
  have copy: "dec_on_copy f (second_dec d) m = f (second_dec d) m" if "agree fd_fine second_dec (f (second_dec d) m) x" for f m x
    using that by (simp add: agree_def dec_on_copy_def rbind_assoc)
  have lin: "agree fd_fine second_dec (dec_linear bi_plus (second_dec d) (second_dec n)) (fd_linear fi_add d n)"
    "agree fd_fine second_dec (dec_linear bi_minus (second_dec d) (second_dec n)) (fd_linear fi_sub d n)"
    by (rule agree_linear[OF assms], rule agree_operators, assumption+)+
  show "agree fd_fine second_dec (dec_plus (second_dec d) (second_dec n)) (fd_add d n)"
    unfolding dec_plus_def fd_add_def using lin(1) copy[of dec_add] by (simp add: dec_add_def)
  show "agree fd_fine second_dec (dec_minus (second_dec d) (second_dec n)) (fd_sub d n)"
    unfolding dec_minus_def fd_sub_def using lin(2) copy[of dec_sub] by (simp add: dec_sub_def)
  have "agree (\<lambda>_. True) (\<lambda>b. b) (dec_eq (second_dec d) (second_dec n)) (fd_eq d n)"
    "agree (\<lambda>_. True) (\<lambda>b. b) (dec_less (second_dec d) (second_dec n)) (fd_less d n)"
    unfolding dec_eq_def fd_eq_def dec_less_def fd_less_def second_dec_sel
    by (rule agree_bind[OF agree_align[OF assms]], auto intro: agree_Inr)+
  then show "dec_eq (second_dec d) (second_dec n) = fd_eq d n" "dec_less (second_dec d) (second_dec n) = fd_less d n"
    by (simp_all add: agree_def)
qed

text \<open>\<open>operator*=\<close> normalises the product, that of the second generation does not.\<close>

lemma agree_mul:
  assumes "fd_fine d" "fd_fine n" "short (fnum d) \<or> short (fnum n)"
  shows "agree fd_fine second_dec (rbind (dec_mul (second_dec d) (second_dec n)) bd_normalize) (fd_mul d n)"
  unfolding dec_mul_def fd_mul_def second_dec_sel rbind_assoc rbind.simps using assms
  by - (rule agree_intros | simp)+

lemma agree_div:
  assumes "fd_ok d" "fd_ok n"
  shows "agree fd_fine second_dec (dec_div (second_dec d) (second_dec n)) (fd_div d n)"
proof -
  have "agree fd_fine second_dec (dec_divide (second_dec d) (second_dec n)) (fd_div d n)"
    unfolding dec_divide_def fd_div_def second_dec_sel second_copy Let_def using assms
    by - (rule agree_intros agree_scale10_short | simp add: fd_ok_def)+
  then show ?thesis by (simp add: agree_def dec_div_def dec_on_copy_def rbind_assoc)
qed

lemma agree_int: "fi_ok v \<Longrightarrow> agree fd_fine second_dec (dec_int (second v) p) (fd_int v p)"
  unfolding dec_int_def fd_int_def second_copy by (rule agree_make)

lemma agree_round:
  assumes "fd_fine d"
  shows "agree fd_fine second_dec (dec_round (second_dec d) k) (fd_round d k)"
proof -
  define t where "t = (if fi_isNegative (fnum d) then fi_abs (fnum d) else fnum d)"
  have t: "fi_ok t" "(if bi_isNegative (second (fnum d)) then bi_abs (second (fnum d)) else bi_copy (second (fnum d))) = second t"
    using assms by (simp_all add: t_def)
  have int: "agree fd_fine second_dec (dec_int (if bi_isNegative (second (fnum d)) then bi_negate (second x) else second x) k)
      (fd_int (if fi_isNegative (fnum d) then fi_negate x else x) k)" if "fi_ok x" for x
    using agree_int[of "fi_negate x" k] agree_int[of x k] that assms by simp
  have up: "agree fi_ok second (if bi_ge (second rd) (second (fi_digit 5)) then bi_plus (second ro) (second (fi_digit 1)) else Inr (second ro))
      (if fi_ge rd (fi_digit 5) then fi_add ro (fi_digit 1) else Inr ro)" if "fi_ok ro" for rd ro
    using that by - (rule agree_intros | simp add: bi_ge_def fi_ge_def)+
  show ?thesis
    unfolding dec_round_def fd_round_def second_dec_sel t(2) t_def[symmetric] Let_def second_10 second_digit(2)
    using assms t(1) by - (assumption | rule agree_intros agree_scale10 up int | simp)+
qed

lemma agree_truncate:
  assumes "fd_fine d"
  shows "agree fd_fine second_dec (dec_truncate (second_dec d) k) (fd_truncate d k)"
  unfolding dec_truncate_def fd_truncate_def second_dec_sel second_copy using assms
  by - (rule agree_intros agree_scale10 agree_int | simp)+

section \<open>The value of a decimal\<close>

definition fd_rep :: "fdec \<Rightarrow> int \<Rightarrow> nat \<Rightarrow> bool" where
  "fd_rep d z p \<longleftrightarrow> fi_rep (fnum d) z \<and> fplaces d = int p"

text \<open>A decimal in normal form of value \<open>r\<close>.\<close>

definition fd_is :: "fdec \<Rightarrow> rat \<Rightarrow> bool" where
  "fd_is d r \<longleftrightarrow> (\<exists>z p. fd_rep d z p \<and> r = dval z p \<and> (p = 0 \<or> \<not> 10 dvd z))"

lemma fd_rep_second: "fd_rep d z p \<longleftrightarrow> drep (second_dec d) z p" and fd_is_second: "fd_is d r \<longleftrightarrow> dec_is (second_dec d) r"
  by (simp_all add: fd_rep_def drep_def fi_rep_def fd_is_def dec_is_def)

lemma fd_rep_ok: "fd_rep d z p \<Longrightarrow> p \<le> 200 \<Longrightarrow> fd_ok d" and fd_rep_fine: "fd_rep d z p \<Longrightarrow> fd_fine d"
  using fi_rep_ok by (auto simp: fd_rep_def fd_ok_def)

lemma fd_is_result:
  assumes "agree fd_fine second_dec m k" "\<exists>r. m = Inr r \<and> dec_is r v"
  shows "\<exists>r. k = Inr r \<and> fd_is r v"
  using assms by (auto simp: fd_is_second agree_def)

lemma fd_mul_rep:
  assumes "fd_rep d x p" "fd_rep n y q" "y \<noteq> -1" "\<bar>x * y\<bar> < 2 ^ 63" "p + q \<le> 19" "\<bar>x\<bar> < int radix"
  shows "\<exists>r. fd_mul d n = Inr r \<and> fd_is r (dval x p * dval y q)"
proof -
  have "int radix \<le> int (radix ^ 49)" by (simp add: radix_def)
  then have l: "nat \<bar>x\<bar> < radix ^ 49" using assms(6) by linarith
  have i: "fi_rep (fnum d) x" "fi_rep (fnum n) y" using assms(1,2) by (simp_all add: fd_rep_def)
  obtain v where v: "dec_mul (second_dec d) (second_dec n) = Inr v" "drep v (x * y) (p + q)"
    using bi_times_rep[of "second (fnum d)" x "second (fnum n)" y] i l assms(1-3)
    by (auto simp: dec_mul_def drep_def fi_rep_def fd_rep_def)
  have "\<exists>r. rbind (dec_mul (second_dec d) (second_dec n)) bd_normalize = Inr r \<and> dec_is r (dval (x * y) (p + q))"
    using bd_normalize_rep[OF v(2) assms(4,5)] v(1) by simp
  moreover have "short (fnum d)" using fi_rep_short[OF i(1) l] .
  moreover have "dval (x * y) (p + q) = dval x p * dval y q" by (simp add: dval_def power_add)
  ultimately show ?thesis
    using fd_is_result[OF agree_mul[OF fd_rep_fine[OF assms(1)] fd_rep_fine[OF assms(2)]]] by simp
qed

section \<open>Properties\<close>

text \<open>C30: The two generations of \<open>BigDecimal\<close> agree, digits, places and errors, on addition, subtraction, division, rounding and
  comparison of decimals with digits in normal form and 0 to 200 places. They do not agree on products, which the first normalises and
  the second does not: where a factor has fewer than 50 digits, a product of the first is the normal form of that of the second.\<close>

theorem decimal_generations_agree:
  assumes "fd_ok d" "fd_ok n"
  shows "dec_plus (second_dec d) (second_dec n) = rbind (fd_add d n) (\<lambda>r. Inr (second_dec r))
   \<and> dec_minus (second_dec d) (second_dec n) = rbind (fd_sub d n) (\<lambda>r. Inr (second_dec r))
   \<and> dec_div (second_dec d) (second_dec n) = rbind (fd_div d n) (\<lambda>r. Inr (second_dec r))
   \<and> (short (fnum d) \<or> short (fnum n) \<longrightarrow>
       rbind (dec_mul (second_dec d) (second_dec n)) bd_normalize = rbind (fd_mul d n) (\<lambda>r. Inr (second_dec r)))
   \<and> dec_round (second_dec d) k = rbind (fd_round d k) (\<lambda>r. Inr (second_dec r))
   \<and> dec_truncate (second_dec d) k = rbind (fd_truncate d k) (\<lambda>r. Inr (second_dec r))
   \<and> dec_eq (second_dec d) (second_dec n) = fd_eq d n \<and> dec_less (second_dec d) (second_dec n) = fd_less d n"
proof -
  have fine: "fd_fine d" "fd_fine n" using assms by (simp_all add: fd_ok_def)
  show ?thesis
    using agreeD(1)[OF agree_dec_operators(1)[OF assms]] agreeD(1)[OF agree_dec_operators(2)[OF assms]] agree_dec_operators(3,4)[OF assms]
      agreeD(1)[OF agree_div[OF assms]] agreeD(1)[OF agree_mul[OF fine]] agreeD(1)[OF agree_round[OF fine(1)]]
      agreeD(1)[OF agree_truncate[OF fine(1)]] by blast
qed

definition demo_decimal :: "digit \<Rightarrow> int \<Rightarrow> fdec" where
  "demo_decimal v p = \<lparr>fnum = fi_digit v, fplaces = p\<rparr>"

lemma demo_decimal_rep: "fd_rep (demo_decimal v (int p)) (int (unat v)) p"
  using fi_rep_digit[of v] by (simp add: fd_rep_def demo_decimal_def)

lemma decimal_generations_agree_witness:
  "dec_round (second_dec (demo_decimal 1005 3)) 2 = Inr (second_dec (demo_decimal 101 2))"
proof -
  have "fd_ok (demo_decimal 1005 3)" "fd_round (demo_decimal 1005 3) 2 = Inr (demo_decimal 101 2)"
    by (simp add: fd_ok_def demo_decimal_def) code_simp
  then show ?thesis using decimal_generations_agree[of "demo_decimal 1005 3" "demo_decimal 1005 3" 2] by simp
qed

text \<open>Sums, differences and products of decimals of the first generation are exact on the rational values and in normal form, and
  comparisons are those of the values; a product with the integer -1 is the exception.\<close>

theorem first_decimal_arithmetic:
  assumes "fd_rep d x p" "fd_rep n y q" "fits x p (max p q)" "fits y q (max p q)"
  shows "(\<exists>r. fd_add d n = Inr r \<and> fd_is r (dval x p + dval y q)) \<and> (\<exists>r. fd_sub d n = Inr r \<and> fd_is r (dval x p - dval y q))
   \<and> (y \<noteq> -1 \<and> \<bar>x * y\<bar> < 2 ^ 63 \<and> p + q \<le> 19 \<longrightarrow> (\<exists>r. fd_mul d n = Inr r \<and> fd_is r (dval x p * dval y q)))
   \<and> fd_eq d n = Inr (dval x p = dval y q) \<and> fd_less d n = Inr (dval x p < dval y q)"
proof -
  have lim: "p \<le> 200" "q \<le> 200" using assms(3,4) by (auto simp: fits_def)
  have ok: "fd_ok d" "fd_ok n" using fd_rep_ok assms(1,2) lim by blast+
  note dr = assms(1,2)[unfolded fd_rep_second]
  have "\<bar>x\<bar> * 1 \<le> \<bar>x\<bar> * 10 ^ (max p q - p)" by (intro mult_left_mono) auto
  then have "\<bar>x\<bar> < int radix" using assms(3) by (simp add: fits_def radix_def)
  then show ?thesis
    using fd_is_result[OF agree_dec_operators(1)[OF ok] dec_plus_rep[OF dr assms(3,4)]]
      fd_is_result[OF agree_dec_operators(2)[OF ok] dec_minus_rep[OF dr assms(3,4)]]
      fd_mul_rep[OF assms(1,2)] dec_compare_rep[OF dr lim] agree_dec_operators(3,4)[OF ok] by auto
qed

lemma first_decimal_arithmetic_witness:
  "(\<exists>r. fd_add (demo_decimal 1250 3) (demo_decimal 5 1) = Inr r \<and> fd_is r (7 / 4))
   \<and> (\<exists>r. fd_mul (demo_decimal 1250 3) (demo_decimal 5 1) = Inr r \<and> fd_is r (5 / 8))"
proof -
  have v: "dval 1250 3 + dval 5 1 = 7 / 4" "dval 1250 3 * dval 5 1 = 5 / 8" by (simp_all add: dval_def)
  have "fd_rep (demo_decimal 1250 3) 1250 3" "fd_rep (demo_decimal 5 1) 5 1"
    using demo_decimal_rep[of 1250 3] demo_decimal_rep[of 5 1] by simp_all
  from first_decimal_arithmetic[OF this] show ?thesis
    unfolding v by (simp add: fits_def del: One_nat_def)
qed

text \<open>\<open>format\<close> with another number of places than the decimal has moves the point: 1.25 with one place is printed as 12.5. And
  \<open>setDecimalPlaces\<close> normalises away the zeros it has just added.\<close>

lemma first_decimal_format_moves_point:
  "rbind (fd_parse ''1.25'') (\<lambda>d. fd_format d 1) = Inr ''12.5''"
  "rbind (fd_parse ''1.5'') (\<lambda>d. fd_setDecimalPlaces d 4) = fd_parse ''1.5''"
  by code_simp+

end
