(* ===== verification/FirstNumber.thy ===== *)
theory FirstNumber
  imports FirstCardinal
begin

unbundle bit_operations_syntax

text \<open>
  \<open>cpp/lib/Number.h\<close>: the first class of numbers of the library, digits with a sign that its string constructor sets
  and its operators copy but never look at. Digits are of \<open>Digit.h\<close>, whose functions are those of
  \<open>BigDigit.h\<close>. The member \<open>originalLength\<close> is only ever written and left out. The bodies of the
  multiplication and shift loops are the same text as in \<open>BigNumberNaive.cpp\<close>; division is a search by
  doubling, so it may not end.
\<close>

section \<open>Construction, queries and text\<close>

record num =
  nb_digits :: "digit list"
  nb_signal :: int

definition nb_digit :: "digit \<Rightarrow> num" where
  "nb_digit n = \<lparr>nb_digits = [n], nb_signal = 1\<rparr>"

definition nb_parse :: "string \<Rightarrow> int \<Rightarrow> string \<Rightarrow> error + num" where
  "nb_parse s base cs = (if \<not> (base > 1 \<and> base \<le> int (length cs)) then Inl AssertFailed
     else if s = [] \<or> s = ''-'' then Inr (nb_digit 0)
     else let negative = (s ! 0 = CHR ''-''); num_str = (if negative then drop 1 s else s)
          in rbind (bd_parse base (\<lambda>ov op ds. Inr (ds @ [ov])) cs num_str [])
               (\<lambda>(d, ds). Inr \<lparr>nb_digits = ds @ [d], nb_signal = (if negative then -1 else 1)\<rparr>))"

definition nb_bits :: "num \<Rightarrow> int" where
  "nb_bits n = (if nb_digits n = [] then 0
     else let r = sint (ucast (bd_size (last (nb_digits n))) :: 32 word); s = int (length (nb_digits n)) - 1
          in if s \<noteq> 0 then r + s * 64 else r)"

definition nb_format :: "num \<Rightarrow> int \<Rightarrow> string \<Rightarrow> error + string" where
  "nb_format n base cs = (if \<not> (base > 1 \<and> base \<le> int (length cs)) then Inl AssertFailed
     else if nb_digits n = [] then Inr [cs ! 0]
     else rbind (mfold (\<lambda>d acc. rbind (bd_format base cs d) (\<lambda>t. Inr (acc @ t))) (nb_digits n) [])
       (\<lambda>t. Inr (strip_zeros (cs ! 0) t)))"

definition nb_isZero :: "num \<Rightarrow> bool" where
  "nb_isZero n \<longleftrightarrow> length (nb_digits n) = 1 \<and> nb_digits n ! 0 = 0"

definition nb_isOne :: "num \<Rightarrow> bool" where
  "nb_isOne n \<longleftrightarrow> length (nb_digits n) = 1 \<and> nb_digits n ! 0 = 1"

section \<open>Comparison\<close>

definition nb_eq :: "num \<Rightarrow> num \<Rightarrow> bool" where
  "nb_eq a b \<longleftrightarrow> length (nb_digits a) = length (nb_digits b) \<and> list_all (\<lambda>i. nb_digits a ! i = nb_digits b ! i) [0..<length (nb_digits a)]"

fun nb_less_from :: "digit list \<Rightarrow> digit list \<Rightarrow> nat \<Rightarrow> bool" where
  "nb_less_from a b 0 = False"
| "nb_less_from a b (Suc i) = (if a ! i \<noteq> b ! i then a ! i < b ! i else nb_less_from a b i)"

definition nb_less :: "num \<Rightarrow> num \<Rightarrow> bool" where
  "nb_less a b = (if length (nb_digits a) \<noteq> length (nb_digits b) then length (nb_digits a) < length (nb_digits b)
     else nb_less_from (nb_digits a) (nb_digits b) (length (nb_digits a)))"

section \<open>Arithmetic\<close>

text \<open>\<open>operator =\<close> from a number keeps nothing of the old object that is modelled.\<close>

function nb_add_digit :: "digit list \<Rightarrow> digit \<Rightarrow> nat \<Rightarrow> digit list" where
  "nb_add_digit a d i = (if i \<ge> length a then a @ [d]
     else let (v, ov) = bd_add (a ! i) d in if ov \<noteq> 0 then nb_add_digit (a[i := v]) ov (i + 1) else a[i := v])"
  by pat_completeness auto
termination by (relation "measure (\<lambda>(a, d, i). length a - i)") auto

declare nb_add_digit.simps [simp del]

function nb_subtract :: "digit list \<Rightarrow> digit \<Rightarrow> nat \<Rightarrow> error + digit list" where
  "nb_subtract a d i = (if i \<ge> length a then Inl (FlowException 1 SUB)
     else let (v, borrow) = bd_sub (a ! i) d
          in if borrow = 0 then Inr (a[i := v])
             else if i + 1 \<ge> length a then Inl (FlowException borrow SUB)
             else nb_subtract (a[i := v]) borrow (i + 1))"
  by pat_completeness auto
termination by (relation "measure (\<lambda>(a, d, i). length a - i)") auto

declare nb_subtract.simps [simp del]

definition nb_add :: "num \<Rightarrow> num \<Rightarrow> num" where
  "nb_add a b = a\<lparr>nb_digits := fold (\<lambda>i ds. nb_add_digit ds (nb_digits b ! i) i) [0..<length (nb_digits b)] (nb_digits a)\<rparr>"

definition nb_inc :: "num \<Rightarrow> num" where
  "nb_inc a = a\<lparr>nb_digits := nb_add_digit (nb_digits a) 1 0\<rparr>"

definition nb_sub :: "num \<Rightarrow> num \<Rightarrow> error + num" where
  "nb_sub a b = (if nb_less a b then Inl (FlowException 1 SUB)
     else rbind (mfold (\<lambda>i ds. nb_subtract ds (nb_digits b ! i) i) [0..<length (nb_digits b)] (nb_digits a))
       (\<lambda>ds. Inr (a\<lparr>nb_digits := normalize ds\<rparr>)))"

text \<open>\<open>operator --\<close> does not drop a leading zero.\<close>

definition nb_dec :: "num \<Rightarrow> error + num" where
  "nb_dec a = rbind (nb_subtract (nb_digits a) 1 0) (\<lambda>ds. Inr (a\<lparr>nb_digits := ds\<rparr>))"

definition nb_mul :: "num \<Rightarrow> num \<Rightarrow> num" where
  "nb_mul a b = (if nb_eq b (nb_digit 0) \<or> nb_eq a (nb_digit 0) then nb_digit 0
     else if nb_eq b (nb_digit 1) then a
     else (nb_digit 0)\<lparr>nb_digits := normalize (fold (mul_outer (nb_digits a) (nb_digits b)) [0..<length (nb_digits b)]
       (replicate (length (nb_digits a) + length (nb_digits b)) 0))\<rparr>)"

text \<open>The inner loop of \<open>divide\<close> doubles the divisor while it fits, the outer one subtracts it.\<close>

partial_function (option) nb_double_loop :: "num \<Rightarrow> num \<Rightarrow> num \<Rightarrow> (error + num \<times> num) option" where
  "nb_double_loop rmd temp multiple = (if nb_less rmd (nb_mul temp (nb_digit 2)) then Some (Inr (temp, multiple))
     else nb_double_loop rmd (nb_mul temp (nb_digit 2)) (nb_mul multiple (nb_digit 2)))"

partial_function (option) nb_divide_loop :: "num \<Rightarrow> num \<Rightarrow> num \<Rightarrow> (error + num \<times> num) option" where
  "nb_divide_loop n q rmd = (if nb_less rmd n then Some (Inr (q, rmd))
     else obind (nb_double_loop rmd n (nb_digit 1)) (\<lambda>(temp, multiple).
          obind (Some (nb_sub rmd temp)) (\<lambda>rmd. nb_divide_loop n (nb_add q multiple) rmd)))"

definition nb_divide :: "num \<Rightarrow> num \<Rightarrow> (error + num \<times> num) option" where
  "nb_divide a n = (if nb_eq n (nb_digit 0) then Some (Inl (FlowException 1 DIV))
     else if nb_less a n then Some (Inr (nb_digit 0, a))
     else if nb_eq n (nb_digit 1) then Some (Inr (a, nb_digit 0))
     else nb_divide_loop n (nb_digit 0) a)"

definition nb_div :: "num \<Rightarrow> num \<Rightarrow> (error + num) option" where
  "nb_div a n = obind (nb_divide a n) (\<lambda>(q, r). Some (Inr q))"

definition nb_mod :: "num \<Rightarrow> num \<Rightarrow> (error + num) option" where
  "nb_mod a n = obind (nb_divide a n) (\<lambda>(q, r). Some (Inr r))"

section \<open>Shifts and bitwise operations\<close>

definition nb_ops :: "num num_ops" where
  "nb_ops = \<lparr>o_digit = nb_digit, o_copy = (\<lambda>a. a), o_isZero = nb_isZero, o_isOne = nb_isOne, o_eq = nb_eq,
     o_less = nb_less, o_plus = (\<lambda>a b. Inr (nb_add a b)), o_inc = (\<lambda>a. Inr (nb_inc a)), o_bits = nb_bits,
     o_minus = nb_sub, o_times = (\<lambda>a b. Inr (nb_mul a b)), o_div = nb_div, o_mod = nb_mod\<rparr>"

definition nb_power_loop :: "num \<Rightarrow> int option \<Rightarrow> num \<Rightarrow> num \<Rightarrow> (error + num) option" where
  "nb_power_loop = u_power_loop nb_ops"

definition nb_shl :: "num \<Rightarrow> num \<Rightarrow> (error + num) option" where
  "nb_shl a n = (if nb_eq n (nb_digit 0) \<or> nb_isZero a then Some (Inr a)
     else if nb_bits n > 1000 then Some (Inl (FlowException 1 SHL))
     else if length (nb_digits n) = 1 \<and> nb_digits n ! 0 < 64
     then let shift_bits = nb_digits n ! 0 in if shift_bits = 0 then Some (Inr a)
       else Some (rbind (mfold (shl_step shift_bits) [0..<length (nb_digits a)] (nb_digits a, 0))
              (\<lambda>(ds, carry). Inr (a\<lparr>nb_digits := if carry \<noteq> 0 then ds @ [carry] else ds\<rparr>)))
     else obind (nb_power_loop n (Some (nb_bits a + 1000)) (nb_digit 0) (nb_digit 1)) (\<lambda>p. Some (Inr (nb_mul a p))))"

definition nb_shr :: "num \<Rightarrow> num \<Rightarrow> (error + num) option" where
  "nb_shr a n = (if nb_eq n (nb_digit 0) \<or> nb_isZero a then Some (Inr a)
     else if length (nb_digits n) = 1 \<and> nb_digits n ! 0 < 64
     then let shift_bits = nb_digits n ! 0 in if shift_bits = 0 then Some (Inr a)
       else Some (rbind (mfold (shr_step shift_bits) (rev [0..<length (nb_digits a)]) (nb_digits a))
              (\<lambda>ds. Inr (a\<lparr>nb_digits := normalize ds\<rparr>)))
     else obind (nb_power_loop n None (nb_digit 0) (nb_digit 1)) (\<lambda>p. nb_div a p))"

definition nb_and :: "num \<Rightarrow> num \<Rightarrow> num" where
  "nb_and a n = a\<lparr>nb_digits := normalize (bitwise_loop (AND) (nb_digits a) (nb_digits n))\<rparr>"

definition nb_or :: "num \<Rightarrow> num \<Rightarrow> num" where
  "nb_or a n = a\<lparr>nb_digits := normalize (bitwise_loop (OR) (nb_digits a) (nb_digits n))\<rparr>"

definition nb_xor :: "num \<Rightarrow> num \<Rightarrow> num" where
  "nb_xor a n = a\<lparr>nb_digits := normalize (bitwise_loop (XOR) (nb_digits a) (nb_digits n))\<rparr>"

definition nb_not :: "num \<Rightarrow> num" where
  "nb_not a = a\<lparr>nb_digits := normalize (map NOT (nb_digits a))\<rparr>"

section \<open>Utilities\<close>

definition nb_pow :: "num \<Rightarrow> num \<Rightarrow> (error + num) option" where
  "nb_pow = u_pow nb_ops"

definition nb_gcd :: "num \<Rightarrow> num \<Rightarrow> (error + num) option" where
  "nb_gcd = u_gcd nb_ops"

definition nb_lcm :: "num \<Rightarrow> num \<Rightarrow> (error + num) option" where
  "nb_lcm = u_lcm nb_ops"

definition nb_sqrt :: "num \<Rightarrow> (error + num) option" where
  "nb_sqrt n = (if nb_isZero n then Some (Inr (nb_digit 0))
     else if nb_isOne n then Some (Inr (nb_digit 1))
     else if nb_less n (nb_digit 0) then Some (Inl (FlowException 1 DIV))
     else u_sqrt_loop nb_ops n (nb_digit 1) n (nb_digit 0))"

definition nb_mod_pow :: "num \<Rightarrow> num \<Rightarrow> num \<Rightarrow> (error + num) option" where
  "nb_mod_pow = u_mod_pow nb_ops"

section \<open>What the numbers stand for\<close>

text \<open>\<open>nb_rep n v\<close>: the digits of \<open>n\<close> stand for \<open>v\<close>, whatever its sign.\<close>

definition nb_rep :: "num \<Rightarrow> nat \<Rightarrow> bool" where
  "nb_rep n v \<longleftrightarrow> fc_rep (nb_digits n) v"

lemma nb_digits_digit [simp]: "nb_digits (nb_digit d) = [d]"
  by (simp add: nb_digit_def)

lemma nb_isZero_fc: "nb_isZero n = fc_isZero (nb_digits n)" and nb_isOne_fc: "nb_isOne n = fc_isOne (nb_digits n)"
  and nb_bits_fc: "nb_bits n = fc_bits (nb_digits n)" and nb_eq_fc: "nb_eq a b = fc_eq (nb_digits a) (nb_digits b)"
  by (simp_all add: nb_isZero_def fc_isZero_def nb_isOne_def fc_isOne_def nb_bits_def fc_bits_def nb_eq_def fc_eq_def)

lemma nb_less_fc: "nb_less a b = fc_less (nb_digits a) (nb_digits b)"
proof -
  have "nb_less_from x y i = fc_less_from x y i" for x y i by (induction i) auto
  then show ?thesis by (simp add: nb_less_def fc_less_def)
qed

lemma nb_eq_digit: "nb_eq a (nb_digit d) \<longleftrightarrow> nb_digits a = [d]"
  by (simp add: nb_eq_fc fc_eq_iff)

lemma nb_add_digit_eq: "nb_add_digit a d i = addDigit a d i"
proof (induction a d i rule: nb_add_digit.induct)
  case (1 a d i)
  then show ?case by (subst nb_add_digit.simps, subst addDigit.simps) (auto simp: Let_def split: prod.splits)
qed

lemma nb_subtract_eq: "nb_subtract a d i = subtractDigit a d i"
proof (induction a d i rule: nb_subtract.induct)
  case (1 a d i)
  then show ?case by (subst nb_subtract.simps, subst subtractDigit.simps) (auto simp: Let_def split: prod.splits)
qed

lemma high_of_digit: "ucast (drop_bit 64 (ucast (x :: digit) :: uoverflow)) = (0 :: digit)"
  by (rule bit_word_eqI) (auto simp: bit_simps dest: bit_imp_le_length)

lemma bd_add_0: "bd_add x 0 = (x, 0)" "bd_add 0 x = (x, 0)"
  by (simp_all add: bd_add_def ucast_widen high_of_digit Let_def)

text \<open>The shortcut of \<open>BigCardinal\<close> for zero changes nothing.\<close>

lemma add_to_zero: "0 < k \<Longrightarrow> k \<le> length b \<Longrightarrow> fold (\<lambda>i ds. addDigit ds (b ! i) i) [0..<k] [0] = take k b"
proof (induction k)
  case (Suc k)
  show ?case
  proof (cases "k = 0")
    case True
    then show ?thesis using Suc.prems by (cases b) (simp_all add: addDigit.simps[of "[0]"] bd_add_0)
  next
    case False
    then show ?thesis using Suc by (simp add: addDigit.simps[of "take k b"] take_Suc_conv_app_nth)
  qed
qed simp

lemma nb_add_fc: "nb_digits a \<noteq> [] \<Longrightarrow> nb_digits b \<noteq> [] \<Longrightarrow> nb_add a b = a\<lparr>nb_digits := fc_add (nb_digits a) (nb_digits b)\<rparr>"
proof -
  assume ne: "nb_digits a \<noteq> []" "nb_digits b \<noteq> []"
  have z: "addDigit (nb_digits a) 0 0 = nb_digits a"
    using ne(1) by (simp add: addDigit.simps[of "nb_digits a"] bd_add_0)
  show ?thesis using ne z add_to_zero[of "length (nb_digits b)" "nb_digits b"]
    by (auto simp: nb_add_def fc_add_def fc_add_digit_eq nb_add_digit_eq fc_isZero_iff)
qed

lemma nb_inc_fc: "nb_inc a = a\<lparr>nb_digits := fc_inc (nb_digits a)\<rparr>"
  by (simp add: nb_inc_def fc_inc_def nb_add_digit_eq fc_add_digit_eq)

lemma nb_mul_fc: "nb_digits (nb_mul a b) = fc_mul (nb_digits a) (nb_digits b)"
  by (auto simp: nb_mul_def fc_mul_def nb_eq_digit fc_isZero_iff fc_isOne_iff)

lemma nb_sub_eq:
  assumes "\<not> nb_less a b"
  shows "nb_sub a b = rbind (naive_subtract (nb_digits a) (nb_digits b)) (\<lambda>ds. Inr (a\<lparr>nb_digits := ds\<rparr>))"
proof -
  have "(\<lambda>i ds. nb_subtract ds (nb_digits b ! i) i) = sub_step (nb_digits b)"
    by (intro ext) (subst nb_subtract.simps, auto simp: sub_step_def nb_subtract_eq Let_def split: prod.splits)
  then show ?thesis using assms by (simp add: nb_sub_def naive_subtract_def rbind_assoc)
qed

lemma nb_rep_digit: "nb_rep (nb_digit d) (unat d)"
  by (simp add: nb_rep_def fc_rep_digit)

lemma nb_rep_ne: "nb_rep a v \<Longrightarrow> nb_digits a \<noteq> []"
  by (auto simp: nb_rep_def fc_rep_def normal_def)

lemma nb_rep_isZero: "nb_rep a v \<Longrightarrow> nb_isZero a \<longleftrightarrow> v = 0"
  and nb_rep_isOne: "nb_rep a v \<Longrightarrow> nb_isOne a \<longleftrightarrow> v = 1"
  and nb_rep_eq: "nb_rep a v \<Longrightarrow> nb_rep b w \<Longrightarrow> nb_eq a b \<longleftrightarrow> v = w"
  and nb_rep_less: "nb_rep a v \<Longrightarrow> nb_rep b w \<Longrightarrow> nb_less a b \<longleftrightarrow> v < w"
  by (simp_all add: nb_rep_def nb_isZero_fc nb_isOne_fc nb_eq_fc nb_less_fc fc_rep_isZero fc_rep_isOne fc_rep_eq fc_rep_less)

lemma nb_rep_add: "nb_rep a v \<Longrightarrow> nb_rep b w \<Longrightarrow> nb_rep (nb_add a b) (v + w)"
  using nb_rep_ne[of a v] nb_rep_ne[of b w] by (simp add: nb_add_fc) (simp add: nb_rep_def fc_rep_add)

lemma nb_rep_inc: "nb_rep a v \<Longrightarrow> nb_rep (nb_inc a) (v + 1)"
  using fc_rep_inc[of "nb_digits a" v] by (simp add: nb_inc_fc nb_rep_def)

lemma nb_rep_mul: "nb_rep a v \<Longrightarrow> nb_rep b w \<Longrightarrow> nb_rep (nb_mul a b) (v * w)"
  by (simp add: nb_rep_def nb_mul_fc fc_rep_mul)

lemma nb_rep_sub:
  assumes "nb_rep a v" "nb_rep b w" "w \<le> v" "dominates (nb_digits a) (nb_digits b)"
  shows "\<exists>r. nb_sub a b = Inr r \<and> nb_rep r (v - w)"
proof -
  obtain r where "naive_subtract (nb_digits a) (nb_digits b) = Inr r" "normal r" "lval r + lval (nb_digits b) = lval (nb_digits a)"
    using naive_subtract_dominated[OF assms(4)] nb_rep_ne[OF assms(1)] by blast
  then show ?thesis using assms nb_rep_less[OF assms(1,2)] by (auto simp: nb_sub_eq nb_rep_def fc_rep_def)
qed

lemma nb_rep_sub_small:
  assumes "nb_rep a v" "nb_rep b w" "w \<le> v" "v < radix"
  shows "\<exists>r. nb_sub a b = Inr r \<and> nb_rep r (v - w)"
proof -
  have "unat (of_nat v :: digit) = v" "unat (of_nat w :: digit) = w"
    using assms by (simp_all add: unat_of_nat radix_def)
  moreover have "nb_digits a = [of_nat v]" "nb_digits b = [of_nat w]"
    using assms fc_rep_small by (auto simp: nb_rep_def)
  ultimately have "dominates (nb_digits a) (nb_digits b)" using assms(3) by (simp add: dominates_single word_le_nat_alt)
  then show ?thesis by (rule nb_rep_sub[OF assms(1-3)])
qed

section \<open>Division by doubling\<close>

lemma nb_rep_2: "nb_rep (nb_digit 2) 2" and nb_rep_0: "nb_rep (nb_digit 0) 0" and nb_rep_1: "nb_rep (nb_digit 1) 1"
  using nb_rep_digit[of 2] nb_rep_digit[of 0] nb_rep_digit[of 1] by simp_all

lemma nb_double_loop_rep:
  assumes "nb_rep rmd v" "nb_rep temp x" "nb_rep multiple y" "0 < x" "x \<le> v" "x = y * w"
  shows "\<exists>t m x' y'. nb_double_loop rmd temp multiple = Some (Inr (t, m)) \<and> nb_rep t x' \<and> nb_rep m y'
    \<and> 0 < x' \<and> x' \<le> v \<and> v < 2 * x' \<and> x' = y' * w"
  using assms(2-)
proof (induction "v - x" arbitrary: temp multiple x y rule: less_induct)
  case less
  have t2: "nb_rep (nb_mul temp (nb_digit 2)) (x * 2)" and m2: "nb_rep (nb_mul multiple (nb_digit 2)) (y * 2)"
    using nb_rep_mul[OF less.prems(1) nb_rep_2] nb_rep_mul[OF less.prems(2) nb_rep_2] by simp_all
  note l = nb_rep_less[OF assms(1) t2]
  show ?case
  proof (cases "v < x * 2")
    case True
    then have "nb_double_loop rmd temp multiple = Some (Inr (temp, multiple))"
      using l by (subst nb_double_loop.simps) simp
    then show ?thesis using less.prems True by (auto simp: mult.commute)
  next
    case False
    then have step: "nb_double_loop rmd temp multiple = nb_double_loop rmd (nb_mul temp (nb_digit 2)) (nb_mul multiple (nb_digit 2))"
      using l by (subst nb_double_loop.simps) simp
    have "v - x * 2 < v - x" "0 < x * 2" "x * 2 \<le> v" using False less.prems(3) by linarith+
    moreover have "x * 2 = y * 2 * w" using less.prems(5) by simp
    ultimately show ?thesis unfolding step using less.hyps[OF _ t2 m2] by blast
  qed
qed

lemma nb_divide_loop_rep:
  assumes "nb_rep n w" "0 < w" "v < radix" "nb_rep q k" "nb_rep rmd r" "v = k * w + r"
  shows "\<exists>q' r'. nb_divide_loop n q rmd = Some (Inr (q', r')) \<and> nb_rep q' (v div w) \<and> nb_rep r' (v mod w)"
  using assms(4-)
proof (induction r arbitrary: q rmd k rule: less_induct)
  case (less r)
  note l = nb_rep_less[OF less.prems(2) assms(1)]
  show ?case
  proof (cases "r < w")
    case True
    then have "nb_divide_loop n q rmd = Some (Inr (q, rmd))" using l by (subst nb_divide_loop.simps) simp
    moreover have "v div w = k" "v mod w = r" using True less.prems(3) by simp_all
    ultimately show ?thesis using less.prems by blast
  next
    case False
    obtain t m x y where d: "nb_double_loop rmd n (nb_digit 1) = Some (Inr (t, m))" "nb_rep t x" "nb_rep m y"
      "0 < x" "x \<le> r" "x = y * w"
      using nb_double_loop_rep[OF less.prems(2) assms(1) nb_rep_1 assms(2), of w] False by auto
    have "r < radix" using less.prems(3) assms(3) by simp
    then obtain rmd' where s: "nb_sub rmd t = Inr rmd'" "nb_rep rmd' (r - x)"
      using nb_rep_sub_small[OF less.prems(2) d(2,5)] by blast
    have step: "nb_divide_loop n q rmd = nb_divide_loop n (nb_add q m) rmd'"
      using l False d(1) s(1) by (subst nb_divide_loop.simps) simp
    have "(k + y) * w = k * w + x" using d(6) by (simp add: add_mult_distrib)
    then have "r - x < r" "v = (k + y) * w + (r - x)" using d(4,5) less.prems(3) by linarith+
    then show ?thesis unfolding step using less.IH[OF _ nb_rep_add[OF less.prems(1) d(3)] s(2)] by blast
  qed
qed

lemma nb_divide_rep:
  assumes "nb_rep a v" "nb_rep n w" "v < radix" "0 < w"
  shows "\<exists>q r. nb_divide a n = Some (Inr (q, r)) \<and> nb_rep q (v div w) \<and> nb_rep r (v mod w)"
proof -
  note c = nb_rep_eq[OF assms(2) nb_rep_0] nb_rep_less[OF assms(1,2)] nb_rep_eq[OF assms(2) nb_rep_1]
  consider "v < w" | "w \<le> v" "w = 1" | "w \<le> v" "w \<noteq> 1" by linarith
  then show ?thesis
  proof cases
    case 1
    then show ?thesis using c assms nb_rep_0 by (simp add: nb_divide_def)
  next
    case 2
    then show ?thesis using c assms nb_rep_0 by (simp add: nb_divide_def)
  next
    case 3
    then show ?thesis using c assms(4) nb_divide_loop_rep[OF assms(2,4,3) nb_rep_0 assms(1)] by (simp add: nb_divide_def)
  qed
qed

interpretation number: num_theory nb_ops nb_rep "\<lambda>v. True"
proof
  show "2 ^ (nat (o_bits nb_ops a) - 1) \<le> v" if "nb_rep a v" "0 < v" "v < radix ^ 49" for a v
    using first.R_bits[of "nb_digits a" v] that by (simp add: nb_ops_def fc_ops_def nb_rep_def nb_bits_fc)
  show "\<exists>r. o_inc nb_ops a = Inr r \<and> nb_rep r (v + 1)" if "nb_rep a v" for a v
    using nb_rep_inc[OF that] by (simp add: nb_ops_def)
  show "\<exists>r. o_div nb_ops a b = Some (Inr r) \<and> nb_rep r (v div w)"
    and "\<exists>r. o_mod nb_ops a b = Some (Inr r) \<and> nb_rep r (v mod w)"
    if "nb_rep a v" "nb_rep b w" "v < radix" "0 < w" "w < radix" for a b v w
    using nb_divide_rep[OF that(1-4)] by (auto simp: nb_ops_def nb_div_def nb_mod_def)
qed (simp_all add: nb_ops_def nb_rep_digit nb_rep_isZero nb_rep_isOne nb_rep_eq nb_rep_less nb_rep_add
  nb_rep_sub_small nb_rep_mul)

lemma nb_sqrt_u: "nb_rep n v \<Longrightarrow> nb_sqrt n = u_sqrt nb_ops n"
  using nb_rep_less[OF _ nb_rep_0] by (simp add: nb_sqrt_def u_sqrt_def nb_ops_def)

lemmas nb_utilities = nb_pow_def nb_gcd_def nb_lcm_def nb_mod_pow_def

section \<open>Shifts\<close>

lemma nb_shl_rep:
  assumes "nb_rep a v" "nb_rep n w" "w < 1000" "length (nb_digits a) < 2 ^ 24"
  shows "\<exists>r. nb_shl a n = Some (Inr r) \<and> nb_rep r (v * 2 ^ w)"
proof (cases "v = 0 \<or> w = 0")
  case True
  then show ?thesis using assms(1,2) nb_rep_eq[OF assms(2) nb_rep_0] by (auto simp: nb_shl_def nb_rep_isZero)
next
  case False
  then have pos: "0 < v" "0 < w" by simp_all
  have fa: "fc_rep (nb_digits a) v" and fn: "fc_rep (nb_digits n) w" using assms(1,2) by (simp_all add: nb_rep_def)
  have z: "\<not> nb_eq n (nb_digit 0)" "\<not> nb_isZero a"
    using False nb_rep_eq[OF assms(2) nb_rep_0] nb_rep_isZero[OF assms(1)] by simp_all
  have bits: "\<not> nb_bits n > 1000" using fc_bits_small[OF fn pos(2) assms(3)] by (simp add: nb_bits_fc)
  show ?thesis
  proof (cases "w < 64")
    case True
    have n: "nb_digits n = [of_nat w]" "unat (of_nat w :: digit) = w"
      using rep_single[of "as_core (nb_digits n)" w, OF _ True] fn by (simp_all add: as_core_rep)
    have s: "(of_nat w :: digit) < 64" "of_nat w \<noteq> (0 :: digit)"
      using True pos(2) n(2) by (auto simp: word_less_nat_alt unat_eq_zero simp del: of_nat_eq_0_iff)
    have na: "normal (nb_digits a)" "nb_digits a \<noteq> [0]" using fa pos(1) by (auto simp: fc_rep_def)
    obtain r where r: "shl_from (of_nat w) 0 (nb_digits a) = Inr r" "normal r" "lval r = lval (nb_digits a) * 2 ^ w"
      using shl_from_normal[OF s(1) na] n(2) by auto
    obtain ds c where ds: "mfold (shl_step (of_nat w)) [0..<length (nb_digits a)] (nb_digits a, 0) = Inr (ds, c)"
      "r = (if c \<noteq> 0 then ds @ [c] else ds)" using r(1) by (auto simp: shl_from_def split: if_splits)
    have "nb_shl a n = Some (Inr (a\<lparr>nb_digits := r\<rparr>))"
      using z bits s ds by (simp add: nb_shl_def n(1) Let_def)
    then show ?thesis using r fa by (simp add: nb_rep_def fc_rep_def)
  next
    case big: False
    have "0 < nb_bits a"
      using cd_bits_rep(1)[of "as_core (nb_digits a)" v] fa assms(4) pos(1) by (simp add: as_core_rep fc_bits_core nb_bits_fc)
    then obtain p where p: "nb_power_loop n (Some (nb_bits a + 1000)) (nb_digit 0) (nb_digit 1) = Some (Inr p)" "nb_rep p (2 ^ w)"
      using number.u_power_R[OF assms(2,3), of "Some (nb_bits a + 1000)"] assms(3)
      by (auto simp: nb_power_loop_def nb_ops_def)
    have ns: "\<not> (length (nb_digits n) = 1 \<and> nb_digits n ! 0 < 64)"
      using rep_not_single[of "as_core (nb_digits n)" w] fn big by (simp add: as_core_rep)
    have "nb_shl a n = Some (Inr (nb_mul a p))"
      unfolding nb_shl_def using z bits ns by (simp only: if_False de_Morgan_disj simp_thms) (simp add: p(1))
    then show ?thesis using nb_rep_mul[OF assms(1) p(2)] by simp
  qed
qed

section \<open>Properties\<close>

text \<open>Addition, increment, multiplication and comparison are those of the naturals behind the digits, whatever
  the signs say; a subtraction below zero throws and one without borrows is exact; a left shift multiplies.\<close>

theorem first_number_arithmetic:
  assumes "nb_rep a v" "nb_rep b w"
  shows "nb_rep (nb_add a b) (v + w) \<and> nb_rep (nb_inc a) (v + 1) \<and> nb_rep (nb_mul a b) (v * w)
   \<and> (v < w \<longrightarrow> nb_sub a b = Inl (FlowException 1 SUB))
   \<and> (w \<le> v \<and> dominates (nb_digits a) (nb_digits b) \<longrightarrow> (\<exists>r. nb_sub a b = Inr r \<and> nb_rep r (v - w)))
   \<and> (w < 1000 \<and> length (nb_digits a) < 2 ^ 24 \<longrightarrow> (\<exists>r. nb_shl a b = Some (Inr r) \<and> nb_rep r (v * 2 ^ w)))
   \<and> (nb_eq a b \<longleftrightarrow> v = w) \<and> (nb_less a b \<longleftrightarrow> v < w)"
proof -
  have "nb_sub a b = Inl (FlowException 1 SUB)" if "v < w"
    using that nb_rep_less[OF assms] by (simp add: nb_sub_def)
  then show ?thesis
    using nb_rep_add[OF assms] nb_rep_inc[OF assms(1)] nb_rep_mul[OF assms] nb_rep_sub[OF assms] nb_shl_rep[OF assms]
      nb_rep_eq[OF assms] nb_rep_less[OF assms] by blast
qed

lemma first_number_arithmetic_witness:
  "nb_rep (nb_add (nb_digit 5) (nb_digit 7)) 12 \<and> nb_sub (nb_digit 5) (nb_digit 7) = Inl (FlowException 1 SUB)"
  using first_number_arithmetic[OF nb_rep_digit[of 5] nb_rep_digit[of 7]] by simp

text \<open>C31: Division by doubling ends, with the quotient and the remainder, for every dividend of one digit and every
  divisor but zero; a zero divisor throws.\<close>

theorem first_number_divide_exact:
  assumes "nb_rep a v" "nb_rep n w" "v < radix"
  shows "(0 < w \<longrightarrow> (\<exists>q r. nb_divide a n = Some (Inr (q, r)) \<and> nb_rep q (v div w) \<and> nb_rep r (v mod w)))
   \<and> (w = 0 \<longrightarrow> nb_divide a n = Some (Inl (FlowException 1 DIV)))"
  using nb_divide_rep[OF assms] nb_rep_eq[OF assms(2) nb_rep_0] by (simp add: nb_divide_def)

lemma first_number_divide_exact_witness:
  "\<exists>q r. nb_divide (nb_digit 1000) (nb_digit 7) = Some (Inr (q, r)) \<and> nb_rep q 142 \<and> nb_rep r 6"
  using first_number_divide_exact[OF nb_rep_digit[of 1000] nb_rep_digit[of 7]] by (simp add: radix_def)

text \<open>\<open>pow\<close>, \<open>gcd\<close>, \<open>lcm\<close>, \<open>sqrt\<close> and \<open>mod_pow\<close> return with the right number, over the division by doubling.\<close>

theorem first_number_utilities:
  assumes "nb_rep a v" "nb_rep b w" "w < radix"
  shows "(\<exists>r. nb_pow a b = Some (Inr r) \<and> nb_rep r (v ^ w))
   \<and> (v < radix \<longrightarrow> (\<exists>r. nb_gcd a b = Some (Inr r) \<and> nb_rep r (gcd v w)))
   \<and> (0 < v \<and> 0 < w \<and> v * w < radix \<longrightarrow> (\<exists>r. nb_lcm a b = Some (Inr r) \<and> nb_rep r (lcm v w)))
   \<and> (v < 2 ^ 63 \<longrightarrow> (\<exists>r y. nb_sqrt a = Some (Inr r) \<and> nb_rep r y \<and> y * y \<le> v \<and> v < (y + 1) * (y + 1)))
   \<and> (nb_rep md m \<and> v < radix \<and> 0 < m \<and> m \<le> 2 ^ 32 \<longrightarrow> (\<exists>r. nb_mod_pow a b md = Some (Inr r) \<and> nb_rep r (v ^ w mod m)))"
  unfolding nb_utilities nb_sqrt_u[OF assms(1)]
proof (intro conjI impI)
  show "\<exists>r. u_pow nb_ops a b = Some (Inr r) \<and> nb_rep r (v ^ w)" by (rule number.u_pow_R[OF assms TrueI])
  show "\<exists>r. u_gcd nb_ops a b = Some (Inr r) \<and> nb_rep r (gcd v w)" if "v < radix"
    by (rule number.u_gcd_R[OF assms(1,2) that assms(3)])
  show "\<exists>r. u_lcm nb_ops a b = Some (Inr r) \<and> nb_rep r (lcm v w)" if "0 < v \<and> 0 < w \<and> v * w < radix"
    using that by (intro number.u_lcm_R[OF assms(1,2)]) simp_all
  show "\<exists>r y. u_sqrt nb_ops a = Some (Inr r) \<and> nb_rep r y \<and> y * y \<le> v \<and> v < (y + 1) * (y + 1)" if "v < 2 ^ 63"
    by (rule number.u_sqrt_R[OF assms(1) that])
  show "\<exists>r. u_mod_pow nb_ops a b md = Some (Inr r) \<and> nb_rep r (v ^ w mod m)"
    if "nb_rep md m \<and> v < radix \<and> 0 < m \<and> m \<le> 2 ^ 32"
    using that assms(3) by (intro number.u_mod_pow_R[OF assms(1,2)]) simp_all
qed

lemma first_number_utilities_witness:
  "(\<exists>r. nb_pow (nb_digit 10) (nb_digit 100) = Some (Inr r) \<and> nb_rep r (10 ^ 100))
   \<and> (\<exists>r. nb_gcd (nb_digit 10) (nb_digit 100) = Some (Inr r) \<and> nb_rep r (gcd 10 100))"
  using first_number_utilities[OF nb_rep_digit[of 10] nb_rep_digit[of 100]] by (simp add: radix_def)

text \<open>The sign of a text is stored and never read: -5 is equal to 5, is printed as 5 and gives 8 when 3 is added.\<close>

theorem first_number_sign_ignored:
  "nb_parse ''-5'' 10 DIGITS = Inr \<lparr>nb_digits = [5], nb_signal = -1\<rparr>
   \<and> nb_eq \<lparr>nb_digits = [5], nb_signal = -1\<rparr> (nb_digit 5)
   \<and> nb_format \<lparr>nb_digits = [5], nb_signal = -1\<rparr> 10 DIGITS = Inr ''5''
   \<and> nb_eq (nb_add \<lparr>nb_digits = [5], nb_signal = -1\<rparr> (nb_digit 3)) (nb_digit 8)"
proof (intro conjI)
  show "nb_parse ''-5'' 10 DIGITS = Inr \<lparr>nb_digits = [5], nb_signal = -1\<rparr>" by code_simp
  show "nb_format \<lparr>nb_digits = [5], nb_signal = -1\<rparr> 10 DIGITS = Inr ''5''" by code_simp
  show "nb_eq (nb_add \<lparr>nb_digits = [5], nb_signal = -1\<rparr> (nb_digit 3)) (nb_digit 8)" by code_simp
qed (simp add: nb_eq_digit)

end
