(* ===== verification/Lifetimes.thy ===== *)
theory Lifetimes
  imports Numbers FirstInteger FirstNumber
begin

text \<open>
  Copies, moves, assignments and postfix operators of the number classes. The assignments test \<open>this != &other\<close>, so they act on
  a list of objects, in which \<open>i\<close> and \<open>j\<close> may be the same; a postfix operator returns the old value and the object as it is then.
\<close>

section \<open>Move constructors\<close>

text \<open>As \<open>core_move\<close>: the new object and what is left of the old one.\<close>

definition cd_move :: "core \<Rightarrow> core \<times> core" where
  "cd_move other = core_move other"

definition bi_move :: "bigint \<Rightarrow> bigint \<times> bigint" where
  "bi_move other = (case cd_move (magnitude other) of (m, rest) \<Rightarrow>
     (\<lparr>magnitude = m, signal = signal other\<rparr>, \<lparr>magnitude = rest, signal = 1\<rparr>))"

definition fc_move :: "cardinal \<Rightarrow> cardinal \<times> cardinal" where
  "fc_move other = (other, [0])"

definition fi_move :: "fint \<Rightarrow> fint \<times> fint" where
  "fi_move other = (case fc_move (fmag other) of (m, rest) \<Rightarrow>
     (\<lparr>fmag = m, fsig = fsig other\<rparr>, \<lparr>fmag = rest, fsig = 1\<rparr>))"

definition nb_move :: "num \<Rightarrow> num \<times> num" where
  "nb_move other = (\<lparr>nb_digits = nb_digits other, nb_signal = nb_signal other\<rparr>, \<lparr>nb_digits = [0], nb_signal = 1\<rparr>)"

section \<open>Assignments\<close>

definition core_assign :: "nat \<Rightarrow> nat \<Rightarrow> core list \<Rightarrow> core list" where
  "core_assign i j s = (if i \<noteq> j then s[i := core_copy (s ! j)] else s)"

definition core_move_assign :: "nat \<Rightarrow> nat \<Rightarrow> core list \<Rightarrow> core list" where
  "core_move_assign i j s = (if i \<noteq> j then case core_move (s ! j) of (x, rest) \<Rightarrow> s[i := x, j := rest] else s)"

definition cd_assign :: "nat \<Rightarrow> nat \<Rightarrow> core list \<Rightarrow> core list" where
  "cd_assign i j s = core_assign i j s"

definition cd_assign_digit :: "digit \<Rightarrow> core \<Rightarrow> core" where
  "cd_assign_digit d c = c\<lparr>digits := [d]\<rparr>"

definition cd_move_assign :: "nat \<Rightarrow> nat \<Rightarrow> core list \<Rightarrow> core list" where
  "cd_move_assign i j s = (if i \<noteq> j then core_move_assign i j s else s)"

definition bi_assign :: "nat \<Rightarrow> nat \<Rightarrow> bigint list \<Rightarrow> bigint list" where
  "bi_assign i j s = (let ms = cd_assign i j (map magnitude s); s = s[i := (s ! i)\<lparr>magnitude := ms ! i\<rparr>]
     in s[i := (s ! i)\<lparr>signal := signal (s ! j)\<rparr>])"

definition bi_assign_digit :: "digit \<Rightarrow> bigint \<Rightarrow> bigint" where
  "bi_assign_digit d b = \<lparr>magnitude = cd_assign_digit d (magnitude b), signal = 1\<rparr>"

definition bi_move_assign :: "nat \<Rightarrow> nat \<Rightarrow> bigint list \<Rightarrow> bigint list" where
  "bi_move_assign i j s = (if i \<noteq> j then
     let ms = cd_move_assign i j (map magnitude s)
     in s[i := \<lparr>magnitude = ms ! i, signal = signal (s ! j)\<rparr>, j := \<lparr>magnitude = ms ! j, signal = 1\<rparr>] else s)"

definition fc_assign :: "nat \<Rightarrow> nat \<Rightarrow> cardinal list \<Rightarrow> cardinal list" where
  "fc_assign i j s = s[i := s ! j]"

definition fc_assign_digit :: "digit \<Rightarrow> cardinal \<Rightarrow> cardinal" where
  "fc_assign_digit d c = [d]"

definition fc_move_assign :: "nat \<Rightarrow> nat \<Rightarrow> cardinal list \<Rightarrow> cardinal list" where
  "fc_move_assign i j s = (if i \<noteq> j then s[i := s ! j, j := [0]] else s)"

definition fi_assign :: "nat \<Rightarrow> nat \<Rightarrow> fint list \<Rightarrow> fint list" where
  "fi_assign i j s = (let ms = fc_assign i j (map fmag s); s = s[i := (s ! i)\<lparr>fmag := ms ! i\<rparr>]
     in s[i := (s ! i)\<lparr>fsig := fsig (s ! j)\<rparr>])"

definition fi_assign_digit :: "digit \<Rightarrow> fint \<Rightarrow> fint" where
  "fi_assign_digit d b = \<lparr>fmag = fc_assign_digit d (fmag b), fsig = 1\<rparr>"

definition fi_move_assign :: "nat \<Rightarrow> nat \<Rightarrow> fint list \<Rightarrow> fint list" where
  "fi_move_assign i j s = (if i \<noteq> j then
     let ms = fc_move_assign i j (map fmag s)
     in s[i := \<lparr>fmag = ms ! i, fsig = fsig (s ! j)\<rparr>, j := \<lparr>fmag = ms ! j, fsig = 1\<rparr>] else s)"

definition nb_assign :: "nat \<Rightarrow> nat \<Rightarrow> num list \<Rightarrow> num list" where
  "nb_assign i j s = s[i := \<lparr>nb_digits = nb_digits (s ! j), nb_signal = nb_signal (s ! j)\<rparr>]"

definition nb_assign_digit :: "digit \<Rightarrow> num \<Rightarrow> num" where
  "nb_assign_digit d b = \<lparr>nb_digits = [d], nb_signal = 1\<rparr>"

definition nb_move_assign :: "nat \<Rightarrow> nat \<Rightarrow> num list \<Rightarrow> num list" where
  "nb_move_assign i j s = (if i \<noteq> j then
     s[i := \<lparr>nb_digits = nb_digits (s ! j), nb_signal = nb_signal (s ! j)\<rparr>, j := \<lparr>nb_digits = [0], nb_signal = 1\<rparr>] else s)"

section \<open>Postfix operators\<close>

definition cd_post_inc :: "core \<Rightarrow> error + core \<times> core" where
  "cd_post_inc c = (let tmp = core_copy c in rbind (cd_inc c) (\<lambda>c. Inr (tmp, c)))"

definition cd_post_dec :: "core \<Rightarrow> error + core \<times> core" where
  "cd_post_dec c = (let tmp = core_copy c in rbind (cd_dec c) (\<lambda>c. Inr (tmp, c)))"

definition bi_post_inc :: "bigint \<Rightarrow> error + bigint \<times> bigint" where
  "bi_post_inc b = (let tmp = bi_copy b in rbind (bi_inc b) (\<lambda>b. Inr (tmp, b)))"

definition bi_post_dec :: "bigint \<Rightarrow> error + bigint \<times> bigint" where
  "bi_post_dec b = (let tmp = bi_copy b in rbind (bi_dec b) (\<lambda>b. Inr (tmp, b)))"

definition fc_post_inc :: "cardinal \<Rightarrow> cardinal \<times> cardinal" where
  "fc_post_inc c = (c, fc_inc c)"

definition fc_post_dec :: "cardinal \<Rightarrow> error + cardinal \<times> cardinal" where
  "fc_post_dec c = rbind (fc_dec c) (\<lambda>r. Inr (c, r))"

definition fi_post_inc :: "fint \<Rightarrow> error + fint \<times> fint" where
  "fi_post_inc b = rbind (fi_inc b) (\<lambda>r. Inr (b, r))"

definition fi_post_dec :: "fint \<Rightarrow> error + fint \<times> fint" where
  "fi_post_dec b = rbind (fi_dec b) (\<lambda>r. Inr (b, r))"

definition nb_post_dec :: "num \<Rightarrow> error + num \<times> num" where
  "nb_post_dec a = rbind (nb_subtract (nb_digits a) 1 0) (\<lambda>ds. Inr (a, a\<lparr>nb_digits := ds\<rparr>))"

section \<open>What a move assignment does\<close>

text \<open>The law of the move assignments: nothing happens to an object assigned from itself; otherwise the target gets the value and the source
  is left in the state of an object that the move constructor has read.\<close>

locale movable =
  fixes mv :: "'a \<Rightarrow> 'a \<times> 'a" and move_assign :: "nat \<Rightarrow> nat \<Rightarrow> 'a list \<Rightarrow> 'a list"
  assumes move_keeps: "fst (mv x) = x"
    and move_assign_eq: "i < length s \<Longrightarrow> j < length s \<Longrightarrow>
      move_assign i j s = (if i = j then s else s[i := s ! j, j := snd (mv (s ! j))])"
begin

lemma move_self: "i < length s \<Longrightarrow> move_assign i i s = s"
  by (simp add: move_assign_eq)

lemma move_and_back:
  assumes "i < length s" "j < length s" "i \<noteq> j"
  shows "move_assign j i (move_assign i j s) = s[i := snd (mv (s ! j))]"
proof -
  define r where "r = snd (mv (s ! j))"
  have "move_assign i j s = s[i := s ! j, j := r]" using assms by (simp add: move_assign_eq r_def)
  then have "move_assign j i (move_assign i j s) = s[i := s ! j, j := r, j := s ! j, i := r]"
    using assms by (simp add: move_assign_eq r_def)
  also have "\<dots> = s[i := r]" using assms by (intro nth_equalityI) (auto simp: nth_list_update)
  finally show ?thesis unfolding r_def .
qed

end

lemma rebuild [simp]: "\<lparr>magnitude = magnitude a, signal = signal a\<rparr> = a" "\<lparr>fmag = fmag b, fsig = fsig b\<rparr> = b"
  "\<lparr>nb_digits = nb_digits c, nb_signal = nb_signal c\<rparr> = c"
  by simp_all

interpretation core_movable: movable core_move core_move_assign
  by unfold_locales (auto simp: core_move_def core_move_assign_def)

interpretation cardinal_movable: movable cd_move cd_move_assign
  by unfold_locales (auto simp: cd_move_def cd_move_assign_def core_move_def core_move_assign_def)

interpretation integer_movable: movable bi_move bi_move_assign
  by unfold_locales (auto simp: bi_move_def bi_move_assign_def cd_move_def cd_move_assign_def core_move_def core_move_assign_def Let_def)

interpretation first_cardinal_movable: movable fc_move fc_move_assign
  by unfold_locales (auto simp: fc_move_def fc_move_assign_def)

interpretation first_integer_movable: movable fi_move fi_move_assign
  by unfold_locales (auto simp: fi_move_def fi_move_assign_def fc_move_def fc_move_assign_def Let_def)

interpretation first_number_movable: movable nb_move nb_move_assign
  by unfold_locales (auto simp: nb_move_def nb_move_assign_def)

text \<open>A postfix operator leaves the old value behind.\<close>

lemma cd_post_inc_rep: "rep c v \<Longrightarrow> \<exists>r. cd_post_inc c = Inr (c, r) \<and> rep r (v + 1)"
  using cd_inc_rep[of c v] by (auto simp: cd_post_inc_def)

text \<open>A number of the first generation that was moved from is a zero like any other. A \<open>BigCardinal\<close> of \<open>bign\<close> has lost its
  implementation: it still takes the value of a digit assigned to it, but computes nothing with it.\<close>

lemma moved_from_computes_nothing:
  "cd_add (cd_assign_digit 5 (snd (cd_move c))) (cd_digit 3) = Inr (cd_assign_digit 5 (snd (cd_move c)))"
  "fc_add (fc_assign_digit 5 (snd (fc_move d))) (fc_digit 3) = fc_digit 8"
  by (simp_all add: cd_move_def core_move_def cd_assign_digit_def cd_add_def cd_digit_def core_isZero_def core_ops
    fc_move_def fc_assign_digit_def fc_digit_def fc_add_def fc_isZero_def) code_simp

end
