(* ===== verification/Divisors.thy ===== *)
theory Divisors
  imports Primes
begin

text \<open>
  \<open>tests/prime.cc\<close>, the parallel primality test that the repository shows its queue with: the divisor search by
  odd numbers, the one by the wheel of the numbers prime to 30 (\<open>spiral\<close>), and \<open>paralelDivisor\<close>, which hands
  blocks of the search to the workers of the pool. Numbers are \<open>u64\<close>; \<open>sqrt\<close> is that of \<open>double\<close>, with its roundings.
\<close>

section \<open>Square roots of integers in double precision\<close>

fun bit_length :: "nat \<Rightarrow> nat" where
  "bit_length n = (if n = 0 then 0 else Suc (bit_length (n div 2)))"

fun isqrt :: "nat \<Rightarrow> nat" where
  "isqrt n = (if n = 0 then 0
     else let r = 2 * isqrt (n div 4) in if (r + 1) * (r + 1) \<le> n then r + 1 else r)"

declare bit_length.simps [simp del] isqrt.simps [simp del]

text \<open>The conversion of an integer to \<open>double\<close>: 53 bits, to the nearest, ties to even.\<close>

definition double_of :: "nat \<Rightarrow> nat" where
  "double_of n = (let s = bit_length n - 53; q = n div 2 ^ s; r = n mod 2 ^ s
     in (if 2 * r > 2 ^ s \<or> 2 * r = 2 ^ s \<and> odd q then q + 1 else q) * 2 ^ s)"

text \<open>The square root of an integral \<open>double\<close> below \<open>2 ^ 106\<close>, rounded to 53 bits: \<open>(c, m)\<close> is \<open>c / 2 ^ m\<close>. The root of an
  integer is never halfway between two such numbers.\<close>

definition sqrt_double :: "nat \<Rightarrow> nat \<times> nat" where
  "sqrt_double x = (let m = 53 - bit_length (isqrt x) in ((isqrt (4 * x * 4 ^ m) + 1) div 2, m))"

text \<open>\<open>i <= sqrt(n)\<close>, \<open>i < sqrt(n)\<close> and \<open>(u64) sqrt(n)\<close>.\<close>

definition le_sqrt :: "digit \<Rightarrow> digit \<Rightarrow> bool" where
  "le_sqrt i n = (case sqrt_double (double_of (unat n)) of (c, m) \<Rightarrow> double_of (unat i) * 2 ^ m \<le> c)"

definition less_sqrt :: "digit \<Rightarrow> digit \<Rightarrow> bool" where
  "less_sqrt i n = (case sqrt_double (double_of (unat n)) of (c, m) \<Rightarrow> double_of (unat i) * 2 ^ m < c)"

definition trunc_sqrt :: "digit \<Rightarrow> digit" where
  "trunc_sqrt n = (case sqrt_double (double_of (unat n)) of (c, m) \<Rightarrow> of_nat (c div 2 ^ m))"

lemma bit_length_bounds: "n < 2 ^ bit_length n" "n \<noteq> 0 \<Longrightarrow> 2 ^ bit_length n \<le> 2 * n"
proof (induction n rule: bit_length.induct)
  case (1 n)
  { case 1 show ?case using "1.IH"(1) by (cases "n = 0") (simp_all add: bit_length.simps[of n]) }
  { case 2 then show ?case using "1.IH"(2) by (cases "n div 2 = 0") (simp_all add: bit_length.simps[of n] bit_length.simps[of 0]) }
qed

lemma bit_length_le: "n < 2 ^ k \<Longrightarrow> bit_length n \<le> k"
proof (cases "n = 0")
  case False
  assume "n < 2 ^ k"
  then have "(2::nat) ^ bit_length n < 2 ^ Suc k" using bit_length_bounds(2)[OF False] by simp
  then show ?thesis by (meson less_Suc_eq_le nat_power_less_imp_less pos2)
qed (simp add: bit_length.simps)

lemma isqrt_bounds: "isqrt n * isqrt n \<le> n \<and> n < (isqrt n + 1) * (isqrt n + 1)"
proof (induction n rule: isqrt.induct)
  case (1 n)
  show ?case
  proof (cases "n = 0")
    case True then show ?thesis by (simp add: isqrt.simps)
  next
    case False
    define q where "q = isqrt (n div 4)"
    have q: "q * q \<le> n div 4" "n div 4 < (q + 1) * (q + 1)" using "1.IH"[OF False] by (simp_all add: q_def)
    have "4 * (q * q) \<le> n" using q(1) by linarith
    moreover have "n < 4 * ((q + 1) * (q + 1))" using q(2) by linarith
    ultimately show ?thesis using False by (simp add: isqrt.simps[of n] Let_def q_def[symmetric] algebra_simps)
  qed
qed

lemma isqrt_le: "n \<le> k * k \<Longrightarrow> isqrt n \<le> k"
proof (rule ccontr)
  assume "n \<le> k * k" "\<not> isqrt n \<le> k"
  then have "k * k < isqrt n * isqrt n" by (intro mult_strict_mono) auto
  then show False using isqrt_bounds[of n] \<open>n \<le> k * k\<close> by linarith
qed

lemma double_of_exact: "bit_length n \<le> 53 \<Longrightarrow> double_of n = n"
  by (simp add: double_of_def)

lemma double_of_near: "2 * n \<le> 2 * double_of n + 2 ^ (bit_length n - 53)"
proof -
  define s q r where "s = bit_length n - 53" and "q = n div 2 ^ s" and "r = n mod 2 ^ s"
  have "n = q * 2 ^ s + r" "r < 2 ^ s" using div_mult_mod_eq[of n "2 ^ s", symmetric] by (simp_all add: q_def r_def)
  then show ?thesis
    unfolding double_of_def s_def[symmetric] Let_def q_def[symmetric] r_def[symmetric] by (auto simp: algebra_simps)
qed

lemma double_of_range:
  assumes "n \<noteq> 0"
  shows "2 ^ bit_length n \<le> 2 * double_of n" "double_of n \<le> 2 ^ bit_length n"
proof -
  define b s where "b = bit_length n" and "s = b - 53"
  define q where "q = n div 2 ^ s"
  have n: "n < 2 ^ b" "2 ^ b \<le> 2 * n" using bit_length_bounds[of n] assms by (simp_all add: b_def)
  have x: "q * 2 ^ s \<le> double_of n" "double_of n \<le> (q + 1) * 2 ^ s"
    by (simp_all add: double_of_def b_def[symmetric] s_def[symmetric] q_def Let_def)
  have "2 ^ b \<le> 2 * double_of n \<and> double_of n \<le> 2 ^ b"
  proof (cases "b \<le> 53")
    case True
    then show ?thesis using n double_of_exact[of n] by (simp add: b_def)
  next
    case False
    then have b: "b = 53 + s" by (simp add: s_def)
    have "n < 2 ^ 53 * 2 ^ s" "2 ^ 52 * 2 ^ s \<le> n" using n by (simp_all add: b power_add)
    then have q: "q < 2 ^ 53" "2 ^ 52 \<le> q"
      unfolding q_def by (simp_all only: less_mult_imp_div_less) (simp add: less_eq_div_iff_mult_less_eq)
    have "(q + 1) * 2 ^ s \<le> 2 ^ 53 * 2 ^ s" "2 ^ 52 * 2 ^ s \<le> q * 2 ^ s" using q by (intro mult_le_mono1; simp)+
    from order_trans[OF x(2) this(1)] order_trans[OF this(2) x(1)] show ?thesis unfolding b power_add by simp
  qed
  then show "2 ^ bit_length n \<le> 2 * double_of n" "double_of n \<le> 2 ^ bit_length n" by (simp_all add: b_def)
qed

lemma four_power: "4 ^ m = 2 ^ m * (2 ^ m :: nat)"
  by (simp flip: power_mult_distrib)

lemma sqrt_double_near:
  assumes "sqrt_double x = (c, m)"
  shows "m = 53 - bit_length (isqrt x)" "c \<noteq> 0 \<Longrightarrow> (2 * c - 1) * (2 * c - 1) \<le> 4 * x * 4 ^ m"
    "4 * x * 4 ^ m < (2 * c + 1) * (2 * c + 1)" "x \<le> k * k \<Longrightarrow> c \<le> k * 2 ^ m"
proof -
  define y where "y = isqrt (4 * x * 4 ^ m)"
  have y: "y * y \<le> 4 * x * 4 ^ m" "4 * x * 4 ^ m < (y + 1) * (y + 1)" using isqrt_bounds[of "4 * x * 4 ^ m"] by (simp_all add: y_def)
  show "m = 53 - bit_length (isqrt x)" using assms by (simp add: sqrt_double_def Let_def)
  have c: "c = (y + 1) div 2" using assms by (auto simp: sqrt_double_def Let_def y_def)
  then have cy: "2 * c - 1 \<le> y" "y + 1 \<le> 2 * c + 1" by presburger+
  show "(2 * c - 1) * (2 * c - 1) \<le> 4 * x * 4 ^ m" using mult_le_mono[OF cy(1) cy(1)] y(1) by linarith
  show "4 * x * 4 ^ m < (2 * c + 1) * (2 * c + 1)" using mult_le_mono[OF cy(2) cy(2)] y(2) by linarith
  assume "x \<le> k * k"
  then have "4 * x * 4 ^ m \<le> (2 * k * 2 ^ m) * (2 * k * 2 ^ m)"
    by (simp add: four_power algebra_simps)
  then show "c \<le> k * 2 ^ m" using isqrt_le[of "4 * x * 4 ^ m" "2 * k * 2 ^ m"] c by (simp add: y_def)
qed

text \<open>The rounded root is never below a natural whose square is not above the argument.\<close>

lemma sqrt_double_ge:
  assumes "k * k \<le> n" "n < 2 ^ 64" "sqrt_double (double_of n) = (c, m)"
  shows "k * 2 ^ m \<le> c"
proof (rule ccontr)
  assume neg: "\<not> k * 2 ^ m \<le> c"
  define x s r e K M where "x = double_of n" and "s = bit_length n - 53" and "r = isqrt x"
    and "e = bit_length r" and "K = k * 2 ^ m" and "M = (4 ^ m :: nat)"
  have KK: "K * K = k * k * M" by (simp add: K_def M_def four_power algebra_simps)
  have "c < K" using neg by (simp add: K_def)
  then have K1: "1 \<le> K" "2 * c + 1 \<le> 2 * K - 1" by linarith+
  have k1: "1 \<le> k" using K1(1) by (cases k) (simp_all add: K_def)
  from mult_le_mono[OF K1(2) K1(2)] sqrt_double_near(3)[OF assms(3)]
  have "4 * x * M < (2 * K - 1) * (2 * K - 1)" by (simp add: x_def M_def)
  moreover have "(2 * K - 1) * (2 * K - 1) + 4 * K = 4 * (K * K) + 1" using K1 by (cases K) (simp_all add: algebra_simps)
  ultimately have lt: "x * M + K \<le> k * k * M" using KK by linarith
  have xk: "x < k * k"
  proof (rule ccontr)
    assume "\<not> x < k * k"
    then have "k * k * M \<le> x * M" by (intro mult_le_mono1) simp
    then show False using lt K1(1) by linarith
  qed
  have n0: "n \<noteq> 0" using xk assms(1) by auto
  have b: "53 < bit_length n" using double_of_exact[of n] xk assms(1) by (cases "bit_length n \<le> 53") (auto simp: x_def)
  have "2 * (k * k) * M \<le> (2 * x + 2 ^ s) * M"
    using double_of_near[of n] assms(1) unfolding x_def s_def by (intro mult_le_mono1) linarith
  then have "2 * K \<le> 2 ^ s * M" using lt by (simp add: algebra_simps)
  then have "2 * k * 2 ^ m \<le> (2 ^ s * 2 ^ m) * 2 ^ m" by (simp add: K_def M_def four_power algebra_simps)
  then have k: "2 * k \<le> 2 ^ (s + m)" by (simp add: power_add)
  have r: "r * r \<le> x" "x < (r + 1) * (r + 1)" using isqrt_bounds[of x] by (simp_all add: r_def)
  have "r < k" using r(1) xk by (metis mult_le_mono not_less order_less_le_trans order_less_irrefl)
  have e: "r + 1 \<le> 2 ^ e" "r \<noteq> 0 \<Longrightarrow> 2 ^ e \<le> 2 * r" using bit_length_bounds[of r] by (simp_all add: e_def)
  have "(2::nat) ^ e < 2 * k" using e(2) \<open>r < k\<close> k1 by (cases "r = 0") (auto simp: e_def bit_length.simps[of 0])
  then have es: "e < s + m" using k by (meson order_less_le_trans nat_power_less_imp_less pos2)
  have range: "2 ^ bit_length n \<le> 2 * x" "x \<le> 2 ^ bit_length n" using double_of_range[OF n0] by (simp_all add: x_def)
  have "bit_length n \<le> 64" by (rule bit_length_le[OF assms(2)])
  then have "x \<le> 2 ^ 32 * 2 ^ 32" using range(2) power_increasing[of "bit_length n" 64 "2 :: nat"] by simp
  then have "r \<le> 2 ^ 32" unfolding r_def by (rule isqrt_le)
  then have "(2::nat) ^ e < 2 ^ 34" using e(2) by (cases "r = 0") (auto simp: e_def bit_length.simps[of 0])
  then have "e < 34" by (meson nat_power_less_imp_less pos2)
  then have "s + m = bit_length n - e" using sqrt_double_near(1)[OF assms(3)] b by (simp add: s_def e_def r_def x_def)
  moreover have "(r + 1) * (r + 1) \<le> 2 ^ (2 * e)" using mult_le_mono[OF e(1) e(1)] by (simp add: power_add[symmetric] mult_2)
  then have "(2::nat) ^ bit_length n < 2 ^ (2 * e + 1)" using range(1) r(2) by simp
  then have "bit_length n < 2 * e + 1" by (meson nat_power_less_imp_less pos2)
  ultimately show False using es by linarith
qed

lemma sqrt_double_le:
  assumes "n < 2 ^ 64" "sqrt_double (double_of n) = (c, m)"
  shows "c \<le> 2 ^ 32 * 2 ^ m"
proof (rule sqrt_double_near(4)[OF assms(2)])
  have "double_of n \<le> 2 ^ 64"
  proof (cases "n = 0")
    case True then show ?thesis using double_of_exact[of 0] bit_length_le[of 0 53] by simp
  next
    case False
    then show ?thesis using double_of_range(2)[OF False] power_increasing[OF bit_length_le[OF assms(1)], of "2 :: nat"] by linarith
  qed
  then show "double_of n \<le> 2 ^ 32 * 2 ^ 32" by simp
qed

lemma u64_bound: "unat (n :: digit) < 2 ^ 64"
  using unat_digit_less[of n] by (simp add: radix_def)

lemma le_sqrt_root: "unat i * unat i \<le> unat n \<Longrightarrow> le_sqrt i n"
proof -
  assume ii: "unat i * unat i \<le> unat n"
  have "unat i < 2 ^ 32"
  proof (rule ccontr)
    assume "\<not> unat i < 2 ^ 32"
    then have "2 ^ 32 * 2 ^ 32 \<le> unat i * unat i" by (intro mult_le_mono) simp_all
    then show False using ii u64_bound[of n] by simp
  qed
  then have "double_of (unat i) = unat i" by (intro double_of_exact bit_length_le) simp
  then show ?thesis using sqrt_double_ge[OF ii u64_bound] by (simp add: le_sqrt_def split: prod.split)
qed

lemma le_sqrt_bound: "le_sqrt i n \<Longrightarrow> unat i \<le> 2 ^ 32"
proof -
  assume le: "le_sqrt i n"
  obtain c m where cm: "sqrt_double (double_of (unat n)) = (c, m)" by fastforce
  have "double_of (unat i) * 2 ^ m \<le> c" using le cm by (simp add: le_sqrt_def)
  from order_trans[OF this sqrt_double_le[OF u64_bound cm]] have d: "double_of (unat i) \<le> 2 ^ 32" by simp
  show ?thesis
  proof (cases "unat i = 0")
    case False
    have "(2::nat) ^ bit_length (unat i) < 2 ^ 34" using double_of_range(1)[OF False] d by simp
    then have "bit_length (unat i) < 34" by (meson nat_power_less_imp_less pos2)
    then show ?thesis using double_of_exact[of "unat i"] d by simp
  qed simp
qed

lemma trunc_sqrt_unat:
  "unat (trunc_sqrt n) \<le> 2 ^ 32" "k * k \<le> unat n \<Longrightarrow> k \<le> unat (trunc_sqrt n)"
proof -
  obtain c m where cm: "sqrt_double (double_of (unat n)) = (c, m)" by fastforce
  have "c div 2 ^ m \<le> 2 ^ 32 * 2 ^ m div 2 ^ m" using sqrt_double_le[OF u64_bound cm] by (rule div_le_mono)
  then have le: "c div 2 ^ m \<le> 2 ^ 32" by simp
  then have u: "unat (trunc_sqrt n) = c div 2 ^ m" using cm by (simp add: trunc_sqrt_def unat_of_nat)
  show "unat (trunc_sqrt n) \<le> 2 ^ 32" using u le by simp
  assume "k * k \<le> unat n"
  then show "k \<le> unat (trunc_sqrt n)" using sqrt_double_ge[OF _ u64_bound cm] by (simp add: u less_eq_div_iff_mult_less_eq)
qed

section \<open>The divisor search\<close>

datatype fault = DivideByZero

partial_function (option) odd_search :: "digit \<Rightarrow> digit \<Rightarrow> (fault + digit) option" where
  "odd_search n i = (if \<not> le_sqrt i n then Some (Inr n)
     else if i = 0 then Some (Inl DivideByZero)
     else if n mod i = 0 then Some (Inr i) else odd_search n (i + 2))"

definition firstDivisor0 :: "digit \<Rightarrow> (fault + digit) option" where
  "firstDivisor0 n = (if n mod 2 = 0 then Some (Inr 2) else odd_search n 3)"

text \<open>The body of the loop of \<open>spiral\<close>: the tests after each \<open>j += d\<close>.\<close>

fun spiral_try :: "digit \<Rightarrow> digit \<Rightarrow> digit list \<Rightarrow> fault + digit option" where
  "spiral_try n j [] = Inr None"
| "spiral_try n j (d # ds) = (let j = j + d in
     if j = 0 then Inl DivideByZero else if n mod j = 0 then Inr (Some j) else spiral_try n j ds)"

definition spiral_steps :: "digit list" where
  "spiral_steps = [0, 4, 2, 4, 2, 4, 6, 2]"

partial_function (option) spiral :: "digit \<Rightarrow> digit \<Rightarrow> digit \<Rightarrow> (fault + digit) option" where
  "spiral n i mx = (if i \<le> mx
     then obind (Some (spiral_try n i spiral_steps)) (\<lambda>r.
       case r of Some j \<Rightarrow> Some (Inr j) | None \<Rightarrow> spiral n (i + 30) mx)
     else Some (Inr n))"

definition spiralDivisor :: "digit \<Rightarrow> digit \<Rightarrow> (fault + digit) option" where
  "spiralDivisor n mx = (if n mod 2 = 0 then Some (Inr 2) else if n mod 3 = 0 then Some (Inr 3)
     else if n mod 5 = 0 then Some (Inr 5)
     else spiral n 7 (min (if mx = 0 then n else mx) (trunc_sqrt n)))"

text \<open>The candidates of a turn of the wheel.\<close>

fun turn :: "digit \<Rightarrow> digit list \<Rightarrow> digit list" where
  "turn j [] = []"
| "turn j (d # ds) = (j + d) # turn (j + d) ds"

lemma spiral_try_find:
  "0 \<notin> set (turn j ds) \<Longrightarrow> spiral_try n j ds = Inr (find (\<lambda>k. n mod k = 0) (turn j ds))"
  by (induction ds arbitrary: j) (auto simp: Let_def)

lemma mod_zero_iff: "n mod k = 0 \<longleftrightarrow> unat k dvd unat (n :: digit)"
  by (simp add: dvd_eq_mod_eq_0 unat_mod word_unat_eq_iff flip: unat_0)

definition on_wheel :: "nat \<Rightarrow> bool" where
  "on_wheel d \<longleftrightarrow> \<not> 2 dvd d \<and> \<not> 3 dvd d \<and> \<not> 5 dvd d"

definition wheel_turn :: "nat \<Rightarrow> nat set" where
  "wheel_turn i = (\<lambda>k. i + k) ` {0, 4, 6, 10, 12, 16, 22, 24}"

lemma wheel_cover:
  assumes "on_wheel d" "i mod 30 = 7" "i \<le> d" "d < i + 30"
  shows "d \<in> wheel_turn i"
proof -
  define k q where "k = d - i" and "q = i div 30"
  have i: "i = 30 * q + 7" using assms(2) mult_div_mod_eq[of 30 i] by (simp add: q_def)
  have d: "d = i + k" "k < 30" using assms(3,4) by (auto simp: k_def)
  have "k \<in> {..<30}" using d by simp
  then have "k \<in> {0, 4, 6, 10, 12, 16, 22, 24}"
    using assms(1) unfolding on_wheel_def d(1) i by (simp add: lessThan_nat_numeral lessThan_Suc) presburger
  then show ?thesis unfolding wheel_turn_def using d(1) by blast
qed

lemma turn_unat:
  assumes "unat i + 60 < 2 ^ 64"
  shows "map unat (turn i spiral_steps) = map (\<lambda>k. unat i + k) [0, 4, 6, 10, 12, 16, 22, 24]"
proof -
  have "unat (i + of_nat k) = unat i + k" if "k < 30" for k
  proof -
    have "unat (of_nat k :: digit) = k" using that by (simp add: unat_of_nat)
    then show ?thesis using assms that by (simp add: unat_word_ariths)
  qed
  from this[of 0] this[of 4] this[of 6] this[of 10] this[of 12] this[of 16] this[of 22] this[of 24]
  show ?thesis by (simp add: spiral_steps_def add.assoc)
qed

lemma find_None_sorted: "find P xs = None \<Longrightarrow> x \<in> set xs \<Longrightarrow> \<not> P x"
  by (simp add: find_None_iff)

lemma find_Some_sorted:
  "find P xs = Some y \<Longrightarrow> sorted_wrt (\<lambda>a b. f a < f b) xs \<Longrightarrow> P y \<and> y \<in> set xs \<and> (\<forall>x \<in> set xs. f x < (f y :: nat) \<longrightarrow> \<not> P x)"
  by (induction xs) (auto split: if_splits)

text \<open>One turn finds the least divisor among its candidates.\<close>

lemma spiral_try_least:
  assumes "unat i + 60 < 2 ^ 64" "0 < unat i"
  shows "\<exists>r. spiral_try n i spiral_steps = Inr r \<and> (case r of
      None \<Rightarrow> \<forall>d. d \<in> wheel_turn (unat i) \<longrightarrow> \<not> d dvd unat n
    | Some j \<Rightarrow> unat j dvd unat n \<and> unat i \<le> unat j \<and> unat j < unat i + 30
        \<and> (\<forall>d. d \<in> wheel_turn (unat i) \<and> d < unat j \<longrightarrow> \<not> d dvd unat n))"
proof -
  let ?t = "turn i spiral_steps"
  note u = turn_unat[OF assms(1)]
  have img: "unat ` set ?t = wheel_turn (unat i)"
    using arg_cong[OF u, of set] by (simp add: wheel_turn_def)
  have "sorted_wrt (<) (map unat ?t)" unfolding u by simp
  then have sorted: "sorted_wrt (\<lambda>a b. unat a < unat b) ?t" by (simp add: sorted_wrt_map)
  have "0 \<notin> unat ` set ?t" using assms(2) unfolding img by (auto simp: wheel_turn_def)
  then have "0 \<notin> set ?t" by force
  then have r: "spiral_try n i spiral_steps = Inr (find (\<lambda>k. n mod k = 0) ?t)" by (rule spiral_try_find)
  show ?thesis
  proof (cases "find (\<lambda>k. n mod k = 0) ?t")
    case None
    then have "\<not> unat x dvd unat n" if "x \<in> set ?t" for x using find_None_sorted[OF _ that] by (simp add: mod_zero_iff)
    then have "\<forall>d \<in> unat ` set ?t. \<not> d dvd unat n" by blast
    then show ?thesis using r None unfolding img by simp
  next
    case (Some j)
    from find_Some_sorted[OF this sorted]
    have j: "unat j dvd unat n" "j \<in> set ?t" "\<forall>x \<in> set ?t. unat x < unat j \<longrightarrow> \<not> unat x dvd unat n" by (simp_all add: mod_zero_iff)
    have "unat j \<in> wheel_turn (unat i)" using j(2) img by blast
    moreover have "\<forall>d \<in> unat ` set ?t. d < unat j \<longrightarrow> \<not> d dvd unat n" using j(3) by blast
    moreover have "unat i \<le> unat j \<and> unat j < unat i + 30" using calculation(1) by (auto simp: wheel_turn_def)
    ultimately show ?thesis using r Some j(1) unfolding img by (intro exI[of _ "Some j"]) simp
  qed
qed

text \<open>A search that starts at 7 modulo 30 finds the least divisor on the wheel; any search returns a divisor.\<close>

lemma spiral_rep:
  assumes "0 < unat i" "unat mx < 2 ^ 63"
  shows "\<exists>r. spiral n i mx = Some (Inr r) \<and> unat r dvd unat n \<and> (r = n \<or> unat i \<le> unat r \<and> unat r < unat mx + 30)
    \<and> (unat i mod 30 = 7 \<longrightarrow> (\<forall>d. on_wheel d \<and> unat i \<le> d \<and> d dvd unat n \<and> (d \<le> unat mx \<or> r \<noteq> n) \<longrightarrow> unat r \<le> d))"
  using assms(1)
proof (induction "unat mx + 1 - unat i" arbitrary: i rule: less_induct)
  case less
  show ?case
  proof (cases "i \<le> mx")
    case False
    then have "unat mx < unat i" by (simp add: word_le_nat_alt)
    then show ?thesis using False by (simp add: spiral.simps[of n i])
  next
    case True
    then have le: "unat i \<le> unat mx" by (simp add: word_le_nat_alt)
    then have small: "unat i + 60 < 2 ^ 64" using assms(2) by simp
    obtain r where r: "spiral_try n i spiral_steps = Inr r" and spec: "case r of
        None \<Rightarrow> \<forall>d. d \<in> wheel_turn (unat i) \<longrightarrow> \<not> d dvd unat n
      | Some j \<Rightarrow> unat j dvd unat n \<and> unat i \<le> unat j \<and> unat j < unat i + 30
          \<and> (\<forall>d. d \<in> wheel_turn (unat i) \<and> d < unat j \<longrightarrow> \<not> d dvd unat n)"
      using spiral_try_least[OF small less.prems] by blast
    show ?thesis
    proof (cases r)
      case (Some j)
      have j: "unat j dvd unat n" "unat i \<le> unat j" "unat j < unat i + 30"
        "\<forall>d. d \<in> wheel_turn (unat i) \<and> d < unat j \<longrightarrow> \<not> d dvd unat n"
        using spec[unfolded Some option.case] by blast+
      have "spiral n i mx = Some (Inr j)" using True r Some by (simp add: spiral.simps[of n i])
      moreover have "unat j \<le> d" if "unat i mod 30 = 7" "on_wheel d" "unat i \<le> d" "d dvd unat n" for d
      proof (rule ccontr)
        assume "\<not> unat j \<le> d"
        then have "d < unat j" "d < unat i + 30" using j(3) by simp_all
        then show False using wheel_cover[OF that(2,1,3)] j(4) that(4) by blast
      qed
      moreover have "unat j < unat mx + 30" using j(3) le by linarith
      ultimately show ?thesis using j by blast
    next
      case None
      have i30: "unat (i + 30) = unat i + 30" using small by (simp add: unat_word_ariths)
      have "unat mx + 1 - unat (i + 30) < unat mx + 1 - unat i" "0 < unat (i + 30)" using i30 le by linarith+
      from less.hyps[OF this] obtain s where s: "spiral n (i + 30) mx = Some (Inr s)" "unat s dvd unat n" "s = n \<or> unat i + 30 \<le> unat s \<and> unat s < unat mx + 30"
        "unat i mod 30 = 7 \<longrightarrow> (\<forall>d. on_wheel d \<and> unat i + 30 \<le> d \<and> d dvd unat n \<and> (d \<le> unat mx \<or> s \<noteq> n) \<longrightarrow> unat s \<le> d)"
        unfolding i30 by auto
      have "spiral n i mx = Some (Inr s)" using True r None s(1) by (simp add: spiral.simps[of n i])
      moreover have "\<not> d dvd unat n" if "unat i mod 30 = 7" "on_wheel d" "unat i \<le> d" "d < unat i + 30" for d
        using wheel_cover[OF that(2,1,3,4)] spec[unfolded None option.case] by blast
      then have "unat i mod 30 = 7 \<longrightarrow> (\<forall>d. on_wheel d \<and> unat i \<le> d \<and> d dvd unat n \<and> (d \<le> unat mx \<or> s \<noteq> n) \<longrightarrow> unat s \<le> d)"
        using s(4) by (meson not_less)
      ultimately show ?thesis using s(2,3) by auto
    qed
  qed
qed

lemma even_word: "n mod 2 = 0 \<longleftrightarrow> even (unat (n :: digit))"
  and three_word: "n mod 3 = 0 \<longleftrightarrow> 3 dvd unat (n :: digit)"
  and five_word: "n mod 5 = 0 \<longleftrightarrow> 5 dvd unat (n :: digit)"
  by (simp_all add: mod_zero_iff)

lemma wheel_divisor:
  assumes "on_wheel n" "2 \<le> d" "d dvd n"
  shows "on_wheel d" "7 \<le> d"
proof -
  show w: "on_wheel d" using assms(1,3) unfolding on_wheel_def by (meson dvd_trans)
  show "7 \<le> d"
  proof (rule ccontr)
    assume "\<not> 7 \<le> d"
    then have "d \<in> {2, 3, 4, 5, 6}" using assms(2) by auto
    then show False using w by (auto simp: on_wheel_def)
  qed
qed

lemma least_factor_small:
  assumes "2 \<le> w" "w dvd n" "\<forall>d. 2 \<le> d \<and> d < w \<longrightarrow> \<not> d dvd n"
  shows "least_factor n w"
  using assms unfolding least_factor_def by (meson not_less)

lemma spiralDivisor_rep:
  assumes "2 \<le> unat n"
  shows "\<exists>r. spiralDivisor n k = Some (Inr r) \<and> (least_factor (unat n) (unat r)
    \<or> r = n \<and> k \<noteq> 0 \<and> (\<forall>p. least_factor (unat n) p \<longrightarrow> max 5 (unat k) < p))"
proof -
  let ?v = "unat n"
  consider "even ?v" | "odd ?v" "3 dvd ?v" | "odd ?v" "\<not> 3 dvd ?v" "5 dvd ?v" | "on_wheel ?v"
    unfolding on_wheel_def by blast
  then show ?thesis
  proof cases
    case 1
    then have "least_factor ?v 2" by (simp add: least_factor_def)
    then show ?thesis using 1 by (simp add: spiralDivisor_def even_word)
  next
    case 2
    then have "least_factor ?v 3" by (intro least_factor_small) (auto simp: numeral_3_eq_3 less_Suc_eq)
    then show ?thesis using 2 by (simp add: spiralDivisor_def even_word three_word)
  next
    case 3
    have "\<not> d dvd ?v" if "2 \<le> d" "d < 5" for d
    proof -
      have "d \<in> {2, 3, 4}" using that by auto
      moreover have "\<not> 4 dvd ?v" using 3(1) by presburger
      ultimately show ?thesis using 3 by auto
    qed
    then have "least_factor ?v 5" using 3 by (intro least_factor_small) auto
    then show ?thesis using 3 by (simp add: spiralDivisor_def even_word three_word five_word)
  next
    case 4
    define mx where "mx = min (if k = 0 then n else k) (trunc_sqrt n)"
    have mx: "unat mx = min (unat (if k = 0 then n else k)) (unat (trunc_sqrt n))"
      by (simp add: mx_def min_def word_le_nat_alt)
    then have "unat mx < 2 ^ 63" using trunc_sqrt_unat(1)[of n] by simp
    from spiral_rep[OF _ this, of 7 n] obtain r where r: "spiral n 7 mx = Some (Inr r)" "unat r dvd ?v" "r = n \<or> 7 \<le> unat r"
      "\<And>d. on_wheel d \<Longrightarrow> 7 \<le> d \<Longrightarrow> d dvd ?v \<Longrightarrow> d \<le> unat mx \<or> r \<noteq> n \<Longrightarrow> unat r \<le> d" by auto
    have sp: "spiralDivisor n k = Some (Inr r)"
      using 4 r(1) unfolding spiralDivisor_def even_word three_word five_word on_wheel_def mx_def[symmetric] by simp
    have least: "unat r \<le> d" if "2 \<le> d" "d dvd ?v" "d \<le> unat mx \<or> r \<noteq> n" for d
      using r(4) wheel_divisor[OF 4 that(1,2)] that by blast
    have root: "?v < d * d" if "2 \<le> d" "d dvd ?v" "r = n" "d \<le> unat (if k = 0 then n else k)" for d
    proof (rule ccontr)
      assume "\<not> ?v < d * d"
      then have le: "d * d \<le> ?v" by simp
      then have "d \<le> unat mx" using trunc_sqrt_unat(2)[OF le] that(4) by (simp add: mx)
      then have "?v \<le> d" using least that(1-3) by simp
      then show False using le mult_le_mono1[OF that(1), of d] that(1) by linarith
    qed
    have "least_factor ?v (unat r) \<or> r = n \<and> k \<noteq> 0 \<and> (\<forall>p. least_factor ?v p \<longrightarrow> max 5 (unat k) < p)"
    proof (cases "r = n")
      case False
      then show ?thesis using r(2,3) least by (simp add: least_factor_def)
    next
      case True
      show ?thesis
      proof (cases "k \<noteq> 0 \<and> (\<forall>p. least_factor ?v p \<longrightarrow> max 5 (unat k) < p)")
        case False
        have "?v < d * d" if d: "2 \<le> d" "d dvd ?v" for d
        proof (cases "k = 0")
          case True
          have "d \<le> ?v" using d assms by (intro dvd_imp_le) auto
          then show ?thesis using root d \<open>r = n\<close> True by simp
        next
          case k0: False
          then obtain p where p: "least_factor ?v p" "p \<le> max 5 (unat k)" using False by (auto simp: not_less)
          then have pd: "2 \<le> p" "p dvd ?v" "p \<le> d" using d by (auto simp: least_factor_def)
          then have "7 \<le> p" using wheel_divisor(2)[OF 4] by blast
          then have "?v < p * p" using root[OF pd(1,2) True] p(2) k0 by simp
          also have "p * p \<le> d * d" using pd(3) by (intro mult_le_mono)
          finally show ?thesis .
        qed
        then show ?thesis using least_factor_self[OF assms] True by blast
      qed (use True in blast)
    qed
    then show ?thesis using sp by blast
  qed
qed

lemma odd_search_rep:
  assumes "odd (unat n)" "2 \<le> unat n" "odd (unat i)" "3 \<le> unat i" "unat i \<le> 2 ^ 32 + 2"
    "\<forall>d. 2 \<le> d \<and> d < unat i \<longrightarrow> \<not> d dvd unat n"
  shows "\<exists>r. odd_search n i = Some (Inr r) \<and> least_factor (unat n) (unat r)"
  using assms(3-)
proof (induction "2 ^ 32 + 3 - unat i" arbitrary: i rule: less_induct)
  case less
  have i0: "i \<noteq> 0" using less.prems(2) by auto
  show ?case
  proof (cases "le_sqrt i n")
    case False
    have "unat n < d * d" if "2 \<le> d" "d dvd unat n" for d
    proof -
      have "unat i \<le> d" using less.prems(4) that by (meson not_less)
      then have "unat i * unat i \<le> d * d" by (intro mult_le_mono)
      then show ?thesis using le_sqrt_root[of i n] False by linarith
    qed
    then have "least_factor (unat n) (unat n)" using least_factor_self[OF assms(2)] by blast
    then show ?thesis using False by (simp add: odd_search.simps[of n i])
  next
    case True
    show ?thesis
    proof (cases "unat i dvd unat n")
      case dvd: True
      have "least_factor (unat n) (unat i)" using dvd less.prems by (intro least_factor_small) auto
      then show ?thesis using dvd True i0 by (simp add: odd_search.simps[of n i] mod_zero_iff)
    next
      case ndvd: False
      have le: "unat i \<le> 2 ^ 32" by (rule le_sqrt_bound[OF True])
      then have i2: "unat (i + 2) = unat i + 2" by (simp add: unat_word_ariths)
      have "\<not> d dvd unat n" if "2 \<le> d" "d < unat i + 2" for d
      proof (cases "d < unat i")
        case False
        then have "d = unat i \<or> d = unat i + 1" using that by linarith
        moreover have "even (unat i + 1)" using less.prems(1) by simp
        ultimately show ?thesis using ndvd assms(1) by (meson dvd_trans)
      qed (use less.prems(4) that in blast)
      then have "\<exists>r. odd_search n (i + 2) = Some (Inr r) \<and> least_factor (unat n) (unat r)"
        using less.prems le by (intro less.hyps) (auto simp: i2)
      then show ?thesis using True ndvd i0 by (simp add: odd_search.simps[of n i] mod_zero_iff)
    qed
  qed
qed

lemma firstDivisor0_rep:
  assumes "2 \<le> unat n"
  shows "\<exists>r. firstDivisor0 n = Some (Inr r) \<and> least_factor (unat n) (unat r)"
proof (cases "even (unat n)")
  case True
  then have "least_factor (unat n) 2" by (simp add: least_factor_def)
  then show ?thesis using True by (simp add: firstDivisor0_def even_word)
next
  case False
  have "\<exists>r. odd_search n 3 = Some (Inr r) \<and> least_factor (unat n) (unat r)"
  proof (rule odd_search_rep)
    have "d = 2" if "2 \<le> d \<and> d < 3" for d :: nat using that by auto
    moreover have "unat (3 :: digit) = 3" by simp
    ultimately show "\<forall>d. 2 \<le> d \<and> d < unat (3 :: digit) \<longrightarrow> \<not> d dvd unat n" using False by metis
  qed (use False assms in simp_all)
  then show ?thesis using False by (simp add: firstDivisor0_def even_word)
qed

lemma value_checks: "firstDivisor0 1 = Some (Inr 1)" "firstDivisor0 0 = Some (Inr 2)" "spiralDivisor 1 0 = Some (Inr 1)" "spiralDivisor 0 0 = Some (Inr 2)"
proof -
  have "\<not> le_sqrt 3 1"
  proof
    assume "le_sqrt 3 1"
    moreover have "double_of 1 = 1" "double_of 3 = 3" by (rule double_of_exact, rule bit_length_le, simp)+
    moreover obtain c m where cm: "sqrt_double 1 = (c, m)" by fastforce
    ultimately have "3 * 2 ^ m \<le> c" by (simp add: le_sqrt_def)
    moreover have "c \<le> 1 * 2 ^ m" by (rule sqrt_double_near(4)[OF cm]) simp
    moreover have "(0::nat) < 2 ^ m" by simp
    ultimately show False by linarith
  qed
  then show "firstDivisor0 1 = Some (Inr 1)" by (simp add: firstDivisor0_def odd_search.simps)
  have "spiral 1 7 m = Some (Inr 1)" if "m < 7" for m
    by (subst spiral.simps) (use that in auto)
  moreover have "min 1 (trunc_sqrt 1) < 7" by (rule le_less_trans[OF min.cobounded1]) simp
  ultimately show "spiralDivisor 1 0 = Some (Inr 1)" by (simp add: spiralDivisor_def)
qed (simp_all add: firstDivisor0_def spiralDivisor_def)

lemma spiralDivisor_limit:
  assumes "spiralDivisor n k = Some (Inr r)" "r \<noteq> n" "k \<noteq> 0"
  shows "unat r < max 6 (unat k + 30)"
proof -
  define mx where "mx = min k (trunc_sqrt n)"
  have mx: "unat mx \<le> unat k" "unat mx \<le> unat (trunc_sqrt n)" by (simp_all add: mx_def min_def word_le_nat_alt)
  then have "unat mx < 2 ^ 63" using trunc_sqrt_unat(1)[of n] by simp
  from spiral_rep[OF _ this, of 7 n] obtain s where "spiral n 7 mx = Some (Inr s)" "s = n \<or> unat s < unat mx + 30" by auto
  moreover have "spiralDivisor n k = (if n mod 2 = 0 then Some (Inr 2) else if n mod 3 = 0 then Some (Inr 3)
     else if n mod 5 = 0 then Some (Inr 5) else spiral n 7 mx)"
    using assms(3) by (simp add: spiralDivisor_def mx_def)
  ultimately show ?thesis using assms mx(1) by (auto split: if_splits)
qed

section \<open>The parallel search\<close>

text \<open>
  \<open>paralelDivisor\<close>: the calling thread hands out one task per block; a task is a lambda that holds references to \<open>b\<close>, \<open>n\<close> and \<open>result\<close>.
  \<open>run\<close> queues a task, and waits while the 64 slots of the queue of the pool are taken.
  Workers take the tasks from the queue and run them at any time (\<open>Pool\<close> shows that each starts at most once). A task reads \<open>b\<close> twice, in
  either order, for the arguments of \<open>spiral\<close>. \<open>b\<close> lives as long as the loop and \<open>result\<close> until the function has returned; later their references dangle and the steps that use
  them are undefined (\<open>None\<close>).
\<close>

datatype search_pc = MTest | MRun | MNext | MExit | MReturned digit

datatype task_pc = WQueued | WStart | WLow digit | WHigh digit | WCall digit digit | WRes digit | WDone

record search =
  sb :: digit
  sresult :: digit
  smain :: search_pc
  stasks :: "task_pc list"

definition block_size :: digit where
  "block_size = 3000000"

definition search_start :: "digit \<Rightarrow> (fault + search) option" where
  "search_start n = obind (spiralDivisor n (7 + block_size)) (\<lambda>r.
     Some (Inr \<lparr>sb = 7 + block_size, sresult = r, smain = MTest, stasks = []\<rparr>))"

definition main_step :: "digit \<Rightarrow> search \<Rightarrow> search option" where
  "main_step n s = (case smain s of
     MTest \<Rightarrow> Some (s\<lparr>smain := if sresult s = n \<and> less_sqrt (sb s) n then MRun else MExit\<rparr>)
   | MRun \<Rightarrow> Some (if length (filter (\<lambda>w. w = WQueued) (stasks s)) < 64
       then s\<lparr>stasks := stasks s @ [WQueued], smain := MNext\<rparr> else s)
   | MNext \<Rightarrow> Some (s\<lparr>sb := sb s + block_size, smain := MTest\<rparr>)
   | MExit \<Rightarrow> Some (s\<lparr>smain := MReturned (sresult s)\<rparr>)
   | MReturned r \<Rightarrow> None)"

definition b_lives :: "search \<Rightarrow> bool" where
  "b_lives s = (case smain s of MExit \<Rightarrow> False | MReturned r \<Rightarrow> False | _ \<Rightarrow> True)"

definition result_lives :: "search \<Rightarrow> bool" where
  "result_lives s = (case smain s of MReturned r \<Rightarrow> False | _ \<Rightarrow> True)"

definition task_step :: "digit \<Rightarrow> bool \<Rightarrow> task_pc \<Rightarrow> search \<Rightarrow> (task_pc \<times> search) option" where
  "task_step n low_first w s = (case w of
     WQueued \<Rightarrow> Some (WStart, s)
   | WStart \<Rightarrow> if b_lives s then Some (if low_first then WLow (sb s) else WHigh (sb s + block_size), s) else None
   | WLow lo \<Rightarrow> if b_lives s then Some (WCall lo (sb s + block_size), s) else None
   | WHigh hi \<Rightarrow> if b_lives s then Some (WCall (sb s) hi, s) else None
   | WCall lo hi \<Rightarrow> (case spiral n lo hi of Some (Inr r) \<Rightarrow> Some (WRes r, s) | _ \<Rightarrow> None)
   | WRes r \<Rightarrow> if result_lives s then Some (WDone, if r < n then s\<lparr>sresult := r\<rparr> else s) else None
   | WDone \<Rightarrow> None)"

inductive search_reach :: "digit \<Rightarrow> search \<Rightarrow> bool" for n where
  start: "search_start n = Some (Inr s) \<Longrightarrow> search_reach n s"
| main: "search_reach n s \<Longrightarrow> main_step n s = Some s' \<Longrightarrow> search_reach n s'"
| task: "search_reach n s \<Longrightarrow> k < length (stasks s)
    \<Longrightarrow> task_step n low_first (stasks s ! k) s = Some (w, s') \<Longrightarrow> search_reach n (s'\<lparr>stasks := (stasks s)[k := w]\<rparr>)"

definition divides :: "digit \<Rightarrow> digit \<Rightarrow> bool" where
  "divides r n \<longleftrightarrow> 2 \<le> unat r \<and> unat r dvd unat n"

fun task_ok :: "digit \<Rightarrow> task_pc \<Rightarrow> bool" where
  "task_ok n (WLow lo) \<longleftrightarrow> 2 \<le> unat lo"
| "task_ok n (WHigh hi) \<longleftrightarrow> unat hi \<le> 2 ^ 33"
| "task_ok n (WCall lo hi) \<longleftrightarrow> 2 \<le> unat lo \<and> unat hi \<le> 2 ^ 33"
| "task_ok n (WRes r) \<longleftrightarrow> divides r n"
| "task_ok n _ \<longleftrightarrow> True"

definition search_ok :: "digit \<Rightarrow> search \<Rightarrow> bool" where
  "search_ok n s \<longleftrightarrow> divides (sresult s) n \<and> 7 \<le> unat (sb s) \<and> unat (sb s) \<le> 2 ^ 32 + 3000000
     \<and> (smain s \<in> {MRun, MNext} \<longrightarrow> unat (sb s) \<le> 2 ^ 32) \<and> (\<forall>r. smain s = MReturned r \<longrightarrow> divides r n)
     \<and> (\<forall>w \<in> set (stasks s). task_ok n w)"

lemma less_le_sqrt: "less_sqrt i n \<Longrightarrow> le_sqrt i n"
  by (auto simp: less_sqrt_def le_sqrt_def)

lemma spiralDivisor_divides:
  assumes "2 \<le> unat n"
  shows "\<exists>r. spiralDivisor n k = Some (Inr r) \<and> divides r n"
  using spiralDivisor_rep[OF assms, of k] assms by (auto simp: divides_def least_factor_def)

lemma search_main_ok: "search_ok n s \<Longrightarrow> main_step n s = Some s' \<Longrightarrow> search_ok n s'"
  using le_sqrt_bound[OF less_le_sqrt[of "sb s" n]]
  by (auto simp: search_ok_def main_step_def block_size_def unat_word_ariths split: search_pc.splits if_splits)

lemma search_call:
  assumes "2 \<le> unat n" "2 \<le> unat lo" "unat hi \<le> 2 ^ 33"
  shows "\<exists>r. spiral n lo hi = Some (Inr r) \<and> divides r n"
proof -
  have "0 < unat lo" "unat hi < 2 ^ 63" using assms(2,3) by simp_all
  from spiral_rep[OF this, of n] show ?thesis using assms(1,2) by (auto simp: divides_def)
qed

lemma search_task_ok:
  assumes "2 \<le> unat n" "search_ok n s" "k < length (stasks s)" "task_step n low_first (stasks s ! k) s = Some (w, s')"
  shows "search_ok n (s'\<lparr>stasks := (stasks s)[k := w]\<rparr>)"
proof -
  have ok: "task_ok n (stasks s ! k)" using assms(2,3) by (simp add: search_ok_def)
  have b: "unat (sb s + block_size) \<le> 2 ^ 33" using assms(2) by (simp add: search_ok_def block_size_def unat_word_ariths)
  have "task_ok n w \<and> search_ok n s' \<and> stasks s' = stasks s"
  proof (cases "stasks s ! k")
    case (WCall lo hi)
    then obtain r where "spiral n lo hi = Some (Inr r)" "divides r n" using ok search_call[OF assms(1)] by auto
    then show ?thesis using assms(2,4) WCall by (auto simp: task_step_def)
  next
    case (WRes r)
    then have r: "divides r n" and w: "w = WDone" and s': "s' = (if r < n then s\<lparr>sresult := r\<rparr> else s)"
      using assms(4) ok by (simp_all add: task_step_def split: if_splits)
    have "search_ok n (s\<lparr>sresult := r\<rparr>)" using assms(2) r by (simp add: search_ok_def)
    then show ?thesis using assms(2) unfolding w s' by simp
  qed (use assms(2,4) ok b in \<open>auto simp: task_step_def search_ok_def split: if_splits\<close>)
  then show ?thesis using set_update_subset_insert[of "stasks s" k w] by (auto simp: search_ok_def)
qed

lemma search_reach_ok:
  assumes "2 \<le> unat n" "search_reach n s"
  shows "search_ok n s"
  using assms(2)
proof induction
  case (start s)
  then show ?case using spiralDivisor_divides[OF assms(1), of "7 + block_size"]
    by (auto simp: search_start_def search_ok_def block_size_def)
next
  case (main s s')
  then show ?case using search_main_ok by blast
next
  case (task s k low_first w s')
  then show ?case using search_task_ok[OF assms(1)] by blast
qed

section \<open>Results\<close>

lemma least_factor_unique: "least_factor v a \<Longrightarrow> least_factor v b \<Longrightarrow> a = b"
  by (simp add: least_factor_def le_antisym)

text \<open>C32: The two searches of a divisor return, without a division by zero, and give the same for every \<open>u64\<close>: the least factor of a
  number from 2 on. A search with a limit gives it where it is not above the limit, and the number itself otherwise, if it does
  not find it on the last turn of the wheel.\<close>

theorem divisor_searches_agree:
  "spiralDivisor n 0 = firstDivisor0 n \<and> (\<exists>r. firstDivisor0 n = Some (Inr r) \<and> (2 \<le> unat n \<longrightarrow> least_factor (unat n) (unat r)))
   \<and> (2 \<le> unat n \<longrightarrow> (\<exists>r. spiralDivisor n k = Some (Inr r) \<and> (least_factor (unat n) (unat r)
        \<or> r = n \<and> k \<noteq> 0 \<and> (\<forall>p. least_factor (unat n) p \<longrightarrow> max 5 (unat k) < p))))"
proof (cases "2 \<le> unat n")
  case True
  obtain r where r: "firstDivisor0 n = Some (Inr r)" "least_factor (unat n) (unat r)" using firstDivisor0_rep[OF True] by blast
  moreover obtain s where s: "spiralDivisor n 0 = Some (Inr s)" "least_factor (unat n) (unat s)" using spiralDivisor_rep[OF True, of 0] by blast
  ultimately have "s = r" using least_factor_unique[OF s(2) r(2)] by (simp add: word_unat_eq_iff)
  then have "spiralDivisor n 0 = firstDivisor0 n" using r(1) s(1) by simp
  moreover have "\<exists>r. firstDivisor0 n = Some (Inr r) \<and> (2 \<le> unat n \<longrightarrow> least_factor (unat n) (unat r))" using r by blast
  ultimately show ?thesis using spiralDivisor_rep[OF True, of k] by (intro conjI impI)
next
  case False
  then have "unat n = 0 \<or> unat n = 1" by linarith
  then have "n = 0 \<or> n = 1" by (metis unat_0 unat_1 word_unat_eq_iff)
  then show ?thesis using value_checks False by auto
qed

lemma divisor_searches_agree_witness: "spiralDivisor 91 0 = Some (Inr 7) \<and> firstDivisor0 91 = Some (Inr 7)"
proof -
  have "\<not> d dvd 91" if "2 \<le> d \<and> d < 7" for d :: nat
  proof -
    have "d \<in> {2, 3, 4, 5, 6}" using that by auto
    then show ?thesis by auto
  qed
  then have lf: "least_factor 91 7" by (intro least_factor_small) auto
  have u: "unat (91 :: digit) = 91" "unat (7 :: digit) = 7" by simp_all
  obtain r where r: "firstDivisor0 91 = Some (Inr r)" "spiralDivisor 91 0 = firstDivisor0 91" "least_factor 91 (unat r)"
    using divisor_searches_agree[of 91 0] unfolding u by auto
  have "unat r = unat (7 :: digit)" unfolding u by (rule least_factor_unique[OF r(3) lf])
  then have "r = 7" by (simp only: word_unat_eq_iff)
  then show ?thesis using r(1,2) by simp
qed

text \<open>\<open>paralelDivisor\<close> does not wait for its tasks, and a task reads \<open>b\<close> when it starts, after the caller may have moved it on: the
  function can return a composite number as its own divisor, even when all its tasks have ended.\<close>

definition missed :: digit where
  "missed = 3000047 * 3000047"

lemma missed_prime: "is_prime 3000047"
proof -
  have all: "list_all (\<lambda>q. list_all (\<lambda>k. (3000047::int) mod (30 * q + k) \<noteq> 0) [7, 11, 13, 17, 19, 23, 29, 31]) [0..57]"
    by code_simp
  have t: "\<not> 30 * q + k dvd (3000047::int)" if "0 \<le> q" "q \<le> 57" "k \<in> {7, 11, 13, 17, 19, 23, 29, 31}" for q k
    
  proof -
    have "q \<in> set [0..57]" "k \<in> set [7, 11, 13, 17, 19, 23, 29, 31]" using that by simp_all
    then show ?thesis unfolding dvd_eq_mod_eq_0 by (rule all[unfolded list_all_iff, THEN bspec, THEN bspec])
  qed
  have "3000047 < d * d" if d: "2 \<le> d \<and> d dvd 3000047" for d :: nat
  proof (rule ccontr)
    assume "\<not> 3000047 < d * d"
    then have "d \<le> 1733" using mult_le_mono[of 1734 d 1734 d] by (cases "1734 \<le> d") auto
    have w: "on_wheel d" "7 \<le> d" using wheel_divisor[of 3000047 d] d by (simp_all add: on_wheel_def)
    define q where "q = (d - 7) div 30"
    have q: "30 * q + 7 \<le> d" "d < 30 * q + 7 + 30" "q \<le> 57" using w(2) \<open>d \<le> 1733\<close> by (simp_all add: q_def)
    have "d \<in> wheel_turn (30 * q + 7)" by (rule wheel_cover[OF w(1) _ q(1,2)]) simp
    then obtain k where "d = 30 * q + k" "k \<in> {7, 11, 13, 17, 19, 23, 29, 31}" by (auto simp: wheel_turn_def)
    moreover have "int d dvd int 3000047" using d by (simp only: int_dvd_int_iff)
    ultimately show False using t[of "int q" "int k"] q(3) by auto
  qed
  then show ?thesis unfolding is_prime_iff by simp
qed

lemma missed_unat: "unat missed = 3000047 * 3000047"
  by (simp add: missed_def)

lemma missed_least: "least_factor (3000047 * 3000047) 3000047"
proof (rule least_factor_by_primes[OF _ missed_prime])
  show "\<forall>p. is_prime p \<and> p < 3000047 \<longrightarrow> \<not> p dvd 3000047 * 3000047"
  proof (intro allI impI notI)
    fix q :: nat assume q: "is_prime q \<and> q < 3000047" "q dvd 3000047 * 3000047"
    have "q dvd 3000047" using euclid[of q 3000047 3000047] q by blast
    then have "q = 1 \<or> q = 3000047" using missed_prime unfolding is_prime_def by blast
    then show False using q(1) unfolding is_prime_def by linarith
  qed
qed simp_all

lemma missed_first_block: "spiralDivisor missed (7 + block_size) = Some (Inr missed)"
proof -
  have k: "unat (7 + block_size) = 3000007" "7 + block_size \<noteq> 0" by (simp_all add: block_size_def)
  obtain r where r: "spiralDivisor missed (7 + block_size) = Some (Inr r)" "least_factor (unat missed) (unat r) \<or> r = missed"
    using spiralDivisor_rep[of missed "7 + block_size"] by (auto simp: missed_unat)
  have "r = missed"
  proof (rule ccontr)
    assume "r \<noteq> missed"
    then have "unat r = 3000047" using r(2) least_factor_unique[OF _ missed_least] by (simp add: missed_unat)
    then show False using spiralDivisor_limit[OF r(1) \<open>r \<noteq> missed\<close> k(2)] k(1) by simp
  qed
  then show ?thesis using r(1) by simp
qed

lemma missed_sqrt: "less_sqrt 3000007 missed" "\<not> less_sqrt 6000007 missed"
proof -
  obtain c m where cm: "sqrt_double (double_of (unat missed)) = (c, m)" by fastforce
  have d: "double_of (unat missed) = unat missed" "double_of 3000007 = 3000007" "double_of 6000007 = 6000007"
    by (rule double_of_exact, rule bit_length_le, simp add: missed_unat)+
  have le: "3000047 * 2 ^ m \<le> c" by (rule sqrt_double_ge[OF _ u64_bound cm]) (simp add: missed_unat)
  have ge: "c \<le> 3000047 * 2 ^ m" by (rule sqrt_double_near(4)[OF cm]) (subst d(1), simp add: missed_unat)
  have "(0::nat) < 2 ^ m" by simp
  then have "3000007 * 2 ^ m < c" "\<not> 6000007 * 2 ^ m < c" using le ge by linarith+
  then show "less_sqrt 3000007 missed" "\<not> less_sqrt 6000007 missed" using cm d(2,3) by (simp_all add: less_sqrt_def)
qed

lemma missed_second_block: "spiral missed 6000007 9000007 = Some (Inr missed)"
proof -
  obtain r where r: "spiral missed 6000007 9000007 = Some (Inr r)" "unat r dvd unat missed" "r = missed \<or> 6000007 \<le> unat r"
    using spiral_rep[of 6000007 9000007 missed] by auto
  have "r = missed"
  proof (rule ccontr)
    assume n: "r \<noteq> missed"
    obtain e where e: "3000047 * 3000047 = unat r * e" using r(2) unfolding missed_unat by blast
    have "e \<noteq> 1" using n e missed_unat by (metis mult.right_neutral word_unat_eq_iff)
    moreover have "e \<noteq> 0" using e by (cases e) auto
    ultimately have "2 \<le> e" by linarith
    moreover have "e dvd 3000047 * 3000047" unfolding e by simp
    ultimately have "3000047 \<le> e" using missed_least unfolding least_factor_def by blast
    then have "6000007 * 3000047 \<le> unat r * e" using r(3) n by (intro mult_le_mono) auto
    then show False using e by simp
  qed
  then show ?thesis using r(1) by simp
qed

lemma parallel_search_misses:
  "\<exists>s. search_reach missed s \<and> smain s = MReturned missed \<and> stasks s = [WDone]" "\<not> is_prime (unat missed)"
proof -
  let ?s = "\<lambda>b p ws. \<lparr>sb = b, sresult = missed, smain = p, stasks = ws\<rparr>"
  have "search_reach missed (?s 3000007 MTest [])"
    by (rule start) (use missed_first_block in \<open>simp add: search_start_def block_size_def\<close>)
  then have "search_reach missed (?s 3000007 MRun [])" by (rule main) (simp add: main_step_def missed_sqrt)
  then have "search_reach missed (?s 3000007 MNext [WQueued])" by (rule main) (simp add: main_step_def)
  then have r: "search_reach missed (?s 6000007 MTest [WQueued])" by (rule main) (simp add: main_step_def block_size_def)
  have task: "search_reach missed (?s 6000007 MTest [w'])"
    if "search_reach missed (?s 6000007 MTest [w])" "task_step missed True w (?s 6000007 MTest [w]) = Some (w', ?s 6000007 MTest [w])" for w w'
    using task[OF that(1), of 0 True w' "?s 6000007 MTest [w]"] that(2) by simp
  from r have "search_reach missed (?s 6000007 MTest [WStart])" by (rule task) (simp add: task_step_def)
  then have "search_reach missed (?s 6000007 MTest [WLow 6000007])" by (rule task) (simp add: task_step_def b_lives_def result_lives_def)
  then have "search_reach missed (?s 6000007 MTest [WCall 6000007 9000007])" by (rule task) (simp add: task_step_def block_size_def b_lives_def)
  then have "search_reach missed (?s 6000007 MTest [WRes missed])" by (rule task) (simp add: task_step_def missed_second_block)
  then have "search_reach missed (?s 6000007 MTest [WDone])" by (rule task) (simp add: task_step_def b_lives_def result_lives_def)
  then have "search_reach missed (?s 6000007 MExit [WDone])" by (rule main) (simp add: main_step_def missed_sqrt)
  then have "search_reach missed (?s 6000007 (MReturned missed) [WDone])" by (rule main) (simp add: main_step_def)
  then show "\<exists>s. search_reach missed s \<and> smain s = MReturned missed \<and> stasks s = [WDone]" by force
  show "\<not> is_prime (unat missed)" by (simp add: is_prime_def missed_unat) (rule exI[of _ 3000047], simp)
qed

text \<open>C33: Whatever the interleaving of the calling thread and the tasks, up to the first use of a reference that dangles,
  \<open>paralelDivisor\<close> of a number from 2 on returns, if it returns, a divisor other than 1, at any time \<open>result\<close> holds one, and while the
  loop runs no task divides by zero or searches without end: each that has not ended has a next step.\<close>

theorem parallel_search_sound:
  assumes "2 \<le> unat n" "search_reach n s"
  shows "(\<forall>r. smain s = MReturned r \<longrightarrow> divides r n) \<and> divides (sresult s) n
   \<and> (b_lives s \<longrightarrow>
        (\<forall>k. k < length (stasks s) \<and> stasks s ! k \<noteq> WDone \<longrightarrow> task_step n low_first (stasks s ! k) s \<noteq> None))"
proof -
  have ok: "search_ok n s" by (rule search_reach_ok[OF assms])
  have "task_step n low_first (stasks s ! k) s \<noteq> None" if "b_lives s" "k < length (stasks s)" "stasks s ! k \<noteq> WDone" for k
  proof -
    have "result_lives s" using that(1) by (auto simp: b_lives_def result_lives_def split: search_pc.splits)
    moreover have "task_ok n (stasks s ! k)" using ok that(2) by (simp add: search_ok_def)
    ultimately show ?thesis using that(1,3) search_call[OF assms(1)] by (cases "stasks s ! k") (auto simp: task_step_def; fastforce)+
  qed
  then show ?thesis using ok by (auto simp: search_ok_def)
qed

lemma parallel_search_sound_witness: "\<exists>s r. search_reach missed s \<and> smain s = MReturned r \<and> divides r missed"
proof -
  obtain s where s: "search_reach missed s" "smain s = MReturned missed" using parallel_search_misses(1) by blast
  have "2 \<le> unat missed" by (simp add: missed_unat)
  then show ?thesis using parallel_search_sound[OF _ s(1)] s by blast
qed

end
