(* ===== verification/TwinPrimes.thy ===== *)
theory TwinPrimes
  imports Divisors "HOL-Library.Multiset"
begin

text \<open>
  \<open>tests/twin_prime.cc\<close>, the search for twin primes by events on the queue of the pool. \<open>EventEmitter\<close> is not part of the sources: what a call of
  \<open>emit\<close> gives to the queue is the parameter \<open>em\<close> of the model, and what the program relies on is \<open>one_call\<close>, that this is one call of
  the listener (\<open>EVENT_QUEUE_DESIGN.md\<close>). A job is such a call or a lambda given to \<open>run\<close>. \<open>W\<close> workers take jobs from the queue of 64 slots
  and finish them in any order. The body of a job only touches atomic counters and, under the mutex, \<open>twins\<close>, so it is one step; then it
  pushes what it emits, one step for each, and waits where the queue is full.
\<close>

section \<open>Jobs and steps\<close>

definition twin_isPrime :: "digit \<Rightarrow> (fault + bool) option" where
  "twin_isPrime n = obind (spiralDivisor n 0) (\<lambda>r. Some (Inr (r = n)))"

datatype job = Candidate digit | PrimeEvent digit | Forward digit | Backward digit

text \<open>A worker has a job to run, or is in the pushes at the end of one.\<close>

datatype task = Run job | Pushing "job list"

text \<open>\<open>emitting\<close> is what \<open>main\<close> has still to push of a call of \<open>emit\<close>; \<open>lost\<close>, the jobs whose push has returned 0, is ghost state.\<close>

record twin_state =
  candidate :: digit
  emitting :: "job list"
  queued :: "job list"
  active :: "task list"
  halted :: bool
  lost :: "job list"
  numbersTested :: digit
  primesFound :: digit
  twinCount :: "32 word"
  twins :: "(digit \<times> digit) list"

definition twin_init :: twin_state where
  "twin_init = \<lparr>candidate = 3, emitting = [], queued = [], active = [], halted = False, lost = [], numbersTested = 0, primesFound = 0,
     twinCount = 0, twins = []\<rparr>"

definition add_twin :: "digit \<times> digit \<Rightarrow> twin_state \<Rightarrow> twin_state" where
  "add_twin t s = s\<lparr>twins := twins s @ [t], twinCount := twinCount s + 1\<rparr>"

text \<open>The listeners of \<open>candidate\<close> and \<open>prime\<close> and the two lambdas of the latter, with the jobs they push at the end.\<close>

definition on_candidate :: "(job \<Rightarrow> job list) \<Rightarrow> digit \<Rightarrow> twin_state \<Rightarrow> (fault + job list \<times> twin_state) option" where
  "on_candidate em n s = (let s = s\<lparr>numbersTested := numbersTested s + 1\<rparr> in
     obind (twin_isPrime n) (\<lambda>b. Some (Inr
       (if b then (em (PrimeEvent n), s\<lparr>primesFound := primesFound s + 1\<rparr>) else ([], s)))))"

definition on_prime :: "digit \<Rightarrow> digit \<Rightarrow> job list" where
  "on_prime mx p = (if p + 2 \<le> mx then [Forward p] else []) @ (if p - 2 \<ge> 3 then [Backward p] else [])"

definition check_forward :: "digit \<Rightarrow> twin_state \<Rightarrow> (fault + twin_state) option" where
  "check_forward p s = obind (twin_isPrime (p + 2)) (\<lambda>b. Some (Inr (if b then add_twin (p, p + 2) s else s)))"

definition check_backward :: "digit \<Rightarrow> twin_state \<Rightarrow> (fault + twin_state) option" where
  "check_backward p s = obind (twin_isPrime (p - 2)) (\<lambda>b. Some (Inr
     (if b \<and> \<not> list_ex (\<lambda>t. fst t = p - 2 \<and> snd t = p) (twins s) then add_twin (p - 2, p) s else s)))"

fun run_job :: "(job \<Rightarrow> job list) \<Rightarrow> digit \<Rightarrow> job \<Rightarrow> twin_state \<Rightarrow> (fault + job list \<times> twin_state) option" where
  "run_job em mx (Candidate n) s = on_candidate em n s"
| "run_job em mx (PrimeEvent p) s = Some (Inr (on_prime mx p, s))"
| "run_job em mx (Forward p) s = obind (check_forward p s) (\<lambda>s. Some (Inr ([], s)))"
| "run_job em mx (Backward p) s = obind (check_backward p s) (\<lambda>s. Some (Inr ([], s)))"

text \<open>The steps of \<open>main\<close>, which emits the candidates and stops the pool once it finds the queue empty, and of the workers. A push
  on a stopped queue returns 0; one that had found it running may still append.\<close>

definition pool_slots :: nat where
  "pool_slots = 64"

definition enqueue :: "job \<Rightarrow> twin_state \<Rightarrow> twin_state" where
  "enqueue j s = s\<lparr>queued := queued s @ [j]\<rparr>"

definition has_room :: "twin_state \<Rightarrow> bool" where
  "has_room s \<longleftrightarrow> length (queued s) < pool_slots"

inductive twin_step :: "(job \<Rightarrow> job list) \<Rightarrow> nat \<Rightarrow> digit \<Rightarrow> twin_state \<Rightarrow> twin_state \<Rightarrow> bool" for em W mx where
  emit: "emitting s = [] \<Longrightarrow> candidate s \<le> mx
    \<Longrightarrow> twin_step em W mx s (s\<lparr>emitting := em (Candidate (candidate s)), candidate := candidate s + 2\<rparr>)"
| emit_push: "emitting s = j # js \<Longrightarrow> has_room s \<Longrightarrow> twin_step em W mx s (enqueue j (s\<lparr>emitting := js\<rparr>))"
| take: "queued s = j # js \<Longrightarrow> \<not> halted s \<Longrightarrow> length (active s) < W
    \<Longrightarrow> twin_step em W mx s (s\<lparr>queued := js, active := Run j # active s\<rparr>)"
| work: "active s = xs @ Run j # ys \<Longrightarrow> run_job em mx j s = Some (Inr (js, s'))
    \<Longrightarrow> twin_step em W mx s (s'\<lparr>active := xs @ Pushing js # ys\<rparr>)"
| push: "active s = xs @ Pushing (j # js) # ys \<Longrightarrow> has_room s
    \<Longrightarrow> twin_step em W mx s (enqueue j (s\<lparr>active := xs @ Pushing js # ys\<rparr>))"
| drop: "active s = xs @ Pushing (j # js) # ys \<Longrightarrow> halted s
    \<Longrightarrow> twin_step em W mx s (s\<lparr>lost := j # lost s, active := xs @ Pushing js # ys\<rparr>)"
| finish: "active s = xs @ Pushing [] # ys \<Longrightarrow> twin_step em W mx s (s\<lparr>active := xs @ ys\<rparr>)"
| halt: "emitting s = [] \<Longrightarrow> \<not> candidate s \<le> mx \<Longrightarrow> \<not> halted s \<Longrightarrow> queued s = [] \<Longrightarrow> twin_step em W mx s (s\<lparr>halted := True\<rparr>)"

text \<open>A worker that has found the pool running just before it is stopped may still take a job (\<open>late\<close>).\<close>

inductive twin_reach :: "(job \<Rightarrow> job list) \<Rightarrow> nat \<Rightarrow> digit \<Rightarrow> twin_state \<Rightarrow> bool" for em W mx where
  init: "twin_reach em W mx twin_init"
| step: "twin_reach em W mx s \<Longrightarrow> twin_step em W mx s s' \<Longrightarrow> twin_reach em W mx s'"
| late: "twin_reach em W mx s \<Longrightarrow> queued s = j # js \<Longrightarrow> length (active s) < W
    \<Longrightarrow> twin_reach em W mx (s\<lparr>queued := js, active := Run j # active s\<rparr>)"

definition one_call :: "(job \<Rightarrow> job list) \<Rightarrow> bool" where
  "one_call em \<longleftrightarrow> (\<forall>j. em j = [j])"

section \<open>The primality test\<close>

lemma twin_isPrime_rep: "2 \<le> unat n \<Longrightarrow> twin_isPrime n = Some (Inr (is_prime (unat n)))"
proof -
  assume n: "2 \<le> unat n"
  then obtain r where r: "spiralDivisor n 0 = Some (Inr r)" "least_factor (unat n) (unat r)" using spiralDivisor_rep[OF n, of 0] by blast
  have "unat r = unat n \<longleftrightarrow> is_prime (unat n)"
    using least_factor_prime[OF n] least_factor_unique[OF r(2), of "unat n"] r(2) by metis
  then have "r = n \<longleftrightarrow> is_prime (unat n)" by (simp only: word_unat_eq_iff)
  then show ?thesis using r(1) by (simp add: twin_isPrime_def)
qed

section \<open>Invariants\<close>

definition twin_pair :: "nat \<Rightarrow> nat \<Rightarrow> bool" where
  "twin_pair m c \<longleftrightarrow> is_prime c \<and> is_prime (c + 2) \<and> c + 2 \<le> m"

fun task_jobs :: "task \<Rightarrow> job multiset" where
  "task_jobs (Run j) = {#j#}"
| "task_jobs (Pushing js) = mset js"

text \<open>The jobs that are queued, being pushed, under way or lost.\<close>

definition jobs :: "twin_state \<Rightarrow> job multiset" where
  "jobs s = mset (emitting s) + mset (queued s) + (\<Sum>t \<in># mset (active s). task_jobs t) + mset (lost s)"

text \<open>What the jobs in the system are about.\<close>

fun job_ok :: "nat \<Rightarrow> nat \<Rightarrow> job \<Rightarrow> bool" where
  "job_ok m i (Candidate n) \<longleftrightarrow> odd (unat n) \<and> 3 \<le> unat n \<and> unat n < i \<and> unat n \<le> m"
| "job_ok m i (PrimeEvent n) \<longleftrightarrow> is_prime (unat n) \<and> 3 \<le> unat n \<and> unat n \<le> m"
| "job_ok m i (Forward n) \<longleftrightarrow> is_prime (unat n) \<and> 3 \<le> unat n \<and> unat n + 2 \<le> m"
| "job_ok m i (Backward n) \<longleftrightarrow> is_prime (unat n) \<and> 5 \<le> unat n \<and> unat n \<le> m"

text \<open>How often the pair that starts at \<open>c\<close> may still be recorded on account of a job.\<close>

fun chances :: "nat \<Rightarrow> job \<Rightarrow> nat" where
  "chances c (Candidate n) = of_bool (unat n = c) + of_bool (unat n = c + 2)"
| "chances c (PrimeEvent n) = of_bool (unat n = c) + of_bool (unat n = c + 2)"
| "chances c (Forward n) = of_bool (unat n = c)"
| "chances c (Backward n) = of_bool (unat n = c + 2)"

fun to_test :: "job \<Rightarrow> nat" where
  "to_test (Candidate n) = 1"
| "to_test _ = 0"

fun to_find :: "job \<Rightarrow> nat" where
  "to_find (Candidate n) = of_bool (is_prime (unat n))"
| "to_find _ = 0"

fun will_record :: "nat \<Rightarrow> job \<Rightarrow> bool" where
  "will_record c (Candidate n) \<longleftrightarrow> unat n = c"
| "will_record c (PrimeEvent n) \<longleftrightarrow> unat n = c"
| "will_record c (Forward n) \<longleftrightarrow> unat n = c"
| "will_record c (Backward n) \<longleftrightarrow> False"

definition recorded :: "nat \<Rightarrow> (digit \<times> digit) list \<Rightarrow> nat" where
  "recorded c ts = length (filter (\<lambda>t. unat (fst t) = c) ts)"

definition odd_primes_below :: "nat \<Rightarrow> nat" where
  "odd_primes_below i = length (filter is_prime [3..<i])"

text \<open>The candidates below \<open>i\<close> are out, \<open>J\<close> are the jobs in the system, then the four results.\<close>

definition twins_ok :: "nat \<Rightarrow> nat \<Rightarrow> job multiset \<Rightarrow> digit \<Rightarrow> digit \<Rightarrow> 32 word \<Rightarrow> (digit \<times> digit) list \<Rightarrow> bool" where
  "twins_ok m i J tested found cnt ts \<longleftrightarrow> odd i \<and> 3 \<le> i \<and> (\<forall>j \<in># J. job_ok m i j)
     \<and> (\<forall>(a, b) \<in> set ts. unat b = unat a + 2 \<and> twin_pair m (unat a) \<and> 3 \<le> unat a)
     \<and> (\<forall>c. recorded c ts + (\<Sum>j \<in># J. chances c j) + of_bool (i \<le> c) + of_bool (i \<le> c + 2) \<le> 2)
     \<and> (\<forall>c. twin_pair m c \<and> 3 \<le> c \<longrightarrow> 0 < recorded c ts \<or> i \<le> c \<or> (\<exists>j \<in># J. will_record c j))
     \<and> cnt = of_nat (length ts)
     \<and> tested + of_nat (\<Sum>j \<in># J. to_test j) = of_nat ((i - 3) div 2)
     \<and> found + of_nat (\<Sum>j \<in># J. to_find j) = of_nat (odd_primes_below i)"

lemma prime_odd: "is_prime c \<Longrightarrow> 3 \<le> c \<Longrightarrow> odd c"
  using even_prime[of c] by auto

lemma recorded_append [simp]: "recorded c (ts @ [t]) = recorded c ts + of_bool (unat (fst t) = c)"
  by (simp add: recorded_def)

lemma odd_primes_below_Suc2:
  assumes "odd i" "3 \<le> i"
  shows "odd_primes_below (i + 2) = odd_primes_below i + of_bool (is_prime i)"
proof -
  have "[3..<i + 2] = [3..<i] @ [i, Suc i]" using assms(2) by (simp add: upt_Suc_append)
  moreover have "\<not> is_prime (Suc i)" using prime_odd[of "Suc i"] assms by auto
  ultimately show ?thesis by (simp add: odd_primes_below_def)
qed

lemma twins_ok_emit:
  assumes "twins_ok m i J tested found cnt ts" "unat n = i" "i \<le> m"
  shows "twins_ok m (i + 2) (add_mset (Candidate n) J) tested found cnt ts"
proof -
  note ok = assms(1)[unfolded twins_ok_def]
  have i: "odd i" "3 \<le> i" using ok by blast+
  have jobs: "job_ok m (i + 2) j" if "j \<in># J" for j
    using ok that by (cases j) fastforce+
  have pot: "recorded c ts + (\<Sum>j \<in># add_mset (Candidate n) J. chances c j) + of_bool (i + 2 \<le> c) + of_bool (i + 2 \<le> c + 2) \<le> 2" for c
  proof -
    have "recorded c ts + (\<Sum>j \<in># J. chances c j) + of_bool (i \<le> c) + of_bool (i \<le> c + 2) \<le> 2" using ok by blast
    then show ?thesis using assms(2) by (auto simp: of_bool_def split: if_splits)
  qed
  have pend: "0 < recorded c ts \<or> i + 2 \<le> c \<or> (\<exists>j \<in># add_mset (Candidate n) J. will_record c j)" if "twin_pair m c" "3 \<le> c" for c
  proof -
    have "odd c" using prime_odd that by (simp add: twin_pair_def)
    then have "i \<le> c \<Longrightarrow> c \<noteq> i \<Longrightarrow> i + 2 \<le> c" using i(1) by presburger
    moreover have "0 < recorded c ts \<or> i \<le> c \<or> (\<exists>j \<in># J. will_record c j)" using ok that by blast
    ultimately show ?thesis using assms(2) by fastforce
  qed
  have "(i + 2 - 3) div 2 = (i - 3) div 2 + 1" using i by presburger
  then have tested: "tested + of_nat (\<Sum>j \<in># add_mset (Candidate n) J. to_test j) = of_nat ((i + 2 - 3) div 2)"
    using ok by (simp add: algebra_simps)
  have found: "found + of_nat (\<Sum>j \<in># add_mset (Candidate n) J. to_find j) = of_nat (odd_primes_below (i + 2))"
    using ok odd_primes_below_Suc2[OF i] assms(2) by (simp add: algebra_simps)
  show ?thesis unfolding twins_ok_def
    using ok i jobs pot pend tested found assms(2,3) by auto
qed

text \<open>A job that ends leaves the jobs \<open>K\<close> and perhaps a pair.\<close>

definition pair_ok :: "nat \<Rightarrow> digit \<times> digit \<Rightarrow> bool" where
  "pair_ok m t \<longleftrightarrow> unat (snd t) = unat (fst t) + 2 \<and> twin_pair m (unat (fst t)) \<and> 3 \<le> unat (fst t)"

lemma twins_ok_finish:
  assumes ok: "twins_ok m i (add_mset j J) tested found cnt ts"
    and K: "\<And>k. k \<in># K \<Longrightarrow> job_ok m i k"
    and new: "\<And>t. t \<in> set new \<Longrightarrow> pair_ok m t"
    and pot: "\<And>c. recorded c new + (\<Sum>k \<in># K. chances c k) \<le> chances c j"
    and pend: "\<And>c. twin_pair m c \<Longrightarrow> will_record c j \<Longrightarrow> 0 < recorded c (ts @ new) \<or> (\<exists>k \<in># K. will_record c k)"
    and tested: "tested' + of_nat (\<Sum>k \<in># K. to_test k) = tested + of_nat (to_test j)"
    and found: "found' + of_nat (\<Sum>k \<in># K. to_find k) = found + of_nat (to_find j)"
  shows "twins_ok m i (K + J) tested' found' (cnt + of_nat (length new)) (ts @ new)"
proof -
  note ok = ok[unfolded twins_ok_def]
  have app: "recorded c (ts @ new) = recorded c ts + recorded c new" for c by (simp add: recorded_def)
  have jobs: "job_ok m i k" if "k \<in># K + J" for k using that K ok by auto
  have pairs: "unat b = unat a + 2 \<and> twin_pair m (unat a) \<and> 3 \<le> unat a" if "(a, b) \<in> set (ts @ new)" for a b
    using that ok new[of "(a, b)"] by (auto simp: pair_ok_def)
  have pot': "recorded c (ts @ new) + (\<Sum>k \<in># K + J. chances c k) + of_bool (i \<le> c) + of_bool (i \<le> c + 2) \<le> 2" for c
  proof -
    have "recorded c ts + (\<Sum>k \<in># add_mset j J. chances c k) + of_bool (i \<le> c) + of_bool (i \<le> c + 2) \<le> 2" using ok by blast
    then show ?thesis using pot[of c] by (simp add: app)
  qed
  have pend': "0 < recorded c (ts @ new) \<or> i \<le> c \<or> (\<exists>k \<in># K + J. will_record c k)" if c: "twin_pair m c" "3 \<le> c" for c
  proof -
    have "0 < recorded c ts \<or> i \<le> c \<or> (\<exists>k \<in># add_mset j J. will_record c k)" using ok c by blast
    then show ?thesis using pend[OF c(1)] by (auto simp: app)
  qed
  have "tested + of_nat (to_test j) + of_nat (\<Sum>k \<in># J. to_test k) = of_nat ((i - 3) div 2)"
    "found + of_nat (to_find j) + of_nat (\<Sum>k \<in># J. to_find k) = of_nat (odd_primes_below i)"
    using ok by (simp_all add: add.assoc)
  then have counts: "tested' + of_nat (\<Sum>k \<in># K + J. to_test k) = of_nat ((i - 3) div 2)"
    "found' + of_nat (\<Sum>k \<in># K + J. to_find k) = of_nat (odd_primes_below i)"
    unfolding tested[symmetric] found[symmetric] by (simp_all add: add.assoc)
  have "cnt + of_nat (length new) = of_nat (length (ts @ new))" using ok by simp
  then show ?thesis unfolding twins_ok_def using ok jobs pairs pot' pend' counts by (intro conjI) blast+
qed

lemma recorded_simps [simp]: "recorded c [] = 0" "recorded c [t] = of_bool (unat (fst t) = c)"
  by (simp_all add: recorded_def)

lemma twins_ok_candidate:
  assumes "twins_ok m i (add_mset (Candidate n) J) tested found cnt ts"
  shows "twins_ok m i ((if is_prime (unat n) then {#PrimeEvent n#} else {#}) + J)
    (tested + 1) (if is_prime (unat n) then found + 1 else found) cnt ts"
proof -
  have "job_ok m i (Candidate n)" using assms by (simp add: twins_ok_def)
  then show ?thesis
    using twins_ok_finish[OF assms, of "if is_prime (unat n) then {#PrimeEvent n#} else {#}" "[]" "tested + 1"
        "if is_prime (unat n) then found + 1 else found"]
    by (auto simp: twin_pair_def split: if_splits)
qed

lemma twins_ok_prime:
  assumes "twins_ok m i (add_mset (PrimeEvent p) J) tested found cnt ts"
  shows "twins_ok m i ((if unat p + 2 \<le> m then {#Forward p#} else {#}) + (if 5 \<le> unat p then {#Backward p#} else {#}) + J) tested found cnt ts"
proof -
  let ?K = "(if unat p + 2 \<le> m then {#Forward p#} else {#}) + (if 5 \<le> unat p then {#Backward p#} else {#})"
  have "job_ok m i (PrimeEvent p)" using assms by (simp add: twins_ok_def)
  then have "twins_ok m i (?K + J) tested found (cnt + of_nat (length ([] :: (digit \<times> digit) list))) (ts @ [])"
    by (intro twins_ok_finish[OF assms]) (auto simp: twin_pair_def split: if_splits)
  then show ?thesis by simp
qed

lemma twins_ok_forward:
  assumes "twins_ok m i (add_mset (Forward p) J) tested found cnt ts" "unat q = unat p + 2"
  shows "is_prime (unat q) \<Longrightarrow> twins_ok m i J tested found (cnt + 1) (ts @ [(p, q)])"
    "\<not> is_prime (unat q) \<Longrightarrow> twins_ok m i J tested found cnt ts"
proof -
  have p: "job_ok m i (Forward p)" using assms by (simp add: twins_ok_def)
  show "twins_ok m i J tested found (cnt + 1) (ts @ [(p, q)])" if "is_prime (unat q)"
    using twins_ok_finish[OF assms(1), of "{#}" "[(p, q)]" tested found] p assms(2) that by (auto simp: pair_ok_def twin_pair_def)
  show "twins_ok m i J tested found cnt ts" if "\<not> is_prime (unat q)"
    using twins_ok_finish[OF assms(1), of "{#}" "[]" tested found] p assms(2) that by (auto simp: twin_pair_def)
qed

lemma twins_ok_backward:
  assumes "twins_ok m i (add_mset (Backward p) J) tested found cnt ts" "unat p = unat q + 2"
  shows "is_prime (unat q) \<Longrightarrow> twins_ok m i J tested found (cnt + 1) (ts @ [(q, p)])"
    "twins_ok m i J tested found cnt ts"
proof -
  have p: "job_ok m i (Backward p)" using assms by (simp add: twins_ok_def)
  show "twins_ok m i J tested found (cnt + 1) (ts @ [(q, p)])" if "is_prime (unat q)"
    using twins_ok_finish[OF assms(1), of "{#}" "[(q, p)]" tested found] p assms(2) that by (auto simp: pair_ok_def twin_pair_def)
  show "twins_ok m i J tested found cnt ts"
    using twins_ok_finish[OF assms(1), of "{#}" "[]" tested found] p assms(2) by (auto simp: twin_pair_def)
qed

definition twin_ok :: "digit \<Rightarrow> twin_state \<Rightarrow> bool" where
  "twin_ok mx s \<longleftrightarrow> unat (candidate s) \<le> unat mx + 2 \<and> (halted s \<longrightarrow> emitting s = [] \<and> \<not> candidate s \<le> mx)
     \<and> twins_ok (unat mx) (unat (candidate s)) (jobs s) (numbersTested s) (primesFound s) (twinCount s) (twins s)"

lemma twin_ok_init: "1 \<le> unat mx \<Longrightarrow> twin_ok mx twin_init"
  by (auto simp: twin_ok_def twin_init_def twins_ok_def odd_primes_below_def jobs_def)

lemma add_twin_sel [simp]: "candidate (add_twin t s) = candidate s" "numbersTested (add_twin t s) = numbersTested s"
  "primesFound (add_twin t s) = primesFound s" "twinCount (add_twin t s) = twinCount s + 1" "twins (add_twin t s) = twins s @ [t]"
  "queued (add_twin t s) = queued s" "active (add_twin t s) = active s" "emitting (add_twin t s) = emitting s"
  "halted (add_twin t s) = halted s" "lost (add_twin t s) = lost s"
  by (simp_all add: add_twin_def)

lemma plus_two: "unat x + 2 < 2 ^ 64 \<Longrightarrow> unat ((x :: digit) + 2) = unat x + 2"
  by (simp add: unat_word_ariths)

lemma minus_two: "2 \<le> unat x \<Longrightarrow> unat ((x :: digit) - 2) = unat x - 2"
  by (simp add: unat_sub_if_size)

text \<open>What the body of a job leaves alone.\<close>

definition body_only :: "twin_state \<Rightarrow> twin_state \<Rightarrow> bool" where
  "body_only s s' \<longleftrightarrow> candidate s' = candidate s \<and> emitting s' = emitting s \<and> queued s' = queued s \<and> active s' = active s
     \<and> halted s' = halted s \<and> lost s' = lost s"

text \<open>Every job runs to its end and keeps the invariant.\<close>

lemma run_job_ok:
  assumes mx: "unat mx + 2 < 2 ^ 64" and em: "one_call em"
    and ok: "twins_ok (unat mx) i (add_mset j J) (numbersTested s) (primesFound s) (twinCount s) (twins s)"
  shows "\<exists>js s'. run_job em mx j s = Some (Inr (js, s')) \<and> body_only s s'
    \<and> twins_ok (unat mx) i (mset js + J) (numbersTested s') (primesFound s') (twinCount s') (twins s')"
proof -
  have j: "job_ok (unat mx) i j" using ok by (simp add: twins_ok_def)
  show ?thesis
  proof (cases j)
    case (Candidate n)
    then have "twin_isPrime n = Some (Inr (is_prime (unat n)))" using j by (intro twin_isPrime_rep) simp
    then show ?thesis
      using twins_ok_candidate[OF ok[unfolded Candidate]] Candidate em
      by (auto simp: on_candidate_def Let_def body_only_def one_call_def)
  next
    case (PrimeEvent p)
    have p: "3 \<le> unat p" "unat p \<le> unat mx" using j PrimeEvent by simp_all
    have fw: "p + 2 \<le> mx \<longleftrightarrow> unat p + 2 \<le> unat mx" using plus_two[of p] p mx by (simp add: word_le_nat_alt)
    have bw: "p - 2 \<ge> 3 \<longleftrightarrow> 5 \<le> unat p" using minus_two[of p] p by (auto simp: word_le_nat_alt)
    show ?thesis
      using twins_ok_prime[OF ok[unfolded PrimeEvent]] PrimeEvent
      by (auto simp: on_prime_def body_only_def fw bw add_mset_commute)
  next
    case (Forward p)
    have p: "3 \<le> unat p" "unat p + 2 \<le> unat mx" using j Forward by simp_all
    have u: "unat (p + 2) = unat p + 2" using p(2) mx by (intro plus_two) simp
    then have "twin_isPrime (p + 2) = Some (Inr (is_prime (unat (p + 2))))" by (intro twin_isPrime_rep) simp
    then show ?thesis
      using twins_ok_forward[OF ok[unfolded Forward] u] Forward by (auto simp: check_forward_def body_only_def)
  next
    case (Backward p)
    have p: "5 \<le> unat p" using j Backward by simp
    have u: "unat p = unat (p - 2) + 2" "2 \<le> unat (p - 2)" using minus_two[of p] p by simp_all
    then have "twin_isPrime (p - 2) = Some (Inr (is_prime (unat (p - 2))))" by (intro twin_isPrime_rep)
    then show ?thesis
      using twins_ok_backward[OF ok[unfolded Backward] u(1)] Backward by (auto simp: check_backward_def body_only_def)
  qed
qed

lemma active_job_runs:
  assumes "unat mx + 2 < 2 ^ 64" "one_call em" "twin_ok mx s" "active s = xs @ Run j # ys"
  shows "\<exists>js s'. run_job em mx j s = Some (Inr (js, s')) \<and> body_only s s' \<and> twin_ok mx (s'\<lparr>active := xs @ Pushing js # ys\<rparr>)"
proof -
  let ?J = "jobs (s\<lparr>active := xs @ ys\<rparr>)"
  have J: "jobs s = add_mset j ?J" using assms(4) by (simp add: jobs_def)
  then have "twins_ok (unat mx) (unat (candidate s)) (add_mset j ?J) (numbersTested s) (primesFound s) (twinCount s) (twins s)"
    using assms(3) by (simp add: twin_ok_def)
  then obtain js s' where s': "run_job em mx j s = Some (Inr (js, s'))" "body_only s s'"
    "twins_ok (unat mx) (unat (candidate s)) (mset js + ?J) (numbersTested s') (primesFound s') (twinCount s') (twins s')"
    using run_job_ok[OF assms(1,2)] by blast
  moreover have "jobs (s'\<lparr>active := xs @ Pushing js # ys\<rparr>) = mset js + ?J"
    using s'(2) by (simp add: jobs_def body_only_def ac_simps)
  ultimately show ?thesis using assms(3) by (auto simp: twin_ok_def body_only_def)
qed

lemma twin_ok_same_jobs:
  assumes "twin_ok mx s" "jobs s' = jobs s" "candidate s' = candidate s" "halted s' \<longrightarrow> emitting s' = [] \<and> \<not> candidate s' \<le> mx"
    "numbersTested s' = numbersTested s" "primesFound s' = primesFound s" "twinCount s' = twinCount s" "twins s' = twins s"
  shows "twin_ok mx s'"
  using assms by (simp add: twin_ok_def)

lemma twin_step_ok:
  assumes mx: "unat mx + 2 < 2 ^ 64" and em: "one_call em" and "twin_step em W mx s s'" and ok: "twin_ok mx s"
  shows "twin_ok mx s'"
  using assms(3)
proof cases
  case emit
  have le: "unat (candidate s) \<le> unat mx" using emit(3) by (simp add: word_le_nat_alt)
  then have u: "unat (candidate s + 2) = unat (candidate s) + 2" using mx by (intro plus_two) simp
  have "jobs s' = add_mset (Candidate (candidate s)) (jobs s)" using emit(2) em by (simp add: emit(1) jobs_def one_call_def)
  then show ?thesis using twins_ok_emit[OF _ refl le] ok le u emit(3) by (simp add: emit(1) twin_ok_def)
next
  case (work xs j js s1 ys)
  then show ?thesis using active_job_runs[OF mx em ok work(2)] by simp
qed (use ok in \<open>auto intro!: twin_ok_same_jobs[OF ok] simp: jobs_def enqueue_def ac_simps twin_ok_def\<close>)

lemma twin_reach_ok:
  assumes "unat mx + 2 < 2 ^ 64" "1 \<le> unat mx" "one_call em" "twin_reach em W mx s"
  shows "twin_ok mx s"
  using assms(4)
proof induction
  case (late s j js)
  then show ?case by (intro twin_ok_same_jobs[OF late.IH]) (auto simp: jobs_def twin_ok_def)
qed (use twin_ok_init[OF assms(2)] twin_step_ok[OF assms(1,3)] in blast)+

section \<open>Termination\<close>

text \<open>A job goes from a push to the queue and to a worker; what its body pushes is part of its size.\<close>

fun job_size :: "job \<Rightarrow> nat" where
  "job_size (Candidate n) = 14"
| "job_size (PrimeEvent p) = 10"
| "job_size _ = 2"

definition pushes_left :: "job list \<Rightarrow> nat" where
  "pushes_left js = (\<Sum>j \<leftarrow> js. job_size j + 2)"

fun task_size :: "task \<Rightarrow> nat" where
  "task_size (Run j) = job_size j"
| "task_size (Pushing js) = pushes_left js + 1"

definition work_left :: "digit \<Rightarrow> twin_state \<Rightarrow> nat" where
  "work_left mx s = 17 * (unat mx + 2 - unat (candidate s)) + pushes_left (emitting s) + (\<Sum>j \<leftarrow> queued s. job_size j + 1)
     + (\<Sum>t \<leftarrow> active s. task_size t) + of_bool (\<not> halted s)"

lemma pushes_left_simps [simp]: "pushes_left [] = 0" "pushes_left (j # js) = job_size j + 2 + pushes_left js"
  "pushes_left (js @ ks) = pushes_left js + pushes_left ks"
  by (simp_all add: pushes_left_def)

lemma run_job_size: "run_job em mx j s = Some (Inr (js, s')) \<Longrightarrow> one_call em \<Longrightarrow> task_size (Pushing js) < job_size j \<and> body_only s s'"
  by (cases j) (auto simp: on_candidate_def on_prime_def check_forward_def check_backward_def one_call_def body_only_def
      Let_def obind_def split: if_splits option.splits sum.splits bind_splits)

lemma twin_step_work:
  assumes mx: "unat mx + 2 < 2 ^ 64" and em: "one_call em" and "twin_step em W mx s s'"
  shows "work_left mx s' < work_left mx s"
  using assms(3)
proof cases
  case emit
  have le: "unat (candidate s) \<le> unat mx" using emit(3) by (simp add: word_le_nat_alt)
  then have "unat (candidate s + 2) = unat (candidate s) + 2" using mx by (intro plus_two) simp
  then show ?thesis using le em by (simp add: emit(1,2) work_left_def one_call_def)
next
  case (work xs j js s1 ys)
  then show ?thesis using run_job_size[OF work(3) em] by (simp add: work_left_def body_only_def)
qed (simp_all add: work_left_def enqueue_def)

text \<open>Where the search can come to rest: at its end, or with the queue full and every worker in a push.\<close>

definition finished :: "digit \<Rightarrow> twin_state \<Rightarrow> bool" where
  "finished mx s \<longleftrightarrow> halted s \<and> active s = [] \<and> emitting s = [] \<and> \<not> candidate s \<le> mx"

definition deadlocked :: "nat \<Rightarrow> digit \<Rightarrow> twin_state \<Rightarrow> bool" where
  "deadlocked W mx s \<longleftrightarrow> \<not> halted s \<and> \<not> has_room s \<and> (emitting s \<noteq> [] \<or> \<not> candidate s \<le> mx)
     \<and> W \<le> length (active s) \<and> (\<forall>t \<in> set (active s). \<exists>j js. t = Pushing (j # js))"

lemma worker_moves:
  assumes mx: "unat mx + 2 < 2 ^ 64" and em: "one_call em" and ok: "twin_ok mx s"
    and t: "t \<in> set (active s)" "(\<nexists>j js. t = Pushing (j # js)) \<or> has_room s \<or> halted s"
  shows "\<exists>s'. twin_step em W mx s s'"
proof -
  obtain xs ys where a: "active s = xs @ t # ys" using t(1) by (auto simp: in_set_conv_decomp)
  show ?thesis
  proof (cases t)
    case (Run j)
    then show ?thesis using active_job_runs[OF mx em ok, of xs j ys] a by (blast intro: work)
  next
    case (Pushing js)
    show ?thesis
    proof (cases js)
      case Nil
      then show ?thesis using a Pushing by (blast intro: finish)
    next
      case (Cons j ks)
      then have "has_room s \<or> halted s" using t(2) Pushing by blast
      then show ?thesis using a Pushing Cons by (blast intro: push drop)
    qed
  qed
qed

lemma twin_progress:
  assumes mx: "unat mx + 2 < 2 ^ 64" and em: "one_call em" and W: "1 \<le> W" and ok: "twin_ok mx s"
    and stuck: "\<And>s'. \<not> twin_step em W mx s s'"
  shows "finished mx s \<or> deadlocked W mx s"
proof -
  have tasks: "(\<exists>j js. t = Pushing (j # js)) \<and> \<not> has_room s \<and> \<not> halted s" if "t \<in> set (active s)" for t
    using worker_moves[OF mx em ok that, of W] stuck by blast
  have e: "emitting s \<noteq> [] \<or> \<not> candidate s \<le> mx" using stuck emit by blast
  show ?thesis
  proof (cases "halted s")
    case True
    then have "active s = []" using tasks by (cases "active s") auto
    then show ?thesis using ok True by (simp add: finished_def twin_ok_def)
  next
    case False
    have q: "queued s \<noteq> []" if "active s = []"
    proof
      assume "queued s = []"
      then have "has_room s" by (simp add: has_room_def pool_slots_def)
      then have "emitting s = []" using stuck emit_push by (cases "emitting s") blast+
      then show False using e stuck halt False \<open>queued s = []\<close> by blast
    qed
    have "W \<le> length (active s)"
    proof (rule ccontr)
      assume n: "\<not> W \<le> length (active s)"
      then have "queued s = []" using stuck take[of s _ _ W em mx] False by (cases "queued s") auto
      then have "has_room s" by (simp add: has_room_def pool_slots_def)
      then have "active s = []" using tasks by (cases "active s") auto
      then show False using q \<open>queued s = []\<close> by blast
    qed
    moreover from this have "active s \<noteq> []" using W by auto
    moreover from this have "\<not> has_room s" using tasks by (meson list.set_intros(1) neq_Nil_conv hd_in_set)
    ultimately show ?thesis using False e tasks by (simp add: deadlocked_def)
  qed
qed

section \<open>When no job is left\<close>

text \<open>No job is in the queue, under way or being pushed, and none was lost.\<close>

definition drained :: "digit \<Rightarrow> twin_state \<Rightarrow> bool" where
  "drained mx s \<longleftrightarrow> \<not> candidate s \<le> mx \<and> jobs s = {#}"

lemma drained_results:
  assumes "twin_ok mx s" "drained mx s"
  shows "numbersTested s = of_nat ((unat mx - 1) div 2)" "primesFound s = of_nat (length (filter is_prime [3..<unat mx + 1]))"
    "twin_pair (unat mx) c \<Longrightarrow> 3 \<le> c \<Longrightarrow> 0 < recorded c (twins s)"
proof -
  let ?m = "unat mx" and ?i = "unat (candidate s)"
  have i: "odd ?i" "3 \<le> ?i" "?m < ?i" "?i \<le> ?m + 2"
    using assms by (simp_all add: twin_ok_def twins_ok_def drained_def word_le_nat_alt)
  have J: "jobs s = {#}" using assms(2) by (simp add: drained_def)
  note ok = assms(1)[unfolded twin_ok_def twins_ok_def J]
  have "(?i - 3) div 2 = (?m - 1) div 2" using i by presburger
  then show "numbersTested s = of_nat ((unat mx - 1) div 2)" using ok by simp
  have "odd_primes_below ?i = length (filter is_prime [3..<?m + 1])"
  proof (cases "?i = ?m + 1")
    case False
    then have m: "?i = Suc (?m + 1)" "even (?m + 1)" using i by (auto; presburger)+
    show ?thesis
    proof (cases "3 \<le> ?m + 1")
      case True
      then have "\<not> is_prime (?m + 1)" using prime_odd[of "?m + 1"] m(2) by blast
      moreover have "[3..<Suc (?m + 1)] = [3..<?m + 1] @ [?m + 1]" using True by (rule upt_Suc_append)
      ultimately show ?thesis unfolding odd_primes_below_def m(1) by simp
    next
      case False
      then show ?thesis using i(2) m(1) by (simp add: odd_primes_below_def)
    qed
  qed (simp add: odd_primes_below_def)
  then show "primesFound s = of_nat (length (filter is_prime [3..<unat mx + 1]))" using ok by simp
  show "0 < recorded c (twins s)" if "twin_pair (unat mx) c" "3 \<le> c"
    using ok that i(3) by (auto simp: twin_pair_def)
qed

section \<open>Runs up to five\<close>

lemma five_prime: "is_prime 5"
  unfolding is_prime_iff
proof (intro conjI allI impI)
  fix d :: nat assume d: "2 \<le> d \<and> d dvd 5"
  then have "d \<le> 5" by (auto dest: dvd_imp_le)
  then have "d \<in> {2, 3, 4, 5}" using d by auto
  then show "5 < d * d" using d by auto
qed simp

lemma twin_isPrime_3: "twin_isPrime 3 = Some (Inr True)" and twin_isPrime_5: "twin_isPrime 5 = Some (Inr True)"
  using twin_isPrime_rep[of 3] twin_isPrime_rep[of 5] three_prime five_prime by simp_all

lemma three_above_one: "\<not> (3 :: digit) \<le> 1"
  by (simp add: word_le_nat_alt)

text \<open>The runs have one call for each event; \<open>W\<close> is the number of workers.\<close>

abbreviation call_one :: "job \<Rightarrow> job list" where
  "call_one \<equiv> \<lambda>j. [j]"

lemma one_call_call_one [simp]: "one_call call_one"
  by (simp add: one_call_def)

lemmas run_five = on_candidate_def on_prime_def check_forward_def check_backward_def add_twin_def twin_isPrime_3 twin_isPrime_5 three_above_one

lemma reach_emit:
  assumes "twin_reach call_one W mx s" "emitting s = []" "candidate s \<le> mx" "has_room s"
  shows "twin_reach call_one W mx (enqueue (Candidate (candidate s)) (s\<lparr>candidate := candidate s + 2\<rparr>))"
proof -
  let ?t = "s\<lparr>emitting := [Candidate (candidate s)], candidate := candidate s + 2\<rparr>"
  have "twin_reach call_one W mx ?t" using assms emit by (blast intro: twin_reach.step)
  moreover have "twin_step call_one W mx ?t (enqueue (Candidate (candidate s)) (?t\<lparr>emitting := []\<rparr>))"
    using assms(4) by (intro emit_push[of ?t _ "[]"]) (simp_all add: has_room_def)
  moreover have "?t\<lparr>emitting := []\<rparr> = s\<lparr>candidate := candidate s + 2\<rparr>" using assms(2) by simp
  ultimately show ?thesis by (metis twin_reach.step)
qed

lemma reach_take:
  "twin_reach em W mx s \<Longrightarrow> queued s = j # ys \<Longrightarrow> length (active s) < W
    \<Longrightarrow> twin_reach em W mx (s\<lparr>queued := ys, active := Run j # active s\<rparr>)"
  by (rule twin_reach.late)

text \<open>A job is run to its end, its pushes included, while there is room.\<close>

lemma reach_pushes:
  assumes "twin_reach em W mx s" "active s = Pushing js # ys" "length (queued s) + length js \<le> pool_slots"
  shows "twin_reach em W mx (s\<lparr>queued := queued s @ js, active := ys\<rparr>)"
  using assms
proof (induction js arbitrary: s)
  case Nil
  then show ?case using finish[of s "[]" ys em W mx] by (auto intro: twin_reach.step)
next
  case (Cons j js)
  let ?t = "enqueue j (s\<lparr>active := Pushing js # ys\<rparr>)"
  have "twin_step em W mx s ?t" using Cons.prems push[of s "[]" j js ys em W mx] by (simp add: has_room_def)
  then have "twin_reach em W mx ?t" using Cons.prems(1) by (rule_tac twin_reach.step)
  then have "twin_reach em W mx (?t\<lparr>queued := queued ?t @ js, active := ys\<rparr>)"
    by (rule Cons.IH) (use Cons.prems in \<open>simp_all add: enqueue_def\<close>)
  then show ?case by (simp add: enqueue_def)
qed

lemma reach_job:
  assumes "twin_reach em W mx s" "active s = Run j # ys" "run_job em mx j s = Some (Inr (js, s'))"
    "queued s' = queued s" "length (queued s) + length js \<le> pool_slots"
  shows "twin_reach em W mx (s'\<lparr>queued := queued s @ js, active := ys\<rparr>)"
proof -
  have "twin_reach em W mx (s'\<lparr>active := Pushing js # ys\<rparr>)"
    using assms(1) work[of s "[]" j ys em mx js s' W] assms(2,3) by (auto intro: twin_reach.step)
  from reach_pushes[OF this, of js ys] show ?thesis using assms(4,5) by simp
qed

definition five :: "job list \<Rightarrow> job list \<Rightarrow> bool \<Rightarrow> digit \<Rightarrow> digit \<Rightarrow> (digit \<times> digit) list \<Rightarrow> twin_state" where
  "five q a h t f ts = \<lparr>candidate = 7, emitting = [], queued = q, active = map Run a, halted = h, lost = [], numbersTested = t,
     primesFound = f, twinCount = of_nat (length ts), twins = ts\<rparr>"

lemma five_emitted: "twin_reach call_one 2 5 (five [Candidate 3, Candidate 5] [] False 0 0 [])"
  using reach_emit[OF reach_emit[OF twin_reach.init[of call_one 2 5]]]
  by (simp add: twin_init_def enqueue_def five_def has_room_def pool_slots_def)

lemma five_take: "twin_reach call_one 2 5 (five (j # q) a h t f ts) \<Longrightarrow> length a < 2 \<Longrightarrow> twin_reach call_one 2 5 (five q (j # a) h t f ts)"
  using reach_take[of call_one 2 5 "five (j # q) a h t f ts" j q] by (simp add: five_def)

lemma five_taken: "twin_reach call_one 2 5 (five [] [Candidate 5, Candidate 3] False 0 0 [])"
  using five_take[OF five_take[OF five_emitted]] by simp

lemma five_work:
  assumes "twin_reach call_one 2 5 (five q (j # a) h t f ts)" "length q + length js \<le> 64"
    "run_job call_one 5 j (five q (j # a) h t f ts) = Some (Inr (js, five q (j # a) h t' f' ts'))"
  shows "twin_reach call_one 2 5 (five (q @ js) a h t' f' ts')"
  using reach_job[OF assms(1) _ assms(3)] assms(2) by (simp add: five_def pool_slots_def)

text \<open>The pair of 3 and 5 is recorded twice where the job of 5 runs before that of 3.\<close>

lemma twin_counted_twice:
  "\<exists>s. twin_reach call_one 2 5 s \<and> drained 5 s \<and> twins s = [(3, 5), (3, 5)] \<and> twinCount s = 2"
proof -
  have "twin_reach call_one 2 5 (five ([] @ [PrimeEvent 5]) [Candidate 3] False 1 1 [])"
    by (rule five_work[OF five_taken]) (simp_all add: five_def run_five Let_def)
  then have "twin_reach call_one 2 5 (five [PrimeEvent 5] [Candidate 3] False 1 1 [])" by simp
  then have "twin_reach call_one 2 5 (five ([PrimeEvent 5] @ [PrimeEvent 3]) [] False 2 2 [])"
    by (rule five_work) (simp_all add: five_def run_five Let_def)
  then have "twin_reach call_one 2 5 (five [PrimeEvent 3] [PrimeEvent 5] False 2 2 [])" by (simp add: five_take)
  then have "twin_reach call_one 2 5 (five ([PrimeEvent 3] @ [Backward 5]) [] False 2 2 [])"
    by (rule five_work) (simp_all add: five_def run_five Let_def)
  then have "twin_reach call_one 2 5 (five [Backward 5] [PrimeEvent 3] False 2 2 [])" by (simp add: five_take)
  then have "twin_reach call_one 2 5 (five ([Backward 5] @ [Forward 3]) [] False 2 2 [])"
    by (rule five_work) (simp_all add: five_def run_five Let_def)
  then have "twin_reach call_one 2 5 (five [Forward 3] [Backward 5] False 2 2 [])" by (simp add: five_take)
  then have "twin_reach call_one 2 5 (five ([Forward 3] @ []) [] False 2 2 [(3, 5)])"
    by (rule five_work) (simp_all add: five_def run_five Let_def)
  then have "twin_reach call_one 2 5 (five [] [Forward 3] False 2 2 [(3, 5)])" by (simp add: five_take)
  then have "twin_reach call_one 2 5 (five ([] @ []) [] False 2 2 [(3, 5), (3, 5)])"
    by (rule five_work) (simp_all add: five_def run_five Let_def)
  then show ?thesis by (intro exI conjI, assumption) (simp_all add: five_def drained_def jobs_def)
qed

text \<open>\<open>main\<close> stops the pool when the queue is empty, though workers may still be at jobs: what these push is lost, and the search ends
  without the pair.\<close>

lemma twin_pair_lost: "\<exists>s. twin_reach call_one 2 5 s \<and> finished 5 s \<and> lost s = [PrimeEvent 3, PrimeEvent 5] \<and> twins s = []"
proof -
  let ?s = "\<lambda>a l n. \<lparr>candidate = 7, emitting = [], queued = [], active = a, halted = True, lost = l, numbersTested = n,
     primesFound = n, twinCount = 0, twins = []\<rparr>"
  have run: "twin_step call_one 2 5 (?s (Run (Candidate c) # a) l n) (?s (Pushing [PrimeEvent c] # a) l (n + 1))"
    if "c = 3 \<or> c = 5" for c a l n
    using work[of "?s (Run (Candidate c) # a) l n" "[]" "Candidate c" a call_one 5 "[PrimeEvent c]" "?s (Run (Candidate c) # a) l (n + 1)" 2] that
    by (auto simp: run_five Let_def)
  have lose: "twin_step call_one 2 5 (?s (Pushing [j] # a) l n) (?s (Pushing [] # a) (j # l) n)" for j a l n
    using drop[of "?s (Pushing [j] # a) l n" "[]" j "[]" a call_one 2 5] by simp
  have leave: "twin_step call_one 2 5 (?s (Pushing [] # a) l n) (?s a l n)" for a l n
    using finish[of "?s (Pushing [] # a) l n" "[]" a call_one 2 5] by simp
  have job: "twin_reach call_one 2 5 (?s a (PrimeEvent c # l) (n + 1))"
    if "twin_reach call_one 2 5 (?s (Run (Candidate c) # a) l n)" "c = 3 \<or> c = 5" for c a l n
    by (rule twin_reach.step[OF twin_reach.step[OF twin_reach.step[OF that(1) run[OF that(2)]] lose] leave])
  have "twin_step call_one 2 5 (five [] [Candidate 5, Candidate 3] False 0 0 []) (?s [Run (Candidate 5), Run (Candidate 3)] [] 0)"
    using halt[of "five [] [Candidate 5, Candidate 3] False 0 0 []" 5 call_one 2] by (simp add: five_def)
  then have "twin_reach call_one 2 5 (?s [Run (Candidate 5), Run (Candidate 3)] [] 0)" using five_taken by (rule_tac twin_reach.step)
  from job[OF job[OF this]] have "twin_reach call_one 2 5 (?s [] [PrimeEvent 3, PrimeEvent 5] (0 + 1 + 1))" by simp
  then show ?thesis by (intro exI conjI, assumption) (simp_all add: finished_def)
qed

text \<open>\<open>isPrime(1)\<close> is true.\<close>

lemma twin_isPrime_one: "twin_isPrime 1 = Some (Inr True)" "twin_isPrime 0 = Some (Inr False)"
  using value_checks by (simp_all add: twin_isPrime_def)

section \<open>A deadlock\<close>

text \<open>\<open>main\<close> fills the queue with candidates while the only worker tests the number 3: the worker then waits for room to push
  its event, and \<open>main\<close> for room to push the next candidate.\<close>

definition filling :: "job list \<Rightarrow> nat \<Rightarrow> twin_state" where
  "filling w n = \<lparr>candidate = of_nat (5 + 2 * n), emitting = [], queued = map (\<lambda>k. Candidate (of_nat (5 + 2 * k))) [0..<n],
     active = [Pushing w], halted = False, lost = [], numbersTested = 1, primesFound = 1, twinCount = 0, twins = []\<rparr>"

lemma reach_filling: "n \<le> 64 \<Longrightarrow> twin_reach call_one 1 1000 (filling [PrimeEvent 3] n)"
proof (induction n)
  case 0
  let ?s = "\<lambda>q a. twin_init\<lparr>candidate := 5, queued := q, active := a\<rparr>"
  have "twin_reach call_one 1 1000 (?s [Candidate 3] [])"
    using reach_emit[OF twin_reach.init[of call_one 1 1000]] by (simp add: twin_init_def enqueue_def has_room_def pool_slots_def)
  from reach_take[OF this, of "Candidate 3" "[]"] have t: "twin_reach call_one 1 1000 (?s [] [Run (Candidate 3)])"
    by (simp add: twin_init_def)
  have "twin_step call_one 1 1000 (?s [] [Run (Candidate 3)]) (filling [PrimeEvent 3] 0)"
    using work[of "?s [] [Run (Candidate 3)]" "[]" "Candidate 3" "[]" call_one 1000 "[PrimeEvent 3]"
      "(?s [] [Run (Candidate 3)])\<lparr>numbersTested := 1, primesFound := 1\<rparr>" 1]
    by (simp add: run_five Let_def filling_def twin_init_def)
  then show ?case using t by (rule_tac twin_reach.step)
next
  case (Suc n)
  have "unat (of_nat (5 + 2 * n) :: digit) = 5 + 2 * n" using Suc.prems by (subst unat_of_nat) (simp add: take_bit_eq_mod)
  then have "candidate (filling [PrimeEvent 3] n) \<le> 1000" using Suc.prems by (simp add: filling_def word_le_nat_alt)
  from reach_emit[OF Suc.IH _ this] show ?case
    using Suc.prems by (simp add: filling_def enqueue_def has_room_def pool_slots_def algebra_simps)
qed

lemma twin_search_deadlocks:
  "\<exists>s. twin_reach call_one 1 1000 s \<and> deadlocked 1 1000 s \<and> (\<forall>s'. \<not> twin_step call_one 1 1000 s s')"
proof -
  let ?f = "filling [PrimeEvent 3] 64"
  let ?s = "?f\<lparr>emitting := [Candidate (candidate ?f)], candidate := candidate ?f + 2\<rparr>"
  have "candidate ?f \<le> 1000" by (simp add: filling_def)
  then have "twin_step call_one 1 1000 ?f ?s" by (intro emit) (simp add: filling_def)
  then have r: "twin_reach call_one 1 1000 ?s" using reach_filling[of 64] by (rule_tac twin_reach.step) simp
  have d: "deadlocked 1 1000 ?s" by (simp add: deadlocked_def filling_def has_room_def pool_slots_def)
  have "\<not> twin_step call_one 1 1000 ?s s'" for s'
    by (auto elim!: twin_step.cases simp: filling_def has_room_def pool_slots_def Cons_eq_append_conv)
  then show ?thesis using r d by blast
qed

section \<open>Results\<close>

text \<open>C34: For every number of workers and whatever the order in which they finish the jobs, where \<open>emit\<close> queues one call of the
  listener and the end of the search is from 1 to \<open>2 ^ 64 - 3\<close>: what is recorded are pairs of twin primes up to the end, none more than
  twice, no job fails, and once all candidates are out, no job is left and no push has returned 0, every pair is recorded and the
  counters are right.\<close>

theorem twin_search_results:
  assumes "unat mx + 2 < 2 ^ 64" "1 \<le> unat mx" "one_call em" "twin_reach em W mx s"
  shows "(\<forall>t \<in> set (twins s). pair_ok (unat mx) t) \<and> (\<forall>c. recorded c (twins s) \<le> 2) \<and> twinCount s = of_nat (length (twins s))
   \<and> (\<forall>xs j ys. active s = xs @ Run j # ys \<longrightarrow> (\<exists>js s'. run_job em mx j s = Some (Inr (js, s'))))
   \<and> (drained mx s \<longrightarrow> (\<forall>c. twin_pair (unat mx) c \<and> 3 \<le> c \<longrightarrow> 0 < recorded c (twins s))
        \<and> numbersTested s = of_nat ((unat mx - 1) div 2)
        \<and> primesFound s = of_nat (length (filter is_prime [3..<unat mx + 1])))"
proof -
  have ok: "twin_ok mx s" by (rule twin_reach_ok[OF assms])
  have "\<forall>xs j ys. active s = xs @ Run j # ys \<longrightarrow> (\<exists>js s'. run_job em mx j s = Some (Inr (js, s')))"
    using active_job_runs[OF assms(1,3) ok] by blast
  moreover have "\<forall>t \<in> set (twins s). pair_ok (unat mx) t" using ok by (auto simp: twin_ok_def twins_ok_def pair_ok_def)
  moreover have "recorded c (twins s) \<le> 2" for c
  proof -
    have "recorded c (twins s) + (\<Sum>j \<in># jobs s. chances c j) + of_bool (unat (candidate s) \<le> c) + of_bool (unat (candidate s) \<le> c + 2) \<le> 2"
      using ok unfolding twin_ok_def twins_ok_def by blast
    then show ?thesis by linarith
  qed
  moreover have "twinCount s = of_nat (length (twins s))" using ok by (simp add: twin_ok_def twins_ok_def)
  ultimately show ?thesis using drained_results[OF ok] by blast
qed

lemma twin_search_results_witness:
  "\<exists>s. twin_reach call_one 2 5 s \<and> drained 5 s \<and> 0 < recorded 3 (twins s) \<and> numbersTested s = 2 \<and> primesFound s = 2"
proof -
  obtain s where s: "twin_reach call_one 2 5 s" "drained 5 s" using twin_counted_twice by blast
  have "[3..<6] = [3, 4, 5 :: nat]" by (simp add: upt_rec)
  moreover have "\<not> is_prime 4" using even_prime[of 4] by auto
  ultimately have p: "length (filter is_prime [3..<6]) = 2" using three_prime five_prime by simp
  have "twin_pair 5 3" using three_prime five_prime by (simp add: twin_pair_def)
  then have "0 < recorded 3 (twins s) \<and> numbersTested s = 2 \<and> primesFound s = 2"
    using twin_search_results[OF _ _ one_call_call_one s(1)] s(2) p by simp
  then show ?thesis using s by blast
qed

text \<open>C35: Every step of the search uses up work, so it comes to rest; and where no step is left it is at its end, all candidates emitted, the
  pool stopped and no worker at a job, or in a deadlock: the queue full, every worker waiting in a push and \<open>main\<close> for room or for the
  queue to empty. (\<open>one_call\<close>, at least one worker and an end from 1 to \<open>2 ^ 64 - 3\<close>.)\<close>

theorem twin_search_ends:
  assumes "unat mx + 2 < 2 ^ 64" "1 \<le> unat mx" "one_call em" "1 \<le> W" "twin_reach em W mx s"
  shows "(\<forall>s'. twin_step em W mx s s' \<longrightarrow> work_left mx s' < work_left mx s)
   \<and> ((\<forall>s'. \<not> twin_step em W mx s s') \<longrightarrow> finished mx s \<or> deadlocked W mx s)"
  using twin_step_work[OF assms(1,3)] twin_progress[OF assms(1,3,4) twin_reach_ok[OF assms(1-3,5)]] by blast

lemma twin_search_ends_witness:
  "(\<exists>s'. twin_step call_one 2 5 twin_init s' \<and> work_left 5 s' < work_left 5 twin_init)"
proof -
  have "\<exists>s'. twin_step call_one 2 5 twin_init s'" using emit[of twin_init 5] by (auto simp: twin_init_def)
  then show ?thesis using twin_search_ends[OF _ _ one_call_call_one _ twin_reach.init, of 5 2] by auto
qed

end
