(* ===== verification/Fips180.thy ===== *)
theory Fips180
  imports Complex_Main "HOL-Library.Word"
begin

unbundle bit_operations_syntax

text \<open>
  SHA-256 as FIPS 180-4 defines it, on strings of bits, for comparison with \<open>sha256.h\<close>: nothing here is taken from the code. The
  constants are the bits of the roots of the first primes that the standard says they are (4.2.2, 5.3.3).
\<close>

section \<open>Strings of bits and words\<close>

text \<open>The most significant bit comes first.\<close>

definition word_of_bits :: "bool list \<Rightarrow> 32 word" where
  "word_of_bits bs = horner_sum of_bool 2 (rev bs)"

definition bits_of_word :: "'a::len word \<Rightarrow> bool list" where
  "bits_of_word w = map (bit w) (rev [0..<LENGTH('a)])"

section \<open>Functions and constants\<close>

definition fips_Ch :: "32 word \<Rightarrow> 32 word \<Rightarrow> 32 word \<Rightarrow> 32 word" where
  "fips_Ch x y z = (x AND y) OR (NOT x AND z)"

definition fips_Maj :: "32 word \<Rightarrow> 32 word \<Rightarrow> 32 word \<Rightarrow> 32 word" where
  "fips_Maj x y z = (x AND y) OR (x AND z) OR (y AND z)"

definition fips_Sigma0 :: "32 word \<Rightarrow> 32 word" where
  "fips_Sigma0 x = word_rotr 2 x XOR word_rotr 13 x XOR word_rotr 22 x"

definition fips_Sigma1 :: "32 word \<Rightarrow> 32 word" where
  "fips_Sigma1 x = word_rotr 6 x XOR word_rotr 11 x XOR word_rotr 25 x"

definition fips_sigma0 :: "32 word \<Rightarrow> 32 word" where
  "fips_sigma0 x = word_rotr 7 x XOR word_rotr 18 x XOR drop_bit 3 x"

definition fips_sigma1 :: "32 word \<Rightarrow> 32 word" where
  "fips_sigma1 x = word_rotr 17 x XOR word_rotr 19 x XOR drop_bit 10 x"

text \<open>The first 64 primes, and the first 32 bits of the fractional part of a root.\<close>

definition fips_primes :: "nat list" where
  "fips_primes = filter (\<lambda>p. \<forall>d. d dvd p \<longrightarrow> d = 1 \<or> d = p) [2..<312]"

definition root_bits :: "nat \<Rightarrow> nat \<Rightarrow> 32 word" where
  "root_bits k p = of_int \<lfloor>root k (real p) * 2 ^ 32\<rfloor>"

definition fips_K :: "nat \<Rightarrow> 32 word" where
  "fips_K t = root_bits 3 (fips_primes ! t)"

lemma root_bitsI:
  assumes "0 < k" "(a * 2 ^ 32 + c) ^ k \<le> int p * 2 ^ (32 * k)" "int p * 2 ^ (32 * k) < (a * 2 ^ 32 + c + 1) ^ k" "0 \<le> a * 2 ^ 32 + c"
  shows "root_bits k p = of_int c"
proof -
  define r where "r = a * 2 ^ 32 + c"
  have x: "root k (real p) * 2 ^ 32 = root k (real p * 2 ^ (32 * k))"
    using assms(1) by (simp add: real_root_mult power_mult real_root_power)
  have "of_int (r ^ k) \<le> (of_int (int p * 2 ^ (32 * k)) :: real)" "(of_int (int p * 2 ^ (32 * k)) :: real) < of_int ((r + 1) ^ k)"
    using assms(2,3) unfolding r_def by (simp_all only: of_int_le_iff of_int_less_iff)
  then have l: "real_of_int r ^ k \<le> real p * 2 ^ (32 * k)" "real p * 2 ^ (32 * k) < (real_of_int r + 1) ^ k" by simp_all
  have r0: "0 \<le> real_of_int r" using assms(4) by (simp add: r_def)
  have "real_of_int r \<le> root k (real p * 2 ^ (32 * k))"
    using real_root_le_mono[OF assms(1) l(1)] assms(1) r0 by (simp add: real_root_power_cancel)
  moreover have "root k (real p * 2 ^ (32 * k)) < real_of_int r + 1"
    using real_root_less_mono[OF assms(1) l(2)] assms(1) r0 by (simp add: real_root_power_cancel)
  ultimately have "\<lfloor>root k (real p) * 2 ^ 32\<rfloor> = r" unfolding x by (intro floor_unique) simp_all
  moreover have "(of_int (a * 2 ^ 32 + c) :: 32 word) = of_int c"
    unfolding word_of_int_eq_iff take_bit_eq_mod by simp
  ultimately show ?thesis unfolding root_bits_def r_def by simp
qed

definition small_primes :: "int list" where
  "small_primes = [2, 3, 5, 7, 11, 13, 17, 19, 23, 29, 31, 37, 41, 43, 47, 53, 59, 61, 67, 71, 73, 79, 83, 89, 97, 101, 103, 107, 109, 113,
     127, 131, 137, 139, 149, 151, 157, 163, 167, 173, 179, 181, 191, 193, 197, 199, 211, 223, 227, 229, 233, 239, 241, 251, 257, 263,
     269, 271, 277, 281, 283, 293, 307, 311]"

lemma small_prime:
  assumes "2 \<le> p" "p < 312"
  shows "(\<forall>d. d dvd p \<longrightarrow> d = 1 \<or> d = p) \<longleftrightarrow> list_all (\<lambda>d. int p mod d \<noteq> 0 \<or> int p \<le> d) [2..17]"
proof
  assume p: "\<forall>d. d dvd p \<longrightarrow> d = 1 \<or> d = p"
  have n: "int p mod d \<noteq> 0 \<or> int p \<le> d" if "d \<in> {2..17}" for d
  proof -
    consider "int p mod d \<noteq> 0" | "d dvd int p" by auto
    then show ?thesis
    proof cases
      case 2
      have i: "int (nat d) = d" using that by auto
      have "int (nat d) dvd int p" unfolding i by (rule 2)
      then have "nat d dvd p" unfolding int_dvd_int_iff .
      then have "nat d = 1 \<or> nat d = p" using p by simp
      then show ?thesis using that by auto
    qed simp
  qed
  show "list_all (\<lambda>d. int p mod d \<noteq> 0 \<or> int p \<le> d) [2..17]" unfolding list_all_iff set_upto by (rule ballI, rule n)
next
  assume l: "list_all (\<lambda>d. int p mod d \<noteq> 0 \<or> int p \<le> d) [2..17]"
  have none: "\<not> d dvd p" if "2 \<le> d" "d \<le> 17" "d < p" for d
  proof -
    have "int d \<in> set [2..17]" unfolding set_upto using that by simp
    then have "int p mod int d \<noteq> 0 \<or> int p \<le> int d" using l unfolding list_all_iff by (rule bspec[rotated])
    then show ?thesis using that by (auto simp: mod_eq_0_iff_dvd)
  qed
  show "\<forall>d. d dvd p \<longrightarrow> d = 1 \<or> d = p"
  proof (intro allI impI, rule ccontr)
    fix d assume d: "d dvd p" "\<not> (d = 1 \<or> d = p)"
    then obtain e where e: "p = d * e" by blast
    have "d \<noteq> 0" "e \<noteq> 0" using e assms(1) by (auto intro: ccontr)
    moreover have "e \<noteq> 1" using e d by auto
    ultimately have de: "2 \<le> d" "2 \<le> e" "d < p" "e < p" using d e by auto
    have "d dvd p" "e dvd p" using e by simp_all
    then have "\<not> d \<le> 17" "\<not> e \<le> 17" using none de by blast+
    then have "18 \<le> d" "18 \<le> e" by simp_all
    then have "18 * 18 \<le> d * e" by (intro mult_le_mono)
    then show False using e assms(2) by simp
  qed
qed

lemma small_primes_filter: "filter (\<lambda>p. list_all (\<lambda>d. p mod d \<noteq> 0 \<or> p \<le> d) [2..17]) [2..311] = small_primes"
  by code_simp

lemma map_int_upt: "map int [m..<n] = [int m..int n - 1]"
  by (rule nth_equalityI) auto

lemma fips_primes: "map int fips_primes = small_primes" "length fips_primes = 64"
proof -
  have "fips_primes = filter (\<lambda>p. list_all (\<lambda>d. int p mod d \<noteq> 0 \<or> int p \<le> d) [2..17]) [2..<312]"
    unfolding fips_primes_def by (rule filter_cong[OF refl], rule small_prime) (simp_all only: set_upt atLeastLessThan_iff)
  then have "map int fips_primes = filter (\<lambda>p. list_all (\<lambda>d. p mod d \<noteq> 0 \<or> p \<le> d) [2..17]) (map int [2..<312])"
    by (simp only: filter_map comp_def)
  moreover have "int 2 = 2" "int 312 - 1 = 311" by simp_all
  then have "map int [2..<312] = [2..311]" by (simp only: map_int_upt)
  ultimately show "map int fips_primes = small_primes" using small_primes_filter by (simp only:)
  then have "length fips_primes = length small_primes" by (metis length_map)
  then show "length fips_primes = 64" by (simp add: small_primes_def)
qed

text \<open>A table of root bits is right where every entry passes this test.\<close>

definition root_test :: "nat \<Rightarrow> int \<Rightarrow> int \<Rightarrow> bool" where
  "root_test k p c \<longleftrightarrow> list_ex (\<lambda>a. (a * 2 ^ 32 + c) ^ k \<le> p * 2 ^ (32 * k) \<and> p * 2 ^ (32 * k) < (a * 2 ^ 32 + c + 1) ^ k) [1..6]"

lemma root_test:
  assumes "root_test k (int p) c" "0 < k" "0 \<le> c"
  shows "root_bits k p = of_int c"
proof -
  obtain a where "(a * 2 ^ 32 + c) ^ k \<le> int p * 2 ^ (32 * k)" "int p * 2 ^ (32 * k) < (a * 2 ^ 32 + c + 1) ^ k" "1 \<le> a"
    using assms(1) unfolding root_test_def list_ex_iff set_upto by auto
  then show ?thesis using root_bitsI[OF assms(2)] assms(3) by simp
qed

section \<open>The computation\<close>

text \<open>Padding (5.1.1): a bit 1, the least number of bits 0 that leaves 64 bits to a multiple of 512, the length in 64 bits.\<close>

definition fips_zeros :: "nat \<Rightarrow> nat" where
  "fips_zeros l = (LEAST k. (l + 1 + k) mod 512 = 448)"

definition fips_padded :: "bool list \<Rightarrow> bool list" where
  "fips_padded bs = bs @ [True] @ replicate (fips_zeros (length bs)) False @ bits_of_word (of_nat (length bs) :: 64 word)"

text \<open>Word \<open>j\<close> of block \<open>i\<close> (5.2.1), the message schedule, the working variables after \<open>t\<close> rounds and the intermediate hash values
  (6.2.2).\<close>

definition fips_M :: "bool list \<Rightarrow> nat \<Rightarrow> nat \<Rightarrow> 32 word" where
  "fips_M bs i j = word_of_bits (take 32 (drop (512 * i + 32 * j) bs))"

fun fips_W :: "(nat \<Rightarrow> 32 word) \<Rightarrow> nat \<Rightarrow> 32 word" where
  "fips_W M t = (if t < 16 then M t
     else fips_sigma1 (fips_W M (t - 2)) + fips_W M (t - 7) + fips_sigma0 (fips_W M (t - 15)) + fips_W M (t - 16))"

declare fips_W.simps [simp del]

type_synonym variables = "32 word \<times> 32 word \<times> 32 word \<times> 32 word \<times> 32 word \<times> 32 word \<times> 32 word \<times> 32 word"

fun fips_round :: "32 word \<Rightarrow> 32 word \<Rightarrow> variables \<Rightarrow> variables" where
  "fips_round K W (a, b, c, d, e, f, g, h) =
     (let T1 = h + fips_Sigma1 e + fips_Ch e f g + K + W; T2 = fips_Sigma0 a + fips_Maj a b c
      in (T1 + T2, a, b, c, d + T1, e, f, g))"

primrec fips_rounds :: "(nat \<Rightarrow> 32 word) \<Rightarrow> nat \<Rightarrow> variables \<Rightarrow> variables" where
  "fips_rounds M 0 v = v"
| "fips_rounds M (Suc t) v = fips_round (fips_K t) (fips_W M t) (fips_rounds M t v)"

fun fips_add :: "variables \<Rightarrow> variables \<Rightarrow> variables" where
  "fips_add (a, b, c, d, e, f, g, h) (a', b', c', d', e', f', g', h') =
     (a + a', b + b', c + c', d + d', e + e', f + f', g + g', h + h')"

primrec fips_H :: "bool list \<Rightarrow> nat \<Rightarrow> variables" where
  "fips_H bs 0 = (root_bits 2 2, root_bits 2 3, root_bits 2 5, root_bits 2 7, root_bits 2 11, root_bits 2 13, root_bits 2 17, root_bits 2 19)"
| "fips_H bs (Suc i) = fips_add (fips_H bs i) (fips_rounds (fips_M bs i) 64 (fips_H bs i))"

definition fips_sha256 :: "bool list \<Rightarrow> bool list" where
  "fips_sha256 bs = (case fips_H (fips_padded bs) (length (fips_padded bs) div 512) of (a, b, c, d, e, f, g, h) \<Rightarrow>
     concat (map bits_of_word [a, b, c, d, e, f, g, h]))"

text \<open>The lower-case hexadecimal text of a string of bits.\<close>

fun fips_hex :: "bool list \<Rightarrow> string" where
  "fips_hex (p # q # r # s # bs) = (''0123456789abcdef'' ! (of_bool p * 8 + of_bool q * 4 + of_bool r * 2 + of_bool s)) # fips_hex bs"
| "fips_hex _ = []"

end
