(* ===== verification/Sha256.thy ===== *)
theory Sha256
  imports BigDigits Fips180
begin

text \<open>
  \<open>cpp/lib/sha256.h\<close>: the SHA-256 hash as a context that is fed with messages. Bytes are \<open>8 word\<close>s, the
  \<open>unsigned int\<close> members \<open>32 word\<close>s that wrap; a copy or a block outside of its array is \<open>Undefined\<close>. A message
  is a pointer with a length in the code and a list of bytes here. \<open>Fips180\<close> holds the standard, to which the last sections compare
  the code function by function, constants included.
\<close>

section \<open>Word functions\<close>

type_synonym byte = "8 word"
type_synonym uint32 = "32 word"

definition SHFR :: "uint32 \<Rightarrow> nat \<Rightarrow> uint32" where
  "SHFR x n = drop_bit n x"

definition ROTR :: "uint32 \<Rightarrow> nat \<Rightarrow> uint32" where
  "ROTR x n = drop_bit n x OR push_bit (32 - n) x"

definition ROTL :: "uint32 \<Rightarrow> nat \<Rightarrow> uint32" where
  "ROTL x n = push_bit n x OR drop_bit (32 - n) x"

definition CH :: "uint32 \<Rightarrow> uint32 \<Rightarrow> uint32 \<Rightarrow> uint32" where
  "CH x y z = (x AND y) XOR (NOT x AND z)"

definition MAJ :: "uint32 \<Rightarrow> uint32 \<Rightarrow> uint32 \<Rightarrow> uint32" where
  "MAJ x y z = (x AND y) XOR (x AND z) XOR (y AND z)"

definition SHA256_F1 :: "uint32 \<Rightarrow> uint32" where
  "SHA256_F1 x = ROTR x 2 XOR ROTR x 13 XOR ROTR x 22"

definition SHA256_F2 :: "uint32 \<Rightarrow> uint32" where
  "SHA256_F2 x = ROTR x 6 XOR ROTR x 11 XOR ROTR x 25"

definition SHA256_F3 :: "uint32 \<Rightarrow> uint32" where
  "SHA256_F3 x = ROTR x 7 XOR ROTR x 18 XOR SHFR x 3"

definition SHA256_F4 :: "uint32 \<Rightarrow> uint32" where
  "SHA256_F4 x = ROTR x 17 XOR ROTR x 19 XOR SHFR x 10"

text \<open>\<open>UNPACK32\<close> gives the four bytes it stores, \<open>PACK32\<close> takes the four bytes it reads.\<close>

definition UNPACK32 :: "uint32 \<Rightarrow> byte list" where
  "UNPACK32 x = [ucast (drop_bit 24 x), ucast (drop_bit 16 x), ucast (drop_bit 8 x), ucast x]"

definition PACK32 :: "byte list \<Rightarrow> uint32" where
  "PACK32 s = ucast (s ! 3) OR push_bit 8 (ucast (s ! 2)) OR push_bit 16 (ucast (s ! 1)) OR push_bit 24 (ucast (s ! 0))"

text \<open>The table of the source, row by row, with its hexadecimal entries written in decimal.\<close>

definition sha256_k :: "uint32 list" where
  "sha256_k = [
     1116352408, 1899447441, 3049323471, 3921009573, 961987163, 1508970993,
     2453635748, 2870763221, 3624381080, 310598401, 607225278, 1426881987,
     1925078388, 2162078206, 2614888103, 3248222580, 3835390401, 4022224774,
     264347078, 604807628, 770255983, 1249150122, 1555081692, 1996064986,
     2554220882, 2821834349, 2952996808, 3210313671, 3336571891, 3584528711,
     113926993, 338241895, 666307205, 773529912, 1294757372, 1396182291,
     1695183700, 1986661051, 2177026350, 2456956037, 2730485921, 2820302411,
     3259730800, 3345764771, 3516065817, 3600352804, 4094571909, 275423344,
     430227734, 506948616, 659060556, 883997877, 958139571, 1322822218,
     1537002063, 1747873779, 1955562222, 2024104815, 2227730452, 2361852424,
     2428436474, 2756734187, 3204031479, 3329325298]"

section \<open>The compression of one block\<close>

text \<open>The array \<open>w\<close> is filled from the front; \<open>expand\<close> appends the next \<open>k\<close> entries.\<close>

definition load_block :: "byte list \<Rightarrow> uint32 list" where
  "load_block b = map (\<lambda>j. PACK32 (take 4 (drop (4 * j) b))) [0..<16]"

primrec expand :: "nat \<Rightarrow> uint32 list \<Rightarrow> uint32 list" where
  "expand 0 w = w"
| "expand (Suc k) w = (let j = length w in
     expand k (w @ [SHA256_F4 (w ! (j - 2)) + w ! (j - 7) + SHA256_F3 (w ! (j - 15)) + w ! (j - 16)]))"

definition sha_round :: "uint32 \<times> uint32 \<Rightarrow> uint32 list \<Rightarrow> uint32 list" where
  "sha_round = (\<lambda>(k, w) wv.
     let t1 = wv ! 7 + SHA256_F2 (wv ! 4) + CH (wv ! 4) (wv ! 5) (wv ! 6) + k + w;
         t2 = SHA256_F1 (wv ! 0) + MAJ (wv ! 0) (wv ! 1) (wv ! 2)
     in [t1 + t2, wv ! 0, wv ! 1, wv ! 2, wv ! 3 + t1, wv ! 4, wv ! 5, wv ! 6])"

definition compress :: "byte list \<Rightarrow> uint32 list \<Rightarrow> uint32 list" where
  "compress b h = map2 (+) h (fold sha_round (zip sha256_k (expand 48 (load_block b))) h)"

definition transform :: "byte list \<Rightarrow> nat \<Rightarrow> uint32 list \<Rightarrow> error + uint32 list" where
  "transform message block_nb h = (if length message < 64 * block_nb then Inl Undefined
     else Inr (fold (\<lambda>i. compress (take 64 (drop (64 * i) message))) [0..<block_nb] h))"

section \<open>The context\<close>

record sha256_ctx =
  m_tot_len :: uint32
  m_len :: uint32
  m_block :: "byte list"
  m_h :: "uint32 list"

text \<open>\<open>SHA256()\<close> sets every member to 0.\<close>

definition sha256_zero :: sha256_ctx where
  "sha256_zero = \<lparr>m_tot_len = 0, m_len = 0, m_block = replicate 128 0, m_h = replicate 8 0\<rparr>"

definition sha256_init :: "sha256_ctx \<Rightarrow> sha256_ctx" where
  "sha256_init c = c\<lparr>
     m_h := [0x6a09e667, 0xbb67ae85, 0x3c6ef372, 0xa54ff53a, 0x510e527f, 0x9b05688c, 0x1f83d9ab, 0x5be0cd19],
     m_len := 0, m_tot_len := 0\<rparr>"

text \<open>\<open>memcpy(dst + off, src, n)\<close>.\<close>

definition memcpy :: "byte list \<Rightarrow> nat \<Rightarrow> byte list \<Rightarrow> nat \<Rightarrow> error + byte list" where
  "memcpy dst off src n = (if length dst < off + n \<or> length src < n then Inl Undefined
     else Inr (take off dst @ take n src @ drop (off + n) dst))"

definition sha256_update :: "byte list \<Rightarrow> uint32 \<Rightarrow> sha256_ctx \<Rightarrow> error + sha256_ctx" where
  "sha256_update message len c = (
     let tmp_len = 64 - m_len c;
         rem_len = (if len < tmp_len then len else tmp_len)
     in rbind (memcpy (m_block c) (unat (m_len c)) message (unat rem_len)) (\<lambda>block.
       if m_len c + len < 64 then Inr (c\<lparr>m_block := block, m_len := m_len c + len\<rparr>)
       else let new_len = len - rem_len;
                block_nb = new_len div 64;
                shifted_message = drop (unat rem_len) message
            in rbind (transform block 1 (m_h c)) (\<lambda>h.
               rbind (transform shifted_message (unat block_nb) h) (\<lambda>h.
               let rem_len = new_len mod 64
               in rbind (memcpy block 0 (drop (64 * unat block_nb) shifted_message) (unat rem_len)) (\<lambda>block.
                  Inr \<lparr>m_tot_len = m_tot_len c + push_bit 6 (block_nb + 1), m_len = rem_len, m_block = block, m_h = h\<rparr>)))))"

text \<open>\<open>final\<close> also returns the digest that it writes.\<close>

definition sha256_final :: "sha256_ctx \<Rightarrow> error + byte list \<times> sha256_ctx" where
  "sha256_final c = (
     let block_nb = (1 :: uint32) + (if 64 - 9 < m_len c mod 64 then 1 else 0);
         len_b = push_bit 3 (m_tot_len c + m_len c);
         pm_len = push_bit 6 block_nb
     in rbind (memcpy (m_block c) (unat (m_len c)) (replicate (unat (pm_len - m_len c)) 0) (unat (pm_len - m_len c))) (\<lambda>block.
        rbind (memcpy block (unat (m_len c)) [0x80] 1) (\<lambda>block.
        rbind (memcpy block (unat pm_len - 4) (UNPACK32 len_b) 4) (\<lambda>block.
        rbind (transform block (unat block_nb) (m_h c)) (\<lambda>h.
          Inr (concat (map UNPACK32 h), c\<lparr>m_block := block, m_h := h\<rparr>))))))"

definition hex_byte :: "byte \<Rightarrow> string" where
  "hex_byte b = [''0123456789abcdef'' ! unat (drop_bit 4 b), ''0123456789abcdef'' ! unat (b AND 15)]"

text \<open>\<open>input.length()\<close> is converted to \<open>unsigned int\<close>.\<close>

definition sha256 :: "string \<Rightarrow> error + string" where
  "sha256 input = rbind (sha256_update (map of_char input) (of_nat (length input)) (sha256_init sha256_zero)) (\<lambda>c.
     rbind (sha256_final c) (\<lambda>(digest, c). Inr (concat (map hex_byte digest))))"

section \<open>The hash of a list of blocks\<close>

definition hash_blocks :: "byte list \<Rightarrow> uint32 list \<Rightarrow> uint32 list" where
  "hash_blocks msg h = fold (\<lambda>i. compress (take 64 (drop (64 * i) msg))) [0..<length msg div 64] h"

text \<open>The initial hash value, the padding with the 32-bit length of this code, and the one of the standard
  (FIPS 180-4, section 5.1.1), which has a 64-bit length.\<close>

definition sha_h0 :: "uint32 list" where
  "sha_h0 = m_h (sha256_init sha256_zero)"

definition pad_zeros :: "nat \<Rightarrow> nat" where
  "pad_zeros n = (119 - n mod 64) mod 64"

definition pad32 :: "byte list \<Rightarrow> byte list" where
  "pad32 msg = msg @ [0x80] @ replicate (pad_zeros (length msg) + 4) 0 @ UNPACK32 (of_nat (8 * length msg))"

definition be64 :: "nat \<Rightarrow> byte list" where
  "be64 n = map (\<lambda>i. of_nat (n div 256 ^ (7 - i))) [0..<8]"

definition pad64 :: "byte list \<Rightarrow> byte list" where
  "pad64 msg = msg @ [0x80] @ replicate (pad_zeros (length msg)) 0 @ be64 (8 * length msg)"

lemma hash_blocks_append:
  assumes "length a = 64 * k"
  shows "hash_blocks (a @ b) h = hash_blocks b (hash_blocks a h)"
proof -
  define f where "f m = (\<lambda>i. compress (take 64 (drop (64 * i) m)))" for m
  have n: "length (a @ b) div 64 = k + length b div 64" using assms by simp
  have "[0..<k + length b div 64] = [0..<k] @ map (\<lambda>i. i + k) [0..<length b div 64]"
    using upt_add_eq_append[of 0 k "length b div 64"] map_add_upt[of k "length b div 64"] by (simp only: add.commute[of _ k])
  moreover have "fold (f (a @ b)) [0..<k] h = fold (f a) [0..<k] h" for h
    using assms by (intro fold_cong) (auto simp: f_def)
  moreover have "f (a @ b) (i + k) = f b i" for i using assms by (simp add: f_def)
  then have "fold (f (a @ b)) (map (\<lambda>i. i + k) [0..<length b div 64]) h = fold (f b) [0..<length b div 64] h" for h
    by (simp add: fold_map comp_def)
  moreover have hb: "hash_blocks m h = fold (f m) [0..<length m div 64] h" for m h by (simp add: hash_blocks_def f_def)
  moreover have "length a div 64 = k" using assms by simp
  ultimately show ?thesis by (simp only: hb n fold_append comp_def)
qed

lemma hash_blocks_short: "length b < 64 \<Longrightarrow> hash_blocks b h = h"
  by (simp add: hash_blocks_def)

lemma hash_blocks_one: "length b = 64 \<Longrightarrow> hash_blocks b h = compress b h"
  by (simp add: hash_blocks_def)

lemma transform_blocks: "64 * n \<le> length m \<Longrightarrow> transform m n h = Inr (hash_blocks (take (64 * n) m) h)"
proof -
  assume m: "64 * n \<le> length m"
  have "fold (\<lambda>i. compress (take 64 (drop (64 * i) m))) [0..<n] h
    = fold (\<lambda>i. compress (take 64 (drop (64 * i) (take (64 * n) m)))) [0..<n] h"
    by (intro fold_cong) (auto simp: drop_take min_def)
  then show ?thesis using m by (simp add: transform_def hash_blocks_def not_less min_absorb2)
qed

lemma memcpy_ok: "off + n \<le> length dst \<Longrightarrow> n \<le> length src \<Longrightarrow>
    memcpy dst off src n = Inr (take off dst @ take n src @ drop (off + n) dst)"
  by (simp add: memcpy_def not_less)

section \<open>What a context stands for\<close>

definition full_len :: "byte list \<Rightarrow> nat" where
  "full_len msg = 64 * (length msg div 64)"

definition sha_rep :: "sha256_ctx \<Rightarrow> byte list \<Rightarrow> bool" where
  "sha_rep c msg \<longleftrightarrow> length (m_block c) = 128 \<and> m_h c = hash_blocks (take (full_len msg) msg) sha_h0
     \<and> m_len c = of_nat (length msg mod 64) \<and> take (length msg mod 64) (m_block c) = drop (full_len msg) msg
     \<and> m_tot_len c = of_nat (full_len msg)"

lemma sha_rep_init: "sha_rep (sha256_init sha256_zero) []"
  by (simp add: sha_rep_def sha256_init_def sha256_zero_def sha_h0_def full_len_def hash_blocks_def)

lemma unat32: "n < 2 ^ 32 \<Longrightarrow> unat (of_nat n :: uint32) = n"
  by (simp add: unat_of_nat take_bit_eq_mod)

lemma len_split: "length msg = full_len msg + length msg mod 64" "full_len msg \<le> length msg"
  by (simp_all add: full_len_def)

lemma div32: "n < 2 ^ 32 \<Longrightarrow> (of_nat n :: uint32) div 64 = of_nat (n div 64)"
  and mod32: "n < 2 ^ 32 \<Longrightarrow> (of_nat n :: uint32) mod 64 = of_nat (n mod 64)"
  using unat_div[of "of_nat n :: uint32" 64] unat_mod[of "of_nat n :: uint32" 64]
  by (auto simp: unat32 intro!: word_unat_eq_iff[THEN iffD2])

lemma update_short:
  assumes r: "sha_rep c msg" and n: "length msg mod 64 + length b < 64"
  shows "\<exists>c'. sha256_update b (of_nat (length b)) c = Inr c' \<and> sha_rep c' (msg @ b)"
proof -
  define k where "k = length msg mod 64"
  have k: "k < 64" "k + length b < 64" using n by (simp_all add: k_def)
  have ml: "m_len c = of_nat k" "length (m_block c) = 128" using r by (simp_all add: sha_rep_def k_def)
  have tmp: "64 - m_len c = of_nat (64 - k)" using k by (simp add: ml of_nat_diff)
  have u: "unat (m_len c) = k" "unat (of_nat (64 - k) :: uint32) = 64 - k" "unat (of_nat (length b) :: uint32) = length b"
    using k by (simp_all add: ml unat32 del: of_nat_diff)
  have rem: "(if (of_nat (length b) :: uint32) < of_nat (64 - k) then of_nat (length b) else of_nat (64 - k)) = (of_nat (length b) :: uint32)"
    using k by (auto simp: word_less_nat_alt u simp del: of_nat_diff)
  have lt: "m_len c + of_nat (length b) < 64"
    using k by (simp add: ml word_less_nat_alt unat32 flip: of_nat_add)
  have cp: "memcpy (m_block c) k b (length b) = Inr (take k (m_block c) @ b @ drop (k + length b) (m_block c))"
    using k ml(2) by (subst memcpy_ok) auto
  have d: "(length msg + length b) div 64 = length msg div 64" "(length msg + length b) mod 64 = k + length b"
    using k mod_add_left_eq[of "length msg" 64 "length b"] by (simp_all add: div_add1_eq k_def)
  show ?thesis
    unfolding sha256_update_def Let_def tmp rem u cp rbind.simps if_P[OF lt]
    using r k d by (intro exI conjI refl) (auto simp: sha_rep_def full_len_def k_def min_def minus_mult_div_eq_mod)
qed


lemma update_long:
  assumes r: "sha_rep c msg" and n: "64 \<le> length msg mod 64 + length b" "length b + 64 \<le> 2 ^ 32"
  shows "\<exists>c'. sha256_update b (of_nat (length b)) c = Inr c' \<and> sha_rep c' (msg @ b)"
proof -
  define k where "k = length msg mod 64"
  define s where "s = drop (64 - k) b"
  define q where "q = length s div 64"
  define p where "p = drop (full_len msg) msg @ take (64 - k) b"
  have k: "k < 64" "64 - k \<le> length b" using n by (simp_all add: k_def)
  have ml: "m_len c = of_nat k" "length (m_block c) = 128" "take k (m_block c) = drop (full_len msg) msg"
    using r by (simp_all add: sha_rep_def k_def)
  have len_s: "length s = length b - (64 - k)" "64 * q \<le> length s" "length s < 2 ^ 32" using n by (simp_all add: s_def q_def)
  have len_p: "length p = 64" using k by (simp add: p_def full_len_def k_def minus_mult_div_eq_mod)
  have tmp: "64 - m_len c = of_nat (64 - k)" using k by (simp add: ml of_nat_diff)
  have u: "unat (m_len c) = k" "unat (of_nat (64 - k) :: uint32) = 64 - k" "unat (of_nat (length b) :: uint32) = length b"
    using k n by (simp_all add: ml unat32 del: of_nat_diff)
  have rem: "(if (of_nat (length b) :: uint32) < of_nat (64 - k) then of_nat (length b) else of_nat (64 - k)) = (of_nat (64 - k) :: uint32)"
    using k by (auto simp: word_less_nat_alt u simp del: of_nat_diff)
  have "k + length b < 2 ^ 32" using k n(2) by linarith
  then have nlt: "\<not> m_len c + of_nat (length b) < 64"
    using n(1) by (simp add: ml word_less_nat_alt unat32 k_def flip: of_nat_add)
  have new: "(of_nat (length b) :: uint32) - of_nat (64 - k) = of_nat (length s)"
    using k by (simp add: len_s(1) of_nat_diff)
  have qb: "(of_nat (length s) :: uint32) div 64 = of_nat q" "(of_nat (length s) :: uint32) mod 64 = of_nat (length s mod 64)"
    using div32[OF len_s(3)] mod32[OF len_s(3)] by (simp_all add: q_def)
  have uq: "unat (of_nat q :: uint32) = q" "unat (of_nat (length s mod 64) :: uint32) = length s mod 64"
    using len_s by (simp_all add: unat32)
  have cp: "memcpy (m_block c) k b (64 - k) = Inr (p @ drop 64 (m_block c))"
    using k ml(2,3) by (subst memcpy_ok) (auto simp: p_def)
  have t1: "transform (p @ drop 64 (m_block c)) 1 h = Inr (hash_blocks p h)" for h
    using len_p ml(2) by (subst transform_blocks) simp_all
  have t2: "transform s q h = Inr (hash_blocks (take (64 * q) s) h)" for h
    using len_s(2) by (intro transform_blocks)
  have rest: "length s - 64 * q = length s mod 64" by (simp add: q_def minus_mult_div_eq_mod)
  have cp2: "memcpy (p @ drop 64 (m_block c)) 0 (drop (64 * q) s) (length s mod 64)
    = Inr (drop (64 * q) s @ drop (length s mod 64) (p @ drop 64 (m_block c)))"
    using len_p ml(2) rest by (subst memcpy_ok) auto
  define c' where "c' = \<lparr>m_tot_len = m_tot_len c + push_bit 6 (of_nat q + 1), m_len = of_nat (length s mod 64),
    m_block = drop (64 * q) s @ drop (length s mod 64) (p @ drop 64 (m_block c)),
    m_h = hash_blocks (take (64 * q) s) (hash_blocks p (m_h c))\<rparr>"
  have "sha256_update b (of_nat (length b)) c = Inr c'"
    unfolding sha256_update_def Let_def tmp rem u cp rbind.simps if_not_P[OF nlt] new qb uq s_def[symmetric] t1 t2 cp2 c'_def
    by (rule refl)
  moreover have "sha_rep c' (msg @ b)"
  proof -
    let ?F = "take (full_len msg) msg"
    have msg: "msg @ b = ?F @ p @ s" by (simp add: p_def s_def)
    have len: "length (msg @ b) = 64 * (length msg div 64 + 1 + q) + length s mod 64"
      unfolding msg using len_p by (simp add: q_def full_len_def)
    then have md: "length (msg @ b) mod 64 = length s mod 64" "full_len (msg @ b) = 64 * (length msg div 64 + 1 + q)"
      by (simp_all only: full_len_def mod_mult_self4 mod_mod_trivial div_mult_self4 mod_div_trivial add_0_right)
    have lf: "length ?F = 64 * (length msg div 64)" by (simp add: full_len_def)
    have tk: "take (64 * (length msg div 64 + 1 + q)) (msg @ b) = ?F @ p @ take (64 * q) s"
      unfolding msg using lf len_p by (simp add: full_len_def min_def)
    have dr: "drop (64 * (length msg div 64 + 1 + q)) (msg @ b) = drop (64 * q) s"
      unfolding msg using lf len_p by (simp add: full_len_def min_def)
    have "m_h c' = hash_blocks (take (full_len (msg @ b)) (msg @ b)) sha_h0"
      unfolding md(2) tk hash_blocks_append[OF lf] using r len_p
      by (simp add: c'_def sha_rep_def hash_blocks_append[of p 1])
    moreover have "m_tot_len c' = of_nat (full_len (msg @ b))"
      unfolding md(2) using r
      by (simp add: c'_def sha_rep_def full_len_def[of msg] push_bit_eq_mult algebra_simps)
    ultimately show ?thesis
      using len_p ml(2) rest unfolding sha_rep_def md dr by (simp add: c'_def)
  qed
  ultimately show ?thesis by blast
qed

lemma update_rep:
  assumes "sha_rep c msg" "length b + 64 \<le> 2 ^ 32"
  shows "\<exists>c'. sha256_update b (of_nat (length b)) c = Inr c' \<and> sha_rep c' (msg @ b)"
  using update_short[OF assms(1), of b] update_long[OF assms(1) _ assms(2)] by (meson not_le)

section \<open>The digest\<close>

lemma pad_zeros_cases:
  "n mod 64 \<le> 55 \<Longrightarrow> pad_zeros n = 55 - n mod 64" "55 < n mod 64 \<Longrightarrow> pad_zeros n = 119 - n mod 64"
proof -
  show "pad_zeros n = 119 - n mod 64" if "55 < n mod 64"
    unfolding pad_zeros_def using that by (intro mod_less) linarith
  show "pad_zeros n = 55 - n mod 64" if "n mod 64 \<le> 55"
  proof -
    have e: "119 - n mod 64 = (55 - n mod 64) + 64" using that by linarith
    show ?thesis unfolding pad_zeros_def e mod_add_self2 by (intro mod_less) linarith
  qed
qed

lemma length_UNPACK32 [simp]: "length (UNPACK32 x) = 4"
  by (simp add: UNPACK32_def)

lemma final_rep:
  assumes r: "sha_rep c msg"
  shows "\<exists>c'. sha256_final c = Inr (concat (map UNPACK32 (hash_blocks (pad32 msg) sha_h0)), c')"
proof -
  define k where "k = length msg mod 64"
  define z where "z = pad_zeros (length msg)"
  define m where "m = (if 55 < k then 2 else 1 :: nat)"
  define L where "L = UNPACK32 (of_nat (8 * length msg))"
  have k: "k < 64" "k + 1 + (z + 4) + 4 = 64 * m" "m \<le> 2" "1 \<le> m"
    using pad_zeros_cases[of "length msg"] by (auto simp: k_def z_def m_def)
  have ml: "m_len c = of_nat k" "length (m_block c) = 128" "take k (m_block c) = drop (full_len msg) msg"
    using r by (simp_all add: sha_rep_def k_def)
  have u: "unat (m_len c) = k" "unat (of_nat m :: uint32) = m" "unat (of_nat (64 * m) :: uint32) = 64 * m"
    "unat (of_nat (64 * m - k) :: uint32) = 64 * m - k" "unat (push_bit 6 (of_nat m) :: uint32) = 64 * m"
  proof -
    show "unat (m_len c) = k" unfolding ml(1) using k(1) by (intro unat32) simp
    show "unat (of_nat m :: uint32) = m" using k(3) by (intro unat32) simp
    show "unat (of_nat (64 * m - k) :: uint32) = 64 * m - k" using k(3) by (intro unat32) simp
    show "unat (of_nat (64 * m) :: uint32) = 64 * m" using k(3) by (intro unat32) simp
    then show "unat (push_bit 6 (of_nat m) :: uint32) = 64 * m" by (simp add: push_bit_eq_mult mult.commute)
  qed
  have nb: "(1 :: uint32) + (if 64 - 9 < m_len c mod 64 then 1 else 0) = of_nat m"
    using k(1) by (simp add: ml mod32 word_less_nat_alt unat32 m_def)
  have pm: "push_bit 6 (of_nat m) - m_len c = (of_nat (64 * m - k) :: uint32)"
    using k by (simp add: ml push_bit_eq_mult of_nat_diff)
  have len: "push_bit 3 (m_tot_len c + m_len c) = of_nat (8 * length msg)"
  proof -
    have "m_tot_len c + m_len c = of_nat (full_len msg + length msg mod 64)" using r ml(1) by (simp add: sha_rep_def k_def)
    then show ?thesis using len_split(1)[of msg] by (simp add: push_bit_eq_mult)
  qed
  define p where "p = drop (full_len msg) msg"
  have lp: "length p = k" by (simp add: p_def full_len_def k_def minus_mult_div_eq_mod)
  have c1: "memcpy (m_block c) k (replicate (64 * m - k) 0) (64 * m - k)
    = Inr (p @ replicate (64 * m - k) 0 @ drop (64 * m) (m_block c))"
    using k ml(2,3) by (subst memcpy_ok) (auto simp: p_def)
  have zs: "replicate (64 * m - k) (0 :: byte) = 0 # replicate (z + 4) 0 @ replicate 4 0"
  proof -
    have "64 * m - k = Suc ((z + 4) + 4)" using k(2) by linarith
    then show ?thesis by (simp only: replicate.simps replicate_add)
  qed
  have c2: "memcpy (p @ replicate (64 * m - k) 0 @ drop (64 * m) (m_block c)) k [0x80] 1
    = Inr (p @ [0x80] @ replicate (z + 4) 0 @ replicate 4 0 @ drop (64 * m) (m_block c))"
    unfolding zs using lp by (subst memcpy_ok) simp_all
  have c3: "memcpy (p @ [0x80] @ replicate (z + 4) 0 @ replicate 4 0 @ drop (64 * m) (m_block c)) (64 * m - 4) L 4
    = Inr (p @ [0x80] @ replicate (z + 4) 0 @ L @ drop (64 * m) (m_block c))"
  proof -
    have e: "64 * m - 4 = length (p @ [0x80] @ replicate (z + 4) 0)" using k(2) lp by simp
    have "memcpy (a @ x @ y) (length a) L 4 = Inr (a @ L @ y)" if "length x = 4" for a x y
      using that by (subst memcpy_ok) (simp_all add: L_def)
    from this[of "replicate 4 0" "p @ [0x80] @ replicate (z + 4) 0"] show ?thesis unfolding e by simp
  qed
  define B where "B = p @ [0x80] @ replicate (z + 4) 0 @ L"
  have lB: "length B = 64 * m" using k(2) lp by (simp add: B_def L_def)
  have t: "transform (p @ [0x80] @ replicate (z + 4) 0 @ L @ drop (64 * m) (m_block c)) m h = Inr (hash_blocks B h)" for h
  proof -
    have e: "p @ [0x80] @ replicate (z + 4) 0 @ L @ drop (64 * m) (m_block c) = B @ drop (64 * m) (m_block c)" by (simp add: B_def)
    show ?thesis unfolding e using lB transform_blocks[of m "B @ drop (64 * m) (m_block c)"] by simp
  qed
  have "pad32 msg = take (full_len msg) msg @ B" by (simp add: pad32_def B_def p_def L_def z_def)
  moreover have "length (take (full_len msg) msg) = 64 * (length msg div 64)" by (simp add: full_len_def)
  ultimately have hb: "hash_blocks (pad32 msg) sha_h0 = hash_blocks B (m_h c)"
    using hash_blocks_append r by (simp add: sha_rep_def)
  show ?thesis
    unfolding sha256_final_def Let_def nb pm u len c1 c2 L_def[symmetric] c3 t rbind.simps hb by blast
qed

lemma be64_small:
  assumes "n < 2 ^ 32"
  shows "be64 n = replicate 4 0 @ UNPACK32 (of_nat n)"
proof -
  have u: "unat (of_nat n :: uint32) = n" by (rule unat32[OF assms])
  have d: "(ucast (drop_bit i (of_nat n :: uint32)) :: byte) = of_nat (n div 2 ^ i)" for i
  proof -
    have "(ucast w :: byte) = of_nat (unat w)" for w :: uint32 by (rule of_nat_unat[symmetric])
    then show ?thesis by (simp only: unat_drop_bit_eq u) (simp only: drop_bit_eq_div)
  qed
  have z: "n div 256 ^ 7 = 0" "n div 256 ^ 6 = 0" "n div 256 ^ 5 = 0" "n div 256 ^ 4 = 0"
    using assms by simp_all
  have "[0..<8] = [0, 1, 2, 3, 4, 5, 6, 7 :: nat]" by (simp add: upt_conv_Cons)
  moreover have "replicate 4 (0 :: byte) = [0, 0, 0, 0]" by (simp add: numeral_eq_Suc)
  ultimately show ?thesis using d[of 24] d[of 16] d[of 8] d[of 0]
    using z by (simp add: be64_def UNPACK32_def)
qed


lemma bit_byte: "bit (b :: byte) n \<Longrightarrow> n < 8" and bit_u32: "bit (w :: uint32) n \<Longrightarrow> n < 32"
  using bit_imp_le_length by force+

lemma pack_unpack: "PACK32 (UNPACK32 x) = x"
proof (rule bit_word_eqI)
  fix n :: nat assume "n < LENGTH(32)"
  then consider "n < 8" | "8 \<le> n" "n < 16" | "16 \<le> n" "n < 24" | "24 \<le> n" "n < 32" by fastforce
  then show "bit (PACK32 (UNPACK32 x)) n \<longleftrightarrow> bit x n"
    by cases (auto simp: PACK32_def UNPACK32_def bit_simps)
qed

lemma unpack_pack: "UNPACK32 (PACK32 [a, b, c, d]) = [a, b, c, d]"
proof -
  have "ucast (drop_bit 24 (PACK32 [a, b, c, d])) = a" "ucast (drop_bit 16 (PACK32 [a, b, c, d])) = b"
    "ucast (drop_bit 8 (PACK32 [a, b, c, d])) = c" "ucast (PACK32 [a, b, c, d]) = d"
    by (rule bit_word_eqI; auto simp: PACK32_def bit_simps dest: bit_byte)+
  then show ?thesis by (simp add: UNPACK32_def)
qed


lemma pad32_pad64: "length msg < 2 ^ 29 \<Longrightarrow> pad32 msg = pad64 msg"
  using be64_small[of "8 * length msg"] by (simp add: pad32_def pad64_def replicate_add)

lemma be64_large:
  assumes "2 ^ 32 \<le> n" "n < 2 ^ 64"
  shows "be64 n \<noteq> replicate 4 0 @ b"
proof
  assume e: "be64 n = replicate 4 0 @ b"
  have z: "of_nat (n div 256 ^ (7 - i)) = (0 :: byte)" if "i < 4" for i
  proof -
    have "be64 n ! i = 0" unfolding e using that by (simp add: nth_append)
    then show ?thesis using that by (simp add: be64_def)
  qed
  have "256 dvd n div 256 ^ (7 - i)" if "i < 4" for i
    using z[OF that] by (simp add: word_of_nat_eq_0_iff)
  from this[of 0] this[of 1] this[of 2] this[of 3]
  have d: "256 dvd n div 256 ^ 7" "256 dvd n div 256 ^ 6" "256 dvd n div 256 ^ 5" "256 dvd n div 256 ^ 4" by simp_all
  have step: "n div 256 ^ k = 0" if "256 dvd n div 256 ^ k" "n div 256 ^ Suc k = 0" for k
  proof -
    have "n div 256 ^ k = 256 * (n div 256 ^ k div 256)" using that(1) by simp
    also have "n div 256 ^ k div 256 = n div 256 ^ Suc k" by (simp only: power_Suc2 div_mult2_eq)
    finally show ?thesis using that(2) by simp
  qed
  have "n div 256 ^ Suc 7 = 0" using assms(2) by simp
  then have "n div 256 ^ 7 = 0" using step d(1) by blast
  then have "n div 256 ^ 6 = 0" using step[of 6] d(2) by simp
  then have "n div 256 ^ 5 = 0" using step[of 5] d(3) by simp
  then have "n div 256 ^ 4 = 0" using step[of 4] d(4) by simp
  then show False using assms(1) by (simp add: div_eq_0_iff)
qed


section \<open>The code and the standard\<close>

text \<open>The bits of a text of bytes, in the order of the standard.\<close>

definition bits_of_bytes :: "byte list \<Rightarrow> bool list" where
  "bits_of_bytes bs = concat (map bits_of_word bs)"

lemma bits_of_bytes_simps [simp]:
  "bits_of_bytes [] = []" "bits_of_bytes (b # bs) = bits_of_word b @ bits_of_bytes bs"
  "bits_of_bytes (bs @ cs) = bits_of_bytes bs @ bits_of_bytes cs"
  by (simp_all add: bits_of_bytes_def)

lemma length_bits_of_word [simp]: "length (bits_of_word (w :: 'a::len word)) = LENGTH('a)"
  by (simp add: bits_of_word_def)

lemma length_bits_of_bytes [simp]: "length (bits_of_bytes bs) = 8 * length bs"
  by (induction bs) simp_all

lemma drop_bits_of_bytes: "drop (8 * n) (bits_of_bytes bs) = bits_of_bytes (drop n bs)"
proof (induction n arbitrary: bs)
  case (Suc n)
  have "drop (8 * Suc n) xs = drop (8 * n) (drop 8 xs)" for xs :: "bool list" by (simp add: add.commute)
  then show ?case using Suc by (cases bs) simp_all
qed simp

lemma take_bits_of_bytes: "take (8 * n) (bits_of_bytes bs) = bits_of_bytes (take n bs)"
proof (induction n arbitrary: bs)
  case (Suc n)
  have "take (8 * Suc n) xs = take 8 xs @ take (8 * n) (drop 8 xs)" for xs :: "bool list"
    using take_add[of 8 "8 * n" xs] by simp
  then show ?case using Suc by (cases bs) simp_all
qed simp

lemma word_of_bits_of_word: "word_of_bits (bits_of_word w) = w"
  by (rule bit_word_eqI) (simp add: word_of_bits_def bits_of_word_def bit_horner_sum_bit_word_iff rev_map)

lemma bits_of_UNPACK32: "bits_of_bytes (UNPACK32 w) = bits_of_word w"
proof -
  have "[0..<8] = [0, 1, 2, 3, 4, 5, 6, 7 :: nat]" by (simp add: upt_conv_Cons)
  moreover have "[0..<32] = [0, 1, 2, 3, 4, 5, 6, 7, 8, 9, 10, 11, 12, 13, 14, 15, 16, 17, 18, 19, 20, 21, 22, 23, 24, 25, 26, 27, 28, 29,
    30, 31 :: nat]" by (simp add: upt_conv_Cons)
  ultimately show ?thesis by (simp add: UNPACK32_def bits_of_word_def bit_simps)
qed

lemma PACK32_bits:
  assumes "length s = 4"
  shows "PACK32 s = word_of_bits (bits_of_bytes s)"
proof -
  obtain a b c d where "s = [a, b, c, d]" using assms by (auto simp: numeral_eq_Suc length_Suc_conv)
  then show ?thesis using bits_of_UNPACK32[of "PACK32 s"] by (simp only: unpack_pack word_of_bits_of_word)
qed

lemma ROTR_rotr: "0 < n \<Longrightarrow> n < 32 \<Longrightarrow> ROTR x n = word_rotr n x"
proof (rule bit_word_eqI)
  fix i :: nat assume n: "0 < n" "n < 32" and i: "i < LENGTH(32)"
  have "(i + n) mod 32 = (if i + n < 32 then i + n else i + n - 32)" using n i by (simp add: mod_if)
  then show "bit (ROTR x n) i \<longleftrightarrow> bit (word_rotr n x) i"
    using n i by (auto simp: ROTR_def bit_simps add.commute[of i] dest: bit_u32)
qed

lemma CH_fips: "CH x y z = fips_Ch x y z"
  by (rule bit_word_eqI) (auto simp: CH_def fips_Ch_def bit_simps)

lemma MAJ_fips: "MAJ x y z = fips_Maj x y z"
  by (rule bit_word_eqI) (auto simp: MAJ_def fips_Maj_def bit_simps)

lemmas sha_functions = CH_fips MAJ_fips

lemma sha_rotations:
  "SHA256_F1 x = fips_Sigma0 x" "SHA256_F2 x = fips_Sigma1 x" "SHA256_F3 x = fips_sigma0 x" "SHA256_F4 x = fips_sigma1 x"
  by (simp_all add: SHA256_F1_def SHA256_F2_def SHA256_F3_def SHA256_F4_def fips_Sigma0_def fips_Sigma1_def fips_sigma0_def
      fips_sigma1_def ROTR_rotr SHFR_def)

lemma sha256_k_test: "list_all2 (root_test 3) small_primes (map uint sha256_k)"
  by code_simp

lemma sha256_k_fips: "t < 64 \<Longrightarrow> sha256_k ! t = fips_K t"
proof -
  assume t: "t < 64"
  have l: "length sha256_k = 64" by code_simp
  have "root_test 3 (small_primes ! t) (map uint sha256_k ! t)"
    using list_all2_nthD[OF sha256_k_test] t fips_primes by (metis length_map)
  then have "root_test 3 (int (fips_primes ! t)) (uint (sha256_k ! t))"
    using t l fips_primes by (metis nth_map)
  from root_test[OF this] show ?thesis by (simp add: fips_K_def)
qed

text \<open>The eight words of a hash value.\<close>

fun hash_words :: "variables \<Rightarrow> uint32 list" where
  "hash_words (a, b, c, d, e, f, g, h) = [a, b, c, d, e, f, g, h]"

lemma sha_h0_test: "list_all2 (root_test 2) [2, 3, 5, 7, 11, 13, 17, 19] (map uint sha_h0)"
  by code_simp

lemma sha_h0_fips: "sha_h0 = hash_words (fips_H bs 0)"
  using sha_h0_test root_test[of 2 2] root_test[of 2 3] root_test[of 2 5] root_test[of 2 7] root_test[of 2 11] root_test[of 2 13]
    root_test[of 2 17] root_test[of 2 19]
  by (auto simp: list_all2_Cons1)

section \<open>One block\<close>

lemma expand_fips:
  assumes "16 \<le> length w" "\<forall>t < length w. w ! t = fips_W M t"
  shows "length (expand k w) = length w + k \<and> (\<forall>t < length w + k. expand k w ! t = fips_W M t)"
  using assms
proof (induction k arbitrary: w)
  case (Suc k)
  define x where "x = SHA256_F4 (w ! (length w - 2)) + w ! (length w - 7) + SHA256_F3 (w ! (length w - 15)) + w ! (length w - 16)"
  have "x = fips_W M (length w)"
    using Suc.prems by (subst fips_W.simps) (simp add: x_def sha_rotations)
  then have "\<forall>t < length (w @ [x]). (w @ [x]) ! t = fips_W M t"
    using Suc.prems(2) by (simp add: nth_append less_Suc_eq)
  then have "length (expand k (w @ [x])) = length (w @ [x]) + k \<and> (\<forall>t < length (w @ [x]) + k. expand k (w @ [x]) ! t = fips_W M t)"
    using Suc.prems(1) by (intro Suc.IH) simp_all
  then show ?case by (simp add: x_def Let_def)
qed simp

lemma sha_round_fips: "sha_round (k, w) (hash_words v) = hash_words (fips_round k w v)"
  by (cases v rule: hash_words.cases) (simp add: sha_round_def Let_def sha_functions sha_rotations)

lemma sha_rounds_fips:
  assumes "length w = 64" "\<forall>t < 64. w ! t = fips_W M t" "n \<le> 64"
  shows "fold sha_round (take n (zip sha256_k w)) (hash_words v) = hash_words (fips_rounds M n v)"
  using assms(3)
proof (induction n)
  case (Suc n)
  have "length sha256_k = 64" by (simp add: sha256_k_def)
  then have "take (Suc n) (zip sha256_k w) = take n (zip sha256_k w) @ [(fips_K n, fips_W M n)]"
    using assms(1,2) Suc.prems by (simp add: take_Suc_conv_app_nth sha256_k_fips)
  then show ?case using Suc by (simp add: sha_round_fips)
qed simp

lemma hash_words_add: "map2 (+) (hash_words u) (hash_words v) = hash_words (fips_add u v)"
  by (cases u rule: hash_words.cases; cases v rule: hash_words.cases) simp

lemma compress_fips:
  assumes "\<forall>t < 16. load_block b ! t = M t"
  shows "compress b (hash_words v) = hash_words (fips_add v (fips_rounds M 64 v))"
proof -
  have l: "length (load_block b) = 16" by (simp add: load_block_def)
  then have "\<forall>t < length (load_block b). load_block b ! t = fips_W M t" using assms by (simp add: fips_W.simps)
  from expand_fips[OF _ this, of 48] l have w: "length (expand 48 (load_block b)) = 64" "\<forall>t < 64. expand 48 (load_block b) ! t = fips_W M t"
    by simp_all
  have "length (zip sha256_k (expand 48 (load_block b))) = 64" using w by (simp add: sha256_k_def)
  then show ?thesis
    using sha_rounds_fips[OF w, of 64 v] by (simp add: compress_def hash_words_add)
qed

lemma load_block_fips:
  assumes "64 * i + 64 \<le> length m" "t < 16"
  shows "load_block (take 64 (drop (64 * i) m)) ! t = fips_M (bits_of_bytes m) i t"
proof -
  have t: "take 4 (drop (4 * t) (take 64 (drop (64 * i) m))) = take 4 (drop (64 * i + 4 * t) m)"
    using assms by (simp add: drop_take add.commute)
  have "512 * i + 32 * t = 8 * (64 * i + 4 * t)" "(32 :: nat) = 8 * 4" by simp_all
  then have "fips_M (bits_of_bytes m) i t = word_of_bits (bits_of_bytes (take 4 (drop (64 * i + 4 * t) m)))"
    unfolding fips_M_def by (simp only: drop_bits_of_bytes take_bits_of_bytes)
  moreover have "length (take 4 (drop (64 * i + 4 * t) m)) = 4" using assms by simp
  ultimately show ?thesis using assms(2) by (simp only: load_block_def t[symmetric] PACK32_bits) (simp add: t PACK32_bits)
qed

lemma hash_blocks_fips:
  assumes "n \<le> length m div 64"
  shows "fold (\<lambda>i. compress (take 64 (drop (64 * i) m))) [0..<n] sha_h0 = hash_words (fips_H (bits_of_bytes m) n)"
  using assms
proof (induction n)
  case 0
  then show ?case using sha_h0_fips by simp
next
  case (Suc n)
  have "64 * n + 64 \<le> length m" using Suc.prems by linarith
  then have "compress (take 64 (drop (64 * n) m)) (hash_words v)
      = hash_words (fips_add v (fips_rounds (fips_M (bits_of_bytes m) n) 64 v))" for v
    using load_block_fips by (intro compress_fips) blast
  then show ?case using Suc by simp
qed

section \<open>Padding and text\<close>

lemma fips_zeros_bytes: "fips_zeros (8 * n) = 7 + 8 * pad_zeros n"
  unfolding fips_zeros_def
proof (rule Least_equality)
  define q r where "q = n div 64" and "r = n mod 64"
  have n: "n = 64 * q + r" "r < 64" by (simp_all add: q_def r_def)
  have e: "(n + 1 + pad_zeros n) mod 64 = 56"
  proof (cases "55 < r")
    case True
    then have "n + 1 + pad_zeros n = 56 + 64 * (q + 1)" using pad_zeros_cases(2)[of n, folded r_def] n by simp
    then show ?thesis by simp
  next
    case False
    then have "n + 1 + pad_zeros n = 56 + 64 * q" using pad_zeros_cases(1)[of n, folded r_def] n by simp
    then show ?thesis by simp
  qed
  have "8 * n + 1 + (7 + 8 * pad_zeros n) = 8 * (n + 1 + pad_zeros n)" by simp
  then show "(8 * n + 1 + (7 + 8 * pad_zeros n)) mod 512 = 448"
    using e mult_mod_right[of 8 "n + 1 + pad_zeros n" 64] by (simp only:) simp
next
  fix k assume "(8 * n + 1 + k) mod 512 = 448"
  then have k: "8 * n + 1 + k = 448 + 512 * ((8 * n + 1 + k) div 512)" using mod_mult_div_eq[of "8 * n + 1 + k" 512] by linarith
  define j where "j = (8 * n + 1 + k) div 512"
  have nk: "8 * n + 1 + k = 448 + 512 * j" using k unfolding j_def .
  define q r where "q = n div 64" and "r = n mod 64"
  have n: "n = 64 * q + r" "r < 64" by (simp_all add: q_def r_def)
  have nk': "512 * q + 8 * r + 1 + k = 448 + 512 * j" using nk n(1) by simp
  show "7 + 8 * pad_zeros n \<le> k"
  proof (cases "55 < r")
    case True
    then have "512 * q < 512 * j" using nk' by linarith
    then have "q + 1 \<le> j" by simp
    then have "512 * q + 512 \<le> 512 * j" by linarith
    then show ?thesis using nk' n(2) True by (simp add: pad_zeros_cases(2)[of n, folded r_def] diff_mult_distrib2)
  next
    case False
    have "512 * q < 512 * j + 512" using nk' by simp
    then have "q < j + 1" by simp
    then have "512 * q \<le> 512 * j" by simp
    moreover have "pad_zeros n + r = 55" using pad_zeros_cases(1)[of n, folded r_def] False by simp
    ultimately show ?thesis using nk' by linarith
  qed
qed

lemma bit_of_nat_word: "bit (of_nat n :: 'a::len word) i \<longleftrightarrow> i < LENGTH('a) \<and> bit n i"
proof -
  have "bit (of_int (int n) :: 'a word) i \<longleftrightarrow> i < LENGTH('a) \<and> bit (int n) i" by (rule bit_word_of_int_iff)
  then show ?thesis by (simp add: bit_of_nat_iff_bit)
qed

lemma bits_of_be64: "bits_of_bytes (be64 n) = bits_of_word (of_nat n :: 64 word)"
proof -
  have b: "bit (n div 256 ^ k) i \<longleftrightarrow> bit n (8 * k + i)" for k i
  proof -
    have "n div 256 ^ k = drop_bit (8 * k) n" by (simp add: drop_bit_eq_div power_mult)
    then show ?thesis by (simp add: bit_drop_bit_eq)
  qed
  have "[0..<8] = [0, 1, 2, 3, 4, 5, 6, 7 :: nat]" by (simp add: upt_conv_Cons)
  moreover have "[0..<64] = [0, 1, 2, 3, 4, 5, 6, 7, 8, 9, 10, 11, 12, 13, 14, 15, 16, 17, 18, 19, 20, 21, 22, 23, 24, 25, 26, 27, 28, 29,
    30, 31, 32, 33, 34, 35, 36, 37, 38, 39, 40, 41, 42, 43, 44, 45, 46, 47, 48, 49, 50, 51, 52, 53, 54, 55, 56, 57, 58, 59, 60, 61, 62,
    63 :: nat]" by (simp add: upt_conv_Cons)
  ultimately show ?thesis
    using b[of 0] b[of 1] b[of 2] b[of 3] b[of 4] b[of 5] b[of 6] b[of 7]
    by (simp add: be64_def bits_of_word_def bit_of_nat_word)
qed

lemma pad64_fips: "bits_of_bytes (pad64 m) = fips_padded (bits_of_bytes m)"
proof -
  have "bits_of_word (0x80 :: byte) = True # replicate 7 False" by code_simp
  moreover have "bits_of_bytes (replicate n 0) = replicate (8 * n) False" for n
  proof (induction n)
    case (Suc n)
    have "bits_of_word (0 :: byte) = replicate 8 False" by code_simp
    then show ?case using Suc by (simp add: replicate_add[symmetric])
  qed simp
  ultimately show ?thesis
    by (simp add: pad64_def fips_padded_def bits_of_be64 fips_zeros_bytes replicate_add)
qed

text \<open>The bytes of the digest: the padded message hashed block by block.\<close>

definition digest_bytes :: "byte list \<Rightarrow> byte list" where
  "digest_bytes msg = concat (map UNPACK32 (hash_blocks (pad64 msg) sha_h0))"

lemma digest_bytes_fips: "bits_of_bytes (digest_bytes m) = fips_sha256 (bits_of_bytes m)"
proof -
  have w: "bits_of_bytes (concat (map UNPACK32 ws)) = concat (map bits_of_word ws)" for ws
    by (induction ws) (simp_all add: bits_of_UNPACK32)
  have "length (fips_padded (bits_of_bytes m)) div 512 = length (pad64 m) div 64"
    by (simp add: pad64_fips[symmetric])
  then show ?thesis
    using hash_blocks_fips[of "length (pad64 m) div 64" "pad64 m"]
    by (simp add: digest_bytes_def hash_blocks_def w fips_sha256_def pad64_fips split: prod.split)
qed

lemma hex_byte_test: "list_all (\<lambda>i. hex_byte (word_of_int i) = fips_hex (bits_of_word (word_of_int i :: byte))) [0..255]"
  by code_simp

lemma hex_byte_fips: "hex_byte b = fips_hex (bits_of_word b)"
proof -
  have "uint b \<in> set [0..255]" unfolding set_upto using uint_lt2p[of b] by simp
  then show ?thesis using hex_byte_test unfolding list_all_iff by (metis word_of_int_uint)
qed

lemma hex_fips: "concat (map hex_byte bs) = fips_hex (bits_of_bytes bs)"
proof (induction bs)
  case (Cons b bs)
  obtain p q r s t u v w where "bits_of_word b = [p, q, r, s, t, u, v, w]"
    using that unfolding bits_of_word_def by (simp add: upt_conv_Cons)
  then show ?case using Cons by (simp add: hex_byte_fips)
qed simp

section \<open>Properties\<close>

lemma stream_rep:
  assumes "sha_rep c msg" "\<forall>b \<in> set bs. length b + 64 \<le> 2 ^ 32"
  shows "\<exists>c'. mfold (\<lambda>b. sha256_update b (of_nat (length b))) bs c = Inr c' \<and> sha_rep c' (msg @ concat bs)"
  using assms
proof (induction bs arbitrary: c msg)
  case (Cons b bs)
  obtain c1 where c1: "sha256_update b (of_nat (length b)) c = Inr c1" "sha_rep c1 (msg @ b)"
    using update_rep[OF Cons.prems(1), of b] Cons.prems(2) by auto
  then show ?case using Cons.IH[OF c1(2)] Cons.prems(2) by (simp del: rbind_eq_Inr_iff)
qed simp

text \<open>C26: A message of less than \<open>2 ^ 29\<close> bytes, fed to a fresh context in pieces of at most \<open>2 ^ 32 - 64\<close> bytes each, never
  leaves an array, and the bits of the digest are those that FIPS 180-4 defines for the bits of the whole message.\<close>

theorem sha256_stream_exact:
  assumes "\<forall>b \<in> set bs. length b + 64 \<le> 2 ^ 32" "length (concat bs) < 2 ^ 29"
  shows "\<exists>c c' digest. mfold (\<lambda>b. sha256_update b (of_nat (length b))) bs (sha256_init sha256_zero) = Inr c
    \<and> sha256_final c = Inr (digest, c') \<and> bits_of_bytes digest = fips_sha256 (bits_of_bytes (concat bs))"
proof -
  obtain c where c: "mfold (\<lambda>b. sha256_update b (of_nat (length b))) bs (sha256_init sha256_zero) = Inr c"
    "sha_rep c (concat bs)" using stream_rep[OF sha_rep_init assms(1)] by auto
  obtain c' where "sha256_final c = Inr (digest_bytes (concat bs), c')"
    using final_rep[OF c(2)] pad32_pad64[OF assms(2)] by (auto simp: digest_bytes_def)
  then show ?thesis using c(1) digest_bytes_fips by blast
qed

lemma sha256_stream_exact_witness:
  "\<exists>c c' digest. mfold (\<lambda>b. sha256_update b (of_nat (length b))) [[1, 2], [3]] (sha256_init sha256_zero) = Inr c
    \<and> sha256_final c = Inr (digest, c') \<and> bits_of_bytes digest = fips_sha256 (bits_of_bytes [1, 2, 3])"
  using sha256_stream_exact[of "[[1, 2], [3]]"] by simp

text \<open>C27: \<open>sha256\<close> prints the digest that FIPS 180-4 defines, in lower-case hexadecimal digits, for every text of less than
  \<open>2 ^ 29\<close> bytes.\<close>

theorem sha256_exact:
  assumes "length s < 2 ^ 29"
  shows "sha256 s = Inr (fips_hex (fips_sha256 (bits_of_bytes (map of_char s))))"
proof -
  obtain c where c: "sha256_update (map of_char s) (of_nat (length s)) (sha256_init sha256_zero) = Inr c"
    "sha_rep c (map of_char s)" using update_rep[OF sha_rep_init, of "map of_char s"] assms by auto
  obtain c' where "sha256_final c = Inr (digest_bytes (map of_char s), c')"
    using final_rep[OF c(2)] pad32_pad64[of "map of_char s"] assms by (auto simp: digest_bytes_def)
  then show ?thesis using c(1) by (simp add: sha256_def hex_fips digest_bytes_fips)
qed

lemma sha256_exact_witness: "sha256 ''ab'' = Inr (fips_hex (fips_sha256 (bits_of_bytes [97, 98])))"
  using sha256_exact[of "''ab''"] by simp

text \<open>The first test of \<open>sha256.h\<close>.\<close>

lemma sha256_grape: "sha256 ''grape'' = Inr ''0f78fcc486f5315418fbf095e71c0675ee07d318e5ac4d150050cd8e57966496''"
  by code_simp

text \<open>Packing and unpacking a word are inverse to each other.\<close>

theorem sha256_pack_roundtrip: "PACK32 (UNPACK32 x) = x \<and> UNPACK32 (PACK32 [a, b, c, d]) = [a, b, c, d]"
  by (simp add: pack_unpack unpack_pack)

text \<open>From \<open>2 ^ 29\<close> bytes on the length in bits does not fit its 32-bit variable: the text that is hashed is not the
  padded message of the standard.\<close>

theorem sha256_length_field_short:
  assumes "sha_rep c msg" "2 ^ 29 \<le> length msg" "length msg < 2 ^ 61"
  shows "\<exists>c'. sha256_final c = Inr (concat (map UNPACK32 (hash_blocks (pad32 msg) sha_h0)), c') \<and> pad32 msg \<noteq> pad64 msg"
proof -
  have "be64 (8 * length msg) \<noteq> replicate 4 0 @ UNPACK32 (of_nat (8 * length msg))"
    using assms(2,3) by (intro be64_large) simp_all
  then have "pad32 msg \<noteq> pad64 msg"
    unfolding pad32_def pad64_def replicate_add append_assoc same_append_eq by (rule not_sym)
  then show ?thesis using final_rep[OF assms(1)] by blast
qed

end
