(* ===== verification/Spec2Isabelle.thy ===== *)
theory Spec2Isabelle
  imports NutshellQueue Pool OpenQueue Atomics StateMachine Trees Utils FirstPrimes FirstDecimal Lifetimes TwinPrimes Sha256
begin

text \<open>
  Verification of the C++ library \<open>uniq\<close> (\<open>cpp/lib\<close>): its queues and the threads around them, its
  arbitrary-precision numbers, its hash function and its small containers.

  \<^bold>\<open>Parts and how they interact.\<close> The concurrent half is a lock-free queue, \<open>uniq::Queue\<close>, and its users:
  \<open>ThreadPool\<close> and \<open>Worker\<close> are queues of functions with threads that run them. \<open>nutshell/queue.h\<close> is its
  minimal form and \<open>OpenQueue\<close> its counterpart with a mutex and a condition variable; \<open>Atomic\<close> wraps the
  compiler's atomic accesses, \<open>Counter\<close> and \<open>Id\<close> count with it. The number library \<open>cpp/lib/bign\<close> is a
  stack: \<open>BigDigit\<close> is one 64-bit digit with arithmetic that reports overflow; \<open>BigNumberNaive\<close> and
  \<open>BigNumberKaratsuba\<close> compute on vectors of digits, least significant first, behind the interface
  \<open>IBigNumber\<close>; \<open>BigNumberCore\<close> owns a vector and a variant of the two and delegates;
  \<open>BigCardinal\<close> adds text, operators and number theory, \<open>BigInteger\<close> a sign, \<open>BigDecimal\<close> a decimal point,
  \<open>BigNumber\<close> is a variant of the three with promotion, \<open>BigPrime\<close> tests primality over it. The
  earlier classes \<open>Number\<close>, \<open>BigCardinal\<close>, \<open>BigInteger\<close> and \<open>BigDecimal\<close> and the primality tests over them are in
  \<open>cpp/lib\<close> itself; they keep their digits in themselves, without a choice of implementation.

  \<^bold>\<open>Theories.\<close>
  \<^item> \<open>Prelude\<close>: the error monad \<open>rbind\<close> on \<open>error + 'a\<close>, folds \<open>mfold\<close> that may throw, computations
    \<open>obind\<close> on \<open>('e + 'a) option\<close> that may also not return, the value \<open>lval\<close> of a digit list.
  \<^item> \<open>Ring\<close>: slot numbers \<open>i & mask\<close> as a locale and its interpretation for powers of two.
  \<^item> \<open>UniqQueue\<close>, \<open>NutshellQueue\<close>: \<open>cpp/lib/queue.h\<close> and \<open>nutshell/queue.h\<close>. A call is a program counter
    (\<open>pc\<close>, \<open>npc\<close>), one shared access or compare-exchange per step; a state has the queue, the calls of
    all threads and a history of completed transfers, and steps interleave freely.
  \<^item> \<open>Pool\<close>: \<open>pool.h\<close> and \<open>Worker.h\<close>, over the steps of \<open>UniqQueue\<close>: each thread has three layers, the
    worker's loop (\<open>work\<close>), a call of \<open>run\<close> (\<open>call\<close>) and the call of the queue (\<open>pc\<close>).
  \<^item> \<open>OpenQueue\<close>: \<open>OpenQueue.h\<close>, with the mutex as its holder and the condition variable as its sleepers.
  \<^item> \<open>Atomics\<close>: \<open>Atomic.h\<close> as steps of threads, \<open>Counter.h\<close> and \<open>Id.h\<close> on top.
  \<^item> \<open>StateMachine\<close>, \<open>Trees\<close>, \<open>Utils\<close>: \<open>State.h\<close>; \<open>Node.h\<close> and the walks of \<open>Tree.h\<close> on a heap of nodes;
    the string helpers of \<open>utils.h\<close>, \<open>Color.h\<close>, \<open>Named.h\<close>.
  \<^item> \<open>BigDigits\<close>: \<open>BigDigit.h\<close> and \<open>rehash\<close> of \<open>numtypes.h\<close>. A digit is a \<open>64 word\<close>; \<open>bd_add\<close>,
    \<open>bd_mul\<close> and so on return the pair of value and overflow, the operators \<open>bd_plus\<close>, \<dots> throw through \<open>flow\<close>.
  \<^item> \<open>Naive\<close>: \<open>BigNumberNaive.cpp\<close>, one definition per operation (\<open>naive_add\<close> is \<open>add\<close>, and so on) and one
    per loop body (\<open>mul_inner\<close>, \<open>find_trial\<close>, \<open>shr_step\<close>).
  \<^item> \<open>Karatsuba\<close>: \<open>BigNumberKaratsuba.cpp\<close>; \<open>digit_sum\<close> and \<open>convolution\<close> say when its subtractions do not borrow.
  \<^item> \<open>NumberCore\<close>: \<open>IBigNumber\<close> as the locale \<open>big_number\<close>, interpreted by both implementations, and
    the record \<open>core\<close> for \<open>BigNumberCore\<close>; \<open>impl_ptr = None\<close> is the variant left by a move.
  \<^item> \<open>Utilities\<close>: \<open>pow\<close>, \<open>gcd\<close>, \<open>lcm\<close>, \<open>sqrt\<close> and \<open>mod_pow\<close>, which the classes have with the same text,
    over a record of operators, with the laws of the operators as a locale.
  \<^item> \<open>Cardinal\<close>, \<open>Integers\<close>, \<open>Decimals\<close>, \<open>Numbers\<close>: \<open>BigCardinal.h\<close>, \<open>BigInteger.h\<close>, \<open>BigDecimal.h\<close> and
    \<open>BigNumber.h\<close> of \<open>bign\<close>. \<open>rep c v\<close> relates a \<open>BigCardinal\<close> to the natural it stands for, the
    others have such a relation to the integers and the rationals.
  \<^item> \<open>Primes\<close>: \<open>BigPrime.h\<close>, the sieve and the tests by trial division, quadratic residues and Miller-Rabin.
  \<^item> \<open>SignedNumbers\<close>: the laws of sign and magnitude as the locale \<open>signed_numbers\<close>, in which \<open>pow\<close> and \<open>gcd\<close>
    of signed numbers are proved once for the two classes \<open>BigInteger\<close>.
  \<^item> \<open>FirstCardinal\<close>, \<open>FirstInteger\<close>, \<open>FirstDecimal\<close>, \<open>FirstNumber\<close>: the classes of \<open>cpp/lib\<close>. \<open>second\<close> and
    \<open>second_dec\<close> carry a number of the first generation to the second; \<open>agree\<close> says that two computations
    give the same number or the same error, and is shown operator by operator.
  \<^item> \<open>FirstPrimes\<close>: the \<open>BigPrime.h\<close> of \<open>cpp/lib\<close>, where \<open>BigNumber\<close> is an alias of the first \<open>BigInteger\<close>; \<open>sim\<close> runs the
    two generations in lockstep.
  \<^item> \<open>Lifetimes\<close>: copies, moves, assignments and postfix operators of the number classes, on lists of objects, with the
    law of the move assignments as the locale \<open>movable\<close>, interpreted by each class.
  \<^item> \<open>Divisors\<close>, \<open>TwinPrimes\<close>: \<open>tests/prime.cc\<close> and \<open>tests/twin_prime.cc\<close>, the programs that put the pool to work: the
    searches of a divisor on \<open>u64\<close> with the roundings of \<open>sqrt\<close>, and their tasks as steps in any order, with the 64 slots of the
    queue. What \<open>EventEmitter::emit\<close>, which the repository does not have, gives to the queue is the parameter \<open>em\<close>.
  \<^item> \<open>Fips180\<close>: SHA-256 as FIPS 180-4 defines it, on strings of bits, with its constants as roots of primes and nothing from the code.
  \<^item> \<open>Sha256\<close>: \<open>sha256.h\<close>, compared with the standard function by function.

  \<^bold>\<open>What is shown.\<close> For the queues: an invariant over all interleavings from which no item is lost or
  taken twice, FIFO order at rest, and push and pop alone as append and take-first; and the runs in which
  the code breaks this (one slot; pop without waiting). For the pools: each function submitted is started
  at most once, and after a stop that \<open>run\<close> does not undo every thread returns within 15 steps. For the
  mutex queue: FIFO, the bound on its items, no lost wake-up. For \<open>Atomic\<close>: linearizability of what is
  linearizable. For the numbers: exactness of every digit operation; exactness of addition and
  schoolbook multiplication for every length, and of Karatsuba's where no digit carries (elsewhere its subtractions may borrow); soundness of
  subtraction and division where they return, with the inputs on which borrowing fails; the locale laws
  and with them that the choice of implementation changes nothing below 50 digits; termination with the
  right result for \<open>pow\<close>, \<open>gcd\<close>, \<open>lcm\<close>, \<open>sqrt\<close> and \<open>mod_pow\<close>; the operators of signed numbers,
  decimals and mixed numbers as those of integers and rationals; the two generations of each class
  give the same numbers and the same errors on the operations that are compared; the sieve and the primality
  tests, which end with the same verdict in both generations below \<open>2 ^ 32\<close>; the divisor searches and what their
  parallel forms guarantee in every order of the tasks, what they lose and where they deadlock. For \<open>sha256\<close>: the
  digest of the standard for messages of less than \<open>2 ^ 29\<close> bytes in pieces.

  \<^bold>\<open>Bounds.\<close> Loops on vectors are folds or terminating recursions, without fuel. Recursions that may not
  end are partial functions, so that returning is part of their theorems; those of \<open>Cardinal\<close>
  ask for one-digit operands of divisions (multi-digit division throws, see \<open>naive_divide_throws\<close>) and
  for products with a factor of less than 50 digits (above, Karatsuba needs the subtraction that fails).
  The bound of the sieves is at most \<open>2 ^ 31 - 1 - 46340\<close>, so that no \<open>int\<close> index overflows; beyond it they are \<open>Undefined\<close>.
  Vectors are shorter than \<open>2 ^ 31\<close>, so that sizes are not truncated to \<open>int\<close>; the ticket counters of
  \<open>uniq::Queue\<close> are \<open>int\<close>s and a step past \<open>int_max\<close> is undefined (\<open>None\<close>), those of the minimal
  queue are unbounded, which is the code for fewer than \<open>2 ^ 31\<close> items. Shared variables that are not atomic
  (\<open>_running\<close>, \<open>isfree\<close>, the size that \<open>OpenQueue\<close> reads without its mutex) are read and written in the
  order of the steps, as if they were.

  \<^bold>\<open>Not modelled.\<close> \<open>WorkerPool.h\<close>, \<open>Event.h\<close> and the children of \<open>Tree.h\<close>,
  which do not compile; the parser of \<open>Json.h\<close>, a stub. Templates without state of their own (\<open>Any\<close>,
  \<open>Lazy\<close>, \<open>call\<close>, \<open>join.h\<close>); clocks, files, the terminal, logging; the OpenGL sandbox, benchmarks, the other tests and ports
  to other languages. Memory allocation does not fail, and an object is not both operands of a compound
  assignment.
\<close>

end
